(* ===== verification/KOS_Prelude.thy ===== *)
theory KOS_Prelude
  imports Main "HOL-Library.Word" "HOL-Library.Monad_Syntax"
begin

text \<open>
  Shared vocabulary of the KOS development: the fixed-width integer types of
  \<^verbatim>\<open>include/common/types.hpp\<close>, the C loop shapes the kernel uses
  (a counted loop over an unsigned index, a loop that advances by one page), and
  the lemmas on machine words and on association of lists that the component
  theories share.

  Conventions. A kernel routine that can stop the machine (a failed
  \<^verbatim>\<open>KASSERT\<close> ends in \<^verbatim>\<open>Panic\<close>, which never returns) or that can loop
  forever has a result of type \<open>option\<close>; \<open>None\<close> is "does not return". Pointers are
  32-bit words and the null pointer is \<open>0\<close>.
\<close>

unbundle bit_operations_syntax

type_synonym u8 = "8 word"
type_synonym u16 = "16 word"
type_synonym u32 = "32 word"
type_synonym u64 = "64 word"

named_theorems unat_simps \<open>unsigned readings of word arithmetic that cannot wrap\<close>

section \<open>Word arithmetic without wrap-around\<close>

lemma unat_add_nowrap [unat_simps]:
  fixes a b :: "'a::len word"
  assumes "unat a + unat b < 2 ^ LENGTH('a)"
  shows "unat (a + b) = unat a + unat b"
  using assms by (simp add: unat_word_ariths)

lemma unat_sub_nowrap [unat_simps]:
  fixes a b :: "'a::len word"
  assumes "unat b \<le> unat a"
  shows "unat (a - b) = unat a - unat b"
  using assms by (simp add: unat_sub word_le_nat_alt)

lemma unat_mult_nowrap [unat_simps]:
  fixes a b :: "'a::len word"
  assumes "unat a * unat b < 2 ^ LENGTH('a)"
  shows "unat (a * b) = unat a * unat b"
  using assms by (simp add: unat_word_ariths)

lemma unat_Suc_less [unat_simps]:
  fixes i n :: "'a::len word"
  assumes "i < n"
  shows "unat (i + 1) = Suc (unat i)"
proof -
  have "unat i < unat n" using assms by (simp add: word_less_nat_alt)
  moreover have "unat n < 2 ^ LENGTH('a)" by simp
  ultimately have b: "Suc (unat i) < 2 ^ LENGTH('a)" by linarith
  then have "1 < (2::nat) ^ LENGTH('a)" by linarith
  with b show ?thesis by (simp add: unat_word_ariths)
qed

lemma u32_less_limit: "unat (a :: u32) < 4294967296"
  using unsigned_less [of a] by simp

lemma u64_less_limit: "unat (a :: u64) < 18446744073709551616"
  using unsigned_less [of a] by simp

lemma unat_eqI: "unat a = unat b \<Longrightarrow> a = (b :: 'a::len word)"
  by (simp add: word_unat_eq_iff)

lemma unat_ucast_u64 [simp]: "unat (ucast (f :: u32) :: u64) = unat f"
  using u32_less_limit [of f] by (simp add: unsigned_ucast_eq take_bit_eq_mod)

lemma unat_ucast_u32: "unat (ucast (f :: u64) :: u32) = unat f mod 4294967296"
  by (simp add: unsigned_ucast_eq take_bit_eq_mod)

lemma page_aligned_iff: "(a :: u32) AND 4095 = 0 \<longleftrightarrow> 4096 dvd unat a"
  using and_mask_dvd_nat [of 12 a] by (simp add: mask_eq_exp_minus_1)

lemma word_plus1_le: "f < cap \<Longrightarrow> f + 1 \<le> h \<longleftrightarrow> f < (h :: 'a::len word)"
  by (simp add: word_le_nat_alt word_less_nat_alt unat_Suc_less less_eq_Suc_le)

section \<open>Counted loops\<close>

text \<open>
  \<^verbatim>\<open>for (uint32_t i = first; i < n; ++i) body\<close>: the guard keeps \<open>i + 1\<close> from wrapping, so the
  loop always ends.
\<close>

function for_range :: "u32 \<Rightarrow> u32 \<Rightarrow> (u32 \<Rightarrow> 's \<Rightarrow> 's) \<Rightarrow> 's \<Rightarrow> 's" where
  "for_range i n body s = (if i < n then for_range (i + 1) n body (body i s) else s)"
  by pat_completeness auto
termination
  by (relation "measure (\<lambda>(i, n, _, _). unat n - unat i)")
    (auto simp: unat_Suc_less word_less_nat_alt)

declare for_range.simps [simp del]

lemma for_range_done: "\<not> i < n \<Longrightarrow> for_range i n body s = s"
  by (simp add: for_range.simps)

lemma for_range_step: "i < n \<Longrightarrow> for_range i n body s = for_range (i + 1) n body (body i s)"
  by (simp add: for_range.simps [of i])

text \<open>The loop rule: an invariant indexed by the counter, read as a natural number.\<close>

lemma for_range_rule:
  assumes "P (unat i) s" and "i \<le> n"
    and "\<And>j s. unat i \<le> unat j \<Longrightarrow> j < n \<Longrightarrow> P (unat j) s \<Longrightarrow> P (Suc (unat j)) (body j s)"
  shows "P (unat n) (for_range i n body s)"
  using assms
proof (induction i n body s rule: for_range.induct)
  case (1 i n body s)
  show ?case
  proof (cases "i < n")
    case True
    have le: "i + 1 \<le> n"
      using True by (simp add: word_le_nat_alt word_less_nat_alt unat_Suc_less)
    have "P (unat (i + 1)) (body i s)"
      using "1.prems" True by (simp add: unat_Suc_less)
    moreover have "\<And>j s. unat (i + 1) \<le> unat j \<Longrightarrow> j < n \<Longrightarrow> P (unat j) s \<Longrightarrow> P (Suc (unat j)) (body j s)"
      using "1.prems"(3) True by (simp add: unat_Suc_less)
    ultimately have "P (unat n) (for_range (i + 1) n body (body i s))"
      using "1.IH" True le by blast
    then show ?thesis using True by (simp add: for_range_step)
  next
    case False
    then have "i = n" using "1.prems"(2) by simp
    with "1.prems"(1) False show ?thesis by (simp add: for_range_done)
  qed
qed

text \<open>A counted loop that starts past its bound does nothing.\<close>

lemma for_range_rule_any:
  assumes "P s" and "\<And>j s. j < n \<Longrightarrow> P s \<Longrightarrow> P (body j s)"
  shows "P (for_range i n body s)"
proof (cases "i \<le> n")
  case True
  with assms show ?thesis
    using for_range_rule [where P = "\<lambda>_. P" and i = i and n = n and s = s and body = body] by blast
next
  case False
  with assms(1) show ?thesis by (simp add: for_range_done)
qed

section \<open>Page-stride loops\<close>

text \<open>
  \<^verbatim>\<open>off = 0; while (off < sz) { body(off); off += PAGE_SIZE; }\<close> with a 32-bit \<open>off\<close>: the addition
  wraps when \<open>sz\<close> lies in the last page, and then the loop never ends. The body may itself
  not return.
\<close>

partial_function (option) page_loop ::
  "(u32 \<Rightarrow> 's \<Rightarrow> 's option) \<Rightarrow> u32 \<Rightarrow> u32 \<Rightarrow> 's \<Rightarrow> 's option" where
  "page_loop body off sz s =
     (if off < sz then body off s \<bind> page_loop body (off + 4096) sz else Some s)"

lemma page_loop_done: "\<not> off < sz \<Longrightarrow> page_loop body off sz s = Some s"
  by (simp add: page_loop.simps [of body off])

lemma page_loop_step:
  "off < sz \<Longrightarrow> page_loop body off sz s = body off s \<bind> page_loop body (off + 4096) sz"
  by (simp add: page_loop.simps [of body off])

text \<open>
  Total correctness of the stride loop for sizes below the last page: it returns, and an
  invariant kept by the body holds for the result.
\<close>

lemma page_loop_rule:
  assumes "P (unat off) s" and "unat sz \<le> 4294963200" and "4096 dvd unat off"
    and body: "\<And>j s. j < sz \<Longrightarrow> 4096 dvd unat j \<Longrightarrow> P (unat j) s \<Longrightarrow>
                 \<exists>s'. body j s = Some s' \<and> P (unat j + 4096) s'"
  shows "\<exists>s' k. page_loop body off sz s = Some s' \<and> P k s' \<and> unat sz \<le> k \<and> 4096 dvd k"
  using assms(1,3)
proof (induction "unat sz - unat off" arbitrary: off s rule: less_induct)
  case less
  show ?case
  proof (cases "off < sz")
    case False
    with less.prems show ?thesis
      by (intro exI [of _ s] exI [of _ "unat off"]) (auto simp: page_loop_done word_less_nat_alt)
  next
    case True
    obtain s' where s': "body off s = Some s'" "P (unat off + 4096) s'"
      using body [OF True less.prems(2,1)] by blast
    have lt: "unat off < unat sz" using True by (simp add: word_less_nat_alt)
    then have o: "unat (off + 4096) = unat off + 4096"
      using assms(2) by (simp add: unat_add_nowrap)
    have d: "4096 dvd unat (off + 4096)" using less.prems(2) by (simp add: o)
    have dec: "unat sz - unat (off + 4096) < unat sz - unat off" using lt o by simp
    have "\<exists>s'' k. page_loop body (off + 4096) sz s' = Some s'' \<and> P k s'' \<and> unat sz \<le> k \<and> 4096 dvd k"
      by (rule less.hyps [OF dec]) (simp_all add: o s'(2) less.prems(2))
    then show ?thesis using True s'(1) by (simp add: page_loop_step)
  qed
qed

text \<open>A size in the last page is never reached by the offset, which wraps to 0: no result.\<close>

lemma page_loop_diverges:
  assumes "4294963200 < unat sz" "4096 dvd unat off"
  shows "page_loop body off sz s = None"
proof (rule ccontr)
  assume "page_loop body off sz s \<noteq> None"
  then obtain r where "page_loop body off sz s = Some r" by blast
  then have "4096 dvd unat off \<longrightarrow> 4294963200 < unat sz \<longrightarrow> False"
  proof (rule page_loop.raw_induct
      [where P = "\<lambda>_ off sz _ _. 4096 dvd unat off \<longrightarrow> 4294963200 < unat sz \<longrightarrow> False", rotated])
    fix loop and body :: "u32 \<Rightarrow> 'a \<Rightarrow> 'a option" and off sz s r
    assume IH: "\<And>body off sz s r. loop body off sz s = Some r \<Longrightarrow>
        4096 dvd unat off \<longrightarrow> 4294963200 < unat sz \<longrightarrow> False"
      and eq: "(if off < sz then body off s \<bind> loop body (off + 4096) sz else Some s) = Some r"
    have "unat off \<le> 4294963200" if "4096 dvd unat off"
      using u32_less_limit [of off] that by (auto elim!: dvdE)
    moreover have "4096 dvd unat (off + 4096)" if "4096 dvd unat off"
      using that by (simp add: unat_word_ariths dvd_mod)
    ultimately show "4096 dvd unat off \<longrightarrow> 4294963200 < unat sz \<longrightarrow> False"
      using IH eq by (auto simp: word_less_nat_alt split: if_splits bind_splits)
  qed
  with assms show False by blast
qed

section \<open>Searching loops\<close>

text \<open>\<^verbatim>\<open>for (i = first; i < n; ++i) if (P(i)) return i;\<close> with \<open>None\<close> when no index is found.\<close>

function find_index :: "u32 \<Rightarrow> u32 \<Rightarrow> (u32 \<Rightarrow> bool) \<Rightarrow> u32 option" where
  "find_index i n P = (if i < n then if P i then Some i else find_index (i + 1) n P else None)"
  by pat_completeness auto
termination
  by (relation "measure (\<lambda>(i, n, _). unat n - unat i)") (auto simp: unat_Suc_less word_less_nat_alt)

declare find_index.simps [simp del]

lemma word_le_iff_eq_or: "i < n \<Longrightarrow> i \<le> j \<longleftrightarrow> j = i \<or> i + 1 \<le> (j :: 'a::len word)"
  by (metis order.order_iff_strict word_plus1_le)

lemma find_index_None: "find_index i n P = None \<longleftrightarrow> (\<forall>j. i \<le> j \<and> j < n \<longrightarrow> \<not> P j)"
proof (induction i n P rule: find_index.induct)
  case (1 i n P)
  note word_le_iff_eq_or [of i n]
  with 1 show ?case
    by (subst find_index.simps) (auto simp: linorder_not_less dest: order.strict_trans1)
qed

lemma find_index_Some:
  "find_index i n P = Some k \<longleftrightarrow> i \<le> k \<and> k < n \<and> P k \<and> (\<forall>j. i \<le> j \<and> j < k \<longrightarrow> \<not> P j)"
proof (induction i n P rule: find_index.induct)
  case (1 i n P)
  note * = word_le_iff_eq_or [of i n]
  show ?case
  proof (cases "i < n")
    case True
    show ?thesis
    proof (cases "P i")
      case P: True
      with True show ?thesis by (subst find_index.simps) (auto simp: linorder_not_less le_less)
    next
      case False
      with 1 True show ?thesis by (subst find_index.simps) (auto simp: * [OF True])
    qed
  qed (subst find_index.simps, auto dest: order.strict_trans1)
qed

section \<open>Arrays as lists\<close>

lemma unat_of_index: "i < unat (n :: u32) \<Longrightarrow> unat (of_nat i :: u32) = i"
  by (metis le_unat_uoi less_or_eq_imp_le)

lemma of_index_less: "i < unat (n :: u32) \<Longrightarrow> of_nat i < n"
  by (simp add: word_less_nat_alt unat_of_index)

lemma ex_index: "(\<exists>j < n. P j) \<longleftrightarrow> (\<exists>i < unat (n :: u32). P (of_nat i))"
proof
  assume "\<exists>j < n. P j"
  then obtain j where "j < n" "P j" by blast
  then show "\<exists>i < unat n. P (of_nat i)" by (intro exI [of _ "unat j"]) (simp add: word_less_nat_alt)
next
  assume "\<exists>i < unat n. P (of_nat i)"
  then obtain i where "i < unat n" "P (of_nat i)" by blast
  moreover from this have "(of_nat i :: u32) < n" by (simp add: of_index_less)
  ultimately show "\<exists>j < n. P j" by blast
qed

lemma filter_key:
  assumes "distinct (map fst (xs @ (k, v) # ys))"
  shows "filter (\<lambda>e. fst e \<noteq> k) (xs @ (k, v) # ys) = xs @ ys"
proof -
  have "filter (\<lambda>e. fst e \<noteq> k) xs = xs" "filter (\<lambda>e. fst e \<noteq> k) ys = ys"
    using assms by (auto simp: filter_id_conv)
  then show ?thesis by simp
qed

end
