(* ===== verification/KOS_Bytes.thy ===== *)
theory KOS_Bytes
  imports KOS_Prelude
begin

text \<open>
  Byte-addressed memory, shared by the heap, the string library and the packet code: a function
  from 32-bit addresses to bytes, little-endian words in it, blocks of bytes written in
  order, and NUL-terminated strings read as lists.
\<close>

type_synonym mem = "u32 \<Rightarrow> u8"

section \<open>Little-endian words in byte memory\<close>

definition rd32 :: "mem \<Rightarrow> u32 \<Rightarrow> u32" where
  "rd32 m a = ucast (m a) OR push_bit 8 (ucast (m (a + 1))) OR
     push_bit 16 (ucast (m (a + 2))) OR push_bit 24 (ucast (m (a + 3)))"

definition wr32 :: "u32 \<Rightarrow> u32 \<Rightarrow> mem \<Rightarrow> mem" where
  "wr32 a v m = m(a := ucast v, a + 1 := ucast (drop_bit 8 v),
     a + 2 := ucast (drop_bit 16 v), a + 3 := ucast (drop_bit 24 v))"

section \<open>Reading back what was written\<close>

lemma bytes_word:
  "(ucast (ucast v :: u8) :: u32) OR push_bit 8 (ucast (ucast (drop_bit 8 v) :: u8)) OR
     push_bit 16 (ucast (ucast (drop_bit 16 v) :: u8)) OR push_bit 24 (ucast (ucast (drop_bit 24 v) :: u8))
   = (v :: u32)"
proof (rule bit_word_eqI)
  fix n :: nat assume "n < LENGTH(32)"
  then have n: "n < 32" by simp
  consider "n < 8" | "8 \<le> n" "n < 16" | "16 \<le> n" "n < 24" | "24 \<le> n" "n < 32" using n by linarith
  then show "bit ((ucast (ucast v :: u8) :: u32) OR push_bit 8 (ucast (ucast (drop_bit 8 v) :: u8)) OR
     push_bit 16 (ucast (ucast (drop_bit 16 v) :: u8)) OR push_bit 24 (ucast (ucast (drop_bit 24 v) :: u8))) n
     = bit v n"
    by cases (auto simp: bit_simps)
qed

lemma rd32_wr32_same [simp]: "rd32 (wr32 a v m) a = v"
proof -
  have "a + 1 \<noteq> a" "a + 2 \<noteq> a" "a + 3 \<noteq> a" by (simp_all)
  then show ?thesis by (simp add: rd32_def wr32_def bytes_word)
qed

lemma wr32_other:
  assumes "unat a + 4 \<le> 2 ^ 32" "unat x < unat a \<or> unat a + 4 \<le> unat x"
  shows "wr32 a v m x = m x"
proof -
  have "unat (a + 1) = unat a + 1" "unat (a + 2) = unat a + 2" "unat (a + 3) = unat a + 3"
    using assms(1) by (simp_all add: unat_add_nowrap)
  then show ?thesis using assms(2) by (auto simp: wr32_def word_unat_eq_iff)
qed

definition agree :: "mem \<Rightarrow> mem \<Rightarrow> nat \<Rightarrow> nat \<Rightarrow> bool" where
  "agree m m' lo hi \<longleftrightarrow> (\<forall>x. lo \<le> unat x \<and> unat x < hi \<longrightarrow> m x = m' x)"

lemma agree_refl [simp]: "agree m m lo hi"
  by (simp add: agree_def)

lemma agree_trans: "agree m m' lo hi \<Longrightarrow> agree m' m'' lo hi \<Longrightarrow> agree m m'' lo hi"
  by (simp add: agree_def)

lemma agree_sub: "agree m m' lo hi \<Longrightarrow> lo \<le> lo' \<Longrightarrow> hi' \<le> hi \<Longrightarrow> agree m m' lo' hi'"
  by (auto simp: agree_def)

lemma agree_wr32:
  assumes "agree m m' lo hi" "unat a + 4 \<le> 2 ^ 32" "unat a + 4 \<le> lo \<or> hi \<le> unat a"
  shows "agree m (wr32 a v m') lo hi"
  using assms by (auto simp: agree_def wr32_other)

lemma rd32_agree:
  assumes "agree m m' lo hi" "lo \<le> unat a" "unat a + 4 \<le> hi" "hi \<le> 2 ^ 32"
  shows "rd32 m' a = rd32 m a"
proof -
  have "unat (a + 1) = unat a + 1" "unat (a + 2) = unat a + 2" "unat (a + 3) = unat a + 3"
    using assms(3,4) by (simp_all add: unat_add_nowrap)
  then show ?thesis using assms by (simp add: rd32_def agree_def)
qed

lemma rd32_wr32_other:
  assumes "unat a + 4 \<le> 2 ^ 32" "unat b + 4 \<le> 2 ^ 32" "unat a + 4 \<le> unat b \<or> unat b + 4 \<le> unat a"
  shows "rd32 (wr32 a v m) b = rd32 m b"
  by (rule rd32_agree [OF agree_wr32 [OF agree_refl]]) (use assms in auto)

section \<open>Runs of bytes\<close>

fun put_bytes :: "mem \<Rightarrow> u32 \<Rightarrow> u8 list \<Rightarrow> mem" where
  "put_bytes m a [] = m"
| "put_bytes m a (b # bs) = put_bytes (m(a := b)) (a + 1) bs"

text \<open>The \<open>n\<close> addresses from \<open>a\<close> on.\<close>

definition span :: "u32 \<Rightarrow> nat \<Rightarrow> u32 set" where
  "span a n = {a + of_nat i | i. i < n}"

definition get_bytes :: "mem \<Rightarrow> u32 \<Rightarrow> nat \<Rightarrow> u8 list" where
  "get_bytes m a n = map (\<lambda>i. m (a + of_nat i)) [0..<n]"

lemma u32_of_nat_eq: "i < 2 ^ 32 \<Longrightarrow> j < 2 ^ 32 \<Longrightarrow> (of_nat i :: u32) = of_nat j \<longleftrightarrow> i = j"
  by (simp add: word_unat_eq_iff unsigned_of_nat take_bit_nat_eq_self)

lemma span_Suc: "span a (Suc n) = insert a (span (a + 1) n)"
proof -
  have "span a (Suc n) = (\<lambda>i. a + of_nat i) ` {..<Suc n}" by (auto simp: span_def)
  also have "{..<Suc n} = insert 0 (Suc ` {..<n})" by (auto simp: less_Suc_eq_0_disj)
  also have "(\<lambda>i. a + of_nat i) ` insert 0 (Suc ` {..<n}) = insert a (span (a + 1) n)"
    by (auto simp: span_def add.assoc image_image)
  finally show ?thesis .
qed

lemma span_0 [simp]: "span a 0 = {}"
  by (simp add: span_def)

lemma span_mem [intro]: "i < n \<Longrightarrow> a + of_nat i \<in> span a n"
  by (auto simp: span_def)

lemma span_first [simp]: "a \<in> span a (Suc n)"
  by (simp add: span_Suc)

lemma span_not_first: "n < 2 ^ 32 \<Longrightarrow> a \<notin> span (a + 1) n"
proof
  assume n: "n < 2 ^ 32" and "a \<in> span (a + 1) n"
  then obtain i where i: "i < n" "a = a + 1 + of_nat i" by (auto simp: span_def)
  from i(2) have "a + of_nat (Suc i) = a + of_nat 0" by (simp add: add.assoc)
  then have "(of_nat (Suc i) :: u32) = of_nat 0" by simp
  with i(1) n u32_of_nat_eq [of "Suc i" 0] show False by simp
qed

lemma span_shift_sub:
  assumes "j + n \<le> k"
  shows "span (a + of_nat j) n \<subseteq> span a k"
proof
  fix x assume "x \<in> span (a + of_nat j) n"
  then obtain i where "i < n" "x = a + of_nat j + of_nat i" by (auto simp: span_def)
  then have "j + i < k" "x = a + of_nat (j + i)" using assms by (simp_all add: add.assoc)
  then show "x \<in> span a k" by (simp only: span_mem)
qed

lemma span_shift_disjoint:
  assumes "i \<le> j" "j + n \<le> 2 ^ 32"
  shows "span a i \<inter> span (a + of_nat j) n = {}"
proof (rule ccontr)
  assume "span a i \<inter> span (a + of_nat j) n \<noteq> {}"
  then obtain k l where "k < i" "l < n" "(of_nat k :: u32) = of_nat (j + l)"
    by (auto simp: span_def add.assoc)
  with assms u32_of_nat_eq [of k "j + l"] show False by simp
qed

lemma span_unat:
  assumes "unat a + n \<le> 2 ^ 32"
  shows "x \<in> span a n \<longleftrightarrow> unat a \<le> unat x \<and> unat x < unat a + n"
proof
  have off: "unat (a + of_nat i) = unat a + i" if "i < n" for i
    using that assms by (simp add: unat_add_nowrap unsigned_of_nat take_bit_nat_eq_self)
  show "unat a \<le> unat x \<and> unat x < unat a + n" if "x \<in> span a n"
    using that off by (auto simp: span_def)
  show "x \<in> span a n" if "unat a \<le> unat x \<and> unat x < unat a + n"
  proof -
    have "unat x - unat a < n" using that by auto
    moreover from off [OF this] that have "x = a + of_nat (unat x - unat a)" by (auto simp: word_unat_eq_iff)
    ultimately show ?thesis using span_mem [of "unat x - unat a" n a] by simp
  qed
qed

lemma put_bytes_other: "x \<notin> span a (length bs) \<Longrightarrow> put_bytes m a bs x = m x"
  by (induction bs arbitrary: m a) (simp_all add: span_Suc)

lemma put_bytes_at:
  "length bs \<le> 2 ^ 32 \<Longrightarrow> i < length bs \<Longrightarrow> put_bytes m a bs (a + of_nat i) = bs ! i"
proof (induction bs arbitrary: m a i)
  case (Cons b bs)
  show ?case
  proof (cases i)
    case 0
    then show ?thesis using Cons.prems span_not_first [of "length bs" a] by (simp add: put_bytes_other)
  next
    case (Suc j)
    have "put_bytes (m(a := b)) (a + 1) bs (a + 1 + of_nat j) = bs ! j"
      by (rule Cons.IH) (use Cons.prems Suc in simp_all)
    with Suc show ?thesis by (simp add: add.assoc)
  qed
qed simp

lemma put_bytes_append: "put_bytes m a (xs @ ys) = put_bytes (put_bytes m a xs) (a + of_nat (length xs)) ys"
  by (induction xs arbitrary: m a) (simp_all add: add.assoc)

lemma get_put_bytes: "length bs \<le> 2 ^ 32 \<Longrightarrow> get_bytes (put_bytes m a bs) a (length bs) = bs"
  by (auto simp: get_bytes_def put_bytes_at intro!: nth_equalityI)

section \<open>C strings\<close>

fun cstr :: "mem \<Rightarrow> u32 \<Rightarrow> u8 list \<Rightarrow> bool" where
  "cstr m a [] = (m a = 0)"
| "cstr m a (c # cs) = (m a = c \<and> c \<noteq> 0 \<and> cstr m (a + 1) cs)"

lemma cstr_cong: "(\<And>x. x \<in> span a (Suc (length cs)) \<Longrightarrow> m' x = m x) \<Longrightarrow> cstr m' a cs = cstr m a cs"
proof (induction cs arbitrary: a)
  case (Cons c cs)
  then have "m' a = m a" "cstr m' (a + 1) cs = cstr m (a + 1) cs"
    using span_Suc [of a "Suc (length cs)"] by auto
  then show ?case by simp
qed simp

lemma cstr_update: "x \<notin> span a (Suc (length cs)) \<Longrightarrow> cstr (m(x := v)) a cs = cstr m a cs"
  by (rule cstr_cong) auto

lemma cstr_put_bytes:
  assumes "length bs < 2 ^ 32" "0 \<notin> set bs"
  shows "cstr (put_bytes m a (bs @ [0])) a bs"
  using assms
proof (induction bs arbitrary: m a)
  case (Cons b bs)
  have "put_bytes (m(a := b)) (a + 1) (bs @ [0]) a = b"
    using Cons.prems span_not_first [of "Suc (length bs)" a] by (simp add: put_bytes_other)
  with Cons show ?case by simp
qed simp

lemma cstr_nth: "cstr m a cs \<Longrightarrow> i < length cs \<Longrightarrow> m (a + of_nat i) = cs ! i \<and> cs ! i \<noteq> 0"
proof (induction cs arbitrary: a i)
  case (Cons c cs)
  then show ?case using Cons.IH [of "a + 1" "i - 1"] by (cases i) (auto simp: add.assoc)
qed simp

lemma cstr_end: "cstr m a cs \<Longrightarrow> m (a + of_nat (length cs)) = 0"
proof (induction cs arbitrary: a)
  case (Cons c cs)
  then have "m (a + 1 + of_nat (length cs)) = 0" by simp
  then show ?case by (simp add: add.assoc)
qed simp

lemma cstr_drop: "cstr m a cs \<Longrightarrow> i \<le> length cs \<Longrightarrow> cstr m (a + of_nat i) (drop i cs)"
proof (induction cs arbitrary: a i)
  case (Cons c cs)
  then show ?case using Cons.IH [of "a + 1" "i - 1"] by (cases i) (auto simp: add.assoc)
qed simp

lemma cstr_no_nul: "cstr m a cs \<Longrightarrow> 0 \<notin> set cs"
  by (induction cs arbitrary: a) auto

lemma cstr_append:
  "cstr m a (xs @ ys) \<longleftrightarrow> (\<forall>i < length xs. m (a + of_nat i) = xs ! i \<and> xs ! i \<noteq> 0) \<and> cstr m (a + of_nat (length xs)) ys"
proof (induction xs arbitrary: a)
  case (Cons x xs)
  have "(\<forall>i < length (x # xs). m (a + of_nat i) = (x # xs) ! i \<and> (x # xs) ! i \<noteq> 0) \<longleftrightarrow>
      m a = x \<and> x \<noteq> 0 \<and> (\<forall>i < length xs. m (a + 1 + of_nat i) = xs ! i \<and> xs ! i \<noteq> 0)"
    by (auto simp: less_Suc_eq_0_disj add.assoc)
  then show ?case using Cons.IH [of "a + 1"] by (auto simp: add.assoc)
qed simp

end
