(* ===== verification/KOS_String.thy ===== *)
theory KOS_String
  imports KOS_Bytes "HOL-Library.Sublist"
begin

text \<open>
  The kernel's string and memory routines (\<^verbatim>\<open>src/lib/string.cpp\<close>) and their C twins for
  applications (\<^verbatim>\<open>src/lib/libc/string.c\<close>), over byte memory. A loop that looks for a NUL is a
  partial function: \<open>None\<close> is a scan that never ends. Loops over a length always end. Results of
  comparisons are the signed difference of two bytes and need no wrap-around.

  The theorems read NUL-terminated strings as lists (\<open>cstr\<close>): comparison is lexicographic
  order, \<^verbatim>\<open>strstr\<close> finds the first occurrence, \<^verbatim>\<open>memmove\<close> is correct for overlapping blocks.
\<close>

section \<open>Operations\<close>

partial_function (option) String_strcmp :: "mem \<Rightarrow> u32 \<Rightarrow> u32 \<Rightarrow> int option" where
  "String_strcmp m a b =
     (if m a \<noteq> 0 \<and> m a = m b then String_strcmp m (a + 1) (b + 1)
      else Some (uint (m a) - uint (m b)))"

function strncmp_loop :: "mem \<Rightarrow> u32 \<Rightarrow> u32 \<Rightarrow> u32 \<Rightarrow> u32 \<Rightarrow> int" where
  "strncmp_loop m a b len i =
     (if i < len then
        (let ca = m (a + i); cb = m (b + i)
         in if ca \<noteq> cb \<or> ca = 0 \<or> cb = 0 then uint ca - uint cb else strncmp_loop m a b len (i + 1))
      else 0)"
  by pat_completeness auto
termination
  by (relation "measure (\<lambda>(_, _, _, len, i). unat len - unat i)") (auto simp: unat_Suc_less word_less_nat_alt)

text \<open>The bounded overloads of \<^verbatim>\<open>strcmp\<close>.\<close>

definition String_strncmp :: "mem \<Rightarrow> u32 \<Rightarrow> u32 \<Rightarrow> u32 \<Rightarrow> int" where
  "String_strncmp m a b len = strncmp_loop m a b len 0"

partial_function (option) strlen_loop :: "mem \<Rightarrow> u32 \<Rightarrow> u32 \<Rightarrow> u32 option" where
  "strlen_loop m s len = (if m s \<noteq> 0 then strlen_loop m (s + 1) (len + 1) else Some len)"

definition String_strlen :: "mem \<Rightarrow> u32 \<Rightarrow> u32 option" where
  "String_strlen m s = strlen_loop m s 0"

text \<open>\<^verbatim>\<open>while (*d) ++d;\<close>\<close>

partial_function (option) str_end :: "mem \<Rightarrow> u32 \<Rightarrow> u32 option" where
  "str_end m d = (if m d \<noteq> 0 then str_end m (d + 1) else Some d)"

partial_function (option) strcat_loop :: "mem \<Rightarrow> u32 \<Rightarrow> u32 \<Rightarrow> mem option" where
  "strcat_loop m d src =
     (if m src \<noteq> 0 then strcat_loop (m(d := m src)) (d + 1) (src + 1) else Some (m(d := 0)))"

definition String_strcat :: "mem \<Rightarrow> u32 \<Rightarrow> u32 \<Rightarrow> mem option" where
  "String_strcat m dest src = do { d \<leftarrow> str_end m dest; strcat_loop m d src }"

function strncat_loop :: "mem \<Rightarrow> u32 \<Rightarrow> u32 \<Rightarrow> u32 \<Rightarrow> u32 \<Rightarrow> mem" where
  "strncat_loop m d src n i =
     (if i < n \<and> m (src + i) \<noteq> 0 then strncat_loop (m(d + i := m (src + i))) d src n (i + 1)
      else m(d + i := 0))"
  by pat_completeness auto
termination
  by (relation "measure (\<lambda>(_, _, _, n, i). unat n - unat i)") (auto simp: unat_Suc_less word_less_nat_alt)

definition String_strncat :: "mem \<Rightarrow> u32 \<Rightarrow> u32 \<Rightarrow> u32 \<Rightarrow> mem option" where
  "String_strncat m dest src n = do { d \<leftarrow> str_end m dest; Some (strncat_loop m d src n 0) }"

text \<open>The inner loop of \<^verbatim>\<open>strstr\<close>: does the needle end first?\<close>

partial_function (option) match_here :: "mem \<Rightarrow> u32 \<Rightarrow> u32 \<Rightarrow> bool option" where
  "match_here m h2 n2 =
     (if m n2 \<noteq> 0 \<and> m h2 = m n2 then match_here m (h2 + 1) (n2 + 1) else Some (m n2 = 0))"

partial_function (option) strstr_loop :: "mem \<Rightarrow> u32 \<Rightarrow> u32 \<Rightarrow> u32 option" where
  "strstr_loop m h n =
     (if m h \<noteq> 0 then
        (if m h = m n then
           do { found \<leftarrow> match_here m h n; if found then Some h else strstr_loop m (h + 1) n }
         else strstr_loop m (h + 1) n)
      else Some 0)"

definition String_strstr :: "mem \<Rightarrow> u32 \<Rightarrow> u32 \<Rightarrow> u32 option" where
  "String_strstr m haystack needle =
     (if needle = 0 \<or> m needle = 0 then Some haystack else strstr_loop m haystack needle)"

function copy_back :: "mem \<Rightarrow> u32 \<Rightarrow> u32 \<Rightarrow> u32 \<Rightarrow> mem" where
  "copy_back m d s i = (if i \<noteq> 0 then copy_back (m(d + (i - 1) := m (s + (i - 1)))) d s (i - 1) else m)"
  by pat_completeness auto
termination
  by (relation "measure (\<lambda>(_, _, _, i). unat i)") (auto simp: unat_gt_0 unat_minus_one)

definition copy_fwd :: "mem \<Rightarrow> u32 \<Rightarrow> u32 \<Rightarrow> u32 \<Rightarrow> mem" where
  "copy_fwd m d s n = for_range 0 n (\<lambda>i m. m(d + i := m (s + i))) m"

definition String_memmove :: "mem \<Rightarrow> u32 \<Rightarrow> u32 \<Rightarrow> u32 \<Rightarrow> mem" where
  "String_memmove m d s n =
     (if d = s \<or> n = 0 then m else if d < s then copy_fwd m d s n else copy_back m d s n)"

function memchr_loop :: "mem \<Rightarrow> u32 \<Rightarrow> u8 \<Rightarrow> u32 \<Rightarrow> u32 \<Rightarrow> u32" where
  "memchr_loop m p target n i =
     (if i < n then (if m (p + i) = target then p + i else memchr_loop m p target n (i + 1)) else 0)"
  by pat_completeness auto
termination
  by (relation "measure (\<lambda>(_, _, _, n, i). unat n - unat i)") (auto simp: unat_Suc_less word_less_nat_alt)

definition String_memchr :: "mem \<Rightarrow> u32 \<Rightarrow> u32 \<Rightarrow> u32 \<Rightarrow> u32" where
  "String_memchr m s c n = memchr_loop m s (ucast (c AND 0xFF)) n 0"

function memcmp_loop :: "mem \<Rightarrow> u32 \<Rightarrow> u32 \<Rightarrow> u32 \<Rightarrow> u32 \<Rightarrow> int" where
  "memcmp_loop m a b n i =
     (if i < n then
        (if m (a + i) \<noteq> m (b + i) then uint (m (a + i)) - uint (m (b + i)) else memcmp_loop m a b n (i + 1))
      else 0)"
  by pat_completeness auto
termination
  by (relation "measure (\<lambda>(_, _, _, n, i). unat n - unat i)") (auto simp: unat_Suc_less word_less_nat_alt)

definition String_memcmp :: "mem \<Rightarrow> u32 \<Rightarrow> u32 \<Rightarrow> u32 \<Rightarrow> int" where
  "String_memcmp m a b n = memcmp_loop m a b n 0"

definition String_memset :: "mem \<Rightarrow> u32 \<Rightarrow> u32 \<Rightarrow> u32 \<Rightarrow> mem" where
  "String_memset m s c n = for_range 0 n (\<lambda>i m. m(s + i := ucast (c AND 0xFF))) m"

text \<open>\<^verbatim>\<open>n - 1\<close> is unsigned: with \<open>n = 0\<close> the bound is \<open>2 ^ 32 - 1\<close>.\<close>

definition String_strncpy :: "mem \<Rightarrow> u32 \<Rightarrow> u32 \<Rightarrow> u32 \<Rightarrow> mem" where
  "String_strncpy m dest src n = strncat_loop m dest src (n - 1) 0"

subsection \<open>The C versions\<close>

definition memcpy :: "mem \<Rightarrow> u32 \<Rightarrow> u32 \<Rightarrow> u32 \<Rightarrow> mem" where
  "memcpy m d s n = copy_fwd m d s n"

definition libc_memmove :: "mem \<Rightarrow> u32 \<Rightarrow> u32 \<Rightarrow> u32 \<Rightarrow> mem" where
  "libc_memmove m d s n =
     (if d = s \<or> n = 0 then m else if d < s then copy_fwd m d s n else copy_back m d s n)"

definition libc_memchr :: "mem \<Rightarrow> u32 \<Rightarrow> u32 \<Rightarrow> u32 \<Rightarrow> u32" where
  "libc_memchr m s c n = memchr_loop m s (ucast (c AND 0xFF)) n 0"

definition libc_memcmp :: "mem \<Rightarrow> u32 \<Rightarrow> u32 \<Rightarrow> u32 \<Rightarrow> int" where
  "libc_memcmp m a b n = memcmp_loop m a b n 0"

definition libc_memset :: "mem \<Rightarrow> u32 \<Rightarrow> u32 \<Rightarrow> u32 \<Rightarrow> mem" where
  "libc_memset m s c n = for_range 0 n (\<lambda>i m. m(s + i := ucast (c AND 0xFF))) m"

definition libc_strcmp :: "mem \<Rightarrow> u32 \<Rightarrow> u32 \<Rightarrow> int option" where
  "libc_strcmp m a b = String_strcmp m a b"

definition libc_strncmp :: "mem \<Rightarrow> u32 \<Rightarrow> u32 \<Rightarrow> u32 \<Rightarrow> int" where
  "libc_strncmp m a b len = strncmp_loop m a b len 0"

definition libc_strlen :: "mem \<Rightarrow> u32 \<Rightarrow> u32 option" where
  "libc_strlen m s = strlen_loop m s 0"

definition libc_strstr :: "mem \<Rightarrow> u32 \<Rightarrow> u32 \<Rightarrow> u32 option" where
  "libc_strstr m haystack needle =
     (if needle = 0 \<or> m needle = 0 then Some haystack else strstr_loop m haystack needle)"

definition libc_strncat :: "mem \<Rightarrow> u32 \<Rightarrow> u32 \<Rightarrow> u32 \<Rightarrow> mem option" where
  "libc_strncat m dest src n = do { d \<leftarrow> str_end m dest; Some (strncat_loop m d src n 0) }"

declare strncmp_loop.simps [simp del] strncat_loop.simps [simp del] copy_back.simps [simp del]
  memchr_loop.simps [simp del] memcmp_loop.simps [simp del]

section \<open>Length and comparison\<close>

lemma strlen_loop_spec: "cstr m s cs \<Longrightarrow> strlen_loop m s len = Some (len + of_nat (length cs))"
  by (induction cs arbitrary: s len) (simp_all add: strlen_loop.simps [of m] add.assoc)

lemma str_end_spec: "cstr m d cs \<Longrightarrow> str_end m d = Some (d + of_nat (length cs))"
  by (induction cs arbitrary: d) (simp_all add: str_end.simps [of m] add.assoc)

text \<open>Comparison of byte strings: the difference at the first place where they differ.\<close>

fun byte_cmp :: "u8 list \<Rightarrow> u8 list \<Rightarrow> int" where
  "byte_cmp [] [] = 0"
| "byte_cmp [] (y # ys) = - uint y"
| "byte_cmp (x # xs) [] = uint x"
| "byte_cmp (x # xs) (y # ys) = (if x = y then byte_cmp xs ys else uint x - uint y)"

lemma byte_cmp_zero: "0 \<notin> set xs \<Longrightarrow> 0 \<notin> set ys \<Longrightarrow> byte_cmp xs ys = 0 \<longleftrightarrow> xs = ys"
  by (induction xs ys rule: byte_cmp.induct) (auto simp: word_uint_eq_iff)

lemma byte_cmp_neg:
  "0 \<notin> set xs \<Longrightarrow> 0 \<notin> set ys \<Longrightarrow> byte_cmp xs ys < 0 \<longleftrightarrow> (xs, ys) \<in> lexord {(x, y). x < y}"
proof (induction xs ys rule: byte_cmp.induct)
  case (2 y ys)
  then have "uint y \<noteq> 0" by (auto simp: word_uint_eq_iff)
  then have "0 < uint y" by (simp add: order.not_eq_order_implies_strict)
  then show ?case by simp
next
  case (4 x xs y ys)
  then show ?case by (auto simp: word_less_def)
qed simp_all

lemma String_strcmp_spec:
  "cstr m a xs \<Longrightarrow> cstr m b ys \<Longrightarrow> String_strcmp m a b = Some (byte_cmp xs ys)"
proof (induction xs ys arbitrary: a b rule: byte_cmp.induct)
  case (4 x xs y ys)
  then show ?case by (simp add: String_strcmp.simps [of m a])
qed (simp_all add: String_strcmp.simps [of m])

lemma strncmp_loop_spec:
  assumes "cstr m (a + i) xs" "cstr m (b + i) ys"
  shows "strncmp_loop m a b len i = byte_cmp (take (unat len - unat i) xs) (take (unat len - unat i) ys)"
  using assms
proof (induction m a b len i arbitrary: xs ys rule: strncmp_loop.induct)
  case (1 m a b len i)
  show ?case
  proof (cases "i < len")
    case True
    then have k: "unat len - unat i = Suc (unat len - unat (i + 1))"
      by (simp add: unat_Suc_less word_less_nat_alt)
    show ?thesis
    proof (cases "m (a + i) = m (b + i) \<and> m (a + i) \<noteq> 0")
      case eq: True
      then obtain x xs' ys' where l: "xs = x # xs'" "ys = x # ys'" using "1.prems" by (cases xs; cases ys) auto
      then have c: "cstr m (a + (i + 1)) xs'" "cstr m (b + (i + 1)) ys'"
        using "1.prems" by (simp_all add: add.assoc)
      have "strncmp_loop m a b len i = strncmp_loop m a b len (i + 1)"
        using True eq by (auto simp: strncmp_loop.simps [of m a b len i] Let_def)
      moreover have "strncmp_loop m a b len (i + 1) =
          byte_cmp (take (unat len - unat (i + 1)) xs') (take (unat len - unat (i + 1)) ys')"
        by (rule "1.IH" [OF True refl refl _ c]) (use eq in auto)
      ultimately show ?thesis by (simp add: k l)
    next
      case False
      then show ?thesis using True "1.prems"
        by (cases xs; cases ys) (auto simp: strncmp_loop.simps [of m a b len i] Let_def k)
    qed
  next
    case False
    then show ?thesis by (simp add: strncmp_loop.simps [of m a b len i] word_less_nat_alt)
  qed
qed

lemma take_no_nul: "0 \<notin> set xs \<Longrightarrow> 0 \<notin> set (take n xs)"
  by (meson in_set_takeD)

section \<open>Copying\<close>

lemma strcat_loop_spec:
  assumes "cstr m src ys" "span d (Suc (length ys)) \<inter> span src (Suc (length ys)) = {}"
  shows "strcat_loop m d src = Some (put_bytes m d (ys @ [0]))"
  using assms
proof (induction ys arbitrary: m d src)
  case (Cons y ys)
  have dis: "span (d + 1) (Suc (length ys)) \<inter> span (src + 1) (Suc (length ys)) = {}"
    "d \<notin> span (src + 1) (Suc (length ys))"
    using Cons.prems(2) by (auto simp: span_Suc [of d "Suc (length ys)"] span_Suc [of src "Suc (length ys)"])
  have "cstr (m(d := y)) (src + 1) ys" using Cons.prems(1) dis(2) by (simp add: cstr_update)
  from Cons.IH [OF this dis(1)] Cons.prems(1) show ?case
    by (simp add: strcat_loop.simps [of m d src] fun_upd_def)
qed (simp add: strcat_loop.simps)

lemma strncat_loop_spec:
  assumes "cstr m (src + i) ys" "span (d + i) (Suc (length ys)) \<inter> span (src + i) (Suc (length ys)) = {}"
  shows "strncat_loop m d src n i = put_bytes m (d + i) (take (unat n - unat i) ys @ [0])"
  using assms
proof (induction m d src n i arbitrary: ys rule: strncat_loop.induct)
  case (1 m d src n i)
  show ?case
  proof (cases "i < n \<and> m (src + i) \<noteq> 0")
    case True
    then obtain y ys' where ys: "ys = y # ys'" using "1.prems" by (cases ys) auto
    have k: "unat n - unat i = Suc (unat n - unat (i + 1))"
      using True by (auto simp: unat_Suc_less word_less_nat_alt)
    have dis: "span (d + (i + 1)) (Suc (length ys')) \<inter> span (src + (i + 1)) (Suc (length ys')) = {}"
      "d + i \<notin> span (src + (i + 1)) (Suc (length ys'))"
      using "1.prems"(2) by (auto simp: ys add.assoc span_Suc [of "d + i" "Suc (length ys')"]
          span_Suc [of "src + i" "Suc (length ys')"])
    have y: "m (src + i) = y" "cstr (m(d + i := y)) (src + (i + 1)) ys'"
      using "1.prems"(1) dis(2) by (simp_all add: ys add.assoc cstr_update)
    show ?thesis
      using "1.IH" [OF True, of ys'] y dis(1) True
      by (simp add: strncat_loop.simps [of m d src n i] k ys add.assoc fun_upd_def)
  next
    case False
    then have "take (unat n - unat i) ys = []"
      using "1.prems"(1) by (cases ys) (auto simp: word_less_nat_alt)
    then show ?thesis using False by (auto simp: strncat_loop.simps [of m d src n i])
  qed
qed

lemma put_bytes_string:
  assumes "cstr m d xs" "0 \<notin> set zs" "length xs + length zs < 2 ^ 32"
  shows "cstr (put_bytes m (d + of_nat (length xs)) (zs @ [0])) d (xs @ zs)"
    "x \<notin> span d (Suc (length xs + length zs)) \<Longrightarrow> put_bytes m (d + of_nat (length xs)) (zs @ [0]) x = m x"
proof -
  have sub: "d + of_nat i \<notin> span (d + of_nat (length xs)) (Suc (length zs))" if "i < length xs" for i
    using span_shift_disjoint [of "length xs" "length xs" "Suc (length zs)" d] span_mem [OF that, of d] assms(3)
    by auto
  have "put_bytes m (d + of_nat (length xs)) (zs @ [0]) (d + of_nat i) = xs ! i \<and> xs ! i \<noteq> 0" if "i < length xs" for i
    using put_bytes_other [of "d + of_nat i" _ "zs @ [0]"] sub [OF that] cstr_nth [OF assms(1) that] by simp
  moreover have "cstr (put_bytes m (d + of_nat (length xs)) (zs @ [0])) (d + of_nat (length xs)) zs"
    by (rule cstr_put_bytes) (use assms in simp_all)
  ultimately show "cstr (put_bytes m (d + of_nat (length xs)) (zs @ [0])) d (xs @ zs)"
    by (simp add: cstr_append)
  assume x: "x \<notin> span d (Suc (length xs + length zs))"
  have "span (d + of_nat (length xs)) (Suc (length zs)) \<subseteq> span d (Suc (length xs + length zs))"
    by (rule span_shift_sub) simp
  with x show "put_bytes m (d + of_nat (length xs)) (zs @ [0]) x = m x"
    by (intro put_bytes_other) auto
qed

section \<open>Blocks of memory\<close>

lemma copy_fwd_spec:
  assumes "unat d + unat n \<le> 2 ^ 32" "unat s + unat n \<le> 2 ^ 32" "unat d \<le> unat s \<or> unat s + unat n \<le> unat d"
  shows "copy_fwd m d s n x = (if unat d \<le> unat x \<and> unat x < unat d + unat n then m (s + (x - d)) else m x)"
proof -
  let ?P = "\<lambda>k m'. \<forall>x. m' x = (if unat d \<le> unat x \<and> unat x < unat d + k then m (s + (x - d)) else m x)"
  have "?P (unat n) (copy_fwd m d s n)"
    unfolding copy_fwd_def
  proof (rule for_range_rule [where P = ?P and i = 0, simplified unat_0])
    fix j :: u32 and m' assume j: "0 \<le> unat j" "j < n" and m': "?P (unat j) m'"
    have jn: "unat j < unat n" using j by (simp add: word_less_nat_alt)
    have a: "unat (d + j) = unat d + unat j" "unat (s + j) = unat s + unat j"
      using assms(1,2) jn by (simp_all add: unat_add_nowrap)
    have "m' (s + j) = m (s + j)" using m' a assms(3) jn by auto
    moreover have "x = d + j \<longleftrightarrow> unat x = unat d + unat j" for x using a(1) by (auto simp: word_unat_eq_iff)
    moreover from this have "x - d = j" if "unat x = unat d + unat j" for x using that by (metis add_diff_cancel_left')
    ultimately show "?P (Suc (unat j)) (m'(d + j := m' (s + j)))"
      using m' by (auto simp: less_Suc_eq)
  qed auto
  then show ?thesis by blast
qed

lemma copy_back_spec:
  assumes "unat d + unat n \<le> 2 ^ 32" "unat s + unat n \<le> 2 ^ 32" "unat s \<le> unat d \<or> unat d + unat n \<le> unat s"
    "unat i \<le> unat n"
  shows "copy_back m d s i x = (if unat d \<le> unat x \<and> unat x < unat d + unat i then m (s + (x - d)) else m x)"
  using assms(4)
proof (induction "unat i" arbitrary: i m)
  case 0
  then have "i = 0" by (simp add: word_unat_eq_iff)
  with 0 show ?case by (auto simp: copy_back.simps)
next
  case (Suc k)
  let ?m = "m(d + (i - 1) := m (s + (i - 1)))"
  have i1: "unat (i - 1) = k" "i \<noteq> 0" using Suc.hyps(2) by (auto simp: unat_sub_nowrap)
  have a: "unat (d + (i - 1)) = unat d + k" "unat (s + (i - 1)) = unat s + k"
    using assms(1,2) Suc.prems Suc.hyps(2) i1(1) by (simp_all add: unat_add_nowrap)
  have eq: "copy_back m d s i = copy_back ?m d s (i - 1)" using i1(2) by (simp add: copy_back.simps [of m d s i])
  have IH: "copy_back ?m d s (i - 1) x =
      (if unat d \<le> unat x \<and> unat x < unat d + unat (i - 1) then ?m (s + (x - d)) else ?m x)"
    using Suc.hyps(1) [of "i - 1" ?m] i1(1) Suc.hyps(2) Suc.prems by simp
  show ?case
  proof (cases "unat d \<le> unat x \<and> unat x < unat d + k")
    case True
    then have xd: "unat (x - d) = unat x - unat d" by (simp add: unat_sub_nowrap)
    then have "unat (s + (x - d)) = unat s + (unat x - unat d)"
      using assms(2) True Suc.prems Suc.hyps(2) by (subst unat_add_nowrap) auto
    then have "s + (x - d) \<noteq> d + (i - 1)"
      using True a assms(3) Suc.prems Suc.hyps(2) by (auto simp: word_unat_eq_iff)
    with True IH eq i1(1) Suc.hyps(2) show ?thesis by simp
  next
    case False
    show ?thesis
    proof (cases "x = d + (i - 1)")
      case True
      then have "x - d = i - 1" by simp
      with True False IH eq i1(1) a(1) Suc.hyps(2) [symmetric] show ?thesis by simp
    next
      case ne: False
      then have "unat x \<noteq> unat d + k" using a(1) by (auto simp: word_unat_eq_iff)
      with ne False IH eq i1(1) Suc.hyps(2) [symmetric] show ?thesis by auto
    qed
  qed
qed

lemma memcmp_loop_spec:
  "memcmp_loop m a b n i =
     byte_cmp (get_bytes m (a + i) (unat n - unat i)) (get_bytes m (b + i) (unat n - unat i))"
proof (induction m a b n i rule: memcmp_loop.induct)
  case (1 m a b n i)
  show ?case
  proof (cases "i < n")
    case True
    then have k: "unat n - unat i = Suc (unat n - unat (i + 1))"
      by (simp add: unat_Suc_less word_less_nat_alt)
    have g: "get_bytes m p (Suc j) = m p # get_bytes m (p + 1) j" for p j
      by (simp add: get_bytes_def upt_conv_Cons map_Suc_upt [symmetric] add.assoc del: upt_Suc)
    show ?thesis using 1 True by (simp add: memcmp_loop.simps [of m a b n i] k g add.assoc)
  next
    case False
    then show ?thesis by (simp add: memcmp_loop.simps [of m a b n i] word_less_nat_alt get_bytes_def)
  qed
qed

lemma memchr_loop_spec:
  assumes "i \<le> n"
  shows "(\<forall>j. unat i \<le> unat j \<and> j < n \<longrightarrow> m (p + j) \<noteq> c) \<and> memchr_loop m p c n i = 0 \<or>
    (\<exists>j. unat i \<le> unat j \<and> j < n \<and> m (p + j) = c \<and> (\<forall>h. unat i \<le> unat h \<and> h < j \<longrightarrow> m (p + h) \<noteq> c) \<and>
       memchr_loop m p c n i = p + j)"
  using assms
proof (induction m p c n i rule: memchr_loop.induct)
  case (1 m p c n i)
  show ?case
  proof (cases "i < n \<and> m (p + i) \<noteq> c")
    case True
    then have i1: "unat (i + 1) = Suc (unat i)" "i + 1 \<le> n"
      by (auto simp: unat_Suc_less word_less_nat_alt word_le_nat_alt)
    have eq: "memchr_loop m p c n i = memchr_loop m p c n (i + 1)"
      using True by (simp add: memchr_loop.simps [of m p c n i])
    have step: "unat i \<le> unat j \<longleftrightarrow> j = i \<or> unat (i + 1) \<le> unat j" for j
      using i1(1) by (auto simp: word_unat_eq_iff)
    from "1.IH" i1(2) True show ?thesis unfolding eq step by (auto simp: word_less_nat_alt i1(1))
  next
    case False
    then show ?thesis
      by (auto simp: memchr_loop.simps [of m p c n i] word_less_nat_alt intro!: exI [of _ i])
  qed
qed

lemma memset_spec:
  assumes "unat s + unat n \<le> 2 ^ 32"
  shows "String_memset m s c n x =
    (if unat s \<le> unat x \<and> unat x < unat s + unat n then ucast (c AND 0xFF) else m x)"
proof -
  let ?P = "\<lambda>k m'. \<forall>x. m' x = (if unat s \<le> unat x \<and> unat x < unat s + k then ucast (c AND 0xFF) else m x)"
  have "?P (unat n) (String_memset m s c n)"
    unfolding String_memset_def
  proof (rule for_range_rule [where P = ?P and i = 0, simplified unat_0])
    fix j :: u32 and m' assume j: "j < n" and m': "?P (unat j) m'"
    have "unat (s + j) = unat s + unat j" using assms j by (simp add: unat_add_nowrap word_less_nat_alt)
    then have "x = s + j \<longleftrightarrow> unat x = unat s + unat j" for x by (auto simp: word_unat_eq_iff)
    with m' show "?P (Suc (unat j)) (m'(s + j := ucast (c AND 0xFF)))" by (auto simp: less_Suc_eq)
  qed auto
  then show ?thesis by blast
qed

section \<open>Searching\<close>

lemma match_here_spec: "cstr m h hs \<Longrightarrow> cstr m n ns \<Longrightarrow> match_here m h n = Some (prefix ns hs)"
proof (induction ns arbitrary: h n hs)
  case (Cons c ns)
  then show ?case by (cases hs) (auto simp: match_here.simps [of m h n])
qed (simp add: match_here.simps)

text \<open>The first place where a list occurs in another.\<close>

fun first_occ :: "'a list \<Rightarrow> 'a list \<Rightarrow> nat option" where
  "first_occ ns [] = None"
| "first_occ ns (h # hs) = (if prefix ns (h # hs) then Some 0 else map_option Suc (first_occ ns hs))"

lemma first_occ_spec:
  "ns \<noteq> [] \<Longrightarrow> first_occ ns hs = None \<longleftrightarrow> (\<forall>i. \<not> prefix ns (drop i hs))"
  "first_occ ns hs = Some i \<Longrightarrow> i < length hs \<and> prefix ns (drop i hs) \<and> (\<forall>j < i. \<not> prefix ns (drop j hs))"
proof (induction hs arbitrary: i)
  case (Cons h hs)
  { case 1
    have "(\<forall>i. \<not> prefix ns (drop i (h # hs))) \<longleftrightarrow> \<not> prefix ns (h # hs) \<and> (\<forall>i. \<not> prefix ns (drop i hs))"
      by (metis drop0 drop_Suc_Cons not0_implies_Suc)
    with 1 Cons.IH(1) show ?case by auto
  next
    case 2
    then show ?case using Cons.IH(2) [of "i - 1"]
      by (auto split: if_splits) (metis drop_Cons' less_imp_Suc_add nat_neq_iff not_less0 Suc_less_eq drop_Suc_Cons not0_implies_Suc)
  }
qed auto

lemma strstr_loop_spec:
  "cstr m h hs \<Longrightarrow> cstr m n ns \<Longrightarrow> ns \<noteq> [] \<Longrightarrow>
   strstr_loop m h n = Some (case first_occ ns hs of None \<Rightarrow> 0 | Some i \<Rightarrow> h + of_nat i)"
proof (induction hs arbitrary: h)
  case (Cons c hs)
  have IH: "strstr_loop m (h + 1) n = Some (case first_occ ns hs of None \<Rightarrow> 0 | Some i \<Rightarrow> h + 1 + of_nat i)"
    using Cons by simp
  have mh: "match_here m h n = Some (prefix ns (c # hs))" by (rule match_here_spec [OF Cons.prems(1,2)])
  obtain d ds where ns: "ns = d # ds" using Cons.prems(3) by (cases ns) auto
  show ?case
    using Cons.prems IH mh ns
    by (auto simp: strstr_loop.simps [of m h n] add.assoc split: option.splits)
qed (simp add: strstr_loop.simps)

section \<open>Properties\<close>

lemma String_strncmp_spec:
  assumes "cstr m a xs" "cstr m b ys"
  shows "String_strncmp m a b len = byte_cmp (take (unat len) xs) (take (unat len) ys)"
  using strncmp_loop_spec [of m a 0 xs b ys len] assms by (simp add: String_strncmp_def)

text \<open>
  \<^verbatim>\<open>strcmp\<close> on two NUL-terminated strings returns; the result is 0 exactly for equal strings and
  negative exactly when the first comes first in lexicographic order of unsigned bytes. The
  bounded overload compares the prefixes of the given length in the same way, and the C
  functions agree with both.
\<close>

theorem strcmp_correct:
  assumes "cstr m a xs" and "cstr m b ys"
  shows "(\<exists>r. String_strcmp m a b = Some r \<and> (r = 0 \<longleftrightarrow> xs = ys) \<and>
      (r < 0 \<longleftrightarrow> (xs, ys) \<in> lexord {(x, y). x < y}) \<and> libc_strcmp m a b = Some r) \<and>
    (String_strncmp m a b len = 0 \<longleftrightarrow> take (unat len) xs = take (unat len) ys) \<and>
    (String_strncmp m a b len < 0 \<longleftrightarrow> (take (unat len) xs, take (unat len) ys) \<in> lexord {(x, y). x < y}) \<and>
    libc_strncmp m a b len = String_strncmp m a b len"
proof -
  have nn: "0 \<notin> set xs" "0 \<notin> set ys" using assms cstr_no_nul by blast+
  note nt = take_no_nul [OF nn(1), of "unat len"] take_no_nul [OF nn(2), of "unat len"]
  show ?thesis
    using byte_cmp_zero [OF nn] byte_cmp_neg [OF nn] byte_cmp_zero [OF nt] byte_cmp_neg [OF nt]
    by (simp add: String_strcmp_spec [OF assms] String_strncmp_spec [OF assms] libc_strcmp_def
        libc_strncmp_def String_strncmp_def [symmetric])
qed

text \<open>Memory holding \<open>ls\<close> at 0x1000, \<open>lsp\<close> at 0x2000 and \<open>clsp\<close> at 0x3000.\<close>

definition demo_mem :: mem where
  "demo_mem = put_bytes (put_bytes (put_bytes (\<lambda>_. 0) 0x1000 [0x6C, 0x73, 0]) 0x2000 [0x6C, 0x73, 0x70, 0])
     0x3000 [0x63, 0x6C, 0x73, 0x70, 0]"

lemma demo_mem_strings:
  "cstr demo_mem 0x1000 [0x6C, 0x73]" "cstr demo_mem 0x2000 [0x6C, 0x73, 0x70]"
  "cstr demo_mem 0x3000 [0x63, 0x6C, 0x73, 0x70]"
  by (simp_all add: demo_mem_def)

theorem strcmp_correct_witness:
  "(\<exists>r. String_strcmp demo_mem 0x1000 0x2000 = Some r \<and> r < 0) \<and> String_strncmp demo_mem 0x1000 0x2000 2 = 0"
  using strcmp_correct [OF demo_mem_strings(1,2), where len = 2] by auto

text \<open>
  \<^verbatim>\<open>memmove\<close> copies the block as it was before the call, also when the two blocks overlap, and
  changes no other byte; \<^verbatim>\<open>memcpy\<close> does the same unless the destination starts inside the source.
\<close>

theorem memmove_correct:
  assumes "unat d + unat n \<le> 2 ^ 32" and "unat s + unat n \<le> 2 ^ 32"
  shows "String_memmove m d s n x = (if unat d \<le> unat x \<and> unat x < unat d + unat n then m (s + (x - d)) else m x) \<and>
    libc_memmove m d s n = String_memmove m d s n \<and>
    (unat d \<le> unat s \<or> unat s + unat n \<le> unat d \<longrightarrow> memcpy m d s n = String_memmove m d s n)"
proof -
  have mv: "String_memmove m d s n x = (if unat d \<le> unat x \<and> unat x < unat d + unat n then m (s + (x - d)) else m x)" for x
    using copy_fwd_spec [OF assms, of m x] copy_back_spec [OF assms, of n m x]
    by (auto simp: String_memmove_def word_less_nat_alt)
  moreover have "memcpy m d s n = String_memmove m d s n" if "unat d \<le> unat s \<or> unat s + unat n \<le> unat d"
    using copy_fwd_spec [OF assms that, of m] mv by (auto simp: memcpy_def)
  ultimately show ?thesis by (simp add: libc_memmove_def String_memmove_def)
qed

theorem memmove_correct_witness:
  "String_memmove demo_mem 0x3001 0x3000 4 0x3004 = 0x70"
proof -
  have "demo_mem 0x3003 = 0x70" by (simp add: demo_mem_def)
  then show ?thesis using memmove_correct [where d = "0x3001" and s = "0x3000" and n = 4 and x = "0x3004" and m = demo_mem]
    by simp
qed

text \<open>
  \<^verbatim>\<open>strstr\<close> on NUL-terminated strings returns the haystack itself for an empty needle, the address of
  the first occurrence if there is one, and null otherwise.
\<close>

theorem strstr_correct:
  assumes "cstr m h hs" and "cstr m n ns"
  shows "\<exists>r. String_strstr m h n = Some r \<and> libc_strstr m h n = Some r \<and>
    (if n = 0 \<or> ns = [] then r = h
     else if \<exists>i. prefix ns (drop i hs)
     then \<exists>i. r = h + of_nat i \<and> prefix ns (drop i hs) \<and> (\<forall>j < i. \<not> prefix ns (drop j hs))
     else r = 0)"
proof (cases "n = 0 \<or> ns = []")
  case True
  then have "n = 0 \<or> m n = 0" using assms(2) by auto
  with True show ?thesis by (simp add: String_strstr_def libc_strstr_def)
next
  case False
  then have ne: "ns \<noteq> []" and nz: "n \<noteq> 0" "m n \<noteq> 0" using assms(2) by (cases ns; auto)+
  have eq: "String_strstr m h n = Some (case first_occ ns hs of None \<Rightarrow> 0 | Some i \<Rightarrow> h + of_nat i)"
    "libc_strstr m h n = String_strstr m h n"
    using strstr_loop_spec [OF assms ne] nz by (simp_all add: String_strstr_def libc_strstr_def)
  show ?thesis
  proof (cases "first_occ ns hs")
    case None
    moreover have "\<not> (\<exists>i. prefix ns (drop i hs))" using first_occ_spec(1) [OF ne] None by blast
    ultimately show ?thesis using eq False by simp
  next
    case (Some i)
    moreover have "\<exists>i. prefix ns (drop i hs)" using first_occ_spec(2) [OF Some] by blast
    ultimately show ?thesis using eq False first_occ_spec(2) [OF Some] by auto
  qed
qed

theorem strstr_correct_witness:
  "\<exists>r i. String_strstr demo_mem 0x3000 0x1000 = Some r \<and> r = 0x3000 + of_nat i \<and>
    prefix [0x6C, 0x73] (drop i [0x63, 0x6C, 0x73, 0x70 :: u8])"
proof -
  have "\<exists>i. prefix [0x6C, 0x73] (drop i [0x63, 0x6C, 0x73, 0x70 :: u8])"
    by (intro exI [of _ 1]) simp
  then show ?thesis using strstr_correct [OF demo_mem_strings(3,1)] by (auto simp del: drop_Cons_numeral drop_Cons')
qed

text \<open>
  The copying routines leave a NUL-terminated string and stay inside the stated bytes:
  \<^verbatim>\<open>strncpy\<close> (for a positive size) writes the first \<open>n - 1\<close> characters and at most \<open>n\<close> bytes,
  \<^verbatim>\<open>strcat\<close> and \<^verbatim>\<open>strncat\<close> append the source or its first \<open>n\<close> characters.
\<close>

theorem string_copies_correct:
  assumes "cstr m d xs" and "cstr m s ys" and "length xs + length ys < 2 ^ 32 - 1" and "0 < unat n"
    and "span d (Suc (length xs + length ys)) \<inter> span s (Suc (length ys)) = {}"
  shows "(let m' = String_strncpy m d s n; w = take (unat n - 1) ys
      in cstr m' d w \<and> length w < unat n \<and> (\<forall>x. x \<notin> span d (Suc (length w)) \<longrightarrow> m' x = m x)) \<and>
    (\<exists>m'. String_strcat m d s = Some m' \<and> cstr m' d (xs @ ys) \<and>
      (\<forall>x. x \<notin> span d (Suc (length xs + length ys)) \<longrightarrow> m' x = m x)) \<and>
    (\<exists>m'. String_strncat m d s n = Some m' \<and> cstr m' d (xs @ take (unat n) ys) \<and>
      (\<forall>x. x \<notin> span d (Suc (length xs + length ys)) \<longrightarrow> m' x = m x))"
proof (intro conjI)
  have nn: "0 \<notin> set ys" by (rule cstr_no_nul [OF assms(2)])
  have sub: "span (d + of_nat k) (Suc (length ys)) \<subseteq> span d (Suc (length xs + length ys))" if "k \<le> length xs" for k
    by (rule span_shift_sub) (use that in simp)
  have d0: "span d (Suc (length ys)) \<inter> span s (Suc (length ys)) = {}"
    "span (d + of_nat (length xs)) (Suc (length ys)) \<inter> span s (Suc (length ys)) = {}"
    using assms(5) sub [of 0] sub [of "length xs"] by auto
  have n1: "unat (n - 1) = unat n - 1" using assms(4) by (simp add: unat_sub_nowrap)
  have cpy: "String_strncpy m d s n = put_bytes m d (take (unat n - 1) ys @ [0])"
    using strncat_loop_spec [of m s 0 ys d "n - 1"] assms(2) d0(1) by (simp add: String_strncpy_def n1)
  show "let m' = String_strncpy m d s n; w = take (unat n - 1) ys
      in cstr m' d w \<and> length w < unat n \<and> (\<forall>x. x \<notin> span d (Suc (length w)) \<longrightarrow> m' x = m x)"
    unfolding cpy Let_def using assms(3,4) take_no_nul [OF nn]
    by (auto intro!: cstr_put_bytes put_bytes_other)
  have "strcat_loop m (d + of_nat (length xs)) s = Some (put_bytes m (d + of_nat (length xs)) (ys @ [0]))"
    by (rule strcat_loop_spec [OF assms(2) d0(2)])
  with put_bytes_string [OF assms(1) nn] assms(3)
  show "\<exists>m'. String_strcat m d s = Some m' \<and> cstr m' d (xs @ ys) \<and>
      (\<forall>x. x \<notin> span d (Suc (length xs + length ys)) \<longrightarrow> m' x = m x)"
    by (simp add: String_strcat_def str_end_spec [OF assms(1)])
  have cat: "strncat_loop m (d + of_nat (length xs)) s n 0 = put_bytes m (d + of_nat (length xs)) (take (unat n) ys @ [0])"
    using strncat_loop_spec [of m s 0 ys "d + of_nat (length xs)" n] assms(2) d0(2) by simp
  have "span (d + of_nat (length xs)) (length (take (unat n) ys @ [0])) \<subseteq> span (d + of_nat (length xs)) (Suc (length ys))"
    by (auto simp: span_def)
  then have "x \<notin> span d (Suc (length xs + length ys)) \<Longrightarrow>
      put_bytes m (d + of_nat (length xs)) (take (unat n) ys @ [0]) x = m x" for x
    using sub [of "length xs"] by (intro put_bytes_other) blast
  then show "\<exists>m'. String_strncat m d s n = Some m' \<and> cstr m' d (xs @ take (unat n) ys) \<and>
      (\<forall>x. x \<notin> span d (Suc (length xs + length ys)) \<longrightarrow> m' x = m x)"
    using put_bytes_string(1) [OF assms(1) take_no_nul [OF nn], of "unat n"] assms(3) cat
    by (simp add: String_strncat_def str_end_spec [OF assms(1)])
qed

theorem string_copies_correct_witness:
  "\<exists>m'. String_strcat demo_mem 0x1000 0x2000 = Some m' \<and> cstr m' 0x1000 [0x6C, 0x73, 0x6C, 0x73, 0x70]"
proof -
  have "span 0x1000 (Suc (length [0x6C, 0x73 :: u8] + length [0x6C, 0x73, 0x70 :: u8])) \<inter>
      span 0x2000 (Suc (length [0x6C, 0x73, 0x70 :: u8])) = {}"
    by (auto simp: span_unat)
  from string_copies_correct [OF demo_mem_strings(1,2) _ _ this, of 4] show ?thesis by auto
qed

end
