(* ===== verification/KOS_Tokenize.thy ===== *)
theory KOS_Tokenize
  imports KOS_String
begin

text \<open>
  In-place tokenizers (\<^verbatim>\<open>src/lib/tokenize.cpp\<close>, \<^verbatim>\<open>src/libc/tokenize.c\<close>) and the construction of program
  paths for the shell. The three splitters share one loop that differs in its separators; the
  array of token pointers is a list. The theorems relate them to the list of tokens of the
  input string.
\<close>

section \<open>Operations\<close>

abbreviation (input) is_space :: "u8 \<Rightarrow> bool" where "is_space c \<equiv> c = 0x20 \<or> c = 0x09"
abbreviation (input) is_space_cr :: "u8 \<Rightarrow> bool" where "is_space_cr c \<equiv> c = 0x20 \<or> c = 0x09 \<or> c = 0x0D"
abbreviation (input) is_csv_stop :: "u8 \<Rightarrow> bool" where "is_csv_stop c \<equiv> c = 0x2C \<or> c = 0x0A \<or> c = 0x0D"

partial_function (option) skip_ws :: "(u8 \<Rightarrow> bool) \<Rightarrow> mem \<Rightarrow> u32 \<Rightarrow> u32 option" where
  "skip_ws ws m p = (if ws (m p) then skip_ws ws m (p + 1) else Some p)"

partial_function (option) scan_tok :: "(u8 \<Rightarrow> bool) \<Rightarrow> mem \<Rightarrow> u32 \<Rightarrow> u32 option" where
  "scan_tok stop m p = (if m p \<noteq> 0 \<and> \<not> stop (m p) then scan_tok stop m (p + 1) else Some p)"

partial_function (option) split_loop ::
  "(u8 \<Rightarrow> bool) \<Rightarrow> (u8 \<Rightarrow> bool) \<Rightarrow> int \<Rightarrow> mem \<Rightarrow> u32 list \<Rightarrow> u32 \<Rightarrow> (mem \<times> u32 list) option" where
  "split_loop ws stop maxItems m arr p =
     (if m p \<noteq> 0 \<and> int (length arr) < maxItems then
        do {
          q \<leftarrow> scan_tok stop m p;
          if m q = 0 then Some (m, arr @ [p])
          else do {
            r \<leftarrow> skip_ws ws (m(q := 0)) (q + 1);
            split_loop ws stop maxItems (m(q := 0)) (arr @ [p]) r
          }
        }
      else Some (m, arr))"

definition split_csv :: "mem \<Rightarrow> u32 \<Rightarrow> int \<Rightarrow> (mem \<times> u32 list) option" where
  "split_csv m buf maxItems =
     (if buf = 0 then Some (m, [])
      else do { p \<leftarrow> skip_ws is_space_cr m buf; split_loop is_space is_csv_stop maxItems m [] p })"

definition split_args :: "mem \<Rightarrow> u32 \<Rightarrow> int \<Rightarrow> (mem \<times> u32 list) option" where
  "split_args m line maxArgs =
     do { p \<leftarrow> skip_ws is_space m line; split_loop is_space is_space maxArgs m [] p }"

definition kos_split_args :: "mem \<Rightarrow> u32 \<Rightarrow> u32 \<Rightarrow> int \<Rightarrow> (mem \<times> u32 list) option" where
  "kos_split_args m buf argv maxArgs =
     (if buf = 0 \<or> argv = 0 \<or> maxArgs \<le> 0 then Some (m, [])
      else do { p \<leftarrow> skip_ws is_space_cr m buf; split_loop is_space_cr is_space_cr maxArgs m [] p })"

text \<open>\<^verbatim>\<open>while (prog[i] && pi < outSize - 1) out[pi++] = prog[i++];\<close>\<close>

function copy_bounded :: "mem \<Rightarrow> u32 \<Rightarrow> u32 \<Rightarrow> int \<Rightarrow> int \<Rightarrow> int \<Rightarrow> mem \<times> int" where
  "copy_bounded m prog out outSize i pi =
     (if m (prog + of_int i) \<noteq> 0 \<and> pi < outSize - 1
      then copy_bounded (m(out + of_int pi := m (prog + of_int i))) prog out outSize (i + 1) (pi + 1)
      else (m, pi))"
  by pat_completeness auto
termination
  by (relation "measure (\<lambda>(_, _, _, outSize, _, pi). nat (outSize - 1 - pi))") auto

declare copy_bounded.simps [simp del]

definition bin_prefix :: "u8 list" where "bin_prefix = [0x2F, 0x62, 0x69, 0x6E, 0x2F]"
definition elf_ext :: "u8 list" where "elf_ext = [0x2E, 0x65, 0x6C, 0x66]"

definition kos_build_prog_path :: "mem \<Rightarrow> u32 \<Rightarrow> u32 \<Rightarrow> int \<Rightarrow> mem \<times> int" where
  "kos_build_prog_path m prog out outSize =
     (if prog = 0 \<or> out = 0 \<or> outSize \<le> 0 then (m, - 1)
      else if m prog = 0x2F then
        (let (m1, pi) = copy_bounded m prog out outSize 0 0 in (m1(out + of_int pi := 0), pi))
      else if outSize < 6 then (m, - 1)
      else
        let (m2, pi) = copy_bounded (put_bytes m out bin_prefix) prog out outSize 0 5;
            hasExt = (4 \<le> pi \<and> get_bytes m2 (out + of_int (pi - 4)) 4 = elf_ext)
        in if \<not> hasExt then
             (if outSize \<le> pi + 4 then (m2(out + of_int (if pi < outSize then pi else outSize - 1) := 0), - 1)
              else ((put_bytes m2 (out + of_int pi) elf_ext)(out + of_int (pi + 4) := 0), pi + 4))
           else (m2(out + of_int pi := 0), pi))"

section \<open>Tokens of a string\<close>

function toks :: "(u8 \<Rightarrow> bool) \<Rightarrow> (u8 \<Rightarrow> bool) \<Rightarrow> u8 list \<Rightarrow> u8 list list" where
  "toks ws stop [] = []"
| "toks ws stop (c # cs) = takeWhile (\<lambda>x. \<not> stop x) (c # cs) #
     toks ws stop (dropWhile ws (drop 1 (dropWhile (\<lambda>x. \<not> stop x) (c # cs))))"
  by pat_completeness auto
termination
proof (relation "measure (\<lambda>(_, _, cs). length cs)")
  fix ws stop :: "u8 \<Rightarrow> bool" and c and cs :: "u8 list"
  let ?r = "dropWhile (\<lambda>x. \<not> stop x) (c # cs)"
  have "length (dropWhile ws (drop 1 ?r)) \<le> length (drop 1 ?r)" by (rule length_dropWhile_le)
  also have "\<dots> < length (c # cs)"
    using length_dropWhile_le [of "\<lambda>x. \<not> stop x" "c # cs"] by simp
  finally show "((ws, stop, dropWhile ws (drop 1 ?r)), ws, stop, c # cs) \<in> measure (\<lambda>(_, _, cs). length cs)"
    by simp
qed simp

lemma skip_ws_spec:
  assumes "cstr m p cs" "\<not> ws 0"
  shows "skip_ws ws m p = Some (p + of_nat (length (takeWhile ws cs)))"
    "cstr m (p + of_nat (length (takeWhile ws cs))) (dropWhile ws cs)"
  using assms
proof (induction cs arbitrary: p)
  case (Cons c cs)
  { case 1
    then show ?case using Cons.IH(1) [of "p + 1"] by (auto simp: skip_ws.simps [of ws m p] add.assoc)
  next
    case 2
    then show ?case using Cons.IH(2) [of "p + 1"] by (auto simp: add.assoc) }
qed (simp_all add: skip_ws.simps)

lemma scan_tok_spec:
  assumes "cstr m p cs"
  shows "scan_tok stop m p = Some (p + of_nat (length (takeWhile (\<lambda>x. \<not> stop x) cs)))"
    "cstr m (p + of_nat (length (takeWhile (\<lambda>x. \<not> stop x) cs))) (dropWhile (\<lambda>x. \<not> stop x) cs)"
  using assms
proof (induction cs arbitrary: p)
  case (Cons c cs)
  { case 1
    then show ?case using Cons.IH(1) [of "p + 1"] by (auto simp: scan_tok.simps [of stop m p] add.assoc)
  next
    case 2
    then show ?case using Cons.IH(2) [of "p + 1"] by (auto simp: add.assoc) }
qed (simp_all add: scan_tok.simps)

text \<open>Writing a NUL over a separator cuts the string in two.\<close>

lemma cut_token:
  assumes "cstr m p (t @ d # ds)" "length (t @ d # ds) < 2 ^ 32"
  defines "q \<equiv> p + of_nat (length t)"
  shows "cstr (m(q := 0)) p t" "cstr (m(q := 0)) (q + 1) ds" "m q \<noteq> 0"
proof -
  from assms(1) have chars: "\<forall>i < length t. m (p + of_nat i) = t ! i \<and> t ! i \<noteq> 0"
    and rest: "cstr m q (d # ds)" unfolding cstr_append q_def by blast+
  have "p + of_nat i \<noteq> q" if "i < length t" for i
    using that assms(2) u32_of_nat_eq [of i "length t"] by (simp add: q_def)
  with chars have "cstr (m(q := 0)) p (t @ [])" unfolding cstr_append by (simp add: q_def)
  then show "cstr (m(q := 0)) p t" by (simp only: append_Nil2)
  have "q \<notin> span (q + 1) (Suc (length ds))" using span_not_first [of "Suc (length ds)" q] assms(2) by simp
  then show "cstr (m(q := 0)) (q + 1) ds" "m q \<noteq> 0" using rest by (auto simp: cstr_update)
qed

lemma split_loop_spec:
  fixes n :: int and stop :: "u8 \<Rightarrow> bool"
  assumes "cstr m p cs" "length cs < 2 ^ 32" "\<not> ws 0"
  defines "ts \<equiv> \<lambda>arr. take (nat (n - int (length arr))) (toks ws stop cs)"
  shows "\<exists>m' ps. split_loop ws stop n m arr p = Some (m', arr @ ps) \<and> length ps = length (ts arr) \<and>
    (\<forall>i < length ps. cstr m' (ps ! i) (ts arr ! i)) \<and> (\<forall>x. x \<notin> span p (length cs) \<longrightarrow> m' x = m x)"
  using assms(1,2) unfolding ts_def using assms(3)
proof (induction ws stop cs arbitrary: m arr p rule: toks.induct)
  case (1 ws stop)
  then show ?case by (simp add: split_loop.simps [of ws stop n m arr p])
next
  case (2 ws stop c cs)
  let ?t = "takeWhile (\<lambda>x. \<not> stop x) (c # cs)" and ?rest = "dropWhile (\<lambda>x. \<not> stop x) (c # cs)"
  let ?q = "p + of_nat (length ?t)"
  have split: "?t @ ?rest = c # cs" by (rule takeWhile_dropWhile_id)
  then have len: "length ?t + length ?rest = length (c # cs)" by (metis length_append)
  have scan: "scan_tok stop m p = Some ?q" "cstr m ?q ?rest" by (rule scan_tok_spec [OF "2.prems"(1)])+
  have mp: "m p \<noteq> 0" using "2.prems"(1) by simp
  show ?case
  proof (cases "int (length arr) < n")
    case False
    then show ?thesis by (intro exI [of _ m] exI [of _ "[]"]) (simp add: split_loop.simps [of ws stop n m arr p])
  next
    case True
    then have k: "nat (n - int (length arr)) = Suc (nat (n - int (length (arr @ [p]))))" by simp
    show ?thesis
    proof (cases ?rest)
      case Nil
      then have "m ?q = 0" "?t = c # cs" using scan(2) split by simp_all
      then show ?thesis using True mp scan(1) "2.prems"(1) Nil
        by (intro exI [of _ m] exI [of _ "[p]"]) (simp add: split_loop.simps [of ws stop n m arr p] k)
    next
      case (Cons d ds)
      let ?m1 = "m(?q := 0)"
      have lenq: "length ?t + Suc (length ds) = length (c # cs)" using len Cons by simp
      note cut = cut_token [of m p ?t d ds, folded Cons, unfolded split, OF "2.prems"(1,2)]
      let ?w = "length (takeWhile ws ds)" and ?ds = "dropWhile ws ds"
      let ?r = "?q + 1 + of_nat ?w"
      have w: "?w + length ?ds = length ds" by (metis takeWhile_dropWhile_id length_append)
      have skip: "skip_ws ws ?m1 (?q + 1) = Some ?r" "cstr ?m1 ?r ?ds" by (rule skip_ws_spec [where ws = ws, OF cut(2) "2.prems"(3)])+
      have r: "?r = p + of_nat (length ?t + 1 + ?w)" by (simp add: add.assoc)
      have drop: "dropWhile ws (drop 1 ?rest) = ?ds" using Cons by simp
      have "length ?ds < 2 ^ 32" using w lenq "2.prems"(2) by simp
      from "2.IH" [unfolded drop, OF skip(2) this "2.prems"(3), of "arr @ [p]"]
      obtain m' ps where IH: "split_loop ws stop n ?m1 (arr @ [p]) ?r = Some (m', (arr @ [p]) @ ps)"
        "length ps = length (take (nat (n - int (length (arr @ [p])))) (toks ws stop ?ds))"
        "\<forall>i < length ps. cstr m' (ps ! i) (take (nat (n - int (length (arr @ [p])))) (toks ws stop ?ds) ! i)"
        "\<forall>x. x \<notin> span ?r (length ?ds) \<longrightarrow> m' x = ?m1 x" by (elim exE conjE)
      have loop: "split_loop ws stop n m arr p = Some (m', arr @ p # ps)"
        using True mp scan(1) cut(3) skip(1) IH(1) by (simp add: split_loop.simps [of ws stop n m arr p])
      have dis: "span p (Suc (length ?t)) \<inter> span ?r (length ?ds) = {}"
        unfolding r by (rule span_shift_disjoint) (use lenq w "2.prems"(2) in simp_all)
      have sub: "span ?r (length ?ds) \<subseteq> span p (length (c # cs))"
        unfolding r by (rule span_shift_sub) (use lenq w in simp)
      have "cstr m' p ?t = cstr ?m1 p ?t" by (rule cstr_cong) (use dis IH(4) in blast)
      with cut(1) have "cstr m' p ?t" by blast
      moreover have "m' x = m x" if "x \<notin> span p (length (c # cs))" for x
      proof -
        have "?q \<in> span p (length (c # cs))" using lenq by (intro span_mem) simp
        with that have "x \<noteq> ?q" by blast
        moreover have "m' x = ?m1 x" using that sub IH(4) by blast
        ultimately show ?thesis by (rule trans [OF _ fun_upd_other, rotated])
      qed
      moreover have "toks ws stop (c # cs) = ?t # toks ws stop ?ds" by (simp only: toks.simps drop)
      ultimately show ?thesis using loop IH(2,3)
        by (intro exI [of _ m'] exI [of _ "p # ps"])
          (auto simp: k nth_Cons simp del: toks.simps takeWhile.simps split: nat.splits)
    qed
  qed
qed

section \<open>Words of a line\<close>

definition words :: "(u8 \<Rightarrow> bool) \<Rightarrow> u8 list \<Rightarrow> u8 list list" where
  "words ws cs = toks ws ws (dropWhile ws cs)"

lemma filter_dropWhile_same: "filter (\<lambda>c. \<not> P c) (dropWhile P xs) = filter (\<lambda>c. \<not> P c) xs"
  by (induction xs) auto

lemma toks_runs:
  assumes "cs = [] \<or> \<not> ws (hd cs)"
  shows "concat (toks ws ws cs) = filter (\<lambda>c. \<not> ws c) cs \<and>
    (\<forall>t \<in> set (toks ws ws cs). t \<noteq> [] \<and> (\<forall>c \<in> set t. \<not> ws c))"
  using assms
proof (induction cs rule: length_induct)
  case (1 cs)
  show ?case
  proof (cases cs)
    case (Cons c cs')
    let ?t = "takeWhile (\<lambda>x. \<not> ws x) cs" and ?r = "dropWhile (\<lambda>x. \<not> ws x) cs"
    let ?d = "dropWhile ws (drop 1 ?r)"
    have "length ?d \<le> length (drop 1 ?r)" by (rule length_dropWhile_le)
    also have "\<dots> < length cs" using Cons length_dropWhile_le [of "\<lambda>x. \<not> ws x" cs] by simp
    finally have lt: "length ?d < length cs" .
    have "?d = [] \<or> \<not> ws (hd ?d)" using hd_dropWhile [of ws "drop 1 ?r"] by satx
    note IH = "1.IH" [rule_format, OF lt this, THEN conjunct1] "1.IH" [rule_format, OF lt this, THEN conjunct2]
    have "filter (\<lambda>c. \<not> ws c) (drop 1 ?r) = filter (\<lambda>c. \<not> ws c) ?r" by (induction cs) auto
    moreover have "filter (\<lambda>c. \<not> ws c) cs = ?t @ filter (\<lambda>c. \<not> ws c) ?r" by (induction cs) auto
    ultimately have flt: "filter (\<lambda>c. \<not> ws c) cs = ?t @ concat (toks ws ws ?d)"
      by (simp only: IH(1) filter_dropWhile_same)
    have t: "?t \<noteq> []" "\<forall>c \<in> set ?t. \<not> ws c" using "1.prems" Cons by (auto dest: set_takeWhileD)
    have "toks ws ws cs = ?t # toks ws ws ?d" using Cons by (simp only: toks.simps)
    then have eqs: "concat (toks ws ws cs) = ?t @ concat (toks ws ws ?d)"
      "set (toks ws ws cs) = insert ?t (set (toks ws ws ?d))" by (simp_all only: concat.simps list.set)
    have A: "concat (toks ws ws cs) = filter (\<lambda>c. \<not> ws c) cs"
      by (rule trans [OF eqs(1) flt [symmetric]])
    have B: "\<forall>t \<in> set (toks ws ws cs). t \<noteq> [] \<and> (\<forall>c \<in> set t. \<not> ws c)"
      unfolding eqs(2) ball_simps using t IH(2) by (intro conjI)
    show ?thesis using A B by (rule conjI)
  qed simp
qed

text \<open>The words are the maximal runs without separators: together they are the input with its
  separators removed, and none is empty.\<close>

lemma words_runs:
  "concat (words ws cs) = filter (\<lambda>c. \<not> ws c) cs"
  "t \<in> set (words ws cs) \<Longrightarrow> t \<noteq> [] \<and> (\<forall>c \<in> set t. \<not> ws c)"
  using toks_runs [of "dropWhile ws cs" ws] hd_dropWhile [of ws cs]
  unfolding words_def filter_dropWhile_same by blast+

text \<open>What a splitter promises: one pointer per token, up to the limit, each to its token as a
  NUL-terminated string, and no store outside the characters of the input.\<close>

definition splits_into :: "mem \<Rightarrow> u32 \<Rightarrow> u8 list \<Rightarrow> u8 list list \<Rightarrow> (mem \<times> u32 list) option \<Rightarrow> bool" where
  "splits_into m buf cs ts res \<longleftrightarrow> (\<exists>m' ps. res = Some (m', ps) \<and> list_all2 (cstr m') ps ts \<and>
     (\<forall>x. x \<notin> span buf (length cs) \<longrightarrow> m' x = m x))"

lemma split_from:
  assumes "cstr m buf cs" "length cs < 2 ^ 32" "\<not> ws 0" "\<not> skip 0"
  shows "splits_into m buf cs (take (nat n) (toks ws stop (dropWhile skip cs)))
    (do { p \<leftarrow> skip_ws skip m buf; split_loop ws stop n m [] p })"
proof -
  let ?k = "length (takeWhile skip cs)" and ?d = "dropWhile skip cs"
  have len: "?k + length ?d = length cs" by (metis takeWhile_dropWhile_id length_append)
  have s: "skip_ws skip m buf = Some (buf + of_nat ?k)" "cstr m (buf + of_nat ?k) ?d"
    by (rule skip_ws_spec [where ws = skip, OF assms(1,4)])+
  have sub: "span (buf + of_nat ?k) (length ?d) \<subseteq> span buf (length cs)"
    by (rule span_shift_sub) (simp add: len)
  have "length ?d < 2 ^ 32" using len assms(2) by simp
  from split_loop_spec [where ws = ws, OF s(2) this assms(3), of stop n "[]"]
  obtain m' ps where "split_loop ws stop n m [] (buf + of_nat ?k) = Some (m', [] @ ps)"
    "length ps = length (take (nat (n - int (length ([] :: u32 list)))) (toks ws stop ?d))"
    "\<forall>i < length ps. cstr m' (ps ! i) (take (nat (n - int (length ([] :: u32 list)))) (toks ws stop ?d) ! i)"
    "\<forall>x. x \<notin> span (buf + of_nat ?k) (length ?d) \<longrightarrow> m' x = m x" by (elim exE conjE) (rule that)
  then show ?thesis unfolding splits_into_def using s(1) sub
    by (intro exI [of _ m'] exI [of _ ps]) (auto simp: list_all2_conv_all_nth)
qed

section \<open>Program paths\<close>

lemma copy_bounded_spec:
  assumes "cstr m (prog + of_int i) cs" "length cs < 2 ^ 32" "pi < outSize"
    "span (out + of_int pi) (nat (outSize - pi)) \<inter> span (prog + of_int i) (Suc (length cs)) = {}"
  shows "copy_bounded m prog out outSize i pi =
    (put_bytes m (out + of_int pi) (take (nat (outSize - 1 - pi)) cs),
     pi + int (length (take (nat (outSize - 1 - pi)) cs)))"
  using assms
proof (induction cs arbitrary: m i pi)
  case Nil
  then show ?case by (simp add: copy_bounded.simps)
next
  case (Cons c cs)
  let ?p = "prog + of_int i" and ?o = "out + of_int pi"
  show ?case
  proof (cases "pi < outSize - 1")
    case True
    then have n: "nat (outSize - pi) = Suc (nat (outSize - (pi + 1)))"
      "nat (outSize - 1 - pi) = Suc (nat (outSize - 1 - (pi + 1)))" by simp_all
    have sp: "span ?o (Suc (nat (outSize - (pi + 1)))) = insert ?o (span (?o + 1) (nat (outSize - (pi + 1))))"
      "span ?p (Suc (Suc (length cs))) = insert ?p (span (?p + 1) (Suc (length cs)))" by (rule span_Suc)+
    have dis: "?o \<notin> span (?p + 1) (Suc (length cs))"
      "span (?o + 1) (nat (outSize - (pi + 1))) \<inter> span (?p + 1) (Suc (length cs)) = {}"
      using Cons.prems(4) unfolding n list.size(4) add_Suc_right add_0_right One_nat_def sp by auto
    have str: "cstr (m(?o := c)) (prog + of_int (i + 1)) cs"
      using Cons.prems(1) cstr_update [OF dis(1), of m c] by (simp add: add.assoc)
    have "copy_bounded (m(?o := c)) prog out outSize (i + 1) (pi + 1) =
        (put_bytes (m(?o := c)) (out + of_int (pi + 1)) (take (nat (outSize - 1 - (pi + 1))) cs),
         pi + 1 + int (length (take (nat (outSize - 1 - (pi + 1))) cs)))"
      by (rule Cons.IH [OF str]) (use Cons.prems(2) dis(2) True in \<open>simp_all add: add.assoc\<close>)
    then show ?thesis using True Cons.prems(1)
      by (simp add: copy_bounded.simps [of m prog out outSize i pi] n(2) add.assoc)
  qed (use Cons.prems in \<open>simp add: copy_bounded.simps\<close>)
qed

lemma get_bytes_put_bytes_drop:
  assumes "length bs \<le> 2 ^ 32" "k + n = length bs"
  shows "get_bytes (put_bytes m a bs) (a + of_nat k) n = drop k bs"
proof (rule nth_equalityI)
  show "length (get_bytes (put_bytes m a bs) (a + of_nat k) n) = length (drop k bs)"
    using assms by (simp add: get_bytes_def)
  fix i assume "i < length (get_bytes (put_bytes m a bs) (a + of_nat k) n)"
  then have "i < n" by (simp add: get_bytes_def)
  then show "get_bytes (put_bytes m a bs) (a + of_nat k) n ! i = drop k bs ! i"
    using assms put_bytes_at [of bs "k + i" m a] by (simp add: get_bytes_def add.assoc)
qed

definition prog_path :: "u8 list \<Rightarrow> int \<Rightarrow> u8 list option" where
  "prog_path cs n =
     (if n \<le> 0 then None
      else if take 1 cs = [0x2F] then Some (take (nat (n - 1)) cs)
      else if n < 6 then None
      else let base = bin_prefix @ take (nat (n - 6)) cs in
        if suffix elf_ext base then Some base
        else if n \<le> int (length base) + 4 then None
        else Some (base @ elf_ext))"

lemma suffix_drop_iff: "k + length ys = length xs \<Longrightarrow> suffix ys xs \<longleftrightarrow> drop k xs = ys"
  by (auto simp: suffix_def intro: exI [of _ "take k xs"])

lemma put_string_end:
  "(put_bytes m a bs)(a + of_nat (length bs) := 0) = put_bytes m a (bs @ [0])"
  by (simp add: put_bytes_append)

lemma bin_prefix_len [simp]: "length bin_prefix = 5" "length elf_ext = 4"
  by (simp_all add: bin_prefix_def elf_ext_def)

lemma bin_prefix_no_nul: "0 \<notin> set bin_prefix" "0 \<notin> set elf_ext"
  by (simp_all add: bin_prefix_def elf_ext_def)

lemma put_string_ok:
  assumes "int (length bs) < n" "n < 2 ^ 31" "0 \<notin> set bs"
  shows "cstr (put_bytes m a (bs @ [0])) a bs"
    "x \<notin> span a (nat n) \<Longrightarrow> put_bytes m a (bs @ [0]) x = m x"
proof -
  show "cstr (put_bytes m a (bs @ [0])) a bs" by (rule cstr_put_bytes) (use assms in auto)
  have "span (a + of_nat 0) (length (bs @ [0 :: u8])) \<subseteq> span a (nat n)"
    by (rule span_shift_sub) (use assms in simp)
  then show "x \<notin> span a (nat n) \<Longrightarrow> put_bytes m a (bs @ [0]) x = m x"
    by (intro put_bytes_other) auto
qed

lemma build_absolute:
  assumes "cstr m prog (0x2F # cs)" "prog \<noteq> 0" "out \<noteq> 0" "0 < n" "n < 2 ^ 31" "length (0x2F # cs) < 2 ^ 32"
    "span out (nat n) \<inter> span prog (Suc (length (0x2F # cs))) = {}"
  defines "p \<equiv> take (nat (n - 1)) (0x2F # cs)"
  shows "kos_build_prog_path m prog out n = (put_bytes m out (p @ [0]), int (length p))"
proof -
  have "copy_bounded m prog out n 0 0 = (put_bytes m out p, int (length p))"
    using copy_bounded_spec [of m prog 0 "0x2F # cs" 0 n out] assms by (simp only: p_def) simp
  moreover have "m prog = 0x2F" using assms(1) by simp
  ultimately show ?thesis using assms(2-4)
    by (simp add: kos_build_prog_path_def put_bytes_append)
qed

lemma build_relative:
  assumes "cstr m prog cs" "prog \<noteq> 0" "out \<noteq> 0" "6 \<le> n" "n < 2 ^ 31" "length cs < 2 ^ 32"
    "take 1 cs \<noteq> [0x2F]" "span out (nat n) \<inter> span prog (Suc (length cs)) = {}"
  defines "base \<equiv> bin_prefix @ take (nat (n - 6)) cs"
  shows "kos_build_prog_path m prog out n =
    (if suffix elf_ext base then (put_bytes m out (base @ [0]), int (length base))
     else if n \<le> int (length base) + 4 then (put_bytes m out (base @ [0]), - 1)
     else (put_bytes m out ((base @ elf_ext) @ [0]), int (length (base @ elf_ext))))"
proof -
  let ?m = "put_bytes m out bin_prefix"
  have sub: "span (out + of_nat 0) 5 \<subseteq> span out (nat n)" "span (out + of_nat 5) (nat (n - 5)) \<subseteq> span out (nat n)"
    by (rule span_shift_sub; use assms(4) in simp)+
  have str: "cstr ?m (prog + of_int 0) cs"
  proof -
    have "?m x = m x" if "x \<in> span prog (Suc (length cs))" for x
      by (rule put_bytes_other) (use that sub(1) assms(8) in auto)
    then show ?thesis using cstr_cong [of prog cs ?m m] assms(1) by simp
  qed
  have "copy_bounded ?m prog out n 0 5 =
      (put_bytes ?m (out + of_int 5) (take (nat (n - 1 - 5)) cs), 5 + int (length (take (nat (n - 1 - 5)) cs)))"
    by (rule copy_bounded_spec [OF str]) (use sub(2) assms in auto)
  then have cp: "copy_bounded ?m prog out n 0 5 = (put_bytes m out base, int (length base))"
    by (simp add: base_def put_bytes_append)
  have len: "int (length base) < n" "5 \<le> length base" using assms(4) by (auto simp: base_def)
  define k where "k = length base - 4"
  have k: "k + 4 = length base" "int (length base) - 4 = int k" using len by (simp_all add: k_def)
  have ext: "get_bytes (put_bytes m out base) (out + of_int (int (length base) - 4)) 4 = elf_ext \<longleftrightarrow> suffix elf_ext base"
    using get_bytes_put_bytes_drop [of base k 4 m out] suffix_drop_iff [of k elf_ext base] k len assms(5)
    by simp
  have "m prog \<noteq> 0x2F" using assms(1,7) by (cases cs) auto
  then show ?thesis using assms(2-4) len ext
    by (auto simp: kos_build_prog_path_def cp put_bytes_append add.assoc Let_def)
qed


section \<open>Properties\<close>

text \<open>
  The three in-place splitters return on every NUL-terminated line: up to the limit there is one
  pointer per token, each to its token as a string of its own, and only characters of the line
  are overwritten. For the argument splitters the tokens are the words of the line, the maximal
  runs without separators; for the list splitter they end at commas and line ends.
\<close>

theorem split_correct:
  assumes "cstr m buf cs" and "length cs < 2 ^ 32" and "buf \<noteq> 0"
  shows "splits_into m buf cs (take (nat n) (words (\<lambda>c. is_space c) cs)) (split_args m buf n) \<and>
    (argv \<noteq> 0 \<longrightarrow> splits_into m buf cs (take (nat n) (words (\<lambda>c. is_space_cr c) cs)) (kos_split_args m buf argv n)) \<and>
    splits_into m buf cs (take (nat n) (toks (\<lambda>c. is_space c) (\<lambda>c. is_csv_stop c) (dropWhile (\<lambda>c. is_space_cr c) cs)))
      (split_csv m buf n) \<and>
    concat (words (\<lambda>c. is_space_cr c) cs) = filter (\<lambda>c. \<not> (is_space_cr c)) cs"
proof (intro conjI impI)
  show "splits_into m buf cs (take (nat n) (words (\<lambda>c. is_space c) cs)) (split_args m buf n)"
    unfolding split_args_def words_def by (rule split_from [OF assms(1,2)]) simp_all
  show "splits_into m buf cs (take (nat n) (words (\<lambda>c. is_space_cr c) cs)) (kos_split_args m buf argv n)" if "argv \<noteq> 0"
  proof (cases "n \<le> 0")
    case False
    with that assms(3) show ?thesis
      unfolding kos_split_args_def words_def using split_from [OF assms(1,2)] by simp
  qed (simp add: kos_split_args_def splits_into_def)
  show "splits_into m buf cs (take (nat n) (toks (\<lambda>c. is_space c) (\<lambda>c. is_csv_stop c) (dropWhile (\<lambda>c. is_space_cr c) cs)))
      (split_csv m buf n)"
    using assms(3) split_from [OF assms(1,2), of "\<lambda>c. is_space c" "\<lambda>c. is_space_cr c" n "\<lambda>c. is_csv_stop c"]
    by (simp add: split_csv_def)
  show "concat (words (\<lambda>c. is_space_cr c) cs) = filter (\<lambda>c. \<not> (is_space_cr c)) cs"
    by (rule words_runs)
qed

text \<open>A command line \<open>ls -l\<close> with two blanks between the words.\<close>

definition demo_line :: "u8 list" where "demo_line = [0x6C, 0x73, 0x20, 0x20, 0x2D, 0x6C]"

lemma demo_line_str: "cstr (put_bytes (\<lambda>_. 0) 0x1000 demo_line) 0x1000 demo_line"
  by (simp add: demo_line_def)

lemma demo_line_words: "words (\<lambda>c. is_space_cr c) demo_line = [[0x6C, 0x73], [0x2D, 0x6C]]"
  by (simp add: words_def demo_line_def)

theorem split_correct_witness:
  "\<exists>m' p q. kos_split_args (put_bytes (\<lambda>_. 0) 0x1000 demo_line) 0x1000 0x3000 8 = Some (m', [p, q]) \<and>
    cstr m' p [0x6C, 0x73] \<and> cstr m' q [0x2D, 0x6C]"
proof -
  have "splits_into (put_bytes (\<lambda>_. 0) 0x1000 demo_line) 0x1000 demo_line
      (take (nat 8) (words (\<lambda>c. is_space_cr c) demo_line)) (kos_split_args (put_bytes (\<lambda>_. 0) 0x1000 demo_line) 0x1000 0x3000 8)"
    using split_correct [OF demo_line_str, where argv = "0x3000" and n = 8] by (simp add: demo_line_def)
  then show ?thesis unfolding demo_line_words splits_into_def
    by (auto simp: list_all2_Cons2)
qed



end
