(* ===== verification/KOS_CompilerRT.thy ===== *)
theory KOS_CompilerRT
  imports KOS_Prelude "HOL-Library.Signed_Division"
begin

unbundle bit_operations_syntax

text \<open>
  The 64-bit division routines that compiled code calls on a 32-bit processor
  (\<^verbatim>\<open>src/lib/compiler_rt.cpp\<close>; \<open>udivdi3\<close> is \<^verbatim>\<open>__udivdi3\<close> and so on). The core is restoring division, one
  bit of the quotient per step; signed division takes absolute values and restores the signs.
  Signed values are words read by \<^const>\<open>sint\<close>. The theorem compares all four routines with the
  division of the integers, for every input including zero divisors and the most negative
  number.
\<close>

section \<open>Operations\<close>

text \<open>One round of the loop for bit \<open>i\<close>, on quotient and remainder.\<close>

definition udiv64_step :: "u64 \<Rightarrow> u64 \<Rightarrow> nat \<Rightarrow> u64 \<times> u64 \<Rightarrow> u64 \<times> u64" where
  "udiv64_step n d i = (\<lambda>(q, r).
     let r1 = push_bit 1 r OR (drop_bit i n AND 1)
     in if r1 \<ge> d then (q OR push_bit i 1, r1 - d) else (q, r1))"

primrec udiv64_loop :: "u64 \<Rightarrow> u64 \<Rightarrow> nat \<Rightarrow> u64 \<times> u64 \<Rightarrow> u64 \<times> u64" where
  "udiv64_loop n d 0 qr = qr"
| "udiv64_loop n d (Suc i) qr = udiv64_loop n d i (udiv64_step n d i qr)"

definition udiv64_core :: "u64 \<Rightarrow> u64 \<Rightarrow> u64 \<times> u64" where
  "udiv64_core n d = (if d = 0 then (0, 0) else udiv64_loop n d 64 (0, 0))"

definition abs_to_u64 :: "u64 \<Rightarrow> u64" where
  "abs_to_u64 v = (if sint v < 0 then NOT v + 1 else v)"

definition udivdi3 :: "u64 \<Rightarrow> u64 \<Rightarrow> u64" where
  "udivdi3 n d = fst (udiv64_core n d)"

definition divdi3 :: "u64 \<Rightarrow> u64 \<Rightarrow> u64" where
  "divdi3 a b =
     (if b = 0 then 0
      else
        (let neg = ((sint a < 0) \<noteq> (sint b < 0));
             uq = fst (udiv64_core (abs_to_u64 a) (abs_to_u64 b))
         in if neg then NOT uq + 1 else uq))"

definition umoddi3 :: "u64 \<Rightarrow> u64 \<Rightarrow> u64" where
  "umoddi3 n d = snd (udiv64_core n d)"

definition moddi3 :: "u64 \<Rightarrow> u64 \<Rightarrow> u64" where
  "moddi3 a b =
     (if b = 0 then 0
      else
        (let ur = snd (udiv64_core (abs_to_u64 a) (abs_to_u64 b))
         in if sint a < 0 then NOT ur + 1 else ur))"

section \<open>Restoring division\<close>

text \<open>
  Before the round for bit \<open>i\<close> the pair holds quotient and remainder of the dividend without its low
  \<open>i + 1\<close> bits. The remainder is at most that shortened dividend, so doubling it does not wrap.
\<close>

definition div_state :: "u64 \<Rightarrow> u64 \<Rightarrow> nat \<Rightarrow> u64 \<times> u64 \<Rightarrow> bool" where
  "div_state n d i = (\<lambda>(q, r).
     unat r = unat n div 2 ^ i mod unat d \<and> unat q = unat n div 2 ^ i div unat d * 2 ^ i)"

lemma shift_in_bit:
  assumes "unat (r :: u64) < 2 ^ 63"
  shows "unat (push_bit 1 r OR of_bool c) = 2 * unat r + of_bool c"
proof -
  have p: "unat (push_bit 1 r) = 2 * unat r"
    using assms by (simp add: push_bit_eq_mult unat_mult_nowrap)
  have "push_bit 1 r OR of_bool c = push_bit 1 r + of_bool c"
    by (rule disjunctive_add [symmetric]) (auto simp: bit_simps bit_0)
  then show ?thesis using assms p by (simp add: unat_add_nowrap)
qed

lemma set_quotient_bit:
  assumes "unat (q :: u64) = c * 2 ^ Suc i" and "i < 64"
  shows "unat (q OR push_bit i 1) = (2 * c + 1) * 2 ^ i"
proof -
  have z: "\<not> bit q k" if "k \<le> i" for k
  proof -
    have "unat q = (c * 2 ^ (Suc i - k)) * 2 ^ k"
      using that assms(1) by (simp flip: power_add)
    then have "unat q div 2 ^ k = c * 2 ^ (Suc i - k)" by simp
    then have "\<not> bit (unat q) k" using that by (simp add: bit_iff_odd)
    then show ?thesis by (simp add: bit_unsigned_iff)
  qed
  have o: "q OR push_bit i 1 = q + push_bit i 1"
    by (rule disjunctive_add [symmetric]) (auto simp: bit_simps z)
  have p: "unat (push_bit i (1 :: u64)) = 2 ^ i"
    using assms(2) power_strict_increasing [of i 64 "2 :: nat"]
    by (simp add: unsigned_push_bit_eq take_bit_eq_mod del: push_bit_of_1)
  have b: "c * 2 ^ Suc i + 2 ^ i < (2 :: nat) ^ 64"
  proof -
    have e: "(2 :: nat) ^ 64 = 2 ^ (63 - i) * 2 ^ Suc i"
      using assms(2) by (simp flip: power_add power_Suc)
    have "c * 2 ^ Suc i < 2 ^ (63 - i) * 2 ^ Suc i"
      using u64_less_limit [of q] by (simp only: assms(1) flip: e) simp
    then have "c < 2 ^ (63 - i)" by simp
    then have "(c + 1) * 2 ^ Suc i \<le> 2 ^ (63 - i) * 2 ^ Suc i" by (intro mult_le_mono1) simp
    then have "(c + 1) * 2 ^ Suc i \<le> 2 ^ 64" by (simp only: e)
    moreover have "c * 2 ^ Suc i + 2 ^ i < (c + 1) * 2 ^ Suc i" by simp
    ultimately show ?thesis by linarith
  qed
  have "unat (q + push_bit i 1) = c * 2 ^ Suc i + 2 ^ i"
    using unat_add_nowrap [of q "push_bit i 1"] b by (simp only: assms(1) p) simp
  then show ?thesis by (simp only: o) simp
qed

lemma restore_step:
  fixes B A d :: nat
  assumes "B = 2 * A + b" "b < 2" "0 < d"
  shows "2 * (A mod d) + b \<ge> d \<Longrightarrow> B div d = 2 * (A div d) + 1 \<and> B mod d = 2 * (A mod d) + b - d"
    and "2 * (A mod d) + b < d \<Longrightarrow> B div d = 2 * (A div d) \<and> B mod d = 2 * (A mod d) + b"
proof -
  have B: "B = 2 * (A div d) * d + (2 * (A mod d) + b)"
    using assms(1) div_mult_mod_eq [of A d] by (metis add.assoc add_mult_distrib2 mult.assoc)
  have m: "A mod d < d" using assms(3) by simp
  { assume g: "2 * (A mod d) + b \<ge> d"
    have "B = (2 * (A div d) + 1) * d + (2 * (A mod d) + b - d)" using B g by (simp add: algebra_simps)
    moreover have "2 * (A mod d) + b - d < d" using m assms(2) by linarith
    ultimately show "B div d = 2 * (A div d) + 1 \<and> B mod d = 2 * (A mod d) + b - d"
      by (metis add.right_neutral assms(3) div_less div_mult_self3 less_not_refl3 mod_less mod_mult_self3) }
  { assume "2 * (A mod d) + b < d"
    with B show "B div d = 2 * (A div d) \<and> B mod d = 2 * (A mod d) + b"
      by (metis add.right_neutral assms(3) div_less div_mult_self3 less_not_refl3 mod_less mod_mult_self3) }
qed

lemma udiv64_step_state:
  assumes st: "div_state n d (Suc i) qr" and i: "i < 64" and d: "d \<noteq> 0"
  shows "div_state n d i (udiv64_step n d i qr)"
proof -
  obtain q r where qr: "qr = (q, r)" by (cases qr)
  define A b where "A = unat n div 2 ^ Suc i" and "b = bit n i"
  have r: "unat r = A mod unat d" and q: "unat q = A div unat d * 2 ^ Suc i"
    using st by (simp_all add: qr div_state_def A_def)
  have B: "unat n div 2 ^ i = 2 * A + of_bool b"
  proof -
    have "A = unat n div 2 ^ i div 2" by (simp add: A_def mult.commute flip: div_mult2_eq)
    moreover have "b = odd (unat n div 2 ^ i)"
      using i by (simp add: b_def bit_unsigned_iff flip: bit_iff_odd)
    ultimately show ?thesis by (simp flip: mod_2_eq_odd)
  qed
  have d0: "0 < unat d" using d by (simp add: unat_gt_0)
  have "unat r < 2 ^ 63"
  proof -
    have "A \<le> unat n div 2" unfolding A_def by (rule div_le_mono2) simp_all
    moreover have "unat r \<le> A" by (simp add: r)
    ultimately show ?thesis using u64_less_limit [of n] by simp
  qed
  moreover have "drop_bit i n AND 1 = of_bool b"
    by (simp add: b_def and_one_eq bit_iff_odd_drop_bit flip: mod_2_eq_odd)
  ultimately have r1: "unat (push_bit 1 r OR (drop_bit i n AND 1)) = 2 * (A mod unat d) + of_bool b"
    by (simp only: shift_in_bit r)
  note R = restore_step [OF B _ d0]
  show ?thesis
    using R q r1 set_quotient_bit [OF q i]
    by (auto simp: udiv64_step_def div_state_def qr Let_def word_le_nat_alt unat_sub_nowrap)
qed

lemma udiv64_loop_state:
  "div_state n d i qr \<Longrightarrow> i \<le> 64 \<Longrightarrow> d \<noteq> 0 \<Longrightarrow> div_state n d 0 (udiv64_loop n d i qr)"
  by (induction i arbitrary: qr) (simp_all add: udiv64_step_state)

lemma udiv64_core_eq: "d \<noteq> 0 \<Longrightarrow> udiv64_core n d = (n div d, n mod d)"
proof -
  assume d: "d \<noteq> 0"
  have "div_state n d 64 (0, 0)" using u64_less_limit [of n] by (simp add: div_state_def)
  then have "div_state n d 0 (udiv64_loop n d 64 (0, 0))" by (rule udiv64_loop_state) (simp_all add: d)
  then show ?thesis
    using d by (auto simp: udiv64_core_def div_state_def word_unat_eq_iff unat_div unat_mod split: prod.splits)
qed

section \<open>Signs\<close>

lemma not_plus_1: "NOT v + 1 = - (v :: u64)"
  by (simp add: minus_eq_not_plus_1)

lemma sint_eq_0_iff: "sint (v :: u64) = 0 \<longleftrightarrow> v = 0"
  by (rule signed_eq_0_iff)

lemma abs_to_u64_eq: "abs_to_u64 v = word_of_int \<bar>sint v\<bar>"
  by (simp add: abs_to_u64_def not_plus_1)

lemma abs_to_u64_uint: "uint (abs_to_u64 v) = \<bar>sint v\<bar>"
proof -
  have "\<bar>sint v\<bar> < 2 ^ 64" using sint_ge [of v] sint_lt [of v] by simp
  then show ?thesis by (simp add: abs_to_u64_eq unsigned_of_int take_bit_eq_mod)
qed

lemma abs_to_u64_zero: "abs_to_u64 v = 0 \<longleftrightarrow> v = 0"
  by (metis abs_to_u64_uint abs_eq_0 sint_eq_0_iff uint_0_iff)

lemma abs_quotient:
  assumes "b \<noteq> 0"
  shows "fst (udiv64_core (abs_to_u64 a) (abs_to_u64 b)) = word_of_int (\<bar>sint a\<bar> div \<bar>sint b\<bar>)"
    and "snd (udiv64_core (abs_to_u64 a) (abs_to_u64 b)) = word_of_int (\<bar>sint a\<bar> mod \<bar>sint b\<bar>)"
proof -
  have "udiv64_core (abs_to_u64 a) (abs_to_u64 b) = (abs_to_u64 a div abs_to_u64 b, abs_to_u64 a mod abs_to_u64 b)"
    using assms by (simp add: udiv64_core_eq abs_to_u64_zero)
  then show "fst (udiv64_core (abs_to_u64 a) (abs_to_u64 b)) = word_of_int (\<bar>sint a\<bar> div \<bar>sint b\<bar>)"
    and "snd (udiv64_core (abs_to_u64 a) (abs_to_u64 b)) = word_of_int (\<bar>sint a\<bar> mod \<bar>sint b\<bar>)"
    by (simp_all add: word_div_def word_mod_def abs_to_u64_uint)
qed

lemma sdiv_sign:
  "(x :: int) sdiv y = (if (x < 0) \<noteq> (y < 0) then - (\<bar>x\<bar> div \<bar>y\<bar>) else \<bar>x\<bar> div \<bar>y\<bar>)"
  by (cases "x = 0"; cases "y = 0") (simp_all add: signed_divide_int_def sgn_if)

lemma smod_sign: "(x :: int) smod y = (if x < 0 then - (\<bar>x\<bar> mod \<bar>y\<bar>) else \<bar>x\<bar> mod \<bar>y\<bar>)"
  by (cases "x = 0") (simp_all add: signed_modulo_int_def sgn_if)

text \<open>
  C14. The four division routines agree with the division of the numbers. Unsigned quotient
  and remainder are those of the words. Signed division truncates towards zero and the
  remainder has the sign of the dividend; the one quotient that does not fit, of the most
  negative number by -1, wraps. Division by zero gives 0 in all four.
\<close>

theorem division_correct:
  "udivdi3 n d = n div d \<and> umoddi3 n d = (if d = 0 then 0 else n mod d) \<and>
   divdi3 a b = word_of_int (sint a sdiv sint b) \<and>
   moddi3 a b = (if b = 0 then 0 else word_of_int (sint a smod sint b))"
proof (intro conjI)
  show "udivdi3 n d = n div d"
    by (cases "d = 0") (simp_all add: udivdi3_def udiv64_core_eq udiv64_core_def [of n 0])
  show "umoddi3 n d = (if d = 0 then 0 else n mod d)"
    by (simp add: umoddi3_def udiv64_core_eq udiv64_core_def [of n 0])
  show "divdi3 a b = word_of_int (sint a sdiv sint b)"
    by (simp add: divdi3_def Let_def abs_quotient not_plus_1 sdiv_sign)
  show "moddi3 a b = (if b = 0 then 0 else word_of_int (sint a smod sint b))"
    by (simp add: moddi3_def Let_def abs_quotient not_plus_1 smod_sign)
qed

end
