(* ===== verification/KOS_Input.thy ===== *)
theory KOS_Input
  imports KOS_Prelude
begin

text \<open>
  The input event queue, \<^verbatim>\<open>src/input/event_queue.cpp\<close> with \<^verbatim>\<open>include/input/event_queue.hpp\<close>: a ring of 256
  events that the drivers fill and the window manager empties. The locale \<open>bounded_queue\<close> is the
  contract of such a queue, with the order of events over any sequence of calls; the ring
  meets it. The last section has the calls of an interrupt handler in the middle of \<^verbatim>\<open>Dequeue\<close>.
\<close>

section \<open>Data\<close>

datatype EventType = KeyPress | KeyRelease | MouseMove | MousePress | MouseRelease | MouseEnter
  | MouseLeave | MouseScroll

text \<open>The union of the event data has one case per member.\<close>

datatype event_data = key_data (key_code: u32) (modifiers: u32)
  | mouse_data (mouse_x: u32) (mouse_y: u32) (buttons: u8)
  | scroll_data (scroll_dx: u32) (scroll_dy: u32)

record InputEvent =
  ev_type :: EventType
  timestamp_ms :: u32
  target_window :: u32
  ev_data :: event_data

record InputEventQueue =
  ring :: "u32 \<Rightarrow> InputEvent"
  write_idx :: u32
  read_idx :: u32
  ev_count :: u32

definition MAX_EVENTS :: u32 where "MAX_EVENTS = 256"

section \<open>Operations\<close>

definition InputEventQueue_new :: "(u32 \<Rightarrow> InputEvent) \<Rightarrow> InputEventQueue" where
  "InputEventQueue_new junk = \<lparr>ring = junk, write_idx = 0, read_idx = 0, ev_count = 0\<rparr>"

definition Enqueue :: "InputEvent \<Rightarrow> InputEventQueue \<Rightarrow> InputEventQueue \<times> bool" where
  "Enqueue event q =
     (if ev_count q \<ge> MAX_EVENTS then (q, False)
      else (q\<lparr>ring := (ring q)(write_idx q := event),
              write_idx := (write_idx q + 1) mod MAX_EVENTS,
              ev_count := ev_count q + 1\<rparr>, True))"

text \<open>The event stored through the reference parameter is the value of the result.\<close>

definition Dequeue :: "InputEventQueue \<Rightarrow> InputEventQueue \<times> InputEvent option" where
  "Dequeue q =
     (if ev_count q = 0 then (q, None)
      else (q\<lparr>read_idx := (read_idx q + 1) mod MAX_EVENTS, ev_count := ev_count q - 1\<rparr>,
            Some (ring q (read_idx q))))"

definition Count :: "InputEventQueue \<Rightarrow> u32" where
  "Count q = ev_count q"

definition Clear :: "InputEventQueue \<Rightarrow> InputEventQueue" where
  "Clear q = q\<lparr>read_idx := 0, write_idx := 0, ev_count := 0\<rparr>"

section \<open>The contract of a bounded queue\<close>

text \<open>
  \<open>pending\<close> is the list of stored items, oldest first. A trace of calls is a list of \<open>Some x\<close>
  (store \<open>x\<close>) and \<open>None\<close> (take one); \<open>run\<close> yields the stored and the taken items.
\<close>

locale bounded_queue =
  fixes enq :: "'e \<Rightarrow> 'q \<Rightarrow> 'q \<times> bool"
    and deq :: "'q \<Rightarrow> 'q \<times> 'e option"
    and pending :: "'q \<Rightarrow> 'e list"
    and inv :: "'q \<Rightarrow> bool"
    and cap :: nat
  assumes enq_room: "inv q \<Longrightarrow> length (pending q) < cap \<Longrightarrow>
      snd (enq e q) \<and> inv (fst (enq e q)) \<and> pending (fst (enq e q)) = pending q @ [e]"
    and enq_full: "inv q \<Longrightarrow> \<not> length (pending q) < cap \<Longrightarrow> enq e q = (q, False)"
    and deq_some: "inv q \<Longrightarrow> pending q = e # es \<Longrightarrow>
      snd (deq q) = Some e \<and> inv (fst (deq q)) \<and> pending (fst (deq q)) = es"
    and deq_none: "inv q \<Longrightarrow> pending q = [] \<Longrightarrow> deq q = (q, None)"
    and bounded: "inv q \<Longrightarrow> length (pending q) \<le> cap"
begin

lemma enq_accepts: "inv q \<Longrightarrow> snd (enq e q) \<longleftrightarrow> length (pending q) < cap"
  using enq_room enq_full by fastforce

lemma enq_inv: "inv q \<Longrightarrow> inv (fst (enq e q))"
  using enq_room enq_full by (metis fst_conv)

lemma deq_inv: "inv q \<Longrightarrow> inv (fst (deq q))"
  using deq_some deq_none by (metis fst_conv neq_Nil_conv)

lemma deq_order:
  assumes "inv q"
  shows "(case snd (deq q) of None \<Rightarrow> [] | Some e \<Rightarrow> [e]) @ pending (fst (deq q)) = pending q"
proof (cases "pending q")
  case Nil
  with assms show ?thesis by (simp add: deq_none)
next
  case (Cons e es)
  with assms show ?thesis using deq_some by fastforce
qed

lemma enq_order:
  assumes "inv q"
  shows "pending (fst (enq e q)) = pending q @ (if snd (enq e q) then [e] else [])"
  using assms enq_room [of q e] enq_full [of q e] by (cases "length (pending q) < cap") auto

end

primrec queue_run ::
  "('e \<Rightarrow> 'q \<Rightarrow> 'q \<times> bool) \<Rightarrow> ('q \<Rightarrow> 'q \<times> 'e option) \<Rightarrow> 'e option list \<Rightarrow> 'q \<Rightarrow> 'q \<times> 'e list \<times> 'e list" where
  "queue_run enq deq [] q = (q, [], [])"
| "queue_run enq deq (c # cs) q =
     (case c of
        Some e \<Rightarrow>
          (let (q1, ok) = enq e q; (q2, ins, outs) = queue_run enq deq cs q1
           in (q2, (if ok then e # ins else ins), outs))
      | None \<Rightarrow>
          (let (q1, r) = deq q; (q2, ins, outs) = queue_run enq deq cs q1
           in (q2, ins, (case r of None \<Rightarrow> outs | Some e \<Rightarrow> e # outs))))"

context bounded_queue
begin

lemma run_order:
  "inv q \<Longrightarrow> queue_run enq deq cs q = (q', ins, outs) \<Longrightarrow>
     inv q' \<and> outs @ pending q' = pending q @ ins \<and> length (pending q') \<le> cap"
proof (induction cs arbitrary: q q' ins outs)
  case Nil
  then show ?case by (simp add: bounded)
next
  case (Cons c cs)
  show ?case
  proof (cases c)
    case (Some e)
    obtain q1 ok where 1: "enq e q = (q1, ok)" by (cases "enq e q")
    obtain is' where 2: "queue_run enq deq cs q1 = (q', is', outs)" "ins = (if ok then e # is' else is')"
      using Cons.prems(2) Some 1 by (auto split: prod.splits if_splits)
    have "inv q1" using enq_inv [OF Cons.prems(1), of e] 1 by simp
    from Cons.IH [OF this 2(1)] show ?thesis
      using enq_order [OF Cons.prems(1), of e] 1 2(2) by simp
  next
    case None
    obtain q1 r where 1: "deq q = (q1, r)" by (cases "deq q")
    obtain os where 2: "queue_run enq deq cs q1 = (q', ins, os)" "outs = (case r of None \<Rightarrow> os | Some e \<Rightarrow> e # os)"
      using Cons.prems(2) None 1 by (auto split: prod.splits)
    have "inv q1" using deq_inv [OF Cons.prems(1)] 1 by simp
    from Cons.IH [OF this 2(1)] show ?thesis
      using deq_order [OF Cons.prems(1)] 1 2(2) by (auto split: option.splits)
  qed
qed

end

section \<open>The ring as a bounded queue\<close>

abbreviation slot :: "nat \<Rightarrow> u32" where "slot k \<equiv> of_nat (k mod 256)"

definition events :: "InputEventQueue \<Rightarrow> InputEvent list" where
  "events q = map (\<lambda>i. ring q (slot (unat (read_idx q) + i))) [0..<unat (ev_count q)]"

definition ring_ok :: "InputEventQueue \<Rightarrow> bool" where
  "ring_ok q \<longleftrightarrow> read_idx q < MAX_EVENTS \<and> ev_count q \<le> MAX_EVENTS \<and>
     write_idx q = slot (unat (read_idx q) + unat (ev_count q))"

lemma unat_slot: "unat (slot k) = k mod 256"
  using mod_less_divisor [of 256 k] by (simp add: unsigned_of_nat take_bit_eq_mod)

lemma slot_inject: "slot i = slot j \<longleftrightarrow> i mod 256 = j mod 256"
  by (metis unat_slot)

lemma next_slot: "(slot k + 1) mod MAX_EVENTS = slot (k + 1)"
proof (rule unat_eqI)
  have "unat (slot k + 1) = k mod 256 + 1"
    by (subst unat_add_nowrap) (simp_all add: unat_slot trans_less_add2 less_trans [OF mod_less_divisor])
  then show "unat ((slot k + 1) mod MAX_EVENTS) = unat (slot (k + 1))"
    by (simp add: unat_mod unat_slot MAX_EVENTS_def mod_simps)
qed

lemma read_slot: "ring_ok q \<Longrightarrow> read_idx q = slot (unat (read_idx q))"
  by (simp add: ring_ok_def MAX_EVENTS_def word_less_nat_alt)

lemma slot_free:
  assumes "i < n" "n < 256"
  shows "slot (r + n) \<noteq> slot (r + i)"
proof
  assume "slot (r + n) = slot (r + i)"
  then have "256 dvd (r + n) - (r + i)" using assms(1) by (simp add: slot_inject mod_eq_dvd_iff_nat)
  with assms show False by (auto dest: dvd_imp_le)
qed

lemma Enqueue_room:
  assumes "ring_ok q" "length (events q) < 256"
  shows "snd (Enqueue e q) \<and> ring_ok (fst (Enqueue e q)) \<and> events (fst (Enqueue e q)) = events q @ [e]"
proof -
  let ?n = "unat (ev_count q)" and ?r = "unat (read_idx q)"
  have n: "?n < 256" using assms(2) by (simp add: events_def)
  then have c: "\<not> ev_count q \<ge> MAX_EVENTS" by (simp add: MAX_EVENTS_def word_le_nat_alt)
  have u: "unat (ev_count q + 1) = ?n + 1" using n by (simp add: unat_add_nowrap)
  have w: "write_idx q = slot (?r + ?n)" using assms(1) by (simp add: ring_ok_def)
  have "events (fst (Enqueue e q)) = events q @ [e]"
    using c n by (auto simp: Enqueue_def events_def u w dest!: slot_free [of _ ?n ?r] not_sym)
  moreover have "ring_ok (fst (Enqueue e q))"
    using assms(1) c n by (simp add: Enqueue_def ring_ok_def u next_slot w add.assoc)
      (simp add: MAX_EVENTS_def word_le_nat_alt u)
  ultimately show ?thesis using c by (simp add: Enqueue_def)
qed

lemma Dequeue_some:
  assumes "ring_ok q" "events q = e # es"
  shows "snd (Dequeue q) = Some e \<and> ring_ok (fst (Dequeue q)) \<and> events (fst (Dequeue q)) = es"
proof -
  let ?n = "unat (ev_count q)" and ?r = "unat (read_idx q)"
  have n: "?n = Suc (length es)" using assms(2) by (metis events_def length_Cons length_map length_upt minus_nat.diff_0)
  then have c: "ev_count q \<noteq> 0" by auto
  have u: "unat (ev_count q - 1) = length es" using n by (simp add: unat_sub_nowrap)
  have x: "[0..<?n] = 0 # map Suc [0..<length es]" by (simp add: n map_Suc_upt upt_conv_Cons del: upt_Suc)
  have e: "e = ring q (read_idx q)" "es = map (\<lambda>i. ring q (slot (?r + Suc i))) [0..<length es]"
    using assms read_slot by (auto simp: events_def x comp_def)
  have a: "(read_idx q + 1) mod MAX_EVENTS = slot (?r + 1)"
    by (metis assms(1) next_slot read_slot)
  have "events (fst (Dequeue q)) = es"
    using c e(2) by (simp add: Dequeue_def events_def u a unat_slot mod_simps)
  moreover have "ring_ok (fst (Dequeue q))"
    using assms(1) c n by (simp add: Dequeue_def ring_ok_def a u unat_slot mod_simps)
      (simp add: MAX_EVENTS_def word_le_nat_alt word_less_nat_alt u unat_slot)
  ultimately show ?thesis using c e(1) by (simp add: Dequeue_def)
qed

interpretation evq: bounded_queue Enqueue Dequeue events ring_ok 256
proof
  fix q e
  assume q: "ring_ok q"
  show "length (events q) \<le> 256"
    using q by (simp add: events_def ring_ok_def MAX_EVENTS_def word_le_nat_alt)
  show "Enqueue e q = (q, False)" if "\<not> length (events q) < 256"
    using q that by (simp add: events_def Enqueue_def MAX_EVENTS_def word_le_nat_alt)
  show "Dequeue q = (q, None)" if "events q = []"
    using that by (simp add: events_def Dequeue_def unat_eq_0)
qed (rule Enqueue_room Dequeue_some; assumption)+


text \<open>
  C24. Over any sequence of Enqueue and Dequeue calls, in any order and with calls that find
  the ring full or empty, the events delivered followed by those still stored are the events stored at the
  start followed by those accepted: nothing is lost, duplicated or reordered. At most 256 events
  are stored, and Count is their number.
\<close>

theorem InputEventQueue_fifo:
  assumes "ring_ok q" and "queue_run Enqueue Dequeue cs q = (q', ins, outs)"
  shows "ring_ok q' \<and> outs @ events q' = events q @ ins \<and> unat (Count q') = length (events q') \<and>
    length (events q') \<le> 256"
  using evq.run_order [OF assms] by (simp_all add: Count_def events_def)

definition demo_event :: "u32 \<Rightarrow> InputEvent" where
  "demo_event k = \<lparr>ev_type = KeyPress, timestamp_ms = k, target_window = 0, ev_data = key_data k 0\<rparr>"

definition demo_ring :: InputEventQueue where
  "demo_ring = \<lparr>ring = demo_event, write_idx = 1, read_idx = 255, ev_count = 2\<rparr>"

theorem InputEventQueue_fifo_witness:
  "\<exists>q'. queue_run Enqueue Dequeue [None, Some (demo_event 7), None, None, None] demo_ring =
       (q', [demo_event 7], [demo_event 255, demo_event 0, demo_event 7]) \<and> events q' = [] \<and> Count q' = 0"
proof -
  have ok: "ring_ok demo_ring" by (simp add: ring_ok_def demo_ring_def MAX_EVENTS_def)
  have ev: "events demo_ring = [demo_event 255, demo_event 0]"
    by (simp add: events_def demo_ring_def upt_rec)
  obtain q' where r: "queue_run Enqueue Dequeue [None, Some (demo_event 7), None, None, None] demo_ring =
       (q', [demo_event 7], [demo_event 255, demo_event 0, demo_event 7])"
    by (simp add: Enqueue_def Dequeue_def demo_ring_def MAX_EVENTS_def word_le_nat_alt)
  from InputEventQueue_fifo [OF ok r] r ev show ?thesis by (auto simp: unat_eq_0)
qed

lemma Clear_events: "events (Clear q) = [] \<and> ring_ok (Clear q)" "events (InputEventQueue_new f) = [] \<and> ring_ok (InputEventQueue_new f)"
  by (simp_all add: Clear_def InputEventQueue_new_def events_def ring_ok_def MAX_EVENTS_def)

section \<open>Events that arrive during Dequeue\<close>

text \<open>
  The header says that the queue is safe for one producer, which may be an interrupt handler, and one
  consumer. \<open>Dequeue_irq\<close> is \<^verbatim>\<open>Dequeue\<close> in its single accesses to the queue, with the events that an
  interrupt handler stores after the test, after the event is read, after the read index moves, and
  between the load and the store of \<^verbatim>\<open>--count_\<close>.
\<close>

definition irq :: "InputEvent list \<Rightarrow> InputEventQueue \<Rightarrow> InputEventQueue" where
  "irq es q = fold (\<lambda>e q. fst (Enqueue e q)) es q"

definition Dequeue_irq ::
  "InputEvent list \<Rightarrow> InputEvent list \<Rightarrow> InputEvent list \<Rightarrow> InputEvent list \<Rightarrow> InputEventQueue \<Rightarrow>
   InputEventQueue \<times> InputEvent option" where
  "Dequeue_irq es1 es2 es3 es4 q =
     (if ev_count q = 0 then (q, None)
      else
        (let q1 = irq es1 q;
             out_event = ring q1 (read_idx q1);
             q2 = irq es2 q1;
             q3 = q2\<lparr>read_idx := (read_idx q2 + 1) mod MAX_EVENTS\<rparr>;
             q4 = irq es3 q3;
             c = ev_count q4;
             q5 = irq es4 q4
         in (q5\<lparr>ev_count := c - 1\<rparr>, Some out_event)))"


lemma irq_append: "irq es2 (irq es1 q) = irq (es1 @ es2) q"
  by (simp add: irq_def)

lemma Enqueue_read: "fst (Enqueue e (q\<lparr>read_idx := r\<rparr>)) = (fst (Enqueue e q))\<lparr>read_idx := r\<rparr>"
  by (simp add: Enqueue_def)

lemma Enqueue_read_idx: "read_idx (fst (Enqueue e q)) = read_idx q"
  by (simp add: Enqueue_def)

lemma irq_read: "irq es (q\<lparr>read_idx := r\<rparr>) = (irq es q)\<lparr>read_idx := r\<rparr>" "read_idx (irq es q) = read_idx q"
  by (induction es arbitrary: q) (simp_all add: irq_def Enqueue_read Enqueue_read_idx)

lemma irq_events: "ring_ok q \<Longrightarrow> ring_ok (irq es q) \<and> (\<exists>xs. events (irq es q) = events q @ xs)"
proof (induction es arbitrary: q)
  case Nil
  then show ?case by (simp add: irq_def)
next
  case (Cons e es)
  have "irq (e # es) q = irq es (fst (Enqueue e q))" by (simp add: irq_def)
  then show ?case
    using Cons.IH [OF evq.enq_inv [OF Cons.prems]] evq.enq_order [OF Cons.prems, of e] by (metis append.assoc)
qed

lemma oldest_event: "ring_ok q \<Longrightarrow> events q \<noteq> [] \<Longrightarrow> ev_count q \<noteq> 0 \<and> ring q (read_idx q) = hd (events q)"
  using Dequeue_some [of q "hd (events q)" "tl (events q)"] by (auto simp: Dequeue_def split: if_splits)

lemma irq_oldest:
  assumes "ring_ok q" "events q \<noteq> []"
  shows "ev_count (irq es q) \<noteq> 0" and "ring (irq es q) (read_idx q) = hd (events q)"
  using oldest_event [of "irq es q"] irq_events [OF assms(1), of es] assms(2) by (auto simp: irq_read)

lemma Dequeue_irq_eq:
  assumes "ring_ok q" "events q \<noteq> []"
  shows "Dequeue_irq es1 es2 es3 es4 q =
    (let q4 = irq (es1 @ es2 @ es3) q; r = (read_idx q + 1) mod MAX_EVENTS
     in ((irq es4 q4)\<lparr>read_idx := r, ev_count := ev_count q4 - 1\<rparr>, Some (hd (events q))))"
  using oldest_event [OF assms] irq_oldest [OF assms]
  by (simp add: Dequeue_irq_def Let_def irq_read irq_append)

lemma Dequeue_lost_update:
  fixes e :: InputEvent
  assumes "ring_ok q" "events q \<noteq> []" "length (events q) < 256"
  defines "q' \<equiv> (fst (Enqueue e q))\<lparr>read_idx := (read_idx q + 1) mod MAX_EVENTS, ev_count := ev_count q - 1\<rparr>"
  shows "events q' = events (fst (Dequeue q))" and "\<not> ring_ok q'"
proof -
  let ?n = "unat (ev_count q)" and ?r = "unat (read_idx q)"
  have n: "?n < 256" "0 < ?n" using assms(2,3) by (auto simp: events_def)
  then have c: "\<not> ev_count q \<ge> MAX_EVENTS" by (simp add: MAX_EVENTS_def word_le_nat_alt)
  have u: "unat (ev_count q - 1) = ?n - 1" using n by (simp add: unat_sub_nowrap)
  have w: "write_idx q = slot (?r + ?n)" using assms(1) by (simp add: ring_ok_def)
  have a: "(read_idx q + 1) mod MAX_EVENTS = slot (?r + 1)"
    by (metis assms(1) next_slot read_slot)
  have ne: "slot (Suc (?r + i)) \<noteq> slot (?r + ?n)" if "i < ?n - 1" for i
    using slot_free [of "Suc i" ?n ?r] that n by fastforce
  show "events q' = events (fst (Dequeue q))"
    using c n by (auto simp: ne q'_def Enqueue_def Dequeue_def events_def u w a unat_slot mod_simps)
  have "slot (?r + ?n + 1) \<noteq> slot (?r + ?n)" using slot_free [of 0 1 "?r + ?n"] by simp
  moreover obtain m where "?n = Suc m" using n(2) gr0_implies_Suc by blast
  ultimately show "\<not> ring_ok q'"
    using c by (simp add: q'_def Enqueue_def ring_ok_def w a u next_slot unat_slot mod_simps)
qed

text \<open>
  C30. An interrupt handler that stores events while \<^verbatim>\<open>Dequeue\<close> runs does no harm at three of the
  four points: the outcome is that of storing them first and then calling Dequeue. Between
  the load and the store of the counter it does: the handler's event is not in the queue
  afterwards, although there was room for it, and the indices no longer agree with the counter.
\<close>

theorem Dequeue_interrupted:
  assumes "ring_ok q" "events q \<noteq> []"
  shows "Dequeue_irq es1 es2 es3 [] q = Dequeue (irq (es1 @ es2 @ es3) q) \<and>
    (length (events (irq (es1 @ es2 @ es3) q)) < 256 \<longrightarrow>
      events (fst (Dequeue_irq es1 es2 es3 [e] q)) = events (fst (Dequeue (irq (es1 @ es2 @ es3) q))) \<and>
      \<not> ring_ok (fst (Dequeue_irq es1 es2 es3 [e] q)))"
proof (intro conjI [OF _ impI])
  let ?q = "irq (es1 @ es2 @ es3) q"
  show "Dequeue_irq es1 es2 es3 [] q = Dequeue ?q"
    using irq_oldest [OF assms, of "es1 @ es2 @ es3"]
    by (simp add: Dequeue_irq_eq [OF assms] Dequeue_def Let_def irq_read) (simp add: irq_def)
  assume "length (events ?q) < 256"
  moreover have "ring_ok ?q" "events ?q \<noteq> []" using irq_events [OF assms(1)] assms(2) by (metis append_is_Nil_conv)+
  ultimately show "events (fst (Dequeue_irq es1 es2 es3 [e] q)) = events (fst (Dequeue ?q)) \<and>
      \<not> ring_ok (fst (Dequeue_irq es1 es2 es3 [e] q))"
    using Dequeue_lost_update [of ?q e]
    by (simp add: Dequeue_irq_eq [OF assms] Let_def irq_read) (simp add: irq_def)
qed

theorem Dequeue_interrupted_witness:
  "snd (Dequeue_irq [demo_event 7] [] [] [] demo_ring) = Some (demo_event 255) \<and>
   events (fst (Dequeue_irq [] [] [] [demo_event 7] demo_ring)) = [demo_event 0]"
proof -
  have ok: "ring_ok demo_ring" by (simp add: ring_ok_def demo_ring_def MAX_EVENTS_def)
  have ev: "events demo_ring = [demo_event 255, demo_event 0]"
    by (simp add: events_def demo_ring_def upt_rec)
  have ne: "events demo_ring \<noteq> []" by (simp add: ev)
  have 0: "irq [] demo_ring = demo_ring" by (simp add: irq_def)
  have lt: "length (events (irq ([] @ [] @ []) demo_ring)) < 256" by (simp add: ev 0)
  have "snd (Dequeue (irq [demo_event 7] demo_ring)) = Some (demo_event 255)"
    by (simp add: irq_def Enqueue_def Dequeue_def demo_ring_def MAX_EVENTS_def word_le_nat_alt)
  moreover have "events (fst (Dequeue demo_ring)) = [demo_event 0]"
    using Dequeue_some [OF ok ev] by simp
  ultimately show ?thesis
    using Dequeue_interrupted [OF ok ne, of "[demo_event 7]" "[]" "[]"]
      Dequeue_interrupted [OF ok ne, of "[]" "[]" "[]" "demo_event 7"] lt by (simp add: 0)
qed

end
