(* ===== verification/KOS_WindowRegistry.thy ===== *)
theory KOS_WindowRegistry
  imports KOS_Prelude
begin

text \<open>
  The registry of windows, \<^verbatim>\<open>src/ui/window_registry.cpp\<close> with \<^verbatim>\<open>include/ui/window_registry.hpp\<close>: two
  parallel arrays of 64 component pointers and window ids. The abstract view is the list of
  registered windows in the order of registration, in which no id occurs twice.
\<close>

section \<open>Data and operations\<close>

record WindowRegistry =
  components :: "u32 \<Rightarrow> u32"
  component_ids :: "u32 \<Rightarrow> u32"
  num_components :: u32

definition MAX_WINDOWS :: u32 where "MAX_WINDOWS = 64"

definition WindowRegistry_new :: WindowRegistry where
  "WindowRegistry_new = \<lparr>components = (\<lambda>_. 0), component_ids = (\<lambda>_. 0), num_components = 0\<rparr>"

definition find_window :: "u32 \<Rightarrow> WindowRegistry \<Rightarrow> u32 option" where
  "find_window window_id w = find_index 0 (num_components w) (\<lambda>i. component_ids w i = window_id)"

definition RegisterComponent :: "u32 \<Rightarrow> u32 \<Rightarrow> WindowRegistry \<Rightarrow> WindowRegistry \<times> u32" where
  "RegisterComponent component window_id w =
     (if component = 0 \<or> window_id = 0 then (w, 0)
      else if num_components w \<ge> MAX_WINDOWS then (w, 0)
      else if find_window window_id w \<noteq> None then (w, 0)
      else (w\<lparr>components := (components w)(num_components w := component),
              component_ids := (component_ids w)(num_components w := window_id),
              num_components := num_components w + 1\<rparr>, window_id))"

definition shift_down :: "u32 \<Rightarrow> WindowRegistry \<Rightarrow> WindowRegistry" where
  "shift_down j w = w\<lparr>components := (components w)(j := components w (j + 1)),
     component_ids := (component_ids w)(j := component_ids w (j + 1))\<rparr>"

definition UnregisterComponent :: "u32 \<Rightarrow> WindowRegistry \<Rightarrow> WindowRegistry \<times> bool" where
  "UnregisterComponent window_id w =
     (case find_window window_id w of
        None \<Rightarrow> (w, False)
      | Some i \<Rightarrow>
          (let w1 = for_range i (num_components w - 1) shift_down w
           in (w1\<lparr>num_components := num_components w1 - 1\<rparr>, True)))"

definition GetComponent :: "u32 \<Rightarrow> WindowRegistry \<Rightarrow> u32" where
  "GetComponent window_id w = (case find_window window_id w of None \<Rightarrow> 0 | Some i \<Rightarrow> components w i)"

text \<open>The callback is a function on the state it works on; it returns false to stop.\<close>

function for_each_window ::
  "(u32 \<Rightarrow> u32 \<Rightarrow> 's \<Rightarrow> 's \<times> bool) \<Rightarrow> u32 \<Rightarrow> WindowRegistry \<Rightarrow> 's \<Rightarrow> 's" where
  "for_each_window cb i w s =
     (if i < num_components w then
        (let (s1, go) = cb (component_ids w i) (components w i) s
         in if go then for_each_window cb (i + 1) w s1 else s1)
      else s)"
  by pat_completeness auto
termination
  by (relation "measure (\<lambda>(_, i, w, _). unat (num_components w) - unat i)")
    (auto simp: unat_Suc_less word_less_nat_alt)

declare for_each_window.simps [simp del]

definition ForEachWindowInZOrder :: "(u32 \<Rightarrow> u32 \<Rightarrow> 's \<Rightarrow> 's \<times> bool) \<Rightarrow> WindowRegistry \<Rightarrow> 's \<Rightarrow> 's" where
  "ForEachWindowInZOrder cb w s = for_each_window cb 0 w s"

definition ComponentCount :: "WindowRegistry \<Rightarrow> u32" where
  "ComponentCount w = num_components w"

definition clear_window :: "u32 \<Rightarrow> WindowRegistry \<Rightarrow> WindowRegistry" where
  "clear_window i w = w\<lparr>components := (components w)(i := 0), component_ids := (component_ids w)(i := 0)\<rparr>"

definition WindowRegistry_Clear :: "WindowRegistry \<Rightarrow> WindowRegistry" where
  "WindowRegistry_Clear w = (for_range 0 (num_components w) clear_window w)\<lparr>num_components := 0\<rparr>"

section \<open>The registered windows\<close>

definition entry_at :: "WindowRegistry \<Rightarrow> nat \<Rightarrow> u32 \<times> u32" where
  "entry_at w i = (component_ids w (of_nat i), components w (of_nat i))"

definition entries :: "WindowRegistry \<Rightarrow> (u32 \<times> u32) list" where
  "entries w = map (entry_at w) [0..<unat (num_components w)]"

definition registry_ok :: "WindowRegistry \<Rightarrow> bool" where
  "registry_ok w \<longleftrightarrow> num_components w \<le> MAX_WINDOWS \<and> distinct (map fst (entries w)) \<and>
     (\<forall>(i, c) \<in> set (entries w). i \<noteq> 0 \<and> c \<noteq> 0)"

lemma length_entries [simp]: "length (entries w) = unat (num_components w)"
  by (simp add: entries_def)

lemma registry_bound: "registry_ok w \<Longrightarrow> unat (num_components w) \<le> 64"
  by (simp add: registry_ok_def MAX_WINDOWS_def word_le_nat_alt)

lemma find_window_None: "find_window wid w = None \<longleftrightarrow> wid \<notin> fst ` set (entries w)"
proof -
  have "fst ` set (entries w) = {component_ids w (of_nat i) | i. i < unat (num_components w)}"
    by (force simp: entries_def entry_at_def)
  moreover have "find_window wid w = None \<longleftrightarrow> \<not> (\<exists>j < num_components w. component_ids w j = wid)"
    by (auto simp: find_window_def find_index_None)
  ultimately show ?thesis unfolding ex_index by auto
qed

lemma find_window_Some:
  "find_window wid w = Some i \<Longrightarrow> unat i < unat (num_components w) \<and> entries w ! unat i = (wid, components w i)"
  by (auto simp: find_window_def find_index_Some entries_def entry_at_def word_less_nat_alt)

lemma find_window_entry:
  assumes "find_window wid w = Some i"
  shows "entries w = take (unat i) (entries w) @ (wid, components w i) # drop (Suc (unat i)) (entries w)"
    and "unat i < unat (num_components w)"
  using find_window_Some [OF assms] id_take_nth_drop [of "unat i" "entries w"] by auto

lemma GetComponent_lookup:
  assumes "registry_ok w"
  shows "GetComponent wid w = (case map_of (entries w) wid of None \<Rightarrow> 0 | Some c \<Rightarrow> c)"
proof (cases "find_window wid w")
  case None
  then have "map_of (entries w) wid = None" by (simp add: find_window_None map_of_eq_None_iff)
  with None show ?thesis by (simp add: GetComponent_def)
next
  case (Some i)
  then have "(wid, components w i) \<in> set (entries w)"
    by (metis find_window_entry(1) in_set_conv_decomp)
  then have "map_of (entries w) wid = Some (components w i)"
    using assms by (simp add: registry_ok_def)
  with Some show ?thesis by (simp add: GetComponent_def)
qed

lemma RegisterComponent_entries:
  assumes "registry_ok w" "c \<noteq> 0" "wid \<noteq> 0" "length (entries w) < 64" "wid \<notin> fst ` set (entries w)"
  shows "RegisterComponent c wid w = (w', r) \<Longrightarrow> r = wid \<and> entries w' = entries w @ [(wid, c)] \<and> registry_ok w'"
proof -
  let ?n = "num_components w"
  let ?w = "w\<lparr>components := (components w)(?n := c), component_ids := (component_ids w)(?n := wid), num_components := ?n + 1\<rparr>"
  have n: "unat ?n < 64" using assms(4) by simp
  then have u: "unat (?n + 1) = Suc (unat ?n)" by (simp add: unat_add_nowrap)
  have r: "RegisterComponent c wid w = (?w, wid)"
    using assms(2,3,5) n find_window_None [of wid w] by (simp add: RegisterComponent_def MAX_WINDOWS_def word_le_nat_alt)
  have "entry_at ?w i = entry_at w i" if "i < unat ?n" for i
    using of_index_less [OF that] by (simp add: entry_at_def less_imp_neq)
  then have e: "entries ?w = entries w @ [(wid, c)]" by (simp add: entries_def u) (simp add: entry_at_def)
  have "registry_ok ?w"
    using assms n by (auto simp: registry_ok_def e image_iff) (simp add: MAX_WINDOWS_def word_le_nat_alt u)
  with r e show "RegisterComponent c wid w = (w', r) \<Longrightarrow> r = wid \<and> entries w' = entries w @ [(wid, c)] \<and> registry_ok w'"
    by auto
qed

lemma RegisterComponent_refused:
  "c = 0 \<or> wid = 0 \<or> 64 \<le> length (entries w) \<or> wid \<in> fst ` set (entries w) \<Longrightarrow> RegisterComponent c wid w = (w, 0)"
  using find_window_None [of wid w] by (auto simp: RegisterComponent_def MAX_WINDOWS_def word_le_nat_alt)

lemma shift_down_loop:
  "(\<forall>j. components (for_range i n shift_down w) j =
      (if i \<le> j \<and> j < n then components w (j + 1) else components w j) \<and>
    component_ids (for_range i n shift_down w) j =
      (if i \<le> j \<and> j < n then component_ids w (j + 1) else component_ids w j)) \<and>
   num_components (for_range i n shift_down w) = num_components w"
proof (induction "unat n - unat i" arbitrary: i w)
  case 0
  then show ?case by (auto simp: for_range_done word_less_nat_alt word_le_nat_alt)
next
  case (Suc k)
  then have lt: "i < n" by (simp add: word_less_nat_alt)
  then have k: "k = unat n - unat (i + 1)" using Suc.hyps(2) by (simp add: unat_Suc_less)
  have "j + 1 \<noteq> i" if "i + 1 \<le> j" "j < n" for j
    using that unat_Suc_less [OF lt] unat_Suc_less [of j n] by (auto simp: word_le_nat_alt)
  then show ?case
    using Suc.hyps(1) [OF k, of "shift_down i w"] lt
    by (auto simp: for_range_step shift_down_def word_le_iff_eq_or [OF lt])
qed


lemma UnregisterComponent_entries:
  assumes "registry_ok w" "wid \<in> fst ` set (entries w)" "UnregisterComponent wid w = (w', r)"
  shows "r \<and> entries w' = filter (\<lambda>e. fst e \<noteq> wid) (entries w) \<and> registry_ok w'"
proof -
  obtain i where i: "find_window wid w = Some i" using assms(2) find_window_None by blast
  let ?n = "unat (num_components w)"
  have sp: "entries w = take (unat i) (entries w) @ (wid, components w i) # drop (Suc (unat i)) (entries w)"
    and lt: "unat i < ?n" by (fact find_window_entry [OF i])+
  have n: "?n \<le> 64" "0 < ?n" using registry_bound [OF assms(1)] lt by simp_all
  have u: "unat (num_components w - 1) = ?n - 1" using n by (simp add: unat_sub_nowrap)
  define w1 where "w1 = for_range i (num_components w - 1) shift_down w"
  have w': "w' = w1\<lparr>num_components := num_components w - 1\<rparr>" and r
    using assms(3) shift_down_loop [of i "num_components w - 1" w] by (auto simp: UnregisterComponent_def i w1_def)
  have x: "entry_at w1 k = entry_at w (if unat i \<le> k then Suc k else k)" if "k < ?n - 1" for k
  proof -
    have "unat (of_nat k :: u32) = k" using that by (intro unat_of_index [of _ "num_components w"]) simp
    then show ?thesis
      using that shift_down_loop [of i "num_components w - 1" w]
      by (simp add: entry_at_def w1_def word_le_nat_alt word_less_nat_alt u add.commute)
  qed
  have e: "entries w' = take (unat i) (entries w) @ drop (Suc (unat i)) (entries w)"
    using lt n by (intro nth_equalityI) (auto simp: w' u entries_def nth_append x entry_at_def [of "w1\<lparr>num_components := _\<rparr>"] simp flip: entry_at_def)
  have d: "distinct (map fst (entries w))" using assms(1) by (simp add: registry_ok_def)
  have f: "filter (\<lambda>e. fst e \<noteq> wid) (entries w) = take (unat i) (entries w) @ drop (Suc (unat i)) (entries w)"
    using d filter_key sp by metis
  have "registry_ok w'"
    using assms(1) n unfolding registry_ok_def e f [symmetric] 
    by (auto simp: distinct_map_filter MAX_WINDOWS_def word_le_nat_alt w' u)
  with \<open>r\<close> e f show ?thesis by simp
qed

lemma UnregisterComponent_unknown:
  "wid \<notin> fst ` set (entries w) \<Longrightarrow> UnregisterComponent wid w = (w, False)"
  using find_window_None [of wid w] by (simp add: UnregisterComponent_def)

lemma Clear_entries: "entries (WindowRegistry_Clear w) = [] \<and> registry_ok (WindowRegistry_Clear w)"
  by (simp add: WindowRegistry_Clear_def entries_def registry_ok_def MAX_WINDOWS_def)

text \<open>The callback sees the windows in the order of registration until it returns false.\<close>

primrec visit :: "(u32 \<Rightarrow> u32 \<Rightarrow> 's \<Rightarrow> 's \<times> bool) \<Rightarrow> (u32 \<times> u32) list \<Rightarrow> 's \<Rightarrow> 's" where
  "visit cb [] s = s"
| "visit cb (e # es) s = (let (s1, go) = cb (fst e) (snd e) s in if go then visit cb es s1 else s1)"

lemma for_each_visit: "for_each_window cb i w s = visit cb (drop (unat i) (entries w)) s"
proof (induction "unat (num_components w) - unat i" arbitrary: i s)
  case 0
  then show ?case by (subst for_each_window.simps) (simp add: word_less_nat_alt)
next
  case (Suc k)
  then have lt: "i < num_components w" by (simp add: word_less_nat_alt)
  then have "drop (unat i) (entries w) = (component_ids w i, components w i) # drop (unat (i + 1)) (entries w)"
    by (simp add: Cons_nth_drop_Suc [symmetric] word_less_nat_alt unat_Suc_less [OF lt] entries_def entry_at_def)
  with Suc lt show ?case
    by (subst for_each_window.simps) (auto simp: unat_Suc_less split: prod.splits)
qed


lemma RegisterComponent_spec:
  assumes "registry_ok w" "RegisterComponent c wid w = (w', r)"
  shows "registry_ok w' \<and>
    (if c \<noteq> 0 \<and> wid \<noteq> 0 \<and> length (entries w) < 64 \<and> wid \<notin> fst ` set (entries w)
     then r = wid \<and> entries w' = entries w @ [(wid, c)] else r = 0 \<and> w' = w)"
  using RegisterComponent_entries [OF assms(1), of c wid w' r] RegisterComponent_refused [of c wid w] assms
  by (auto simp: linorder_not_less)

lemma UnregisterComponent_spec:
  assumes "registry_ok w" "UnregisterComponent wid w = (w', b)"
  shows "registry_ok w' \<and>
    (if wid \<in> fst ` set (entries w) then b \<and> entries w' = filter (\<lambda>e. fst e \<noteq> wid) (entries w) else \<not> b \<and> w' = w)"
  using UnregisterComponent_entries [OF assms(1), of wid w' b] UnregisterComponent_unknown [of wid w] assms
  by (cases "wid \<in> fst ` set (entries w)") auto

text \<open>
  C25. The registry is a finite map from window ids to components that also keeps the order of
  registration. Registering succeeds exactly for a non-null component, a non-zero id that is not in use and fewer
  than 64 windows, and puts the window last. Unregistering removes exactly that window and keeps the
  order of the others. A lookup gives the component of the id, a visit meets the
  windows in order, and refused calls change nothing.
\<close>

theorem WindowRegistry_correct:
  assumes "registry_ok w"
  shows "(\<forall>w' r. RegisterComponent c wid w = (w', r) \<longrightarrow> registry_ok w' \<and>
      (if c \<noteq> 0 \<and> wid \<noteq> 0 \<and> length (entries w) < 64 \<and> wid \<notin> fst ` set (entries w)
       then r = wid \<and> entries w' = entries w @ [(wid, c)] else r = 0 \<and> w' = w)) \<and>
    (\<forall>w' b. UnregisterComponent wid w = (w', b) \<longrightarrow> registry_ok w' \<and>
      (if wid \<in> fst ` set (entries w) then b \<and> entries w' = filter (\<lambda>e. fst e \<noteq> wid) (entries w)
       else \<not> b \<and> w' = w)) \<and>
    GetComponent wid w = (case map_of (entries w) wid of None \<Rightarrow> 0 | Some c \<Rightarrow> c) \<and>
    ForEachWindowInZOrder cb w s = visit cb (entries w) s \<and>
    unat (ComponentCount w) = length (entries w)"
  using RegisterComponent_spec [OF assms, of c wid] UnregisterComponent_spec [OF assms, of wid]
  by (intro conjI allI impI)
    (blast, blast, blast, blast, simp_all add: GetComponent_lookup [OF assms] ForEachWindowInZOrder_def for_each_visit ComponentCount_def)

definition demo_registry :: WindowRegistry where
  "demo_registry = fst (RegisterComponent 0x2000 7 (fst (RegisterComponent 0x1000 5 WindowRegistry_new)))"

theorem WindowRegistry_correct_witness:
  "registry_ok demo_registry \<and>
   entries (fst (RegisterComponent 0x3000 9 demo_registry)) = [(5, 0x1000), (7, 0x2000), (9, 0x3000)] \<and>
   entries (fst (UnregisterComponent 5 demo_registry)) = [(7, 0x2000)] \<and>
   GetComponent 7 demo_registry = 0x2000"
proof -
  have e: "entries demo_registry = [(5, 0x1000), (7, 0x2000)]"
    by (simp add: demo_registry_def WindowRegistry_new_def RegisterComponent_def find_window_def find_index.simps
      MAX_WINDOWS_def word_le_nat_alt entries_def entry_at_def upt_rec)
  have ok: "registry_ok demo_registry"
    by (simp add: registry_ok_def e) (simp add: demo_registry_def WindowRegistry_new_def RegisterComponent_def find_window_def
      find_index.simps MAX_WINDOWS_def word_le_nat_alt)
  show ?thesis
    using WindowRegistry_correct [OF ok, of "0x3000" 9 "\<lambda>_ _ s. (s, True)" "()"] WindowRegistry_correct [OF ok, of 0 5 "\<lambda>_ _ s. (s, True)" "()"]
      WindowRegistry_correct [OF ok, of 0 7 "\<lambda>_ _ s. (s, True)" "()"] ok
    by (cases "RegisterComponent 0x3000 9 demo_registry"; cases "UnregisterComponent 5 demo_registry") (auto simp: e)
qed

end
