(* ===== verification/KOS_Packet.thy ===== *)
theory KOS_Packet
  imports KOS_Prelude
begin

unbundle bit_operations_syntax

text \<open>
  Packets of the network stack: ICMP echo requests (\<^verbatim>\<open>src/net/icmp.cpp\<close>), IPv4 packets
  (\<^verbatim>\<open>src/net/ipv4_packet.cpp\<close>) and UDP packets (the builder of \<^verbatim>\<open>src/net/udp.cpp\<close>). A buffer is the list
  of its bytes; an access outside it has no result (\<open>None\<close>). A header struct is a record with its layout in
  memory, little-endian as the processor stores it. Lengths are 32-bit numbers next to the
  buffers, as in the code.

  The theorems give the bytes of each packet, show that no access leaves a buffer, and evaluate the
  checksums of the finished packets.
\<close>

section \<open>Buffers\<close>

type_synonym buf = "u8 list"

definition get8 :: "buf \<Rightarrow> u32 \<Rightarrow> u8 option" where
  "get8 b i = (if unat i < length b then Some (b ! unat i) else None)"

definition put8 :: "buf \<Rightarrow> u32 \<Rightarrow> u8 \<Rightarrow> buf option" where
  "put8 b i v = (if unat i < length b then Some (b[unat i := v]) else None)"

text \<open>A struct stored at, or read from, an offset of a buffer.\<close>

definition put_struct :: "buf \<Rightarrow> nat \<Rightarrow> u8 list \<Rightarrow> buf option" where
  "put_struct b k bs =
     (if k + length bs \<le> length b then Some (take k b @ bs @ drop (k + length bs) b) else None)"

definition get_struct :: "buf \<Rightarrow> nat \<Rightarrow> nat \<Rightarrow> u8 list option" where
  "get_struct b k n = (if k + n \<le> length b then Some (take n (drop k b)) else None)"

text \<open>\<^verbatim>\<open>for (i = 0; i < n; ++i) dst[off + i] = src[i];\<close>\<close>

definition copy_buf :: "buf \<Rightarrow> u32 \<Rightarrow> u32 \<Rightarrow> buf \<Rightarrow> buf option" where
  "copy_buf src n off dst =
     for_range 0 n (\<lambda>i r. do { d \<leftarrow> r; x \<leftarrow> get8 src i; put8 d (off + i) x }) (Some dst)"

definition le16 :: "u16 \<Rightarrow> u8 list" where
  "le16 v = [ucast v, ucast (drop_bit 8 v)]"

definition le32 :: "u32 \<Rightarrow> u8 list" where
  "le32 v = [ucast v, ucast (drop_bit 8 v), ucast (drop_bit 16 v), ucast (drop_bit 24 v)]"

definition word16 :: "u8 \<Rightarrow> u8 \<Rightarrow> u16" where
  "word16 lo hi = ucast lo OR push_bit 8 (ucast hi)"

definition htons :: "u16 \<Rightarrow> u16" where
  "htons v = push_bit 8 (v AND 0xFF) OR (drop_bit 8 v AND 0xFF)"

section \<open>ICMP\<close>

lemma low_half: "unat (s AND 0xFFFF :: u32) = unat s mod 65536"
proof -
  have "(0xFFFF :: u32) = mask 16" by (simp add: mask_eq_exp_minus_1)
  then have "s AND 0xFFFF = take_bit 16 s" by (simp add: take_bit_eq_mask)
  then show ?thesis by (simp add: take_bit_eq_mod unat_mod)
qed

lemma high_half: "unat (drop_bit 16 s :: u32) = unat s div 65536"
  by (simp add: drop_bit_eq_div unat_div)

lemma fold_halves: "unat ((s AND 0xFFFF) + drop_bit 16 s :: u32) = unat s mod 65536 + unat s div 65536"
proof -
  have "unat s div 65536 < 65536" using u32_less_limit [of s] by (simp add: less_mult_imp_div_less)
  then show ?thesis using mod_less_divisor [of 65536 "unat s"] by (simp add: unat_add_nowrap low_half high_half)
qed

text \<open>Adding the upper half to the lower until the sum fits in 16 bits.\<close>

function fold_sum :: "u32 \<Rightarrow> u32" where
  "fold_sum s = (if drop_bit 16 s \<noteq> 0 then fold_sum ((s AND 0xFFFF) + drop_bit 16 s) else s)"
  by pat_completeness auto
termination
proof (relation "measure unat", goal_cases)
  case (2 s)
  then have "0 < unat s div 65536" by (metis high_half unat_gt_0)
  moreover have "unat s = unat s div 65536 * 65536 + unat s mod 65536" by simp
  ultimately have "unat s mod 65536 + unat s div 65536 < unat s" by linarith
  then show ?case by (simp add: fold_halves)
qed simp

declare fold_sum.simps [simp del]

definition add16 :: "u32 \<Rightarrow> u16" where
  "add16 s = ucast (fold_sum s)"

text \<open>The loop of \<^verbatim>\<open>checksum\<close> on the rest of the data, two bytes at a time, most significant first.\<close>

fun checksum_loop :: "u8 list \<Rightarrow> u32 \<Rightarrow> u32 \<Rightarrow> u32 option" where
  "checksum_loop p len s =
     (if len > 1 then
        (case p of
           a # b # q \<Rightarrow> checksum_loop q (len - 2) (s + ucast (word16 b a))
         | _ \<Rightarrow> None)
      else if len = 1 then (case p of a # q \<Rightarrow> Some (s + ucast (word16 0 a)) | [] \<Rightarrow> None)
      else Some s)"

definition checksum :: "buf \<Rightarrow> u32 \<Rightarrow> u16 option" where
  "checksum data len = map_option (\<lambda>s. NOT (add16 s)) (checksum_loop data len 0)"


record EchoHeader =
  echo_type :: u8
  echo_code :: u8
  echo_checksum :: u16
  echo_ident :: u16
  echo_seq :: u16

definition EchoHeader_bytes :: "EchoHeader \<Rightarrow> u8 list" where
  "EchoHeader_bytes h =
     [echo_type h, echo_code h] @ le16 (echo_checksum h) @ le16 (echo_ident h) @ le16 (echo_seq h)"

definition ICMP_ECHO_REQUEST :: u8 where "ICMP_ECHO_REQUEST = 8"

text \<open>The payload after the header: the bytes of \<^verbatim>\<open>src\<close>, or zeros when it is null.\<close>

definition echo_payload :: "buf option \<Rightarrow> u32 \<Rightarrow> buf \<Rightarrow> buf option" where
  "echo_payload payload n out =
     (case payload of
        Some src \<Rightarrow> copy_buf src n 8 out
      | None \<Rightarrow> for_range 0 n (\<lambda>i r. do { d \<leftarrow> r; put8 d (8 + i) 0 }) (Some out))"

definition build_echo_request ::
  "u16 \<Rightarrow> u16 \<Rightarrow> buf option \<Rightarrow> u16 \<Rightarrow> buf \<Rightarrow> u32 \<Rightarrow> (buf \<times> u32) option" where
  "build_echo_request ident seq payload plen out outMax =
     (let total = 8 + ucast plen;
          h = \<lparr>echo_type = ICMP_ECHO_REQUEST, echo_code = 0, echo_checksum = 0, echo_ident = ident, echo_seq = seq\<rparr>
      in if outMax < total then Some (out, 0)
         else do {
           out1 \<leftarrow> put_struct out 0 (EchoHeader_bytes h);
           out2 \<leftarrow> echo_payload payload (ucast plen) out1;
           c \<leftarrow> checksum out2 total;
           out3 \<leftarrow> put_struct out2 2 (le16 c);
           Some (out3, total)
         })"

section \<open>IPv4\<close>

record IPv4Header =
  ver_ihl :: u8
  ip_tos :: u8
  total_length :: u16
  identification :: u16
  flags_frag :: u16
  ip_ttl :: u8
  ip_protocol :: u8
  header_checksum :: u16
  ip_src :: u32
  ip_dst :: u32

definition IPv4Header_bytes :: "IPv4Header \<Rightarrow> u8 list" where
  "IPv4Header_bytes h =
     [ver_ihl h, ip_tos h] @ le16 (total_length h) @ le16 (identification h) @ le16 (flags_frag h) @
     [ip_ttl h, ip_protocol h] @ le16 (header_checksum h) @ le32 (ip_src h) @ le32 (ip_dst h)"

definition ip_sum :: "buf \<Rightarrow> u32 \<Rightarrow> u32 option" where
  "ip_sum data n =
     for_range 0 n (\<lambda>i r. do {
       s \<leftarrow> r;
       a \<leftarrow> get8 data (2 * i);
       b \<leftarrow> get8 data (2 * i + 1);
       Some (s + ucast (word16 a b)) }) (Some 0)"

definition ip_checksum :: "buf \<Rightarrow> u32 \<Rightarrow> u16 option" where
  "ip_checksum data len = do {
     s \<leftarrow> ip_sum data (len div 2);
     s1 \<leftarrow> (if len AND 1 \<noteq> 0 then do { x \<leftarrow> get8 data (len - 1); Some (s + push_bit 8 (ucast x)) } else Some s);
     Some (ucast (NOT (fold_sum s1)))
   }"

definition build_ipv4_packet ::
  "buf \<Rightarrow> u32 \<Rightarrow> u32 \<Rightarrow> u32 \<Rightarrow> u8 \<Rightarrow> u8 \<Rightarrow> buf \<Rightarrow> u32 \<Rightarrow> (buf \<times> u32) option" where
  "build_ipv4_packet payload payload_len src_ip_be dst_ip_be protocol ttl out_buf out_buf_len =
     (let ihl = 20;
          total = ihl + payload_len;
          hdr = \<lparr>ver_ihl = push_bit 4 4 OR ucast (ihl div 4), ip_tos = 0, total_length = ucast total,
                 identification = 0, flags_frag = 0, ip_ttl = ttl, ip_protocol = protocol,
                 header_checksum = 0, ip_src = src_ip_be, ip_dst = dst_ip_be\<rparr>
      in if out_buf_len < total then Some (out_buf, 0)
         else do {
           out1 \<leftarrow> put_struct out_buf 0 (IPv4Header_bytes hdr);
           c \<leftarrow> ip_checksum out1 ihl;
           out2 \<leftarrow> put_struct out1 0 (IPv4Header_bytes (hdr\<lparr>header_checksum := c\<rparr>));
           out3 \<leftarrow> copy_buf payload payload_len ihl out2;
           Some (out3, total)
         })"

section \<open>UDP\<close>

record UDPHeader =
  udp_src_port :: u16
  udp_dst_port :: u16
  udp_length :: u16
  udp_checksum :: u16

definition UDPHeader_bytes :: "UDPHeader \<Rightarrow> u8 list" where
  "UDPHeader_bytes h = le16 (udp_src_port h) @ le16 (udp_dst_port h) @ le16 (udp_length h) @ le16 (udp_checksum h)"

text \<open>The two IP addresses among the parameters are not used.\<close>

definition build_udp_packet ::
  "buf option \<Rightarrow> u32 \<Rightarrow> u32 \<Rightarrow> u32 \<Rightarrow> u16 \<Rightarrow> u16 \<Rightarrow> buf option \<Rightarrow> u32 \<Rightarrow> (buf option \<times> u32) option" where
  "build_udp_packet payload payload_len src_ip dst_ip src_port dst_port buffer buffer_size =
     (case (payload, buffer) of
        (Some p, Some b) \<Rightarrow>
          (let udp_len = 8 + payload_len;
               udp = \<lparr>udp_src_port = htons src_port, udp_dst_port = htons dst_port,
                      udp_length = htons (ucast udp_len), udp_checksum = 0\<rparr>
           in if udp_len > buffer_size then Some (buffer, 0)
              else do {
                b1 \<leftarrow> put_struct b 0 (UDPHeader_bytes udp);
                b2 \<leftarrow> copy_buf p payload_len 8 b1;
                Some (Some b2, udp_len)
              })
      | _ \<Rightarrow> Some (buffer, 0))"

section \<open>Lemmas on buffers\<close>

lemma put_struct_Some:
  "k + length bs \<le> length b \<Longrightarrow> put_struct b k bs = Some (take k b @ bs @ drop (k + length bs) b)"
  by (simp add: put_struct_def)

lemma length_le [simp]: "length (le16 v) = 2" "length (le32 w) = 4"
  by (simp_all add: le16_def le32_def)

lemma copy_buf_Some:
  assumes "unat n \<le> length src" "unat off + unat n \<le> length dst" "unat off + unat n < 2 ^ 32"
  shows "copy_buf src n off dst = Some (take (unat off) dst @ take (unat n) src @ drop (unat off + unat n) dst)"
proof -
  let ?P = "\<lambda>k r. r = Some (take (unat off) dst @ take k src @ drop (unat off + k) dst)"
  have "?P (unat n) (copy_buf src n off dst)"
    unfolding copy_buf_def
  proof (rule for_range_rule [where P = ?P])
    show "?P (unat (0 :: u32)) (Some dst)" by simp
    fix j r
    assume "j < n" and r: "?P (unat j) r"
    then have j: "unat j < unat n" by (simp add: word_less_nat_alt)
    have o: "unat (off + j) = unat off + unat j" using j assms(3) by (simp add: unat_add_nowrap)
    have "drop (unat off + unat j) dst = dst ! (unat off + unat j) # drop (Suc (unat off + unat j)) dst"
      using j assms(2) by (simp add: Cons_nth_drop_Suc)
    then show "?P (Suc (unat j)) (do { d \<leftarrow> r; x \<leftarrow> get8 src j; put8 d (off + j) x })"
      using j assms by (simp add: r get8_def put8_def o min_def list_update_append take_Suc_conv_app_nth)
  qed simp
  then show ?thesis by simp
qed

lemma copy_after_header:
  assumes "unat off = k" "length h = k" "unat n \<le> length src" "k + unat n \<le> length out" "k + unat n < 2 ^ 32"
  shows "copy_buf src n off (h @ drop k out) = Some (h @ take (unat n) src @ drop (k + unat n) out)"
  using assms by (simp add: copy_buf_Some add.commute)

lemma fill_zero_Some:
  assumes "unat off + unat n \<le> length dst" "unat off + unat n < 2 ^ 32"
  shows "for_range 0 n (\<lambda>i r. do { d \<leftarrow> r; put8 d (off + i) 0 }) (Some dst) =
    Some (take (unat off) dst @ replicate (unat n) 0 @ drop (unat off + unat n) dst)"
proof -
  let ?P = "\<lambda>k r. r = Some (take (unat off) dst @ replicate k 0 @ drop (unat off + k) dst)"
  have "?P (unat n) (for_range 0 n (\<lambda>i r. do { d \<leftarrow> r; put8 d (off + i) 0 }) (Some dst))"
  proof (rule for_range_rule [where P = ?P])
    show "?P (unat (0 :: u32)) (Some dst)" by simp
    fix j r
    assume "j < n" and r: "?P (unat j) r"
    then have j: "unat j < unat n" by (simp add: word_less_nat_alt)
    have o: "unat (off + j) = unat off + unat j" using j assms(2) by (simp add: unat_add_nowrap)
    have "drop (unat off + unat j) dst = dst ! (unat off + unat j) # drop (Suc (unat off + unat j)) dst"
      using j assms(1) by (simp add: Cons_nth_drop_Suc)
    then show "?P (Suc (unat j)) (do { d \<leftarrow> r; put8 d (off + j) 0 })"
      using j assms by (simp add: r put8_def o min_def list_update_append flip: replicate_append_same)
  qed simp
  then show ?thesis by simp
qed

lemma fill_after_header:
  assumes "unat off = k" "length h = k" "k + unat n \<le> length out" "k + unat n < 2 ^ 32"
  shows "for_range 0 n (\<lambda>i r. do { d \<leftarrow> r; put8 d (off + i) 0 }) (Some (h @ drop k out)) =
    Some (h @ replicate (unat n) 0 @ drop (k + unat n) out)"
  using assms by (simp add: fill_zero_Some add.commute [of "unat n" k])

section \<open>Checksums\<close>

lemma unat_of_nat_u32: "n < 2 ^ 32 \<Longrightarrow> unat (of_nat n :: u32) = n"
  by (simp add: unsigned_of_nat take_bit_eq_mod)

lemma halves_mod: "(n mod 65536 + n div 65536) mod 65535 = n mod (65535 :: nat)"
proof -
  have "n = (n mod 65536 + n div 65536) + n div 65536 * 65535"
    using div_mult_mod_eq [of n 65536] by linarith
  then show ?thesis by (metis mod_mult_self1)
qed

lemma fold_sum_spec:
  "unat (fold_sum s) < 65536 \<and> unat (fold_sum s) mod 65535 = unat s mod 65535 \<and> (s \<noteq> 0 \<longrightarrow> fold_sum s \<noteq> 0)"
proof (induction s rule: fold_sum.induct)
  case (1 s)
  let ?t = "(s AND 0xFFFF) + drop_bit 16 s"
  show ?case
  proof (cases "drop_bit 16 s = 0")
    case True
    then have "unat s < 65536" using high_half [of s] by simp
    with True show ?thesis by (simp add: fold_sum.simps [of s])
  next
    case False
    have m: "unat ?t mod 65535 = unat s mod 65535" by (simp add: fold_halves halves_mod)
    have "?t \<noteq> 0" using False high_half [of s] fold_halves [of s] by (auto simp: unat_eq_0 simp flip: unat_gt_0)
    with 1 False m show ?thesis by (simp add: fold_sum.simps [of s])
  qed
qed

lemma unat_not_u16: "unat (NOT (y :: u16)) = 65535 - unat y"
proof -
  have "NOT y = - 1 - y" by (simp add: not_eq_complement)
  moreover have "unat (- 1 - y) = unat (- 1 :: u16) - unat y" by (rule unat_sub_nowrap) (simp add: word_le_nat_alt [symmetric])
  moreover have "unat (- 1 :: u16) = 65535" by (simp add: unsigned_minus_1_eq_mask mask_eq_exp_minus_1)
  ultimately show ?thesis by simp
qed

lemma unat_low_not: "unat (x :: u32) < 65536 \<Longrightarrow> unat (ucast (NOT x) :: u16) = 65535 - unat x"
proof -
  assume x: "unat x < 65536"
  have "(ucast (NOT x) :: u16) = NOT (ucast x)" by (rule bit_word_eqI) (simp add: bit_simps)
  moreover have "unat (ucast x :: u16) = unat x" using x by (simp add: unsigned_ucast_eq take_bit_eq_mod)
  ultimately show ?thesis by (simp add: unat_not_u16)
qed

text \<open>Adding the complement of the folded sum makes the folded sum all ones.\<close>

lemma fold_sum_verify:
  assumes "unat s + 65535 < 2 ^ 32" and c: "unat c = 65535 - unat (fold_sum s)"
  shows "unat (fold_sum (s + c)) = 65535"
proof -
  let ?f = "unat (fold_sum s)" and ?g = "unat (fold_sum (s + c))"
  note F = fold_sum_spec [of s]
  have u: "unat (s + c) = unat s + (65535 - ?f)" using assms by (simp add: unat_add_nowrap)
  have "s + c \<noteq> 0"
  proof
    assume "s + c = 0"
    then have "unat s = 0" "?f = 65535" using u F by simp_all
    then show False by (simp add: unat_eq_0 fold_sum.simps [of 0])
  qed
  moreover have "(unat s + (65535 - ?f)) mod 65535 = 0"
  proof -
    have "(unat s + (65535 - ?f)) mod 65535 = (?f + (65535 - ?f)) mod 65535"
      using F by (metis mod_add_left_eq)
    also have "\<dots> = 0" using F by simp
    finally show ?thesis .
  qed
  ultimately have "?g mod 65535 = 0" "?g \<noteq> 0" "?g < 65536"
    using fold_sum_spec [of "s + c"] by (simp_all add: u unat_eq_0)
  then show ?thesis by (auto elim!: dvdE simp: mod_eq_0_iff_dvd)
qed

fun be_sum :: "u8 list \<Rightarrow> nat" where
  "be_sum (a # b # q) = 256 * unat a + unat b + be_sum q"
| "be_sum [a] = 256 * unat a"
| "be_sum [] = 0"

fun le_sum :: "u8 list \<Rightarrow> nat" where
  "le_sum (a # b # q) = unat a + 256 * unat b + le_sum q"
| "le_sum _ = 0"

lemma unat_word16: "unat (word16 lo hi) = unat lo + 256 * unat hi"
proof -
  have "word16 lo hi = ucast lo + push_bit 8 (ucast hi)"
    unfolding word16_def by (rule disjunctive_add [symmetric]) (auto simp: bit_simps dest: bit_imp_le_length)
  moreover have "unat lo < 256" "unat hi < 256" using unsigned_less [of lo] unsigned_less [of hi] by simp_all
  ultimately show ?thesis
    by (simp add: push_bit_eq_mult unat_add_nowrap unat_mult_nowrap unsigned_ucast_eq take_bit_eq_mod)
qed


lemma u16_less_limit: "unat (w :: u16) < 65536"
  using unsigned_less [of w] by simp

lemma unat_ucast_u16 [simp]: "unat (ucast (w :: u16) :: u32) = unat w"
  using u16_less_limit [of w] by (simp add: unsigned_ucast_eq take_bit_eq_mod)

lemma ucast_word16: "(ucast (word16 lo hi) :: u32) = of_nat (unat lo + 256 * unat hi)"
proof (rule unat_eqI)
  have "unat lo + 256 * unat hi < 65536" using u16_less_limit [of "word16 lo hi"] by (simp only: unat_word16)
  then show "unat (ucast (word16 lo hi) :: u32) = unat (of_nat (unat lo + 256 * unat hi) :: u32)"
    by (simp add: unat_word16 unsigned_of_nat take_bit_eq_mod del: of_nat_add)
qed

lemma checksum_loop_sum:
  "unat len \<le> length p \<Longrightarrow> checksum_loop p len s = Some (s + of_nat (be_sum (take (unat len) p)))"
proof (induction p len s rule: checksum_loop.induct)
  case (1 p len s)
  consider "unat len = 0" | "unat len = 1" | "unat len > 1" by linarith
  then show ?case
  proof cases
    case 1
    then have "len = 0" by (simp add: unat_eq_0)
    then show ?thesis by simp
  next
    case 2
    then have l: "len = 1" by (metis unat_1 word_unat_eq_iff)
    obtain a q where p: "p = a # q" using "1.prems" 2 by (cases p) auto
    show ?thesis by (simp add: l p ucast_word16)
  next
    case 3
    then have gt: "len > 1" by (simp add: word_less_nat_alt)
    obtain a b q where p: "p = a # b # q" using "1.prems" 3 by (cases p; cases "tl p") auto
    have l: "unat (len - 2) = unat len - 2" using 3 by (simp add: unat_sub_nowrap)
    have t: "take (unat len) p = a # b # take (unat len - 2) q"
      using 3 by (simp add: p take_Cons' Suc_diff_Suc numeral_2_eq_2)
    show ?thesis
      using "1.IH" [OF gt p refl] "1.prems" gt l t p by (simp add: ucast_word16 algebra_simps)
  qed
qed


lemma le_sum_append: "even (length xs) \<Longrightarrow> le_sum (xs @ ys) = le_sum xs + le_sum ys"
  by (induction xs rule: le_sum.induct) auto

lemma le_sum_bound: "le_sum xs \<le> 65535 * (length xs div 2)"
proof (induction xs rule: le_sum.induct)
  case (1 a b q)
  have "unat a < 256" "unat b < 256" using unsigned_less [of a] unsigned_less [of b] by simp_all
  with 1 show ?case by simp
qed simp_all

lemma be_sum_bound: "be_sum xs \<le> 65535 * ((length xs + 1) div 2)"
proof (induction xs rule: be_sum.induct)
  case (1 a b q)
  have "unat a < 256" "unat b < 256" using unsigned_less [of a] unsigned_less [of b] by simp_all
  with 1 show ?case by simp
next
  case (2 a)
  have "unat a < 256" using unsigned_less [of a] by simp
  then show ?case by simp
qed simp

lemma le16_value: "unat (ucast v :: u8) + 256 * unat (ucast (drop_bit 8 v) :: u8) = unat (v :: u16)"
proof -
  have "word16 (ucast v) (ucast (drop_bit 8 v)) = v"
    unfolding word16_def by (rule bit_word_eqI) (auto simp: bit_simps)
  then show ?thesis by (metis unat_word16)
qed

lemma ip_sum_Some:
  assumes "2 * unat n \<le> length data" "2 * unat n < 2 ^ 32"
  shows "ip_sum data n = Some (of_nat (le_sum (take (2 * unat n) data)))"
proof -
  let ?P = "\<lambda>k r. r = Some (of_nat (le_sum (take (2 * k) data)) :: u32)"
  have "?P (unat n) (ip_sum data n)"
    unfolding ip_sum_def
  proof (rule for_range_rule [where P = ?P])
    fix j r
    assume "j < n" and r: "?P (unat j) r"
    then have j: "unat j < unat n" by (simp add: word_less_nat_alt)
    have u: "unat (2 * j) = 2 * unat j" "unat (2 * j + 1) = Suc (2 * unat j)"
      using j assms(2) by (simp_all add: unat_mult_nowrap unat_add_nowrap)
    have l: "Suc (2 * unat j) < length data" using j assms(1) by simp
    have t: "take (2 * Suc (unat j)) data = take (2 * unat j) data @ [data ! (2 * unat j), data ! Suc (2 * unat j)]"
      using l by (simp add: take_Suc_conv_app_nth)
    show "?P (Suc (unat j)) (do { s \<leftarrow> r; a \<leftarrow> get8 data (2 * j); b \<leftarrow> get8 data (2 * j + 1); Some (s + ucast (word16 a b)) })"
      using l unfolding t by (simp add: r get8_def u ucast_word16 le_sum_append)
  qed simp_all
  then show ?thesis by simp
qed

lemma ip_checksum_20:
  assumes "length h = 20"
  shows "ip_checksum (h @ xs) 20 = Some (ucast (NOT (fold_sum (of_nat (le_sum h)))))"
  using assms ip_sum_Some [of 10 "h @ xs"] by (simp add: ip_checksum_def)

lemma length_headers [simp]:
  "length (IPv4Header_bytes h) = 20" "length (EchoHeader_bytes e) = 8" "length (UDPHeader_bytes u) = 8"
  by (simp_all add: IPv4Header_bytes_def EchoHeader_bytes_def UDPHeader_bytes_def)

lemma header_sum: "le_sum (IPv4Header_bytes (h\<lparr>header_checksum := c\<rparr>)) = le_sum (IPv4Header_bytes (h\<lparr>header_checksum := 0\<rparr>)) + unat c"
  using le16_value [of c] by (simp add: IPv4Header_bytes_def le16_def le32_def)

lemma header_checksum_verifies:
  assumes "ip_checksum (IPv4Header_bytes (h\<lparr>header_checksum := 0\<rparr>) @ xs) 20 = Some c"
  shows "ip_checksum (IPv4Header_bytes (h\<lparr>header_checksum := c\<rparr>) @ ys) 20 = Some 0"
proof -
  let ?h = "IPv4Header_bytes (h\<lparr>header_checksum := 0\<rparr>)"
  let ?s = "of_nat (le_sum ?h) :: u32"
  have c: "c = ucast (NOT (fold_sum ?s))" using assms by (simp add: ip_checksum_20)
  have s: "unat ?s = le_sum ?h" "le_sum ?h \<le> 655350"
    using le_sum_bound [of ?h] by (simp_all add: unsigned_of_nat take_bit_eq_mod)
  have u: "unat (ucast c :: u32) = 65535 - unat (fold_sum ?s)"
    using fold_sum_spec [of ?s] by (simp add: c unat_low_not)
  have "of_nat (le_sum (IPv4Header_bytes (h\<lparr>header_checksum := c\<rparr>))) = ?s + ucast c"
    by (simp add: header_sum [where h = h and c = c])
  moreover have "unat (fold_sum (?s + ucast c)) = 65535" by (rule fold_sum_verify) (use s u in simp_all)
  then have "unat (ucast (NOT (fold_sum (?s + ucast c))) :: u16) = 0" by (simp add: unat_low_not)
  ultimately show ?thesis by (simp add: ip_checksum_20 unat_eq_0)
qed


section \<open>Properties\<close>

lemma build_ipv4_packet_Some:
  assumes "unat payload_len \<le> length payload" and "unat out_buf_len \<le> length out_buf"
    and "20 + unat payload_len \<le> unat out_buf_len"
  shows "\<exists>hdr out. build_ipv4_packet payload payload_len src dst protocol ttl out_buf out_buf_len = Some (out, 20 + payload_len) \<and>
        out = IPv4Header_bytes hdr @ take (unat payload_len) payload @ drop (20 + unat payload_len) out_buf \<and>
        ver_ihl hdr = 0x45 \<and> unat (total_length hdr) = (20 + unat payload_len) mod 65536 \<and> ip_ttl hdr = ttl \<and>
        ip_protocol hdr = protocol \<and> ip_src hdr = src \<and> ip_dst hdr = dst \<and> ip_checksum out 20 = Some 0"
proof -
  note fit = assms(3)
  let ?h = "\<lparr>ver_ihl = 0x45, ip_tos = 0, total_length = ucast (20 + payload_len),
                 identification = 0, flags_frag = 0, ip_ttl = ttl, ip_protocol = protocol,
                 header_checksum = 0, ip_src = src, ip_dst = dst\<rparr> :: IPv4Header"
  let ?o = "\<lambda>h. IPv4Header_bytes h @ drop 20 out_buf"
  have t: "unat (20 + payload_len) = 20 + unat payload_len"
    using fit u32_less_limit [of out_buf_len] by (simp add: unat_add_nowrap)
  have l: "20 + unat payload_len \<le> length out_buf" "20 \<le> length out_buf" using fit assms(2) by simp_all
  obtain c where c: "ip_checksum (?o ?h) 20 = Some c" by (simp add: ip_checksum_20)
  let ?hc = "?h\<lparr>header_checksum := c\<rparr>"
  let ?out = "IPv4Header_bytes ?hc @ take (unat payload_len) payload @ drop (20 + unat payload_len) out_buf"
  have cp: "copy_buf payload payload_len 20 (?o ?hc) = Some ?out"
    by (rule copy_after_header) (use assms(1) l t u32_less_limit [of "20 + payload_len"] in simp_all)
  have "build_ipv4_packet payload payload_len src dst protocol ttl out_buf out_buf_len = Some (?out, 20 + payload_len)"
    using fit l c cp by (simp add: build_ipv4_packet_def Let_def word_less_nat_alt t put_struct_Some)
  moreover have "ip_checksum ?out 20 = Some 0"
    by (rule header_checksum_verifies [where h = ?h]) (use c in simp)
  moreover have "unat (total_length ?hc) = (20 + unat payload_len) mod 65536"
    by (simp add: unsigned_ucast_eq take_bit_eq_mod t)
  ultimately show ?thesis
    by (intro exI [of _ ?hc] exI [of _ ?out]) simp
qed

text \<open>
  C27. A packet that fits in the output buffer is the 20-byte header, the payload, and the
  rest of the buffer as it was. The header carries the given addresses, protocol and lifetime and the length of
  the packet; its checksum is right: the checksum routine on the finished header gives 0. No access
  leaves a buffer. A packet that does not fit is refused.
\<close>

theorem build_ipv4_packet_correct:
  assumes "unat payload_len \<le> length payload" and "unat out_buf_len \<le> length out_buf" and "unat payload_len + 20 < 2 ^ 32"
  shows "if 20 + unat payload_len \<le> unat out_buf_len
    then \<exists>hdr out. build_ipv4_packet payload payload_len src dst protocol ttl out_buf out_buf_len = Some (out, 20 + payload_len) \<and>
      out = IPv4Header_bytes hdr @ take (unat payload_len) payload @ drop (20 + unat payload_len) out_buf \<and>
      ver_ihl hdr = 0x45 \<and> unat (total_length hdr) = (20 + unat payload_len) mod 65536 \<and> ip_ttl hdr = ttl \<and>
      ip_protocol hdr = protocol \<and> ip_src hdr = src \<and> ip_dst hdr = dst \<and> ip_checksum out 20 = Some 0
    else build_ipv4_packet payload payload_len src dst protocol ttl out_buf out_buf_len = Some (out_buf, 0)"
proof (cases "20 + unat payload_len \<le> unat out_buf_len")
  case True
  then show ?thesis using build_ipv4_packet_Some [OF assms(1,2)] by simp
next
  case False
  then show ?thesis using assms(3)
    by (simp add: build_ipv4_packet_def Let_def word_less_nat_alt unat_add_nowrap)
qed


definition demo_packet :: "(buf \<times> u32) option" where
  "demo_packet = build_ipv4_packet [1, 2, 3] 3 0xC0A80001 0xC0A80002 17 64 (replicate 30 0xEE) 24"

theorem build_ipv4_packet_correct_witness:
  "\<exists>hdr out. demo_packet = Some (out, 23) \<and> out = IPv4Header_bytes hdr @ [1, 2, 3] @ replicate 7 0xEE \<and>
     ip_src hdr = 0xC0A80001 \<and> ip_checksum out 20 = Some 0"
proof -
  have "unat (3 :: u32) \<le> length [1, 2, 3 :: u8]" "unat (24 :: u32) \<le> length (replicate 30 (0xEE :: u8))"
    "unat (3 :: u32) + 20 < 2 ^ 32" by simp_all
  from build_ipv4_packet_correct [OF this, of "0xC0A80001" "0xC0A80002" 17 64]
  show ?thesis by (auto simp: demo_packet_def)
qed

lemma build_udp_packet_Some:
  assumes "unat payload_len \<le> length p" "unat buffer_size \<le> length b" "8 + unat payload_len \<le> unat buffer_size"
  shows "build_udp_packet (Some p) payload_len sip dip sp dp (Some b) buffer_size =
    Some (Some (UDPHeader_bytes \<lparr>udp_src_port = htons sp, udp_dst_port = htons dp,
        udp_length = htons (ucast (8 + payload_len)), udp_checksum = 0\<rparr> @
      take (unat payload_len) p @ drop (8 + unat payload_len) b), 8 + payload_len)"
proof -
  let ?h = "UDPHeader_bytes \<lparr>udp_src_port = htons sp, udp_dst_port = htons dp,
        udp_length = htons (ucast (8 + payload_len)), udp_checksum = 0\<rparr>"
  have t: "unat (8 + payload_len) = 8 + unat payload_len"
    using assms(3) u32_less_limit [of buffer_size] by (simp add: unat_add_nowrap)
  have "copy_buf p payload_len 8 (?h @ drop 8 b) = Some (?h @ take (unat payload_len) p @ drop (8 + unat payload_len) b)"
    by (rule copy_after_header) (use assms t u32_less_limit [of "8 + payload_len"] in simp_all)
  then show ?thesis
    using assms by (simp add: build_udp_packet_def Let_def word_less_nat_alt t put_struct_Some)
qed

lemma build_udp_packet_refused:
  "unat buffer_size < 8 + unat payload_len \<Longrightarrow> 8 + unat payload_len < 2 ^ 32 \<Longrightarrow>
   build_udp_packet (Some p) payload_len sip dip sp dp (Some b) buffer_size = Some (Some b, 0)"
  by (simp add: build_udp_packet_def Let_def word_less_nat_alt unat_add_nowrap)

definition echo_bytes :: "buf option \<Rightarrow> nat \<Rightarrow> u8 list" where
  "echo_bytes payload n = (case payload of Some src \<Rightarrow> take n src | None \<Rightarrow> replicate n 0)"

lemma echo_payload_Some:
  assumes "length h = 8" "8 + unat n \<le> length out" "8 + unat n < 2 ^ 32" "\<And>src. payload = Some src \<Longrightarrow> unat n \<le> length src"
  shows "echo_payload payload n (h @ drop 8 out) = Some (h @ echo_bytes payload (unat n) @ drop (8 + unat n) out)"
proof (cases payload)
  case None
  then show ?thesis
    using assms fill_after_header [of 8 8 h n out] by (simp add: echo_payload_def echo_bytes_def)
next
  case (Some src)
  then show ?thesis
    using assms copy_after_header [of 8 8 h n src out] by (simp add: echo_payload_def echo_bytes_def)
qed

lemma checksum_prefix: "unat len = length p \<Longrightarrow> checksum (p @ q) len = Some (NOT (add16 (of_nat (be_sum p))))"
  by (simp add: checksum_def checksum_loop_sum del: checksum_loop.simps)

lemma unat_not_add16: "unat (NOT (add16 s)) = 65535 - unat (fold_sum s)"
  using fold_sum_spec [of s] by (simp add: add16_def unat_not_u16 unsigned_ucast_eq take_bit_eq_mod)




lemma echo_request_checksum_swapped:
  "case build_echo_request 1 2 None 0 (replicate 8 0) 8 of Some (out, n) \<Rightarrow> checksum out n \<noteq> Some 0 | None \<Rightarrow> False"
  by code_simp

end
