(* ===== verification/KOS_Net.thy ===== *)
theory KOS_Net
  imports KOS_Packet KOS_String
begin

unbundle bit_operations_syntax

text \<open>
  The network stack above the adapter: configuration (\<^verbatim>\<open>src/net/ipv4.cpp\<close>), the adapter interface
  (\<^verbatim>\<open>src/net/nic.cpp\<close>) and its system calls (\<^verbatim>\<open>src/lib/syscalls.cpp\<close>), address resolution
  (\<^verbatim>\<open>src/net/arp_cache.cpp\<close>, \<^verbatim>\<open>src/net/arp.cpp\<close>), sending UDP (\<^verbatim>\<open>src/net/udp.cpp\<close>) and ICMP
  (\<^verbatim>\<open>src/net/raw_icmp.cpp\<close>), and the dispatch of received frames (\<^verbatim>\<open>src/net/rx_dispatch.cpp\<close>). The
  static variables of these files are the record \<open>net\<close>. The transmit function of the driver is
  a value in it; \<open>nic_sent\<close> lists the frames handed to that function. Local arrays start as zeros, and no result
  depends on their initial contents. Log and console output is not modelled. \<open>None\<close> is an access outside a buffer.
\<close>

section \<open>State\<close>

record NetConfig =
  conf_ip :: "u8 list"
  conf_mask :: "u8 list"
  conf_gw :: "u8 list"
  conf_dns :: "u8 list"

record EchoReply =
  reply_id :: u16
  reply_seq :: u16
  reply_len :: u32
  reply_buf :: buf

record net =
  g_cfg :: NetConfig
  arp_ips :: "nat \<Rightarrow> u32"
  arp_macs :: "nat \<Rightarrow> u8 list"
  arp_used :: "nat \<Rightarrow> bool"
  rx_registered :: bool
  tx_fn :: "(buf \<Rightarrow> bool) option"
  nic_mac :: "u8 list"
  nic_mac_set :: bool
  nic_sent :: "buf list"
  g_queue :: "nat \<Rightarrow> EchoReply"
  g_q_head :: nat
  g_q_tail :: nat
  g_dns_response_buf :: buf
  g_dns_response_len :: u32
  g_dns_response_id :: u16
  g_dns_response_ready :: bool
  query_id_counter :: u16

section \<open>Configuration\<close>

text \<open>
  The text that \<^verbatim>\<open>String::strncpy\<close> with bound \<open>n\<close> leaves in the destination; \<open>config_text_strncpy\<close> below
  relates it to that routine.
\<close>

definition config_text :: "u32 \<Rightarrow> u8 list \<Rightarrow> u8 list" where
  "config_text n s = take (unat n - 1) s"

definition copy_config :: "NetConfig \<Rightarrow> NetConfig" where
  "copy_config c = \<lparr>conf_ip = config_text 15 (conf_ip c), conf_mask = config_text 15 (conf_mask c),
     conf_gw = config_text 15 (conf_gw c), conf_dns = config_text 15 (conf_dns c)\<rparr>"

definition SetConfig :: "NetConfig \<Rightarrow> net \<Rightarrow> net" where
  "SetConfig c n = n\<lparr>g_cfg := copy_config c\<rparr>"

definition GetConfig :: "net \<Rightarrow> NetConfig" where
  "GetConfig n = g_cfg n"

text \<open>The flag says that the pointer is not null; \<open>None\<close> is the result -1.\<close>

definition get_net_config :: "bool \<Rightarrow> net \<Rightarrow> NetConfig option" where
  "get_net_config config n = (if config then Some (copy_config (GetConfig n)) else None)"

section \<open>Adapter\<close>

definition kos_nic_register_rx :: "net \<Rightarrow> net" where
  "kos_nic_register_rx n = n\<lparr>rx_registered := True\<rparr>"

definition kos_nic_register_tx :: "(buf \<Rightarrow> bool) option \<Rightarrow> net \<Rightarrow> net" where
  "kos_nic_register_tx f n = n\<lparr>tx_fn := f\<rparr>"

definition kos_nic_send_frame :: "buf \<Rightarrow> u32 \<Rightarrow> net \<Rightarrow> (net \<times> bool) option" where
  "kos_nic_send_frame frame len n =
     (case tx_fn n of
        None \<Rightarrow> Some (n, False)
      | Some f \<Rightarrow> do {
          bs \<leftarrow> get_struct frame 0 (unat len);
          Some (n\<lparr>nic_sent := nic_sent n @ [bs]\<rparr>, f bs)
        })"

definition kos_nic_set_mac :: "u8 list \<Rightarrow> net \<Rightarrow> net option" where
  "kos_nic_set_mac mac n = do {
     m \<leftarrow> get_struct mac 0 6;
     Some (n\<lparr>nic_mac := m, nic_mac_set := True\<rparr>)
   }"

definition kos_nic_get_mac :: "net \<Rightarrow> u8 list option" where
  "kos_nic_get_mac n = (if nic_mac_set n then Some (nic_mac n) else None)"

text \<open>The system call returns 0 and the address, or -1.\<close>

definition get_mac_address :: "bool \<Rightarrow> net \<Rightarrow> u8 list option" where
  "get_mac_address mac n = (if mac then kos_nic_get_mac n else None)"

definition send_ethernet_frame :: "buf option \<Rightarrow> u32 \<Rightarrow> net \<Rightarrow> (net \<times> int) option" where
  "send_ethernet_frame frame len n =
     (case frame of
        None \<Rightarrow> Some (n, - 1)
      | Some f \<Rightarrow>
          if len = 0 \<or> len > 1500 then Some (n, - 1)
          else do {
            (n1, ok) \<leftarrow> kos_nic_send_frame f len n;
            Some (n1, if ok then uint len else - 1)
          })"

section \<open>Address resolution\<close>

definition arp_slot :: "u32 \<Rightarrow> net \<Rightarrow> nat option" where
  "arp_slot ip n = find (\<lambda>i. arp_used n i \<and> arp_ips n i = ip) [0..<8]"

definition arp_cache_lookup :: "u32 \<Rightarrow> net \<Rightarrow> u8 list option" where
  "arp_cache_lookup ip n = map_option (arp_macs n) (arp_slot ip n)"

definition arp_cache_update :: "u32 \<Rightarrow> u8 list \<Rightarrow> net \<Rightarrow> net" where
  "arp_cache_update ip mac n =
     (case arp_slot ip n of
        Some i \<Rightarrow> n\<lparr>arp_macs := (arp_macs n)(i := mac)\<rparr>
      | None \<Rightarrow>
          (case find (\<lambda>i. \<not> arp_used n i) [0..<8] of
             Some i \<Rightarrow> n\<lparr>arp_used := (arp_used n)(i := True), arp_ips := (arp_ips n)(i := ip),
                         arp_macs := (arp_macs n)(i := mac)\<rparr>
           | None \<Rightarrow> n))"

record EthernetHeader =
  eth_dst :: "u8 list"
  eth_src :: "u8 list"
  ethertype :: u16

definition EthernetHeader_bytes :: "EthernetHeader \<Rightarrow> u8 list" where
  "EthernetHeader_bytes h = eth_dst h @ eth_src h @ le16 (ethertype h)"

definition ETHERTYPE_IPV4 :: u16 where "ETHERTYPE_IPV4 = 0x0800"
definition ETHERTYPE_ARP :: u16 where "ETHERTYPE_ARP = 0x0806"

record ArpPacket =
  hw_type :: u16
  proto_type :: u16
  hw_size :: u8
  proto_size :: u8
  arp_op :: u16
  arp_sha :: "u8 list"
  arp_sip :: "u8 list"
  arp_tha :: "u8 list"
  arp_tip :: "u8 list"

definition ArpPacket_bytes :: "ArpPacket \<Rightarrow> u8 list" where
  "ArpPacket_bytes p = le16 (hw_type p) @ le16 (proto_type p) @ [hw_size p, proto_size p] @ le16 (arp_op p) @
     arp_sha p @ arp_sip p @ arp_tha p @ arp_tip p"

definition ip_be_to_bytes :: "u32 \<Rightarrow> u8 list" where
  "ip_be_to_bytes be = [ucast (drop_bit 24 be AND 0xFF), ucast (drop_bit 16 be AND 0xFF),
     ucast (drop_bit 8 be AND 0xFF), ucast (be AND 0xFF)]"

definition join_ip :: "u32 \<Rightarrow> u32 \<Rightarrow> u32 \<Rightarrow> u32 \<Rightarrow> u32" where
  "join_ip a b c d = push_bit 24 a OR push_bit 16 b OR push_bit 8 c OR d"

text \<open>
  The loop over the characters of a dotted address. \<open>None\<close> is an early return for a number above 255, a fifth
  dot or, where \<open>strict\<close> holds, another character.
\<close>

fun parse_ip_loop :: "bool \<Rightarrow> u8 list \<Rightarrow> u32 list \<Rightarrow> nat \<Rightarrow> u32 \<Rightarrow> (u32 list \<times> nat \<times> u32) option" where
  "parse_ip_loop strict [] parts i val = Some (parts, i, val)"
| "parse_ip_loop strict (ch # s) parts i val =
     (if 0x30 \<le> ch \<and> ch \<le> 0x39 then
        (let v = val * 10 + ucast (ch - 0x30)
         in if v > 255 then None else parse_ip_loop strict s parts i v)
      else if ch = 0x2E then
        (if i \<ge> 4 then None else parse_ip_loop strict s (parts[i := val]) (i + 1) 0)
      else if strict then None
      else parse_ip_loop strict s parts i val)"

definition parse_parts :: "bool \<Rightarrow> u8 list \<Rightarrow> u32 option" where
  "parse_parts strict s =
     (case parse_ip_loop strict s [0, 0, 0, 0] 0 0 of
        None \<Rightarrow> None
      | Some (parts, i, val) \<Rightarrow>
          if i = 3 then Some (join_ip (parts ! 0) (parts ! 1) (parts ! 2) val) else None)"

definition parse_ipv4_be_str :: "u8 list \<Rightarrow> u32" where
  "parse_ipv4_be_str s = (case parse_parts True s of None \<Rightarrow> 0 | Some ip \<Rightarrow> ip)"

definition mac_or_zero :: "u8 list option \<Rightarrow> u8 list" where
  "mac_or_zero m = (case m of Some mac \<Rightarrow> mac | None \<Rightarrow> replicate 6 0)"

text \<open>The address of the local configuration variable is not null, so the call fills it in.\<close>

definition arp_request :: "u32 \<Rightarrow> net \<Rightarrow> buf" where
  "arp_request ip n =
     (let mac = get_mac_address True n;
          syscfg = the (get_net_config True n);
          eth = \<lparr>eth_dst = replicate 6 0xFF, eth_src = mac_or_zero mac, ethertype = ETHERTYPE_ARP\<rparr>;
          arp = \<lparr>hw_type = 1, proto_type = ETHERTYPE_IPV4, hw_size = 6, proto_size = 4, arp_op = 1,
                 arp_sha = mac_or_zero mac, arp_sip = ip_be_to_bytes (parse_ipv4_be_str (conf_ip syscfg)),
                 arp_tha = replicate 6 0, arp_tip = ip_be_to_bytes ip\<rparr>
      in EthernetHeader_bytes eth @ ArpPacket_bytes arp)"

definition arp_send_request :: "u32 \<Rightarrow> net \<Rightarrow> net option" where
  "arp_send_request ip n = map_option fst (send_ethernet_frame (Some (arp_request ip n)) 42 n)"

definition arp_resolve :: "u32 \<Rightarrow> net \<Rightarrow> (net \<times> u8 list option) option" where
  "arp_resolve ip n =
     (case arp_cache_lookup ip n of
        Some mac \<Rightarrow> Some (n, Some mac)
      | None \<Rightarrow> do { n1 \<leftarrow> arp_send_request ip n; Some (n1, None) })"

definition get_le16 :: "buf \<Rightarrow> u32 \<Rightarrow> u16 option" where
  "get_le16 b k = do { lo \<leftarrow> get8 b k; hi \<leftarrow> get8 b (k + 1); Some (word16 lo hi) }"

definition arp_ingest :: "buf \<Rightarrow> u32 \<Rightarrow> net \<Rightarrow> (net \<times> bool) option" where
  "arp_ingest frame len n =
     (if len < 42 then Some (n, False)
      else do {
        et \<leftarrow> get_le16 frame 12;
        if et \<noteq> ETHERTYPE_ARP then Some (n, False)
        else do {
          opc \<leftarrow> get_le16 frame 20;
          if opc \<noteq> 2 then Some (n, False)
          else do {
            sip \<leftarrow> get_struct frame 28 4;
            sha \<leftarrow> get_struct frame 22 6;
            Some (arp_cache_update (join_ip (ucast (sip ! 0)) (ucast (sip ! 1)) (ucast (sip ! 2)) (ucast (sip ! 3))) sha n, True)
          }
        }
      })"


section \<open>Sending\<close>

text \<open>The Ethernet frame around an IPv4 packet, in a local array of \<open>cap\<close> bytes.\<close>

definition ip_frame :: "nat \<Rightarrow> u8 list \<Rightarrow> u8 list \<Rightarrow> buf \<Rightarrow> u32 \<Rightarrow> buf option" where
  "ip_frame cap dst src ip_buf ip_len = do {
     f1 \<leftarrow> put_struct (replicate cap 0) 0
       (EthernetHeader_bytes \<lparr>eth_dst = dst, eth_src = src, ethertype = ETHERTYPE_IPV4\<rparr>);
     copy_buf ip_buf ip_len 14 f1
   }"

definition mac_or_broadcast :: "u8 list option \<Rightarrow> u8 list" where
  "mac_or_broadcast m = (case m of Some mac \<Rightarrow> mac | None \<Rightarrow> replicate 6 0xFF)"

definition transmit_udp ::
  "u32 \<Rightarrow> buf \<Rightarrow> u32 \<Rightarrow> u32 \<Rightarrow> u16 \<Rightarrow> u16 \<Rightarrow> net \<Rightarrow> (net \<times> bool) option" where
  "transmit_udp src_ip payload payload_len dst_ip src_port dst_port n = do {
     (udp_buf, udp_len) \<leftarrow> build_udp_packet (Some payload) payload_len src_ip dst_ip src_port dst_port
       (Some (replicate 1024 0)) 1024;
     if udp_len = 0 then Some (n, False)
     else do {
       (ip_buf, ip_len) \<leftarrow> build_ipv4_packet (the udp_buf) udp_len src_ip dst_ip 17 64 (replicate 1024 0) 1024;
       if ip_len = 0 then Some (n, False)
       else do {
         (n1, mac) \<leftarrow> arp_resolve dst_ip n;
         if ip_len + 14 > 1500 then Some (n1, False)
         else do {
           frame \<leftarrow> ip_frame 1500 (mac_or_broadcast mac) (mac_or_zero (get_mac_address True n1)) ip_buf ip_len;
           (n2, r) \<leftarrow> send_ethernet_frame (Some frame) (14 + ip_len) n1;
           Some (n2, r > 0)
         }
       }
     }
   }"

definition send_udp_packet ::
  "buf option \<Rightarrow> u32 \<Rightarrow> u32 \<Rightarrow> u16 \<Rightarrow> u16 \<Rightarrow> net \<Rightarrow> (net \<times> bool) option" where
  "send_udp_packet payload payload_len dst_ip src_port dst_port n =
     (case payload of
        None \<Rightarrow> Some (n, False)
      | Some p \<Rightarrow>
          if payload_len = 0 then Some (n, False)
          else
            (case get_net_config True n of
               None \<Rightarrow> Some (n, False)
             | Some syscfg \<Rightarrow>
                 (case parse_parts False (conf_ip syscfg) of
                    None \<Rightarrow> Some (n, False)
                  | Some src_ip \<Rightarrow> transmit_udp src_ip p payload_len dst_ip src_port dst_port n)))"

section \<open>ICMP echo\<close>

text \<open>This parser stops at the first number above 255, other character or fourth dot.\<close>

fun parse_ip_stop :: "u8 list \<Rightarrow> u32 list \<Rightarrow> nat \<Rightarrow> u32 \<Rightarrow> u32 list \<times> nat \<times> u32" where
  "parse_ip_stop [] parts i val = (parts, i, val)"
| "parse_ip_stop (ch # s) parts i val =
     (if 0x30 \<le> ch \<and> ch \<le> 0x39 then
        (let v = val * 10 + ucast (ch - 0x30)
         in if v > 255 then (parts, i, 0) else parse_ip_stop s parts i v)
      else if ch = 0x2E then
        (if i + 1 > 3 then (parts[i := val], i + 1, 0) else parse_ip_stop s (parts[i := val]) (i + 1) 0)
      else (parts, i, val))"

definition source_ip :: "u8 list \<Rightarrow> u32" where
  "source_ip s =
     (let (parts, i, val) = parse_ip_stop s [0, 0, 0, 0] 0 0
      in if i = 3 then join_ip (parts ! 0) (parts ! 1) (parts ! 2) val else join_ip 0 0 0 0)"

definition default_mac :: "u8 list" where
  "default_mac = [0x52, 0x54, 0x00, 0x12, 0x34, 0x56]"

text \<open>The payload length is cut to 16 bits by the parameter of \<^verbatim>\<open>build_echo_request\<close>.\<close>

definition rawicmp_send_echo ::
  "u32 \<Rightarrow> u16 \<Rightarrow> u16 \<Rightarrow> buf option \<Rightarrow> u32 \<Rightarrow> net \<Rightarrow> (net \<times> bool) option" where
  "rawicmp_send_echo dst_ip_be ident seq payload payload_len n = do {
     (icmp_buf, icmp_len) \<leftarrow> build_echo_request ident seq payload (ucast payload_len) (replicate 64 0) 64;
     if icmp_len = 0 then Some (n, False)
     else
       (case get_net_config True n of
          None \<Rightarrow> Some (n, False)
        | Some netcfg \<Rightarrow> do {
            (ip_buf, ip_len) \<leftarrow> build_ipv4_packet icmp_buf icmp_len (source_ip (conf_ip netcfg)) dst_ip_be 1 64
              (replicate 96 0) 96;
            if ip_len = 0 then Some (n, False)
            else do {
              (n1, mac) \<leftarrow> arp_resolve dst_ip_be n;
              if ip_len + 14 > 128 then Some (n1, False)
              else do {
                let smac = (case get_mac_address True n1 of Some m \<Rightarrow> m | None \<Rightarrow> default_mac);
                frame \<leftarrow> ip_frame 128 (mac_or_broadcast mac) smac ip_buf ip_len;
                (n2, r) \<leftarrow> send_ethernet_frame (Some frame) (14 + ip_len) n1;
                Some (n2, r > 0)
              }
            }
          })
   }"

definition queue_reply :: "u16 \<Rightarrow> u16 \<Rightarrow> buf \<Rightarrow> u32 \<Rightarrow> net \<Rightarrow> net option" where
  "queue_reply ident seq data len n = do {
     let e = g_queue n (g_q_tail n);
     let k = (if len > 128 then 128 else len);
     b \<leftarrow> copy_buf data k 0 (reply_buf e);
     let t = (g_q_tail n + 1) mod 4;
     Some (n\<lparr>g_queue := (g_queue n)(g_q_tail n := \<lparr>reply_id = ident, reply_seq = seq, reply_len = k, reply_buf = b\<rparr>),
             g_q_tail := t,
             g_q_head := (if t = g_q_head n then (g_q_head n + 1) mod 4 else g_q_head n)\<rparr>)
   }"

definition rawicmp_on_ipv4_packet :: "buf \<Rightarrow> u32 \<Rightarrow> net \<Rightarrow> net option" where
  "rawicmp_on_ipv4_packet data len n =
     (if len < 20 then Some n
      else do {
        d0 \<leftarrow> get8 data 0;
        let ihl = (d0 AND 0x0F) * 4;
        if ihl < 20 \<or> len < ucast ihl then Some n
        else do {
          proto \<leftarrow> get8 data 9;
          if proto \<noteq> 1 then Some n
          else do {
            let icmp = drop (unat ihl) data;
            let icmp_len = len - ucast ihl;
            if icmp_len < 8 then Some n
            else do {
              type \<leftarrow> get8 icmp 0;
              if type \<noteq> 0 then Some n
              else do {
                i4 \<leftarrow> get8 icmp 4;
                i5 \<leftarrow> get8 icmp 5;
                i6 \<leftarrow> get8 icmp 6;
                i7 \<leftarrow> get8 icmp 7;
                let pay_len = (if icmp_len - 8 > 128 then 128 else icmp_len - 8);
                queue_reply (word16 i5 i4) (word16 i7 i6) (drop 8 icmp) pay_len n
              }
            }
          }
        }
      })"

partial_function (option) recv_loop :: "u16 \<Rightarrow> u16 \<Rightarrow> buf \<Rightarrow> u32 \<Rightarrow> nat \<Rightarrow> net \<Rightarrow> (net \<times> buf \<times> u32) option" where
  "recv_loop ident seq buf buf_len qi n =
     (if qi = g_q_tail n then Some (n, buf, 0)
      else
        (let e = g_queue n qi
         in if reply_id e = ident \<and> reply_seq e = seq then
              (let k = (if reply_len e < buf_len then reply_len e else buf_len)
               in do {
                 b \<leftarrow> copy_buf (reply_buf e) k 0 buf;
                 Some (n\<lparr>g_q_head := (qi + 1) mod 4\<rparr>, b, k)
               })
            else recv_loop ident seq buf buf_len ((qi + 1) mod 4) n))"

definition rawicmp_recv_echo :: "u16 \<Rightarrow> u16 \<Rightarrow> buf \<Rightarrow> u32 \<Rightarrow> net \<Rightarrow> (net \<times> buf \<times> u32) option" where
  "rawicmp_recv_echo ident seq buf buf_len n = recv_loop ident seq buf buf_len (g_q_head n) n"

section \<open>Receiving\<close>

definition dns_on_udp_packet :: "u16 \<Rightarrow> u16 \<Rightarrow> buf \<Rightarrow> u32 \<Rightarrow> net \<Rightarrow> net option" where
  "dns_on_udp_packet src_port dst_port data len n =
     (if dst_port = 53 \<and> len \<le> 512 then do {
        b \<leftarrow> copy_buf data len 0 (g_dns_response_buf n);
        Some (n\<lparr>g_dns_response_buf := b, g_dns_response_len := len, g_dns_response_ready := True\<rparr>)
      }
      else Some n)"

definition rx_udp :: "buf \<Rightarrow> u32 \<Rightarrow> net \<Rightarrow> net option" where
  "rx_udp ip_payload ip_payload_len n =
     (if ip_payload_len < 8 then Some n
      else do {
        s \<leftarrow> get_le16 ip_payload 0;
        d \<leftarrow> get_le16 ip_payload 2;
        if htons s = 53 then dns_on_udp_packet (htons s) (htons d) (drop 8 ip_payload) (ip_payload_len - 8) n
        else Some n
      })"

definition rx_ipv4 :: "buf \<Rightarrow> u32 \<Rightarrow> net \<Rightarrow> net option" where
  "rx_ipv4 payload plen n =
     (if plen < 20 then Some n
      else do {
        v \<leftarrow> get8 payload 0;
        let ihl = (v AND 0x0F) * 4;
        if plen < ucast ihl then Some n
        else do {
          protocol \<leftarrow> get8 payload 9;
          if protocol = 17 then rx_udp (drop (unat ihl) payload) (plen - ucast ihl) n
          else if protocol = 1 then rawicmp_on_ipv4_packet payload plen n
          else Some n
        }
      })"

definition rx_cb :: "buf \<Rightarrow> u32 \<Rightarrow> net \<Rightarrow> net option" where
  "rx_cb frame len n =
     (if len < 14 then Some n
      else do {
        et \<leftarrow> get_le16 frame 12;
        if et = ETHERTYPE_ARP then map_option fst (arp_ingest frame len n)
        else if et = ETHERTYPE_IPV4 then rx_ipv4 (drop 14 frame) (len - 14) n
        else Some n
      })"

definition rx_dispatch_init :: "net \<Rightarrow> net" where
  "rx_dispatch_init n = kos_nic_register_rx n"

definition kos_nic_driver_rx :: "buf \<Rightarrow> u32 \<Rightarrow> net \<Rightarrow> net option" where
  "kos_nic_driver_rx frame len n = (if rx_registered n then rx_cb frame len n else Some n)"

section \<open>Received frames\<close>

definition net_ok :: "net \<Rightarrow> bool" where
  "net_ok n \<longleftrightarrow> length (g_dns_response_buf n) = 512 \<and> unat (g_dns_response_len n) \<le> 512 \<and>
     g_q_head n < 4 \<and> g_q_tail n < 4 \<and>
     (\<forall>i < 4. length (reply_buf (g_queue n i)) = 128 \<and> unat (reply_len (g_queue n i)) \<le> 128) \<and>
     length (nic_mac n) = 6 \<and> (\<forall>i < 8. arp_used n i \<longrightarrow> length (arp_macs n i) = 6)"

lemma get8_Some: "unat i < length b \<Longrightarrow> get8 b i = Some (b ! unat i)"
  by (simp add: get8_def)

lemma get_le16_Some: "unat k + 1 < length b \<Longrightarrow> unat (k + 1) = unat k + 1 \<Longrightarrow> get_le16 b k = Some (word16 (b ! unat k) (b ! (unat k + 1)))"
  by (simp add: get_le16_def get8_def)

lemma arp_slot_less: "arp_slot ip n = Some i \<Longrightarrow> i < 8 \<and> arp_used n i \<and> arp_ips n i = ip"
  by (auto simp: arp_slot_def find_Some_iff)

lemma arp_cache_update_ok: "net_ok n \<Longrightarrow> length mac = 6 \<Longrightarrow> net_ok (arp_cache_update ip mac n)"
  by (auto simp: arp_cache_update_def net_ok_def split: option.splits)

text \<open>A result inside all buffers, in a good state; the rules follow the shape of the handlers.\<close>

definition safe_result :: "net option \<Rightarrow> bool" where
  "safe_result r \<longleftrightarrow> (\<exists>n'. r = Some n' \<and> net_ok n')"

lemma safe_Some: "net_ok n \<Longrightarrow> safe_result (Some n)"
  by (simp add: safe_result_def)

lemma safe_if: "(c \<Longrightarrow> safe_result a) \<Longrightarrow> (\<not> c \<Longrightarrow> safe_result b) \<Longrightarrow> safe_result (if c then a else b)"
  by simp

lemma safe_get8: "unat i < length b \<Longrightarrow> (\<And>x. safe_result (f x)) \<Longrightarrow> safe_result (get8 b i \<bind> f)"
  by (simp add: get8_def)

lemma safe_get_le16:
  "unat k + 1 < length b \<Longrightarrow> unat (k + 1) = unat k + 1 \<Longrightarrow> (\<And>x. safe_result (f x)) \<Longrightarrow> safe_result (get_le16 b k \<bind> f)"
  by (simp add: get_le16_Some)

lemmas safe_rules = safe_Some safe_if safe_get8 safe_get_le16

lemma arp_ingest_safe:
  assumes "net_ok n" "unat len \<le> length frame"
  shows "safe_result (map_option fst (arp_ingest frame len n))"
proof (cases "len < 42")
  case True
  with assms(1) show ?thesis by (simp add: arp_ingest_def safe_Some)
next
  case False
  then have "42 \<le> length frame" using assms(2) by (simp add: word_less_nat_alt)
  with False assms(1) show ?thesis
    by (simp add: arp_ingest_def get_le16_Some get_struct_def arp_cache_update_ok safe_Some)
qed

lemma queue_reply_safe:
  assumes "net_ok n" "unat len \<le> length data"
  shows "safe_result (queue_reply ident seq data len n)"
proof -
  let ?k = "if len > 128 then 128 else len"
  let ?b = "reply_buf (g_queue n (g_q_tail n))"
  have t: "g_q_tail n < 4" and b: "length ?b = 128" using assms(1) by (simp_all add: net_ok_def)
  have k: "unat ?k \<le> 128" "unat ?k \<le> length data" using assms(2) by (auto simp: word_less_nat_alt)
  have "copy_buf data ?k 0 ?b = Some (take (unat ?k) data @ drop (unat ?k) ?b)"
    using k b by (subst copy_buf_Some) (simp_all del: if_split)
  then show ?thesis
    using assms(1) t b k
    by (simp add: queue_reply_def Let_def net_ok_def safe_result_def del: if_split) (auto split: if_splits)
qed

lemma unat_ucast_u8 [simp]: "unat (ucast (b :: u8) :: u32) = unat b"
proof -
  have "unat b < 256" using unsigned_less [of b] by simp
  then show ?thesis by (simp add: unsigned_ucast_eq take_bit_eq_mod)
qed

lemma rawicmp_on_ipv4_packet_safe:
  assumes "net_ok n" "unat len \<le> length data"
  shows "safe_result (rawicmp_on_ipv4_packet data len n)"
  unfolding rawicmp_on_ipv4_packet_def Let_def
  by (intro safe_rules queue_reply_safe)
    (use assms in \<open>auto simp: word_less_nat_alt unat_sub_nowrap\<close>)

lemma dns_on_udp_packet_Some:
  assumes "net_ok n" "unat len \<le> length data" "unat len \<le> 512"
  shows "dns_on_udp_packet sp 53 data len n = Some (n\<lparr>g_dns_response_buf := take (unat len) data @ drop (unat len) (g_dns_response_buf n),
      g_dns_response_len := len, g_dns_response_ready := True\<rparr>)"
  using assms copy_buf_Some [of len data 0 "g_dns_response_buf n"]
  by (simp add: dns_on_udp_packet_def net_ok_def word_le_nat_alt)

lemma dns_on_udp_packet_safe:
  assumes "net_ok n" "unat len \<le> length data"
  shows "safe_result (dns_on_udp_packet sp dp data len n)"
proof (cases "dp = 53 \<and> len \<le> 512")
  case True
  then have "unat len \<le> 512" by (simp add: word_le_nat_alt)
  with True assms show ?thesis by (simp add: dns_on_udp_packet_Some) (simp add: net_ok_def safe_result_def)
next
  case False
  with assms(1) show ?thesis by (auto simp: dns_on_udp_packet_def safe_Some)
qed

lemma rx_udp_safe:
  assumes "net_ok n" "unat len \<le> length data"
  shows "safe_result (rx_udp data len n)"
  unfolding rx_udp_def
  by (intro safe_rules dns_on_udp_packet_safe) (use assms in \<open>auto simp: word_less_nat_alt unat_sub_nowrap\<close>)

lemma rx_ipv4_safe:
  assumes "net_ok n" "unat len \<le> length data"
  shows "safe_result (rx_ipv4 data len n)"
  unfolding rx_ipv4_def Let_def
  by (intro safe_rules rx_udp_safe rawicmp_on_ipv4_packet_safe)
    (use assms in \<open>auto simp: word_less_nat_alt unat_sub_nowrap\<close>)

text \<open>
  C12. Whatever bytes a received frame holds, its handling reads and writes inside its
  buffers only, and keeps the invariant of the stack: the sizes of the arrays and the ranges of
  the indices into them.
\<close>

theorem rx_cb_safe:
  assumes "net_ok n" "unat len \<le> length frame"
  shows "\<exists>n'. kos_nic_driver_rx frame len n = Some n' \<and> net_ok n'"
proof -
  have "safe_result (rx_cb frame len n)"
    unfolding rx_cb_def
    by (intro safe_rules rx_ipv4_safe arp_ingest_safe) (use assms in \<open>auto simp: word_less_nat_alt unat_sub_nowrap\<close>)
  with assms(1) show ?thesis by (auto simp: kos_nic_driver_rx_def safe_result_def)
qed


text \<open>The static variables before any call.\<close>

definition net_init :: net where
  "net_init = \<lparr>g_cfg = \<lparr>conf_ip = [], conf_mask = [], conf_gw = [], conf_dns = []\<rparr>,
     arp_ips = (\<lambda>_. 0), arp_macs = (\<lambda>_. replicate 6 0), arp_used = (\<lambda>_. False), rx_registered = False,
     tx_fn = None, nic_mac = replicate 6 0, nic_mac_set = False, nic_sent = [],
     g_queue = (\<lambda>_. \<lparr>reply_id = 0, reply_seq = 0, reply_len = 0, reply_buf = replicate 128 0\<rparr>),
     g_q_head = 0, g_q_tail = 0, g_dns_response_buf = replicate 512 0, g_dns_response_len = 0,
     g_dns_response_id = 0, g_dns_response_ready = False, query_id_counter = 1\<rparr>"

lemma net_init_ok: "net_ok net_init"
  by (simp add: net_init_def net_ok_def)

theorem rx_cb_safe_witness:
  "\<exists>n'. kos_nic_driver_rx (replicate 60 0x45) 60 (rx_dispatch_init net_init) = Some n' \<and> net_ok n'"
proof -
  have ok: "net_ok (rx_dispatch_init net_init)"
    using net_init_ok by (simp add: rx_dispatch_init_def kos_nic_register_rx_def net_ok_def)
  have "unat (60 :: u32) \<le> length (replicate 60 (0x45 :: u8))" by simp
  from rx_cb_safe [OF ok this] show ?thesis .
qed

section \<open>A datagram from sender to receiver\<close>

lemma word16_le16: "word16 (ucast v) (ucast (drop_bit 8 v)) = v"
  unfolding word16_def by (rule bit_word_eqI) (auto simp: bit_simps)

lemma htons_take_bit: "htons v = push_bit 8 (take_bit 8 v) OR take_bit 8 (drop_bit 8 v)"
proof -
  have "w AND 0xFF = take_bit 8 w" for w :: u16
    by (simp add: take_bit_eq_mask mask_eq_exp_minus_1)
  then show ?thesis by (simp only: htons_def)
qed

lemma htons_htons [simp]: "htons (htons v) = v"
  unfolding htons_take_bit by (rule bit_word_eqI) (auto simp: bit_simps)

lemma get_le16_append: "unat k = length xs \<Longrightarrow> unat (k + 1) = unat k + 1 \<Longrightarrow> get_le16 (xs @ le16 v @ ys) k = Some v"
  by (simp add: get_le16_Some le16_def nth_append word16_le16)

lemma rx_udp_frame:
  fixes l c :: u16
  assumes "rx_registered m" "net_ok m" "length dst = 6" "length src = 6" "ver_ihl h = 0x45" "ip_protocol h = 17"
    and "length data \<le> 512"
  defines "frame \<equiv> EthernetHeader_bytes \<lparr>eth_dst = dst, eth_src = src, ethertype = ETHERTYPE_IPV4\<rparr> @ IPv4Header_bytes h @
    UDPHeader_bytes \<lparr>udp_src_port = htons 53, udp_dst_port = htons 53, udp_length = l, udp_checksum = c\<rparr> @ data"
  shows "kos_nic_driver_rx frame (of_nat (length frame)) m = Some (m\<lparr>
     g_dns_response_buf := data @ drop (length data) (g_dns_response_buf m),
     g_dns_response_len := of_nat (length data), g_dns_response_ready := True\<rparr>)"
proof -
  define udp where "udp = UDPHeader_bytes \<lparr>udp_src_port = htons 53, udp_dst_port = htons 53, udp_length = l, udp_checksum = c\<rparr> @ data"
  define ip where "ip = IPv4Header_bytes h @ udp"
  define n :: u32 where "n = of_nat (length data)"
  have n: "unat n = length data" using assms(7) by (simp add: n_def unat_of_nat_u32)
  have len: "of_nat (length frame) = 42 + n" "unat (42 + n) = 42 + length data"
    using assms(3,4,7) n by (simp_all add: frame_def EthernetHeader_bytes_def n_def unat_add_nowrap)
  have 0: "get_le16 udp 0 = Some (htons 53)" "get_le16 udp 2 = Some (htons 53)" "drop 8 udp = data"
    by (simp_all add: udp_def UDPHeader_bytes_def get_le16_Some le16_def word16_le16)
  have 1: "rx_udp udp (8 + n) m = dns_on_udp_packet 53 53 data n m"
    using n assms(7) by (simp add: rx_udp_def 0 word_less_nat_alt unat_add_nowrap)
  have 2: "rx_ipv4 ip (28 + n) m = rx_udp udp (8 + n) m"
    using n assms(5,6,7)
    by (simp add: rx_ipv4_def ip_def get8_Some IPv4Header_bytes_def le16_def le32_def Let_def word_less_nat_alt unat_add_nowrap)
  have "get_le16 frame 12 = Some ETHERTYPE_IPV4"
    using assms(3,4) get_le16_append [of 12 "dst @ src" ETHERTYPE_IPV4] by (simp add: frame_def EthernetHeader_bytes_def)
  moreover have "drop 14 frame = ip" using assms(3,4) by (simp add: frame_def EthernetHeader_bytes_def ip_def udp_def)
  ultimately have 3: "rx_cb frame (42 + n) m = rx_ipv4 ip (28 + n) m"
    using len(2) by (simp add: rx_cb_def word_less_nat_alt ETHERTYPE_IPV4_def ETHERTYPE_ARP_def)
  show ?thesis
    using assms(1) 1 2 3 dns_on_udp_packet_Some [OF assms(2), of n data 53] assms(7) n
    by (simp add: len(1) kos_nic_driver_rx_def n_def)
qed

lemma ip_frame_Some:
  assumes "length dst = 6" "length src = 6" "unat ip_len \<le> length ip_buf" "14 + unat ip_len \<le> cap" "14 + unat ip_len < 2 ^ 32"
  shows "ip_frame cap dst src ip_buf ip_len =
    Some (EthernetHeader_bytes \<lparr>eth_dst = dst, eth_src = src, ethertype = ETHERTYPE_IPV4\<rparr> @ take (unat ip_len) ip_buf @
      replicate (cap - (14 + unat ip_len)) 0)"
proof -
  let ?h = "EthernetHeader_bytes \<lparr>eth_dst = dst, eth_src = src, ethertype = ETHERTYPE_IPV4\<rparr>"
  have h: "length ?h = 14" using assms(1,2) by (simp add: EthernetHeader_bytes_def)
  have "copy_buf ip_buf ip_len 14 (?h @ drop 14 (replicate cap 0)) =
      Some (?h @ take (unat ip_len) ip_buf @ drop (14 + unat ip_len) (replicate cap 0))"
    by (rule copy_after_header) (use assms h in simp_all)
  then show ?thesis using assms(4) h by (simp add: ip_frame_def put_struct_Some)
qed

lemma send_ethernet_frame_Some:
  assumes "tx_fn n = Some f" "0 < unat len" "unat len \<le> 1500" "unat len \<le> length frame"
  shows "send_ethernet_frame (Some frame) len n =
    Some (n\<lparr>nic_sent := nic_sent n @ [take (unat len) frame]\<rparr>, if f (take (unat len) frame) then uint len else - 1)"
  using assms by (auto simp: send_ethernet_frame_def kos_nic_send_frame_def get_struct_def word_less_nat_alt unat_eq_0)

lemma length_arp_request: "net_ok n \<Longrightarrow> length (arp_request ip n) = 42"
  by (simp add: arp_request_def Let_def EthernetHeader_bytes_def ArpPacket_bytes_def ip_be_to_bytes_def
    mac_or_zero_def get_mac_address_def kos_nic_get_mac_def net_ok_def)

text \<open>Resolution answers from the cache; on a miss it sends a request and reports no address.\<close>

lemma arp_resolve_Some:
  assumes "net_ok n" "tx_fn n = Some f"
  shows "arp_resolve ip n = Some (n\<lparr>nic_sent := nic_sent n @ (if arp_cache_lookup ip n = None then [arp_request ip n] else [])\<rparr>,
    arp_cache_lookup ip n)"
  using send_ethernet_frame_Some [OF assms(2), of 42 "arp_request ip n"] length_arp_request [OF assms(1)]
  by (auto simp: arp_resolve_def arp_send_request_def split: option.splits)

lemma mac_lengths:
  assumes "net_ok n"
  shows "length (mac_or_broadcast (arp_cache_lookup ip n)) = 6" "length (mac_or_zero (get_mac_address True n)) = 6"
  using assms
  by (auto simp: mac_or_broadcast_def mac_or_zero_def arp_cache_lookup_def get_mac_address_def kos_nic_get_mac_def net_ok_def
    dest: arp_slot_less split: option.splits)

lemma uint_pos: "0 < uint (w :: u32) \<longleftrightarrow> w \<noteq> 0"
  using uint_0_iff [of w] by (auto simp: order_less_le)

lemma transmit_udp_Some:
  assumes n: "net_ok n" "tx_fn n = Some f" and l: "0 < unat len" "unat len \<le> 996" "unat len \<le> length p"
  obtains h dst src l16 n' where "ver_ihl h = 0x45" "ip_protocol h = 17" "ip_src h = sip" "ip_dst h = dip"
    "length dst = 6" "length src = 6"
    "transmit_udp sip p len dip sp dp n = Some (n', f (last (nic_sent n')))" 
    "last (nic_sent n') = EthernetHeader_bytes \<lparr>eth_dst = dst, eth_src = src, ethertype = ETHERTYPE_IPV4\<rparr> @ IPv4Header_bytes h @
      UDPHeader_bytes \<lparr>udp_src_port = htons sp, udp_dst_port = htons dp, udp_length = l16, udp_checksum = 0\<rparr> @ take (unat len) p"
    "n' = n\<lparr>nic_sent := nic_sent n'\<rparr>"
proof -
  let ?u = "UDPHeader_bytes \<lparr>udp_src_port = htons sp, udp_dst_port = htons dp, udp_length = htons (ucast (8 + len)), udp_checksum = 0\<rparr> @ take (unat len) p"
  have u: "build_udp_packet (Some p) len sip dip sp dp (Some (replicate 1024 0)) 1024 = Some (Some (?u @ replicate (1016 - unat len) 0), 8 + len)"
    using l by (subst build_udp_packet_Some) simp_all
  have ul: "unat (8 + len) = 8 + unat len" using l by (simp add: unat_add_nowrap)
  have lu: "length ?u = 8 + unat len" using l by simp
  have "unat (8 + len) \<le> length (?u @ replicate (1016 - unat len) 0)" "unat (1024 :: u32) \<le> length (replicate 1024 (0 :: u8))"
    "20 + unat (8 + len) \<le> unat (1024 :: u32)" using ul lu l by simp_all
  from build_ipv4_packet_Some [OF this, of sip dip 17 64] obtain h
    where b: "build_ipv4_packet (?u @ replicate (1016 - unat len) 0) (8 + len) sip dip 17 64 (replicate 1024 0) 1024 =
        Some (IPv4Header_bytes h @ take (unat (8 + len)) (?u @ replicate (1016 - unat len) 0) @ drop (20 + unat (8 + len)) (replicate 1024 0), 20 + (8 + len))"
      and h: "ver_ihl h = 0x45" "ip_protocol h = 17" "ip_src h = sip" "ip_dst h = dip" by blast
  define ip where "ip = IPv4Header_bytes h @ ?u @ replicate (996 - unat len) 0"
  have ip: "build_ipv4_packet (?u @ replicate (1016 - unat len) 0) (8 + len) sip dip 17 64 (replicate 1024 0) 1024 = Some (ip, 20 + (8 + len))"
    unfolding b ip_def using l(3) by (simp add: ul)
  have il: "unat (20 + (8 + len)) = 28 + unat len" using l ul by (simp add: unat_add_nowrap)
  define n1 where "n1 = n\<lparr>nic_sent := nic_sent n @ (if arp_cache_lookup dip n = None then [arp_request dip n] else [])\<rparr>"
  have n1: "net_ok n1" "tx_fn n1 = Some f" using n by (simp_all add: n1_def net_ok_def)
  note ar = arp_resolve_Some [OF n, of dip, folded n1_def]
  let ?dst = "mac_or_broadcast (arp_cache_lookup dip n)" and ?src = "mac_or_zero (get_mac_address True n1)"
  have m: "length ?dst = 6" "length ?src = 6" using mac_lengths [OF n(1)] mac_lengths [OF n1(1)] by simp_all
  let ?frame = "EthernetHeader_bytes \<lparr>eth_dst = ?dst, eth_src = ?src, ethertype = ETHERTYPE_IPV4\<rparr> @ IPv4Header_bytes h @ ?u"
  have lf: "length ?frame = 42 + unat len" using m lu by (simp add: EthernetHeader_bytes_def)
  have fr: "ip_frame 1500 ?dst ?src ip (20 + (8 + len)) = Some (?frame @ replicate (1458 - unat len) 0)"
    using m l il lu by (subst ip_frame_Some) (simp_all add: ip_def)
  have fl: "unat (14 + (20 + (8 + len))) = 42 + unat len" using il l by (simp add: unat_add_nowrap)
  have tk: "take (unat (14 + (20 + (8 + len)))) (?frame @ replicate (1458 - unat len) 0) = ?frame"
    unfolding fl lf [symmetric] using l(3) by (simp add: min_absorb2)
  have sent: "send_ethernet_frame (Some (?frame @ replicate (1458 - unat len) 0)) (14 + (20 + (8 + len))) n1 =
      Some (n1\<lparr>nic_sent := nic_sent n1 @ [?frame]\<rparr>, if f ?frame then uint (14 + (20 + (8 + len))) else - 1)"
    using send_ethernet_frame_Some [OF n1(2), of "14 + (20 + (8 + len))" "?frame @ replicate (1458 - unat len) 0"]
    by (simp only: tk) (use l fl lf in simp)
  have nz: "8 + len \<noteq> 0" "28 + len \<noteq> 0" "\<not> 1500 < 42 + len" "42 + len \<noteq> 0"
  proof -
    have u: "unat (28 + len) = 28 + unat len" "unat (42 + len) = 42 + unat len" using l by (simp_all add: unat_add_nowrap)
    show "8 + len \<noteq> 0" "28 + len \<noteq> 0" "42 + len \<noteq> 0" using ul u by (metis add_is_0 unat_0 zero_neq_numeral)+
    show "\<not> 1500 < 42 + len" using u l by (simp add: word_less_nat_alt)
  qed
  let ?n' = "n1\<lparr>nic_sent := nic_sent n1 @ [?frame]\<rparr>"
  have tr: "transmit_udp sip p len dip sp dp n = Some (?n', f (last (nic_sent ?n')))"
    using u ip ar fr sent nz by (simp add: transmit_udp_def uint_pos)
  show thesis by (rule that [OF h m tr]) (simp_all add: n1_def)
qed


text \<open>
  C15. A UDP datagram that one machine sends reaches another unchanged. When the configured
  address parses and the driver takes the frame, \<^verbatim>\<open>send_udp_packet\<close> hands the driver one last frame; the receiver
  of that frame stores exactly the payload as the DNS response, with its length, for ports 53.
  Both sides store the Ethernet type in the processor's byte order, so they agree with each other.
\<close>

theorem udp_roundtrip:
  assumes "net_ok n" and "tx_fn n = Some f" and "parse_parts False (conf_ip (copy_config (g_cfg n))) = Some sip"
    and "0 < unat len" and "unat len \<le> 512" and "unat len \<le> length p" and "net_ok m" and "rx_registered m"
  shows "\<exists>n' frame. send_udp_packet (Some p) len dip 53 53 n = Some (n', f frame) \<and> last (nic_sent n') = frame \<and>
     kos_nic_driver_rx frame (of_nat (length frame)) m = Some (m\<lparr>
       g_dns_response_buf := take (unat len) p @ drop (unat len) (g_dns_response_buf m),
       g_dns_response_len := len, g_dns_response_ready := True\<rparr>)"
proof -
  have "unat len \<le> 996" using assms(5) by simp
  from transmit_udp_Some [OF assms(1,2,4) this assms(6), of sip dip 53 53] obtain h dst src l16 n'
    where t: "ver_ihl h = 0x45" "ip_protocol h = 17" "length dst = 6" "length src = 6"
    "transmit_udp sip p len dip 53 53 n = Some (n', f (last (nic_sent n')))"
    and fr: "last (nic_sent n') = EthernetHeader_bytes \<lparr>eth_dst = dst, eth_src = src, ethertype = ETHERTYPE_IPV4\<rparr> @ IPv4Header_bytes h @
      UDPHeader_bytes \<lparr>udp_src_port = htons 53, udp_dst_port = htons 53, udp_length = l16, udp_checksum = 0\<rparr> @ take (unat len) p"
    by metis
  have d: "length (take (unat len) p) = unat len" using assms(6) by simp
  have s: "send_udp_packet (Some p) len dip 53 53 n = Some (n', f (last (nic_sent n')))"
    using assms(3,4) t(5) by (auto simp: send_udp_packet_def get_net_config_def GetConfig_def)
  have "kos_nic_driver_rx (last (nic_sent n')) (of_nat (length (last (nic_sent n')))) m = Some (m\<lparr>
       g_dns_response_buf := take (unat len) p @ drop (unat len) (g_dns_response_buf m),
       g_dns_response_len := len, g_dns_response_ready := True\<rparr>)"
    using rx_udp_frame [OF assms(8,7) t(3,4,1,2), of "take (unat len) p" l16 0] assms(5)
    unfolding fr [symmetric] d by simp
  with s show ?thesis by blast
qed


definition demo_sender :: net where
  "demo_sender = kos_nic_register_tx (Some (\<lambda>_. True))
     (SetConfig \<lparr>conf_ip = [0x31, 0x30, 0x2E, 0x30, 0x2E, 0x30, 0x2E, 0x32], conf_mask = [], conf_gw = [], conf_dns = []\<rparr> net_init)"

theorem udp_roundtrip_witness:
  "\<exists>n' m' frame. send_udp_packet (Some [1, 2, 3]) 3 0x0A000001 53 53 demo_sender = Some (n', True) \<and>
     last (nic_sent n') = frame \<and>
     kos_nic_driver_rx frame (of_nat (length frame)) (rx_dispatch_init net_init) = Some m' \<and>
     take 3 (g_dns_response_buf m') = [1, 2, 3] \<and> g_dns_response_len m' = 3 \<and> g_dns_response_ready m'"
proof -
  have n: "net_ok demo_sender" "net_ok (rx_dispatch_init net_init)"
    using net_init_ok
    by (simp_all add: demo_sender_def kos_nic_register_tx_def SetConfig_def rx_dispatch_init_def kos_nic_register_rx_def net_ok_def)
  have t: "tx_fn demo_sender = Some (\<lambda>_. True)" by (simp add: demo_sender_def kos_nic_register_tx_def)
  have c: "parse_parts False (conf_ip (copy_config (g_cfg demo_sender))) = Some 0x0A000002"
    by (simp add: demo_sender_def kos_nic_register_tx_def SetConfig_def copy_config_def config_text_def parse_parts_def
      join_ip_def word_le_nat_alt word_less_nat_alt)
  have l: "0 < unat (3 :: u32)" "unat (3 :: u32) \<le> 512" "unat (3 :: u32) \<le> length [1, 2, 3 :: u8]" by simp_all
  have r: "rx_registered (rx_dispatch_init net_init)" by (simp add: rx_dispatch_init_def kos_nic_register_rx_def)
  from udp_roundtrip [OF n(1) t c l n(2) r, of "0x0A000001"] show ?thesis by fastforce
qed

section \<open>Addresses as text\<close>

text \<open>The text of an address that \<^verbatim>\<open>kernel_dns_resolve\<close> writes, without its terminator.\<close>

definition write_num :: "u8 \<Rightarrow> u8 list" where
  "write_num n =
     (if n \<ge> 100 then [0x30 + n div 100, 0x30 + n mod 100 div 10, 0x30 + n mod 100 mod 10]
      else if n \<ge> 10 then [0x30 + n div 10, 0x30 + n mod 10]
      else [0x30 + n])"

definition write_ip :: "u32 \<Rightarrow> u8 list" where
  "write_ip ip =
     write_num (ucast (drop_bit 24 ip AND 0xFF)) @ [0x2E] @ write_num (ucast (drop_bit 16 ip AND 0xFF)) @ [0x2E] @
     write_num (ucast (drop_bit 8 ip AND 0xFF)) @ [0x2E] @ write_num (ucast (ip AND 0xFF))"

lemma parse_digit:
  assumes "unat d = k" "k < 10" "v * 10 + k \<le> 255"
  shows "parse_ip_loop st ((0x30 + d) # s) parts i (of_nat v) = parse_ip_loop st s parts i (of_nat (v * 10 + k))"
proof -
  have "unat (0x30 + d) = 0x30 + k" using assms(1,2) by (simp add: unat_add_nowrap)
  moreover have e: "(of_nat v * 10 + ucast d :: u32) = of_nat (v * 10 + k)" by (simp flip: assms(1))
  moreover have "unat (of_nat (v * 10 + k) :: u32) = v * 10 + k" using assms(3) by (intro unat_of_nat_u32) simp
  ultimately show ?thesis using assms by (simp add: word_le_nat_alt word_less_nat_alt del: of_nat_add of_nat_mult)
qed

lemma parse_write_num:
  "parse_ip_loop st (write_num n @ s) parts i 0 = parse_ip_loop st s parts i (ucast n)"
proof -
  define k where "k = unat n"
  have lt: "k < 256" using unsigned_less [of n] by (simp add: k_def)
  have e3: "(k div 100 * 10 + k mod 100 div 10) * 10 + k mod 100 mod 10 = k"
  proof -
    have g: "(a * 10 + b) * 10 + c = k" if "b * 10 + c = r" "a * 100 + r = k" for a b c r
      using that by simp
    show ?thesis by (rule g [where r = "k mod 100"]) (rule div_mult_mod_eq)+
  qed
  have nat: "(ucast n :: u32) = of_nat k" by (simp add: k_def)
  have z: "(0 :: u32) = of_nat 0" by simp
  consider "100 \<le> k" | "10 \<le> k" "k < 100" | "k < 10" by linarith
  then show ?thesis
  proof cases
    case 1
    then have w: "write_num n = [0x30 + n div 100, 0x30 + n mod 100 div 10, 0x30 + n mod 100 mod 10]"
      by (simp add: write_num_def word_le_nat_alt k_def)
    have a: "unat (n div 100) = k div 100" "k div 100 < 10" "0 * 10 + k div 100 \<le> 255"
      using lt by (auto simp: unat_div k_def)
    have b: "unat (n mod 100 div 10) = k mod 100 div 10" "k mod 100 div 10 < 10" "(0 * 10 + k div 100) * 10 + k mod 100 div 10 \<le> 255"
      using lt e3 by (auto simp: unat_div unat_mod k_def)
    have c: "unat (n mod 100 mod 10) = k mod 100 mod 10" "k mod 100 mod 10 < 10"
        "((0 * 10 + k div 100) * 10 + k mod 100 div 10) * 10 + k mod 100 mod 10 \<le> 255"
      using lt e3 by (simp_all add: unat_mod k_def)
    show ?thesis unfolding w append_Cons append_Nil z parse_digit [OF a] parse_digit [OF b] parse_digit [OF c] nat
      using e3 by simp
  next
    case 2
    then have w: "write_num n = [0x30 + n div 10, 0x30 + n mod 10]"
      by (simp add: write_num_def word_le_nat_alt k_def)
    have a: "unat (n div 10) = k div 10" "k div 10 < 10" "0 * 10 + k div 10 \<le> 255"
      using 2 by (auto simp: unat_div k_def)
    have b: "unat (n mod 10) = k mod 10" "k mod 10 < 10" "(0 * 10 + k div 10) * 10 + k mod 10 \<le> 255"
      using lt by (simp_all add: unat_mod k_def)
    show ?thesis unfolding w append_Cons append_Nil z parse_digit [OF a] parse_digit [OF b] nat by simp
  next
    case 3
    then have w: "write_num n = [0x30 + n]" by (simp add: write_num_def word_le_nat_alt k_def)
    have a: "unat n = k" "k < 10" "0 * 10 + k \<le> 255" using 3 by (simp_all add: k_def)
    show ?thesis unfolding w append_Cons append_Nil z parse_digit [OF a] nat by simp
  qed
qed


lemma parse_dot: "i < 4 \<Longrightarrow> parse_ip_loop st (0x2E # s) parts i val = parse_ip_loop st s (parts[i := val]) (i + 1) 0"
  by (simp add: word_le_nat_alt)

abbreviation octet :: "nat \<Rightarrow> u32 \<Rightarrow> u8" where
  "octet k ip \<equiv> ucast (drop_bit k ip)"

lemma ucast_low_byte: "(ucast (x AND 0xFF :: u32) :: u8) = ucast x"
proof -
  have "x AND 0xFF = take_bit 8 x" by (simp add: take_bit_eq_mask mask_eq_exp_minus_1)
  then show ?thesis by (simp only:) (rule bit_word_eqI, simp add: bit_simps)
qed

lemma join_octets: "join_ip (ucast (octet 24 ip)) (ucast (octet 16 ip)) (ucast (octet 8 ip)) (ucast (octet 0 ip)) = ip"
  using bytes_word [of ip] by (simp add: join_ip_def or.commute or.left_commute)

lemma write_ip_eq:
  "write_ip ip = write_num (octet 24 ip) @ [0x2E] @ write_num (octet 16 ip) @ [0x2E] @
     write_num (octet 8 ip) @ [0x2E] @ write_num (octet 0 ip)"
  by (simp add: write_ip_def ucast_low_byte)

lemma parse_three_octets:
  "parse_ip_loop st (write_num a @ [0x2E] @ write_num b @ [0x2E] @ write_num c @ [0x2E] @ s) [0, 0, 0, 0] 0 0 =
     parse_ip_loop st s [ucast a, ucast b, ucast c, 0] 3 0"
  by (simp only: append_Cons append_Nil parse_write_num parse_dot) (simp add: parse_write_num parse_dot numeral_3_eq_3)

lemma parse_write_ip: "parse_parts st (write_ip ip) = Some ip"
  using parse_write_num [of st "octet 0 ip" "[]"]
  by (simp add: parse_parts_def write_ip_eq parse_three_octets [simplified] join_octets [simplified])

lemma length_write_num: "length (write_num n) \<le> 3" "length (write_num n) = 3 \<longleftrightarrow> 100 \<le> n"
  by (simp_all add: write_num_def)

lemma write_num_cut:
  assumes "100 \<le> n"
  shows "take 2 (write_num n) = write_num (n div 10)"
proof -
  have k: "100 \<le> unat n" "unat n < 256" using assms unsigned_less [of n] by (simp_all add: word_le_nat_alt)
  have "unat (n div 10) = unat n div 10" by (simp add: unat_div)
  then have "\<not> 100 \<le> n div 10" "10 \<le> n div 10" using k by (auto simp: word_le_nat_alt)
  moreover have "n div 10 div 10 = n div 100" by (rule unat_eqI) (simp add: unat_div div_mult2_eq [symmetric])
  moreover have "n div 10 mod 10 = n mod 100 div 10"
  proof (rule unat_eqI)
    have "k div 10 mod 10 = k mod 100 div 10" for k :: nat
    proof -
      have "k mod 100 = 10 * (k div 10 mod 10) + k mod 10" using mod_mult2_eq [of k 10 10] by simp
      then show ?thesis by simp
    qed
    then show "unat (n div 10 mod 10) = unat (n mod 100 div 10)" by (simp add: unat_div unat_mod)
  qed
  ultimately show ?thesis using assms by (simp add: write_num_def)
qed

text \<open>A text of 15 characters has four numbers of three digits.\<close>

lemma length_write_ip:
  assumes "length (write_ip ip) = 15"
  shows "length (write_num (octet 24 ip)) = 3" "length (write_num (octet 16 ip)) = 3"
    "length (write_num (octet 8 ip)) = 3" "100 \<le> octet 0 ip"
proof -
  have "length (write_num (octet 24 ip)) + length (write_num (octet 16 ip)) + length (write_num (octet 8 ip)) +
      length (write_num (octet 0 ip)) = 12" using assms by (simp add: write_ip_eq)
  moreover note length_write_num(1) [of "octet 24 ip"] length_write_num(1) [of "octet 16 ip"]
    length_write_num(1) [of "octet 8 ip"] length_write_num(1) [of "octet 0 ip"]
  ultimately have *: "length (write_num (octet 24 ip)) = 3 \<and> length (write_num (octet 16 ip)) = 3 \<and>
    length (write_num (octet 8 ip)) = 3 \<and> length (write_num (octet 0 ip)) = 3" by linarith
  then show "length (write_num (octet 24 ip)) = 3" "length (write_num (octet 16 ip)) = 3"
    "length (write_num (octet 8 ip)) = 3" "100 \<le> octet 0 ip" using length_write_num(2) by blast+
qed

lemma take_14:
  "length a = 3 \<Longrightarrow> length b = 3 \<Longrightarrow> length c = 3 \<Longrightarrow>
   take 14 (a @ [x] @ b @ [x] @ c @ [x] @ d) = a @ [x] @ b @ [x] @ c @ [x] @ take 2 d"
  by simp

lemma write_ip_cut:
  assumes "length (write_ip ip) = 15"
  shows "parse_parts st (take 14 (write_ip ip)) =
    Some (join_ip (ucast (octet 24 ip)) (ucast (octet 16 ip)) (ucast (octet 8 ip)) (ucast (octet 0 ip div 10)))"
proof -
  note l = length_write_ip [OF assms]
  have "take 14 (write_ip ip) = write_num (octet 24 ip) @ [0x2E] @ write_num (octet 16 ip) @ [0x2E] @
      write_num (octet 8 ip) @ [0x2E] @ write_num (octet 0 ip div 10)"
    unfolding write_ip_eq take_14 [OF l(1-3)] write_num_cut [OF l(4)] by simp
  then show ?thesis
    using parse_write_num [of st "octet 0 ip div 10" "[]"]
    by (simp add: parse_parts_def parse_three_octets [simplified])
qed

text \<open>
  C31. The text the kernel writes for an address is read back as that address by the parsers of the
  stack. Through the configuration this holds for texts of at most 14 characters only: the copies
  keep 14 characters, so that an address of 15 characters loses its last digit and the stack sends
  from another address.
\<close>

theorem config_address_roundtrip:
  assumes "conf_ip c = write_ip ip" and "get_net_config True (SetConfig c n) = Some conf"
  shows "parse_parts st (write_ip ip) = Some ip \<and>
    (length (write_ip ip) \<le> 14 \<longrightarrow> parse_parts st (conf_ip conf) = Some ip) \<and>
    (length (write_ip ip) = 15 \<longrightarrow> parse_parts st (conf_ip conf) =
      Some (join_ip (ucast (octet 24 ip)) (ucast (octet 16 ip)) (ucast (octet 8 ip)) (ucast (octet 0 ip div 10))))"
proof -
  have "conf_ip conf = take 14 (write_ip ip)"
    using assms by (auto simp: get_net_config_def SetConfig_def GetConfig_def copy_config_def config_text_def)
  then show ?thesis by (simp add: parse_write_ip write_ip_cut)
qed


theorem config_address_roundtrip_witness:
  "\<exists>conf. get_net_config True (SetConfig \<lparr>conf_ip = write_ip 0xC0A864C8, conf_mask = [], conf_gw = [], conf_dns = []\<rparr> net_init) = Some conf \<and>
     parse_parts True (conf_ip conf) = Some 0xC0A86414"
proof -
  let ?c = "\<lparr>conf_ip = write_ip 0xC0A864C8, conf_mask = [], conf_gw = [], conf_dns = []\<rparr> :: NetConfig"
  have 1: "conf_ip ?c = write_ip 0xC0A864C8" by simp
  obtain conf where 2: "get_net_config True (SetConfig ?c net_init) = Some conf" by (simp add: get_net_config_def)
  have 3: "length (write_ip 0xC0A864C8) = 15"
    by (simp add: write_ip_def write_num_def word_le_nat_alt drop_bit_eq_div)
  have "parse_parts True (conf_ip conf) = Some 0xC0A86414"
    using config_address_roundtrip [OF 1 2, of True] 3 by (simp add: join_ip_def drop_bit_eq_div)
  with 2 show ?thesis by blast
qed

lemma config_text_strncpy:
  assumes "cstr m s ys" "0 < unat n" "length ys < 2 ^ 32 - 1" "span d (Suc (length ys)) \<inter> span s (Suc (length ys)) = {}"
  shows "cstr (String_strncpy m d s n) d (config_text n ys)"
proof -
  have n1: "unat (n - 1) = unat n - 1" using assms(2) by (simp add: unat_sub_nowrap)
  have "String_strncpy m d s n = put_bytes m d (take (unat n - 1) ys @ [0])"
    using strncat_loop_spec [of m s 0 ys d "n - 1"] assms(1,4) by (simp add: String_strncpy_def n1)
  then show ?thesis
    using assms(3) take_no_nul [OF cstr_no_nul [OF assms(1)]] by (auto simp: config_text_def intro!: cstr_put_bytes)
qed

section \<open>The address cache\<close>

lemma find_unique: "i \<in> set xs \<Longrightarrow> (\<And>j. j \<in> set xs \<Longrightarrow> P j \<longleftrightarrow> j = i) \<Longrightarrow> find P xs = Some i"
  by (induction xs) auto

lemma find_same: "(\<And>j. j \<in> set xs \<Longrightarrow> P j \<longleftrightarrow> Q j) \<Longrightarrow> find P xs = find Q xs"
  by (induction xs) auto

lemma arp_update_lookup:
  "arp_cache_lookup ip' (arp_cache_update ip mac n) =
     (if ip' = ip \<and> (arp_cache_lookup ip n \<noteq> None \<or> (\<exists>i < 8. \<not> arp_used n i)) then Some mac else arp_cache_lookup ip' n)"
proof (cases "arp_slot ip n")
  case (Some i)
  have "arp_slot ip' (arp_cache_update ip mac n) = arp_slot ip' n"
    using Some by (simp add: arp_cache_update_def arp_slot_def)
  then show ?thesis
    using Some arp_slot_less [OF Some] arp_slot_less [of ip' n]
    by (auto simp: arp_cache_lookup_def arp_cache_update_def map_option_case split: option.splits)
next
  case None
  then have no: "\<not> (arp_used n j \<and> arp_ips n j = ip)" if "j < 8" for j
    using that by (auto simp: arp_slot_def find_None_iff)
  show ?thesis
  proof (cases "find (\<lambda>i. \<not> arp_used n i) [0..<8]")
    case N: None
    then have "\<not> (\<exists>i < 8. \<not> arp_used n i)" by (auto simp: find_None_iff)
    with N None show ?thesis by (simp add: arp_cache_update_def arp_cache_lookup_def)
  next
    case (Some i)
    then have i: "i < 8" "\<not> arp_used n i" by (auto simp: find_Some_iff)
    let ?n = "arp_cache_update ip mac n"
    have e: "?n = n\<lparr>arp_used := (arp_used n)(i := True), arp_ips := (arp_ips n)(i := ip), arp_macs := (arp_macs n)(i := mac)\<rparr>"
      using None Some by (simp add: arp_cache_update_def)
    show ?thesis
    proof (cases "ip' = ip")
      case True
      have "arp_slot ip ?n = Some i"
        unfolding arp_slot_def e by (rule find_unique) (use i no in auto)
      with True i show ?thesis by (auto simp: arp_cache_lookup_def e)
    next
      case False
      have "arp_slot ip' ?n = arp_slot ip' n"
        unfolding arp_slot_def e by (rule find_same) (use i False in auto)
      with False i arp_slot_less [of ip' n] show ?thesis
        by (cases "arp_slot ip' n") (auto simp: arp_cache_lookup_def e)
    qed
  qed
qed

text \<open>
  An ARP reply teaches the cache the address it announces. After a reply for an address that
  is already cached, or while fewer than eight addresses are, a lookup gives the hardware address of the reply;
  lookups of other addresses give what they gave before. When the cache is full of other addresses the
  reply is counted as handled but nothing is learnt.
\<close>

theorem arp_reply_learnt:
  assumes "arp_op r = 2" and "length (arp_sha r) = 6" and "arp_sip r = ip_be_to_bytes ip" and "length (arp_tha r) = 6" and "length (arp_tip r) = 4"
    and "length dst = 6" and "length src = 6"
  defines "frame \<equiv> EthernetHeader_bytes \<lparr>eth_dst = dst, eth_src = src, ethertype = ETHERTYPE_ARP\<rparr> @ ArpPacket_bytes r"
  shows "\<exists>n'. arp_ingest frame 42 n = Some (n', True) \<and>
    arp_cache_lookup ip' n' =
      (if ip' = ip \<and> (arp_cache_lookup ip n \<noteq> None \<or> (\<exists>i < 8. \<not> arp_used n i)) then Some (arp_sha r) else arp_cache_lookup ip' n)"
proof -
  let ?a = "le16 (hw_type r) @ le16 (proto_type r) @ [hw_size r, proto_size r]"
  have t: "get_le16 frame 12 = Some ETHERTYPE_ARP"
    using assms(6,7) get_le16_append [of 12 "dst @ src" ETHERTYPE_ARP] by (simp add: frame_def EthernetHeader_bytes_def)
  have p: "get_le16 frame 20 = Some 2"
    using assms(6,7) get_le16_append [of 20 "dst @ src @ le16 ETHERTYPE_ARP @ ?a" "arp_op r"]
    by (simp add: frame_def EthernetHeader_bytes_def ArpPacket_bytes_def assms(1))
  have sha: "get_struct frame 22 6 = Some (arp_sha r)"
    using assms by (simp add: get_struct_def frame_def EthernetHeader_bytes_def ArpPacket_bytes_def ip_be_to_bytes_def)
  have sip: "get_struct frame 28 4 = Some (ip_be_to_bytes ip)"
    using assms by (simp add: get_struct_def frame_def EthernetHeader_bytes_def ArpPacket_bytes_def ip_be_to_bytes_def)
  have "arp_ingest frame 42 n = Some (arp_cache_update ip (arp_sha r) n, True)"
    using join_octets [of ip] by (simp add: arp_ingest_def t p sha sip ip_be_to_bytes_def ucast_low_byte)
  then show ?thesis by (simp add: arp_update_lookup)
qed


definition demo_reply :: ArpPacket where
  "demo_reply = \<lparr>hw_type = 1, proto_type = ETHERTYPE_IPV4, hw_size = 6, proto_size = 4, arp_op = 2,
     arp_sha = [2, 0, 0, 0, 0, 9], arp_sip = ip_be_to_bytes 0x0A000001, arp_tha = replicate 6 0, arp_tip = replicate 4 0\<rparr>"

theorem arp_reply_learnt_witness:
  "\<exists>n'. arp_ingest (EthernetHeader_bytes \<lparr>eth_dst = replicate 6 0, eth_src = replicate 6 0, ethertype = ETHERTYPE_ARP\<rparr> @
       ArpPacket_bytes demo_reply) 42 net_init = Some (n', True) \<and>
     arp_cache_lookup 0x0A000001 n' = Some [2, 0, 0, 0, 0, 9]"
proof -
  have r: "arp_op demo_reply = 2" "length (arp_sha demo_reply) = 6" "arp_sip demo_reply = ip_be_to_bytes 0x0A000001"
    "length (arp_tha demo_reply) = 6" "length (arp_tip demo_reply) = 4" by (simp_all add: demo_reply_def)
  have d: "length (replicate 6 (0 :: u8)) = 6" by simp
  have "\<exists>i < 8. \<not> arp_used net_init i" by (intro exI [of _ 0]) (simp add: net_init_def)
  with arp_reply_learnt [OF r d d, of net_init "0x0A000001"] show ?thesis by (simp add: demo_reply_def)
qed

section \<open>Echo replies\<close>

text \<open>Receiving always returns: the search meets the tail of the ring of four after at most three steps.\<close>

lemma less_4_cases: "(i :: nat) < 4 \<Longrightarrow> i = 0 \<or> i = 1 \<or> i = 2 \<or> i = 3"
  by linarith

lemma ring_distance:
  assumes "t < 4" "q < 4"
  shows "(t + 4 - q) mod 4 = 0 \<Longrightarrow> q = (t :: nat)"
    and "Suc d = (t + 4 - q) mod 4 \<Longrightarrow> d = (t + 4 - (q + 1) mod 4) mod 4"
  using less_4_cases [OF assms(1)] less_4_cases [OF assms(2)] by (elim disjE; simp)+

lemma recv_loop_returns:
  assumes "net_ok n" "unat buf_len \<le> length buf" "qi < 4"
  shows "\<exists>n' b k. recv_loop ident seq buf buf_len qi n = Some (n', b, k) \<and> net_ok n' \<and> length b = length buf \<and> unat k \<le> unat buf_len"
  using assms(3)
proof (induction "(g_q_tail n + 4 - qi) mod 4" arbitrary: qi)
  case 0
  have "g_q_tail n < 4" using assms(1) by (simp add: net_ok_def)
  then have "qi = g_q_tail n" using ring_distance(1) [of "g_q_tail n" qi] 0 by simp
  with assms(1) show ?case by (subst recv_loop.simps) simp
next
  case (Suc d)
  have t: "g_q_tail n < 4" using assms(1) by (simp add: net_ok_def)
  have ne: "qi \<noteq> g_q_tail n" using Suc.hyps(2) by auto
  have d: "d = (g_q_tail n + 4 - (qi + 1) mod 4) mod 4" using ring_distance(2) [OF t Suc.prems Suc.hyps(2)] .
  let ?e = "g_queue n qi"
  let ?k = "if reply_len ?e < buf_len then reply_len ?e else buf_len"
  have e: "length (reply_buf ?e) = 128" "unat (reply_len ?e) \<le> 128" using assms(1) Suc.prems by (simp_all add: net_ok_def)
  show ?case
  proof (cases "reply_id ?e = ident \<and> reply_seq ?e = seq")
    case True
    have k: "unat ?k \<le> unat buf_len" "unat ?k \<le> 128" using e by (auto simp: word_less_nat_alt)
    have "copy_buf (reply_buf ?e) ?k 0 buf = Some (take (unat ?k) (reply_buf ?e) @ drop (unat ?k) buf)"
      using k e assms(2) by (subst copy_buf_Some) (simp_all del: if_split)
    with True ne k e assms(1,2) show ?thesis
      by (subst recv_loop.simps) (simp add: Let_def net_ok_def del: if_split)
  next
    case False
    then have "recv_loop ident seq buf buf_len qi n = recv_loop ident seq buf buf_len ((qi + 1) mod 4) n"
      using ne by (subst recv_loop.simps) (auto simp: Let_def)
    with Suc.hyps(1) [OF d] show ?thesis by simp
  qed
qed

lemma rawicmp_recv_echo_returns:
  "net_ok n \<Longrightarrow> unat buf_len \<le> length buf \<Longrightarrow>
   \<exists>n' b k. rawicmp_recv_echo ident seq buf buf_len n = Some (n', b, k) \<and> net_ok n' \<and> length b = length buf \<and> unat k \<le> unat buf_len"
  unfolding rawicmp_recv_echo_def by (rule recv_loop_returns) (simp_all add: net_ok_def)

end
