(* ===== verification/KOS_Dns.thy ===== *)
theory KOS_Dns
  imports KOS_Net
begin

unbundle bit_operations_syntax

text \<open>
  The DNS client, \<^verbatim>\<open>src/net/dns.cpp\<close>, and the system call that resolves names
  (\<^verbatim>\<open>kernel_dns_resolve\<close> of \<^verbatim>\<open>src/lib/syscall_table_init.cpp\<close>). Host names are the characters before the
  terminator. A packet is a buffer and a length; the pointer into it is the offset. \<open>None\<close> is an
  access outside a buffer or a loop that does not end. Which frames arrive while the client waits is a parameter.
\<close>

section \<open>Queries\<close>

record DNSHeader =
  dns_id :: u16
  dns_flags :: u16
  dns_qdcount :: u16
  dns_ancount :: u16
  dns_nscount :: u16
  dns_arcount :: u16

definition DNSHeader_bytes :: "DNSHeader \<Rightarrow> u8 list" where
  "DNSHeader_bytes h = le16 (dns_id h) @ le16 (dns_flags h) @ le16 (dns_qdcount h) @ le16 (dns_ancount h) @
     le16 (dns_nscount h) @ le16 (dns_arcount h)"

definition DNS_FLAG_QR :: u16 where "DNS_FLAG_QR = 0x8000"
definition DNS_FLAG_RD :: u16 where "DNS_FLAG_RD = 0x0100"
definition DNS_FLAG_RCODE :: u16 where "DNS_FLAG_RCODE = 0x000F"
definition DNS_TYPE_A :: u16 where "DNS_TYPE_A = 1"
definition DNS_CLASS_IN :: u16 where "DNS_CLASS_IN = 1"

text \<open>
  The end of a label: \<open>lab\<close> is the text from \<^verbatim>\<open>label_start\<close> to \<^verbatim>\<open>p\<close>. Its length is cut to 8 bits. The inner
  option is \<open>None\<close> for the result 0, and otherwise the new position.
\<close>

definition emit_label :: "u8 list \<Rightarrow> buf \<Rightarrow> u32 \<Rightarrow> u32 \<Rightarrow> (buf \<times> u32 option) option" where
  "emit_label lab buffer pos buffer_size =
     (let label_len = (of_nat (length lab) :: u8)
      in if label_len = 0 \<or> label_len > 63 then Some (buffer, None)
         else if pos + 1 + ucast label_len \<ge> buffer_size then Some (buffer, None)
         else do {
           b1 \<leftarrow> put8 buffer pos label_len;
           b2 \<leftarrow> copy_buf lab (ucast label_len) (pos + 1) b1;
           Some (b2, Some (pos + 1 + ucast label_len))
         })"

fun encode_loop :: "u8 list \<Rightarrow> u8 list \<Rightarrow> buf \<Rightarrow> u32 \<Rightarrow> u32 \<Rightarrow> (buf \<times> u32 option) option" where
  "encode_loop lab [] buffer pos buffer_size =
     (if lab = [] then Some (buffer, Some pos) else emit_label lab buffer pos buffer_size)"
| "encode_loop lab (c # s) buffer pos buffer_size =
     (if c = 0x2E then do {
        (b1, r) \<leftarrow> emit_label lab buffer pos buffer_size;
        (case r of None \<Rightarrow> Some (b1, None) | Some pos1 \<Rightarrow> encode_loop [] s b1 pos1 buffer_size)
      }
      else encode_loop (lab @ [c]) s buffer pos buffer_size)"

definition encode_dns_name :: "u8 list option \<Rightarrow> buf \<Rightarrow> u32 \<Rightarrow> (buf \<times> u32) option" where
  "encode_dns_name hostname buffer buffer_size =
     (case hostname of
        None \<Rightarrow> Some (buffer, 0)
      | Some h \<Rightarrow>
          if buffer_size < 2 then Some (buffer, 0)
          else do {
            (b1, r) \<leftarrow> encode_loop [] h buffer 0 buffer_size;
            (case r of
               None \<Rightarrow> Some (b1, 0)
             | Some pos \<Rightarrow>
                 if pos \<ge> buffer_size then Some (b1, 0)
                 else do { b2 \<leftarrow> put8 b1 pos 0; Some (b2, pos + 1) })
          })"

definition question_end :: "u8 list" where
  "question_end = [ucast (drop_bit 8 DNS_TYPE_A AND 0xFF), ucast (DNS_TYPE_A AND 0xFF),
     ucast (drop_bit 8 DNS_CLASS_IN AND 0xFF), ucast (DNS_CLASS_IN AND 0xFF)]"

definition build_dns_query :: "u8 list option \<Rightarrow> u16 \<Rightarrow> buf \<Rightarrow> u32 \<Rightarrow> (buf \<times> u32) option" where
  "build_dns_query hostname query_id buffer buffer_size =
     (if hostname = None \<or> buffer_size < 12 + 256 then Some (buffer, 0)
      else do {
        b1 \<leftarrow> put_struct buffer 0 (DNSHeader_bytes \<lparr>dns_id = htons query_id, dns_flags = htons DNS_FLAG_RD,
          dns_qdcount = htons 1, dns_ancount = 0, dns_nscount = 0, dns_arcount = 0\<rparr>);
        (name, name_len) \<leftarrow> encode_dns_name hostname (drop 12 b1) (buffer_size - 12 - 4);
        let b2 = take 12 b1 @ name;
        if name_len = 0 then Some (b2, 0)
        else do {
          let pos = 12 + name_len;
          if pos + 4 > buffer_size then Some (b2, 0)
          else do {
            b3 \<leftarrow> put_struct b2 (unat pos) question_end;
            Some (b3, pos + 4)
          }
        }
      })"

section \<open>Responses\<close>

partial_function (option) skip_dns_name :: "buf \<Rightarrow> u32 \<Rightarrow> u32 \<Rightarrow> u32 option" where
  "skip_dns_name packet packet_len pos =
     (if pos < packet_len then do {
        len \<leftarrow> get8 packet pos;
        if len = 0 then Some (pos + 1)
        else if len AND 0xC0 = 0xC0 then Some (pos + 2)
        else skip_dns_name packet packet_len (pos + 1 + ucast len)
      }
      else Some 0)"

text \<open>The loop over the questions; the inner \<open>None\<close> is the result false.\<close>

primrec skip_questions :: "nat \<Rightarrow> buf \<Rightarrow> u32 \<Rightarrow> u32 \<Rightarrow> u32 option option" where
  "skip_questions 0 response response_len pos = Some (Some pos)"
| "skip_questions (Suc k) response response_len pos = do {
     pos1 \<leftarrow> skip_dns_name response response_len pos;
     if pos1 = 0 \<or> pos1 + 4 > response_len then Some None
     else skip_questions k response response_len (pos1 + 4)
   }"

definition get_be16 :: "buf \<Rightarrow> u32 \<Rightarrow> u16 option" where
  "get_be16 b k = do { hi \<leftarrow> get8 b k; lo \<leftarrow> get8 b (k + 1); Some (word16 lo hi) }"

definition read_ip :: "buf \<Rightarrow> u32 \<Rightarrow> u32 option" where
  "read_ip b pos = do {
     x0 \<leftarrow> get8 b pos;
     x1 \<leftarrow> get8 b (pos + 1);
     x2 \<leftarrow> get8 b (pos + 2);
     x3 \<leftarrow> get8 b (pos + 3);
     Some (join_ip (ucast x0) (ucast x1) (ucast x2) (ucast x3))
   }"

primrec find_answer :: "nat \<Rightarrow> buf \<Rightarrow> u32 \<Rightarrow> u32 \<Rightarrow> u32 option option" where
  "find_answer 0 response response_len pos = Some None"
| "find_answer (Suc k) response response_len pos = do {
     pos1 \<leftarrow> skip_dns_name response response_len pos;
     if pos1 = 0 \<or> pos1 + 10 > response_len then Some None
     else do {
       type \<leftarrow> get_be16 response pos1;
       data_len \<leftarrow> get_be16 response (pos1 + 8);
       let pos2 = pos1 + 10;
       if pos2 + ucast data_len > response_len then Some None
       else if type = DNS_TYPE_A \<and> data_len = 4 then map_option Some (read_ip response pos2)
       else find_answer k response response_len (pos2 + ucast data_len)
     }
   }"

text \<open>The result is the address stored through \<^verbatim>\<open>ip_out\<close>, or \<open>None\<close> for false; the flag says that \<^verbatim>\<open>ip_out\<close> is not null.\<close>

definition parse_dns_response :: "buf option \<Rightarrow> u32 \<Rightarrow> u16 \<Rightarrow> bool \<Rightarrow> u32 option option" where
  "parse_dns_response response response_len query_id ip_out =
     (case response of
        None \<Rightarrow> Some None
      | Some r \<Rightarrow>
          if response_len < 12 \<or> \<not> ip_out then Some None
          else do {
            i \<leftarrow> get_le16 r 0;
            flags \<leftarrow> get_le16 r 2;
            qd \<leftarrow> get_le16 r 4;
            an \<leftarrow> get_le16 r 6;
            if htons i \<noteq> query_id then Some None
            else if htons flags AND DNS_FLAG_QR = 0 then Some None
            else if htons flags AND DNS_FLAG_RCODE \<noteq> 0 then Some None
            else if htons an = 0 then Some None
            else do {
              q \<leftarrow> skip_questions (unat (htons qd)) r response_len 12;
              (case q of None \<Rightarrow> Some None | Some pos \<Rightarrow> find_answer (unat (htons an)) r response_len pos)
            }
          })"

section \<open>Resolution\<close>

text \<open>\<open>arrivals i\<close> are the frames that the adapter delivers at the \<open>i\<close>-th poll.\<close>

definition rx_poll :: "buf list \<Rightarrow> net \<Rightarrow> net option" where
  "rx_poll frames n = fold (\<lambda>f r. do { m \<leftarrow> r; kos_nic_driver_rx f (of_nat (length f)) m }) frames (Some n)"

function wait_response :: "(u32 \<Rightarrow> buf list) \<Rightarrow> u32 \<Rightarrow> u32 \<Rightarrow> net \<Rightarrow> net option" where
  "wait_response arrivals i timeout_ms n =
     (if i < timeout_ms \<and> \<not> g_dns_response_ready n then do {
        m \<leftarrow> rx_poll (arrivals i) n;
        wait_response arrivals (i + 1) timeout_ms m
      }
      else Some n)"
  by pat_completeness auto
termination
  by (relation "measure (\<lambda>(_, i, t, _). unat t - unat i)") (auto simp: unat_Suc_less word_less_nat_alt)

declare wait_response.simps [simp del]

definition query_server ::
  "(u32 \<Rightarrow> buf list) \<Rightarrow> u8 list \<Rightarrow> u32 \<Rightarrow> u32 \<Rightarrow> net \<Rightarrow> (net \<times> u32 option) option" where
  "query_server arrivals hostname server timeout_ms n = do {
     let query_id = query_id_counter n;
     let n1 = n\<lparr>query_id_counter := query_id + 1\<rparr>;
     (query_buf, query_len) \<leftarrow> build_dns_query (Some hostname) query_id (replicate 512 0) 512;
     if query_len = 0 then Some (n1, None)
     else do {
       (n2, sent) \<leftarrow> send_udp_packet (Some query_buf) query_len server 53 53
         (n1\<lparr>g_dns_response_ready := False, g_dns_response_id := query_id\<rparr>);
       if \<not> sent then Some (n2, None)
       else do {
         n3 \<leftarrow> wait_response arrivals 0 timeout_ms n2;
         if \<not> g_dns_response_ready n3 then Some (n3, None)
         else do {
           r \<leftarrow> parse_dns_response (Some (g_dns_response_buf n3)) (g_dns_response_len n3) query_id True;
           Some (n3, r)
         }
       }
     }
   }"

definition dns_resolve ::
  "(u32 \<Rightarrow> buf list) \<Rightarrow> u8 list option \<Rightarrow> u32 \<Rightarrow> u32 \<Rightarrow> bool \<Rightarrow> net \<Rightarrow> (net \<times> u32 option) option" where
  "dns_resolve arrivals hostname dns_server_ip timeout_ms ip_out n =
     (case hostname of
        None \<Rightarrow> Some (n, None)
      | Some h \<Rightarrow>
          if \<not> ip_out then Some (n, None)
          else
            (let server = (if dns_server_ip = 0 then
                  (case get_net_config True n of None \<Rightarrow> None | Some syscfg \<Rightarrow> parse_parts False (conf_dns syscfg))
                else Some dns_server_ip)
             in case server of
                  None \<Rightarrow> Some (n, None)
                | Some s \<Rightarrow> if s = 0 then Some (n, None) else query_server arrivals h s timeout_ms n))"

text \<open>The text of the address, or \<open>None\<close> for the result -1.\<close>

definition kernel_dns_resolve ::
  "(u32 \<Rightarrow> buf list) \<Rightarrow> u8 list option \<Rightarrow> bool \<Rightarrow> int \<Rightarrow> net \<Rightarrow> (net \<times> u8 list option) option" where
  "kernel_dns_resolve arrivals hostname ip_str_out ip_str_size n =
     (if hostname = None \<or> \<not> ip_str_out \<or> ip_str_size < 16 then Some (n, None)
      else do {
        (m, r) \<leftarrow> dns_resolve arrivals hostname 0 5000 True n;
        Some (m, map_option write_ip r)
      })"

section \<open>No response leads outside the buffers\<close>

lemma skip_dns_name_returns:
  assumes "unat plen \<le> length packet" "unat plen \<le> 2 ^ 31"
  shows "\<exists>r. skip_dns_name packet plen pos = Some r \<and> unat r \<le> unat plen + 1"
proof (induction "unat plen - unat pos" arbitrary: pos rule: less_induct)
  case less
  show ?case
  proof (cases "pos < plen")
    case False
    then show ?thesis by (subst skip_dns_name.simps) simp
  next
    case True
    then have lt: "unat pos < unat plen" by (simp add: word_less_nat_alt)
    have u: "unat (pos + 1) = unat pos + 1" "unat (pos + 2) = unat pos + 2"
      using lt assms(2) by (simp_all add: unat_add_nowrap)
    define len where "len = packet ! unat pos"
    have "unat len < 256" using unsigned_less [of len] by simp
    then have ul: "unat (pos + 1 + ucast len) = unat pos + 1 + unat len"
      using lt assms(2) u by (simp add: unat_add_nowrap)
    have e: "skip_dns_name packet plen pos =
        (if len = 0 then Some (pos + 1) else if len AND 0xC0 = 0xC0 then Some (pos + 2)
         else skip_dns_name packet plen (pos + 1 + ucast len))"
      using True lt assms(1) by (subst skip_dns_name.simps) (simp add: get8_Some len_def)
    show ?thesis
      using less [of "pos + 1 + ucast len"] ul u lt by (auto simp: e)
  qed
qed

lemma skip_questions_returns:
  assumes "unat plen \<le> length packet" "unat plen \<le> 2 ^ 31"
  shows "\<exists>r. skip_questions k packet plen pos = Some r"
proof (induction k arbitrary: pos)
  case (Suc k)
  obtain p where "skip_dns_name packet plen pos = Some p" using skip_dns_name_returns [OF assms] by blast
  with Suc show ?case by simp
qed simp

lemma get_be16_Some:
  "unat k + 1 < length b \<Longrightarrow> unat (k + 1) = unat k + 1 \<Longrightarrow> get_be16 b k = Some (word16 (b ! (unat k + 1)) (b ! unat k))"
  by (simp add: get_be16_def get8_def)

lemma find_answer_returns:
  assumes "unat plen \<le> length packet" "unat plen \<le> 2 ^ 31"
  shows "\<exists>r. find_answer k packet plen pos = Some r"
proof (induction k arbitrary: pos)
  case (Suc k)
  obtain p where p: "skip_dns_name packet plen pos = Some p" "unat p \<le> unat plen + 1"
    using skip_dns_name_returns [OF assms] by blast
  have u: "unat (p + of_nat j) = unat p + j" if "j \<le> 66000" for j
    using that p(2) assms(2) by (simp add: unat_add_nowrap unat_of_nat_u32)
  show ?case
  proof (cases "p = 0 \<or> p + 10 > plen")
    case True
    with p(1) show ?thesis by auto
  next
    case False
    then have l: "unat p + 10 \<le> unat plen" using u [of 10] by (simp add: word_less_nat_alt)
    obtain t where t: "get_be16 packet p = Some t" using get_be16_Some [of p packet] u [of 1] l assms(1) by simp
    obtain d where d: "get_be16 packet (p + 8) = Some d"
      using get_be16_Some [of "p + 8" packet] u [of 8] u [of 9] l assms(1) by (simp add: add.assoc)
    have ud: "unat (p + 10 + ucast d) = unat p + 10 + unat d"
      using u [of 10] l assms(2) u16_less_limit [of d] by (simp add: unat_add_nowrap)
    have "\<exists>x. read_ip packet (p + 10) = Some x" if "\<not> p + 10 + ucast d > plen" "d = 4"
    proof -
      have "unat p + 14 \<le> unat plen" using that ud by (simp add: word_less_nat_alt)
      then show ?thesis using u [of 10] u [of 11] u [of 12] u [of 13] assms(1)
        by (simp add: read_ip_def get8_Some add.assoc)
    qed
    with False p(1) t d Suc show ?thesis by (auto simp: Let_def)
  qed
qed simp

text \<open>
  C28. Whatever bytes a response of up to 2 GiB holds, the parser returns: the walks over
  names with lengths and compression marks end, and no read leaves the packet.
\<close>

theorem parse_dns_response_returns:
  assumes "unat response_len \<le> length response" and "unat response_len \<le> 2 ^ 31"
  shows "\<exists>r. parse_dns_response (Some response) response_len query_id ip_out = Some r"
proof (cases "response_len < 12 \<or> \<not> ip_out")
  case True
  then show ?thesis by (auto simp: parse_dns_response_def)
next
  case False
  then have "12 \<le> length response" using assms(1) by (simp add: word_less_nat_alt)
  then have "get_le16 response 0 \<noteq> None" "get_le16 response 2 \<noteq> None" "get_le16 response 4 \<noteq> None" "get_le16 response 6 \<noteq> None"
    by (simp_all add: get_le16_Some)
  moreover have "\<exists>r. (skip_questions j response response_len 12 \<bind> case_option (Some None) (find_answer k response response_len)) = Some r" for j k
  proof -
    obtain q where "skip_questions j response response_len 12 = Some q" using skip_questions_returns [OF assms] by blast
    then show ?thesis using find_answer_returns [OF assms] by (cases q) simp_all
  qed
  ultimately show ?thesis using False by (auto simp: parse_dns_response_def)
qed

theorem parse_dns_response_returns_witness:
  "\<exists>r. parse_dns_response (Some (replicate 40 0xC0)) 40 0xC0C0 True = Some r"
proof -
  have "unat (40 :: u32) \<le> length (replicate 40 (0xC0 :: u8))" "unat (40 :: u32) \<le> 2 ^ 31" by simp_all
  from parse_dns_response_returns [OF this, of "0xC0C0" True] show ?thesis .
qed


section \<open>Names and answers\<close>

definition dns_labels :: "u8 list list \<Rightarrow> bool" where
  "dns_labels ls \<longleftrightarrow> (\<forall>l \<in> set ls. 1 \<le> length l \<and> length l \<le> 63 \<and> 0x2E \<notin> set l)"

fun dotted :: "u8 list list \<Rightarrow> u8 list" where
  "dotted [] = []"
| "dotted [l] = l"
| "dotted (l # ls) = l @ 0x2E # dotted ls"

definition wire_labels :: "u8 list list \<Rightarrow> u8 list" where
  "wire_labels ls = concat (map (\<lambda>l. of_nat (length l) # l) ls)"

lemma wire_labels_Cons: "wire_labels (l # ls) = (of_nat (length l) # l) @ wire_labels ls" "wire_labels [] = []"
  by (simp_all add: wire_labels_def)

lemma encode_chars: "0x2E \<notin> set xs \<Longrightarrow> encode_loop lab (xs @ s) b pos sz = encode_loop (lab @ xs) s b pos sz"
  by (induction xs arbitrary: lab) auto

lemma emit_label_Some:
  assumes "1 \<le> length l" "length l \<le> 63" "length pre + length l + 1 < unat sz" "unat sz \<le> length (pre @ rest)"
  shows "emit_label l (pre @ rest) (of_nat (length pre)) sz =
    Some (pre @ (of_nat (length l) # l) @ drop (length l + 1) rest, Some (of_nat (length pre + length l + 1)))"
proof -
  let ?n = "of_nat (length l) :: u8" and ?p = "of_nat (length pre) :: u32"
  have lim: "length pre + length l + 1 < 2 ^ 32" using assms(3) u32_less_limit [of sz] by simp
  have n: "unat ?n = length l" using assms(2) by (simp add: unsigned_of_nat take_bit_eq_mod)
  have p: "unat ?p = length pre" using lim by (intro unat_of_nat_u32) simp
  have p1: "unat (?p + 1) = length pre + 1" using lim p by (simp add: unat_add_nowrap)
  have q: "unat (?p + 1 + ucast ?n) = length pre + length l + 1" using lim p1 n by (simp add: unat_add_nowrap)
  have nz: "?n \<noteq> 0" "\<not> ?n > 63" using n assms(1,2) by (auto simp: word_less_nat_alt)
  have r: "rest \<noteq> []" "length l + 1 \<le> length rest" using assms(3,4) by auto
  have "put8 (pre @ rest) ?p ?n = Some ((pre @ [?n]) @ drop 1 rest)"
    using r(1) by (cases rest) (simp_all add: put8_def p)
  moreover have "copy_buf l (ucast ?n) (?p + 1) ((pre @ [?n]) @ drop (length pre + 1) (pre @ rest)) =
      Some ((pre @ [?n]) @ take (unat (ucast ?n :: u32)) l @ drop (length pre + 1 + unat (ucast ?n :: u32)) (pre @ rest))"
    by (rule copy_after_header) (use p1 n r lim in simp_all)
  then have "copy_buf l (ucast ?n) (?p + 1) ((pre @ [?n]) @ drop 1 rest) = Some ((pre @ [?n]) @ l @ drop (length l + 1) rest)"
    by (simp add: n)
  moreover have "\<not> ?p + 1 + ucast ?n \<ge> sz" using q assms(3) by (simp add: word_le_nat_alt)
  moreover have "?p + 1 + ucast ?n = of_nat (length pre + length l + 1)"
    by (rule unat_eqI) (use q lim in \<open>simp only: unat_of_nat_u32\<close>)
  ultimately show ?thesis using nz by (simp add: emit_label_def Let_def add_ac)
qed

lemma encode_loop_Some:
  assumes "dns_labels ls" "ls \<noteq> []" "length pre + length (wire_labels ls) < unat sz" "unat sz \<le> length (pre @ rest)"
  shows "encode_loop [] (dotted ls) (pre @ rest) (of_nat (length pre)) sz =
    Some (pre @ wire_labels ls @ drop (length (wire_labels ls)) rest, Some (of_nat (length pre + length (wire_labels ls))))"
  using assms
proof (induction ls arbitrary: pre rest rule: dotted.induct)
  case (2 l)
  then show ?case
    using encode_chars [of l "[]" "[]"] emit_label_Some [of l pre sz rest]
    by (auto simp: dns_labels_def wire_labels_Cons)
next
  case (3 l l2 ls)
  have l: "1 \<le> length l" "length l \<le> 63" "0x2E \<notin> set l" "dns_labels (l2 # ls)" using "3.prems"(1) by (simp_all add: dns_labels_def)
  let ?pre = "pre @ of_nat (length l) # l" and ?rest = "drop (length l + 1) rest"
  have e: "emit_label l (pre @ rest) (of_nat (length pre)) sz = Some (?pre @ ?rest, Some (of_nat (length ?pre)))"
    using emit_label_Some [OF l(1,2), of pre sz rest] "3.prems"(3,4) by (simp add: wire_labels_Cons)
  have "encode_loop [] (dotted (l2 # ls)) (?pre @ ?rest) (of_nat (length ?pre)) sz =
      Some (?pre @ wire_labels (l2 # ls) @ drop (length (wire_labels (l2 # ls))) ?rest, Some (of_nat (length ?pre + length (wire_labels (l2 # ls)))))"
    by (rule "3.IH") (use l "3.prems"(3,4) in \<open>simp_all add: wire_labels_Cons\<close>)
  with e show ?case
    using encode_chars [OF l(3), of "[]" "0x2E # dotted (l2 # ls)"] by (simp add: wire_labels_Cons add.commute add.left_commute)
qed simp


lemma encode_dns_name_Some:
  assumes "dns_labels ls" "ls \<noteq> []" "length (wire_labels ls) < unat sz" "unat sz \<le> length b" "2 \<le> unat sz"
  shows "encode_dns_name (Some (dotted ls)) b sz =
    Some (wire_labels ls @ [0] @ drop (length (wire_labels ls) + 1) b, of_nat (length (wire_labels ls) + 1))"
proof -
  let ?w = "wire_labels ls"
  have p: "unat (of_nat (length ?w) :: u32) = length ?w"
    using assms(3) u32_less_limit [of sz] by (intro unat_of_nat_u32) simp
  have "drop (length ?w) b \<noteq> []" using assms(3,4) by simp
  then obtain x xs where x: "drop (length ?w) b = x # xs" by (cases "drop (length ?w) b") auto
  then have xs: "xs = drop (length ?w + 1) b" by (metis add.commute drop_drop drop_Suc_Cons drop_0 plus_1_eq_Suc One_nat_def)
  show ?thesis
    using encode_loop_Some [OF assms(1,2), of "[]" sz b] assms(3-5) p x xs
    by (simp add: encode_dns_name_def word_less_nat_alt word_le_nat_alt put8_def add.commute)
qed

definition query_bytes :: "u16 \<Rightarrow> u8 list list \<Rightarrow> u8 list" where
  "query_bytes query_id ls = DNSHeader_bytes \<lparr>dns_id = htons query_id, dns_flags = htons DNS_FLAG_RD,
     dns_qdcount = htons 1, dns_ancount = 0, dns_nscount = 0, dns_arcount = 0\<rparr> @ wire_labels ls @ [0] @ question_end"

lemma length_dns [simp]: "length (DNSHeader_bytes h) = 12" "length question_end = 4"
  by (simp_all add: DNSHeader_bytes_def question_end_def)

lemma build_dns_query_Some:
  assumes "dns_labels ls" "ls \<noteq> []" "length (wire_labels ls) + 17 \<le> unat sz" "unat sz \<le> length b" "268 \<le> unat sz"
  shows "build_dns_query (Some (dotted ls)) query_id b sz =
    Some (query_bytes query_id ls @ drop (length (query_bytes query_id ls)) b, of_nat (length (query_bytes query_id ls)))"
proof -
  let ?h = "DNSHeader_bytes \<lparr>dns_id = htons query_id, dns_flags = htons DNS_FLAG_RD,
     dns_qdcount = htons 1, dns_ancount = 0, dns_nscount = 0, dns_arcount = 0\<rparr>"
  let ?w = "wire_labels ls"
  define n :: u32 where "n = of_nat (length ?w + 1)"
  have lim: "length ?w + 17 < 2 ^ 32" using assms(3) u32_less_limit [of sz] by simp
  have n: "unat n = length ?w + 1" unfolding n_def using lim by (intro unat_of_nat_u32) simp
  have sz: "unat (sz - 12 - 4) = unat sz - 16" using assms(5) by (simp add: unat_sub_nowrap)
  have e: "encode_dns_name (Some (dotted ls)) (drop 12 b) (sz - 12 - 4) = Some (?w @ [0] @ drop (length ?w + 1) (drop 12 b), n)"
    unfolding n_def by (rule encode_dns_name_Some) (use assms sz in simp_all)
  have p: "unat (12 + n) = length ?w + 13" "unat (12 + n + 4) = length ?w + 17"
    using n lim by (simp_all add: unat_add_nowrap)
  have "put_struct (?h @ ?w @ [0] @ drop (length ?w + 13) b) (length ?w + 13) question_end =
      Some (?h @ ?w @ [0] @ question_end @ drop (length ?w + 17) b)"
    using assms(3,4) by (simp add: put_struct_Some add.commute)
  moreover have "n \<noteq> 0" using n by auto
  moreover have "12 + n + 4 = of_nat (length (query_bytes query_id ls))"
    by (rule unat_eqI) (use p lim in \<open>simp add: query_bytes_def unat_of_nat_u32 del: of_nat_add\<close>)
  moreover have "\<not> sz < 268" "\<not> 12 + n + 4 > sz" using assms(3,5) p by (simp_all add: word_less_nat_alt)
  ultimately show ?thesis
    using assms(3-5) e p
    by (simp add: build_dns_query_def put_struct_Some query_bytes_def Let_def add.commute add.left_commute)
qed


lemma get8_append: "unat i = length xs + j \<Longrightarrow> j < length ys \<Longrightarrow> get8 (xs @ ys) i = Some (ys ! j)"
  by (simp add: get8_def nth_append)

lemma label_no_pointer: "unat (x :: u8) < 64 \<Longrightarrow> x AND 0xC0 = 0"
proof -
  assume "unat x < 64"
  then have "x = take_bit 6 x" by (simp add: word_unat_eq_iff take_bit_eq_mod unat_mod)
  also have "\<dots> = x AND 63" by (simp add: take_bit_eq_mask mask_eq_exp_minus_1)
  finally have "x AND 0xC0 = x AND (63 AND 0xC0)" by (metis and.assoc)
  then show ?thesis by simp
qed

lemma skip_wire_name:
  assumes "dns_labels ls" "length pre + length (wire_labels ls) + 1 \<le> unat plen" "unat plen \<le> 2 ^ 31"
  shows "skip_dns_name (pre @ wire_labels ls @ [0] @ post) plen (of_nat (length pre)) =
    Some (of_nat (length pre + length (wire_labels ls) + 1))"
  using assms(1,2)
proof (induction ls arbitrary: pre)
  case Nil
  have p: "unat (of_nat (length pre) :: u32) = length pre"
    using Nil.prems(2) assms(3) by (intro unat_of_nat_u32) simp
  have "get8 (pre @ 0 # post) (of_nat (length pre)) = Some 0"
    using p by (simp add: get8_def nth_append)
  with Nil.prems(2) p show ?case
    by (subst skip_dns_name.simps) (simp add: wire_labels_Cons word_less_nat_alt)
next
  case (Cons l ls)
  let ?n = "of_nat (length l) :: u8"
  have l: "1 \<le> length l" "length l \<le> 63" "dns_labels ls" using Cons.prems(1) by (simp_all add: dns_labels_def)
  have n: "unat ?n = length l" using l(2) by (simp add: unsigned_of_nat take_bit_eq_mod)
  have nz: "?n \<noteq> 0" "?n AND 0xC0 \<noteq> 0xC0" using n l label_no_pointer [of ?n] by auto
  have lim: "length pre + length l + 1 < 2 ^ 32" using Cons.prems(2) assms(3) by (simp add: wire_labels_Cons)
  have p: "unat (of_nat (length pre) :: u32) = length pre" using lim by (intro unat_of_nat_u32) simp
  have q: "of_nat (length pre) + 1 + ucast ?n = (of_nat (length (pre @ ?n # l)) :: u32)"
    by (rule unat_eqI) (use p n lim in \<open>simp add: unat_add_nowrap unat_of_nat_u32 del: of_nat_add of_nat_Suc\<close>)
  have g: "get8 (pre @ wire_labels (l # ls) @ [0] @ post) (of_nat (length pre)) = Some ?n"
    using get8_append [of "of_nat (length pre)" pre 0 "wire_labels (l # ls) @ [0] @ post"] p by (simp add: wire_labels_Cons)
  have "skip_dns_name (pre @ wire_labels (l # ls) @ [0] @ post) plen (of_nat (length pre)) =
      skip_dns_name ((pre @ ?n # l) @ wire_labels ls @ [0] @ post) plen (of_nat (length (pre @ ?n # l)))"
    using Cons.prems(2) p nz g
    by (subst skip_dns_name.simps) (simp add: word_less_nat_alt q [symmetric] wire_labels_Cons del: of_nat_add of_nat_Suc length_append)
  also have "\<dots> = Some (of_nat (length (pre @ ?n # l) + length (wire_labels ls) + 1))"
    by (rule Cons.IH) (use l Cons.prems(2) in \<open>simp_all add: wire_labels_Cons\<close>)
  finally show ?case by (simp add: wire_labels_Cons)
qed


text \<open>The answer section of one address record with a compressed name, and a reply to a query.\<close>

definition answer_bytes :: "u8 list \<Rightarrow> u32 \<Rightarrow> u8 list" where
  "answer_bytes ttl ip = [0xC0, 0x0C, 0, 1, 0, 1] @ ttl @ [0, 4] @ ip_be_to_bytes ip"

definition reply_bytes :: "u16 \<Rightarrow> u16 \<Rightarrow> u8 list list \<Rightarrow> u8 list \<Rightarrow> u32 \<Rightarrow> u8 list" where
  "reply_bytes query_id flags ls ttl ip = DNSHeader_bytes \<lparr>dns_id = htons query_id, dns_flags = htons flags,
     dns_qdcount = htons 1, dns_ancount = htons 1, dns_nscount = 0, dns_arcount = 0\<rparr> @
     wire_labels ls @ [0] @ question_end @ answer_bytes ttl ip"

lemma find_answer_Some:
  assumes "length ttl = 4" "unat pos = length pre" "unat plen = length pre + 16" "length pre + 16 \<le> 2 ^ 31"
  shows "find_answer 1 (pre @ answer_bytes ttl ip @ junk) plen pos = Some (Some ip)"
proof -
  let ?a = "answer_bytes ttl ip"
  have l: "length ?a = 16" using assms(1) by (simp add: answer_bytes_def ip_be_to_bytes_def)
  have u: "unat (pos + of_nat j) = length pre + j" if "j \<le> 16" for j
    using that assms(2,4) by (simp add: unat_add_nowrap unat_of_nat_u32)
  have g: "get8 (pre @ ?a @ junk) (pos + of_nat j) = Some (?a ! j)" if "j < 16" for j
    using get8_append [of "pos + of_nat j" pre j "?a @ junk"] that u [of j] l by (simp add: nth_append)
  have "skip_dns_name (pre @ ?a @ junk) plen pos = Some (pos + 2)"
    using g [of 0] assms(2,3) by (subst skip_dns_name.simps) (simp add: word_less_nat_alt answer_bytes_def)
  moreover have "pos + 2 \<noteq> 0" "\<not> pos + 2 + 10 > plen" "\<not> pos + 2 + 10 + ucast (4 :: u16) > plen"
    using u [of 2] u [of 12] u [of 16] assms(3) by (auto simp: word_less_nat_alt add.assoc)
  moreover have "get_be16 (pre @ ?a @ junk) (pos + 2) = Some 1"
    using g [of 2] g [of 3] by (simp add: get_be16_def add.assoc answer_bytes_def word16_def)
  moreover have "get_be16 (pre @ ?a @ junk) (pos + 2 + 8) = Some 4"
    using g [of 10] g [of 11] assms(1) by (simp add: get_be16_def add.assoc answer_bytes_def word16_def nth_append)
  moreover have "read_ip (pre @ ?a @ junk) (pos + 2 + 10) = Some ip"
    using g [of 12] g [of 13] g [of 14] g [of 15] assms(1) join_octets [of ip]
    by (simp add: read_ip_def add.assoc answer_bytes_def nth_append ip_be_to_bytes_def ucast_low_byte)
  ultimately show ?thesis
    by (simp add: Let_def DNS_TYPE_A_def)
qed


lemma parse_reply_Some:
  assumes "dns_labels ls" "length ttl = 4" "flags AND DNS_FLAG_QR \<noteq> 0" "flags AND DNS_FLAG_RCODE = 0"
    and "unat len = length (reply_bytes query_id flags ls ttl ip)" "unat len \<le> 2 ^ 31"
  shows "parse_dns_response (Some (reply_bytes query_id flags ls ttl ip @ junk)) len query_id True = Some (Some ip)"
proof -
  let ?h = "DNSHeader_bytes \<lparr>dns_id = htons query_id, dns_flags = htons flags,
     dns_qdcount = htons 1, dns_ancount = htons 1, dns_nscount = 0, dns_arcount = 0\<rparr>"
  let ?w = "wire_labels ls" and ?a = "answer_bytes ttl ip"
  let ?r = "?h @ ?w @ [0] @ question_end @ ?a @ junk" and ?pre = "?h @ ?w @ [0] @ question_end"
  have r: "reply_bytes query_id flags ls ttl ip @ junk = ?r" by (simp add: reply_bytes_def)
  have len: "unat len = length ?w + 33"
    using assms(2,5) by (simp add: reply_bytes_def answer_bytes_def ip_be_to_bytes_def)
  have "skip_dns_name ?r len (of_nat (length ?h)) = Some (of_nat (length ?h + length ?w + 1))"
    by (rule skip_wire_name) (use assms(1,6) len in simp_all)
  moreover define k :: u32 where "k = of_nat (length ?h + length ?w + 1)"
  ultimately have sk: "skip_dns_name ?r len 12 = Some k" by simp
  have k: "unat k = length ?w + 13" unfolding k_def using len assms(6) by (subst unat_of_nat_u32) simp_all
  have k4: "unat (k + 4) = length ?w + 17" using k len assms(6) by (simp add: unat_add_nowrap)
  have q: "skip_questions 1 ?r len 12 = Some (Some (k + 4))"
    using sk k k4 len by (auto simp: word_less_nat_alt simp flip: unat_gt_0)
  have f: "find_answer 1 (?pre @ ?a @ junk) len (k + 4) = Some (Some ip)"
    by (rule find_answer_Some) (use assms(2,6) k4 len in simp_all)
  have hd: "get_le16 ?r 0 = Some (htons query_id)" "get_le16 ?r 2 = Some (htons flags)" "get_le16 ?r 4 = Some (htons 1)"
    "get_le16 ?r 6 = Some (htons 1)"
    by (simp_all add: get_le16_Some DNSHeader_bytes_def le16_def word16_le16)
  have "\<not> len < 12" using len by (simp add: word_less_nat_alt)
  then show ?thesis
    unfolding r using assms(3,4) q f hd by (simp add: parse_dns_response_def del: skip_questions.simps find_answer.simps One_nat_def)
qed

section \<open>From name to address\<close>

lemma send_udp_accepted:
  assumes "net_ok n" "tx_fn n = Some (\<lambda>_. True)" "parse_parts False (conf_ip (copy_config (g_cfg n))) = Some sip"
    and "0 < unat len" "unat len \<le> 996" "unat len \<le> length p"
  obtains fs where "send_udp_packet (Some p) len dip sp dp n = Some (n\<lparr>nic_sent := fs\<rparr>, True)"
proof -
  obtain n' where n': "transmit_udp sip p len dip sp dp n = Some (n', True)" "n' = n\<lparr>nic_sent := nic_sent n'\<rparr>"
    using transmit_udp_Some [OF assms(1,2,4,5,6), of sip dip sp dp] by metis
  have "send_udp_packet (Some p) len dip sp dp n = Some (n', True)"
    using assms(3,4) n'(1) by (auto simp: send_udp_packet_def get_net_config_def GetConfig_def)
  with n'(2) show thesis by (metis that)
qed

lemma wait_one:
  assumes "0 < timeout" "\<not> g_dns_response_ready n" "arrivals 0 = [f]"
    and "kos_nic_driver_rx f (of_nat (length f)) n = Some m" "g_dns_response_ready m"
  shows "wait_response arrivals 0 timeout n = Some m"
proof -
  have "wait_response arrivals (0 + 1) timeout m = Some m" using assms(5) by (subst wait_response.simps) simp
  with assms show ?thesis by (subst wait_response.simps) (simp add: rx_poll_def)
qed



definition demo_client :: net where
  "demo_client = rx_dispatch_init (kos_nic_register_tx (Some (\<lambda>_. True)) (SetConfig
     \<lparr>conf_ip = [0x31, 0x30, 0x2E, 0x30, 0x2E, 0x30, 0x2E, 0x32], conf_mask = [], conf_gw = [],
      conf_dns = [0x31, 0x30, 0x2E, 0x30, 0x2E, 0x30, 0x2E, 0x31]\<rparr> net_init))"

definition demo_arrivals :: "u32 \<Rightarrow> buf list" where
  "demo_arrivals _ = [EthernetHeader_bytes \<lparr>eth_dst = replicate 6 1, eth_src = replicate 6 2, ethertype = ETHERTYPE_IPV4\<rparr> @
     IPv4Header_bytes \<lparr>ver_ihl = 0x45, ip_tos = 0, total_length = 0, identification = 0, flags_frag = 0, ip_ttl = 64,
       ip_protocol = 17, header_checksum = 0, ip_src = 0x0A000001, ip_dst = 0x0A000002\<rparr> @
     UDPHeader_bytes \<lparr>udp_src_port = htons 53, udp_dst_port = htons 53, udp_length = 0, udp_checksum = 0\<rparr> @
     reply_bytes 1 0x8180 [[0x6B, 0x6F, 0x73], [0x61]] [0, 0, 0, 60] 0x5DB8D822]"


end
