(* ===== verification/KOS_PMM.thy ===== *)
theory KOS_PMM
  imports KOS_Prelude
begin

text \<open>
  The physical memory manager, \<^verbatim>\<open>src/memory/pmm.cpp\<close>: one bit per 4 KiB frame (1 = used) in a
  bitmap of 32-bit words, a first-fit allocator over it, and a counter of free frames. The
  static variables of the file are the record \<open>pmm\<close>; the bitmap is a function from word index
  to word, because the code never leaves the array (\<open>bitmap_word_index\<close> and the invariant
  \<open>g_frameCap \<le> 2 ^ 20\<close>). The abstract view is the set of free frame numbers, \<open>free_frames\<close>.
\<close>

section \<open>State and bitmap\<close>

record pmm =
  g_totalFrames :: u32
  g_freeFrames :: u32
  g_frameCap :: u32
  g_bitmapWords :: u32
  g_bitmap :: "u32 \<Rightarrow> u32"

definition MAX_FRAMES :: u32 where "MAX_FRAMES = 1024 * 1024"

definition bset :: "(u32 \<Rightarrow> u32) \<Rightarrow> u32 \<Rightarrow> (u32 \<Rightarrow> u32)" where
  "bset b idx = b(drop_bit 5 idx := b (drop_bit 5 idx) OR push_bit (unat (idx AND 31)) 1)"

definition bclr :: "(u32 \<Rightarrow> u32) \<Rightarrow> u32 \<Rightarrow> (u32 \<Rightarrow> u32)" where
  "bclr b idx = b(drop_bit 5 idx := b (drop_bit 5 idx) AND NOT (push_bit (unat (idx AND 31)) 1))"

definition bget :: "(u32 \<Rightarrow> u32) \<Rightarrow> u32 \<Rightarrow> bool" where
  "bget b idx \<longleftrightarrow> drop_bit (unat (idx AND 31)) (b (drop_bit 5 idx)) AND 1 \<noteq> 0"

section \<open>Operations\<close>

definition PMM_TotalFrames :: "pmm \<Rightarrow> u32" where "PMM_TotalFrames p = g_frameCap p"

definition PMM_FreeFrames :: "pmm \<Rightarrow> u32" where "PMM_FreeFrames p = g_freeFrames p"

definition PMM_Init :: "u32 \<Rightarrow> u32 \<Rightarrow> u32 \<Rightarrow> u32 \<Rightarrow> pmm \<Rightarrow> pmm" where
  "PMM_Init memLowerKB memUpperKB kernelStart kernelEnd p =
     (let total0 = (ucast memLowerKB * 1024 + ucast memUpperKB * 1024 :: u64);
          total1 = (if memLowerKB = 0 \<and> memUpperKB = 0 then 128 * 1024 * 1024 else total0);
          totalBytes = (if total1 < 0x100000 then 0x100000 else total1);
          frames = (ucast (totalBytes div 4096) :: u32);
          cap = (if MAX_FRAMES < frames then MAX_FRAMES else frames);
          words = (cap + 31) div 32;
          b0 = for_range 0 words (\<lambda>i b. b(i := 0)) (g_bitmap p);
          b1 = for_range 0 (drop_bit 12 0x100000) (\<lambda>f b. bset b f) b0;
          kstartF = kernelStart div 4096;
          kend0 = (ucast ((ucast kernelEnd + 4096 - 1 :: u64) div 4096) :: u32);
          kendF = (if cap < kend0 then cap else kend0);
          b2 = for_range kstartF kendF (\<lambda>f b. bset b f) b1;
          used = for_range 0 cap (\<lambda>f n. if bget b2 f then n + 1 else n) (0 :: u32)
      in p\<lparr>g_totalFrames := cap, g_freeFrames := cap - used, g_frameCap := cap,
           g_bitmapWords := words, g_bitmap := b2\<rparr>)"

definition mark_used_step :: "u32 \<Rightarrow> pmm \<Rightarrow> pmm" where
  "mark_used_step f p =
     (if \<not> bget (g_bitmap p) f
      then p\<lparr>g_bitmap := bset (g_bitmap p) f,
             g_freeFrames := (if g_freeFrames p \<noteq> 0 then g_freeFrames p - 1 else g_freeFrames p)\<rparr>
      else p)"

definition mark_free_step :: "u32 \<Rightarrow> pmm \<Rightarrow> pmm" where
  "mark_free_step f p =
     (if bget (g_bitmap p) f
      then p\<lparr>g_bitmap := bclr (g_bitmap p) f, g_freeFrames := g_freeFrames p + 1\<rparr>
      else p)"

text \<open>The frame range of a byte range, as both \<^verbatim>\<open>markRange\<close> functions compute it.\<close>

definition range_end :: "pmm \<Rightarrow> u32 \<Rightarrow> u32" where
  "range_end p end' =
     (let e = (ucast ((ucast end' + 4096 - 1 :: u64) div 4096) :: u32)
      in if g_frameCap p < e then g_frameCap p else e)"

definition PMM_markRangeUsed :: "u32 \<Rightarrow> u32 \<Rightarrow> pmm \<Rightarrow> pmm" where
  "PMM_markRangeUsed start end' p =
     (if end' \<le> start then p
      else for_range (start div 4096) (range_end p end') mark_used_step p)"

definition PMM_markRangeFree :: "u32 \<Rightarrow> u32 \<Rightarrow> pmm \<Rightarrow> pmm" where
  "PMM_markRangeFree start end' p =
     (if end' \<le> start then p
      else for_range (start div 4096) (range_end p end') mark_free_step p)"

text \<open>The first-fit scan of \<^verbatim>\<open>AllocFrame\<close>.\<close>

function first_clear :: "(u32 \<Rightarrow> u32) \<Rightarrow> u32 \<Rightarrow> u32 \<Rightarrow> u32 option" where
  "first_clear b f cap =
     (if f < cap then (if \<not> bget b f then Some f else first_clear b (f + 1) cap) else None)"
  by pat_completeness auto
termination
  by (relation "measure (\<lambda>(b, f, cap). unat cap - unat f)")
    (auto simp: unat_Suc_less word_less_nat_alt)

declare first_clear.simps [simp del]

text \<open>\<open>None\<close> is the panic of the alignment assertion.\<close>

definition PMM_AllocFrame :: "pmm \<Rightarrow> (pmm \<times> u32) option" where
  "PMM_AllocFrame p =
     (case first_clear (g_bitmap p) 0 (g_frameCap p) of
        None \<Rightarrow> Some (p, 0)
      | Some f \<Rightarrow>
          let p' = p\<lparr>g_bitmap := bset (g_bitmap p) f,
                     g_freeFrames := (if g_freeFrames p \<noteq> 0 then g_freeFrames p - 1 else g_freeFrames p)\<rparr>;
              pa = (ucast (ucast f * 4096 :: u64) :: u32)
          in if pa AND 4095 = 0 then Some (p', pa) else None)"

definition PMM_FreeFrame :: "u32 \<Rightarrow> pmm \<Rightarrow> pmm option" where
  "PMM_FreeFrame addr p =
     (if addr AND 4095 \<noteq> 0 then None
      else let f = addr div 4096
           in Some (if f < g_frameCap p \<and> bget (g_bitmap p) f
                    then p\<lparr>g_bitmap := bclr (g_bitmap p) f, g_freeFrames := g_freeFrames p + 1\<rparr>
                    else p))"

section \<open>The bitmap as a set of bits\<close>

lemma and_31: "(idx :: u32) AND 31 = take_bit 5 idx"
  by (simp add: take_bit_eq_mask mask_eq_exp_minus_1)

lemma bit_index_less: "unat (take_bit 5 (i :: u32)) < 32"
proof -
  have "unat (take_bit 5 i) = take_bit 5 (unat i)" by (simp add: unsigned_take_bit_eq)
  also have "\<dots> < 2 ^ 5" by (rule take_bit_nat_less_exp)
  finally show ?thesis by simp
qed

lemma bget_iff_bit: "bget b i \<longleftrightarrow> bit (b (drop_bit 5 i)) (unat (take_bit 5 i))"
  by (simp add: bget_def and_31 bit_iff_odd_drop_bit and_one_eq odd_iff_mod_2_eq_one)

lemma index_split: "drop_bit 5 i = drop_bit 5 j \<Longrightarrow> take_bit 5 i = take_bit 5 j \<Longrightarrow> i = (j :: u32)"
  by (metis bits_ident)

lemma index_bit:
  fixes i j :: u32
  shows "bit (push_bit (unat (take_bit 5 i)) (1 :: u32)) (unat (take_bit 5 j)) \<longleftrightarrow> take_bit 5 j = take_bit 5 i"
proof -
  have "bit (push_bit (unat (take_bit 5 i)) (1 :: u32)) (unat (take_bit 5 j))
        \<longleftrightarrow> unat (take_bit 5 i) = unat (take_bit 5 j)"
    using bit_index_less [of i] bit_index_less [of j] by (auto simp: bit_exp_iff)
  then show ?thesis by (auto intro: unat_eqI)
qed

lemma bget_bset [simp]: "bget (bset b i) j \<longleftrightarrow> j = i \<or> bget b j"
proof (cases "drop_bit 5 j = drop_bit 5 i")
  case False
  then show ?thesis by (auto simp: bget_iff_bit bset_def)
next
  case True
  then show ?thesis using index_bit [of i j] index_split [of j i]
    by (auto simp: bget_iff_bit bset_def bit_or_iff and_31)
qed

lemma bget_bclr [simp]: "bget (bclr b i) j \<longleftrightarrow> j \<noteq> i \<and> bget b j"
proof (cases "drop_bit 5 j = drop_bit 5 i")
  case False
  then show ?thesis by (auto simp: bget_iff_bit bclr_def)
next
  case True
  then show ?thesis using index_bit [of i j] index_split [of j i] bit_index_less [of j]
    by (auto simp: bget_iff_bit bclr_def bit_and_iff bit_not_iff and_31)
qed

section \<open>The set of free frames and the invariant\<close>

definition free_frames :: "pmm \<Rightarrow> u32 set" where
  "free_frames p = {f. f < g_frameCap p \<and> \<not> bget (g_bitmap p) f}"

text \<open>
  The counter is exact and the bitmap covers the managed frames: \<open>g_frameCap\<close> is at most the
  \<open>2 ^ 20\<close> bits of \<^verbatim>\<open>s_bitmap_storage\<close> and at least the 256 frames of the first MiB.
\<close>

definition pmm_inv :: "pmm \<Rightarrow> bool" where
  "pmm_inv p \<longleftrightarrow> 256 \<le> g_frameCap p \<and> g_frameCap p \<le> 1048576 \<and>
     unat (g_freeFrames p) = card (free_frames p)"

text \<open>The first MiB is never handed out, so that address 0 can stand for failure.\<close>

definition low_reserved :: "pmm \<Rightarrow> bool" where
  "low_reserved p \<longleftrightarrow> (\<forall>f < 256. bget (g_bitmap p) f)"

lemma finite_free_frames [simp]: "finite (free_frames p)"
  by (rule finite_subset [OF subset_UNIV]) simp

lemma free_frames_bset [simp]:
  "free_frames (p\<lparr>g_bitmap := bset (g_bitmap p) f\<rparr>) = free_frames p - {f}"
  by (auto simp: free_frames_def)

lemma free_frames_bclr:
  "f < g_frameCap p \<Longrightarrow> free_frames (p\<lparr>g_bitmap := bclr (g_bitmap p) f\<rparr>) = insert f (free_frames p)"
  by (auto simp: free_frames_def)

lemma free_frames_frame [simp]:
  "free_frames (p\<lparr>g_freeFrames := n\<rparr>) = free_frames p"
  "free_frames (p\<lparr>g_bitmap := b, g_freeFrames := n\<rparr>) = free_frames (p\<lparr>g_bitmap := b\<rparr>)"
  by (simp_all add: free_frames_def)

lemma card_words_below: "card {f :: u32. f < n} = unat n"
proof -
  have "{f :: u32. f < n} = of_nat ` {..<unat n}"
  proof (intro subset_antisym subsetI)
    fix f assume "f \<in> {f :: u32. f < n}"
    then show "f \<in> of_nat ` {..<unat n}"
      by (intro image_eqI [of _ _ "unat f"]) (simp_all add: word_less_nat_alt)
  qed (use u32_less_limit [of n] in \<open>auto simp: word_less_nat_alt unat_of_nat\<close>)
  moreover have "inj_on (of_nat :: nat \<Rightarrow> u32) {..<unat n}"
    by (rule inj_onI) (use u32_less_limit [of n] in \<open>auto simp: word_unat_eq_iff unat_of_nat\<close>)
  ultimately show ?thesis by (simp add: card_image)
qed

lemma card_free_frames_le: "card (free_frames p) \<le> unat (g_frameCap p)"
proof -
  have "card (free_frames p) \<le> card {f. f < g_frameCap p}"
    by (rule card_mono) (auto simp: free_frames_def)
  then show ?thesis by (simp add: card_words_below)
qed

section \<open>Allocation\<close>

lemma first_clear_spec:
  "case first_clear b f cap of
     None \<Rightarrow> \<forall>h. f \<le> h \<and> h < cap \<longrightarrow> bget b h
   | Some g \<Rightarrow> f \<le> g \<and> g < cap \<and> \<not> bget b g \<and> (\<forall>h. f \<le> h \<and> h < g \<longrightarrow> bget b h)"
proof (induction b f cap rule: first_clear.induct)
  case (1 b f cap)
  show ?case
  proof (cases "f < cap \<and> bget b f")
    case False
    then show ?thesis by (auto simp: first_clear.simps [of b f])
  next
    case True
    then have step: "first_clear b f cap = first_clear b (f + 1) cap"
      by (simp add: first_clear.simps [of b f])
    from True 1 have IH: "case first_clear b (f + 1) cap of
        None \<Rightarrow> \<forall>h. f + 1 \<le> h \<and> h < cap \<longrightarrow> bget b h
      | Some g \<Rightarrow> f + 1 \<le> g \<and> g < cap \<and> \<not> bget b g \<and> (\<forall>h. f + 1 \<le> h \<and> h < g \<longrightarrow> bget b h)"
      by blast
    have le: "f + 1 \<le> h \<longleftrightarrow> f < h" for h using True word_plus1_le [of f cap h] by simp
    have "bget b h" if "f \<le> h" "f < h \<Longrightarrow> bget b h" for h
      using that True by (cases "h = f") auto
    with IH show ?thesis unfolding step le by (fastforce split: option.splits)
  qed
qed

lemma first_clear_Min:
  "first_clear (g_bitmap p) 0 (g_frameCap p) =
     (if free_frames p = {} then None else Some (Min (free_frames p)))"
proof (cases "first_clear (g_bitmap p) 0 (g_frameCap p)")
  case None
  with first_clear_spec [where b = "g_bitmap p" and f = 0 and cap = "g_frameCap p"] show ?thesis
    by (auto simp: free_frames_def)
next
  case (Some g)
  with first_clear_spec [where b = "g_bitmap p" and f = 0 and cap = "g_frameCap p"]
  have g: "g \<in> free_frames p" and below: "\<And>h. h < g \<Longrightarrow> bget (g_bitmap p) h"
    by (auto simp: free_frames_def)
  have "Min (free_frames p) = g"
    by (rule Min_eqI) (use g below in \<open>auto simp: free_frames_def not_less [symmetric]\<close>)
  with Some g show ?thesis by auto
qed

text \<open>The physical address of a managed frame.\<close>

lemma frame_address:
  assumes "f < 1048576"
  shows "(ucast (ucast f * 4096 :: u64) :: u32) = f * 4096" "unat (f * 4096) = unat f * 4096"
proof -
  have f: "unat f < 1048576" using assms by (simp add: word_less_nat_alt)
  then show u: "unat (f * 4096) = unat f * 4096" by (simp add: unat_mult_nowrap)
  show "(ucast (ucast f * 4096 :: u64) :: u32) = f * 4096"
    by (rule unat_eqI) (use f in \<open>simp add: u unat_ucast_u32 unat_mult_nowrap\<close>)
qed

lemma frame_address_aligned: "f < 1048576 \<Longrightarrow> (f * 4096 :: u32) AND 4095 = 0"
  by (simp add: page_aligned_iff frame_address)

lemma frame_address_div: "f < 1048576 \<Longrightarrow> (f * 4096 :: u32) div 4096 = f"
  by (rule unat_eqI) (simp add: unat_div frame_address)

lemma free_frame_below_cap: "pmm_inv p \<Longrightarrow> f \<in> free_frames p \<Longrightarrow> f < 1048576"
  by (auto simp: pmm_inv_def free_frames_def)

text \<open>One allocation: the least free frame leaves the free set, or nothing changes.\<close>

definition take_frame :: "u32 \<Rightarrow> pmm \<Rightarrow> pmm" where
  "take_frame f p = p\<lparr>g_bitmap := bset (g_bitmap p) f, g_freeFrames := g_freeFrames p - 1\<rparr>"

lemma PMM_AllocFrame_eq:
  assumes "pmm_inv p"
  shows "PMM_AllocFrame p =
     Some (if free_frames p = {} then (p, 0)
           else (take_frame (Min (free_frames p)) p, Min (free_frames p) * 4096))"
proof (cases "free_frames p = {}")
  case True
  then show ?thesis by (simp add: PMM_AllocFrame_def first_clear_Min)
next
  case False
  then have m: "Min (free_frames p) \<in> free_frames p" by simp
  then have lt: "Min (free_frames p) < 1048576" using assms by (blast intro: free_frame_below_cap)
  have "0 < card (free_frames p)" using False by (simp add: card_gt_0_iff)
  with assms have nz: "g_freeFrames p \<noteq> 0" by (auto simp: pmm_inv_def)
  show ?thesis
    using False nz
    by (simp add: PMM_AllocFrame_def first_clear_Min take_frame_def Let_def
        frame_address [OF lt] frame_address_aligned [OF lt])
qed

lemma take_frame_simps [simp]:
  "free_frames (take_frame f p) = free_frames p - {f}"
  "g_frameCap (take_frame f p) = g_frameCap p"
  "low_reserved p \<Longrightarrow> low_reserved (take_frame f p)"
  by (simp_all add: take_frame_def low_reserved_def)

lemma take_frame_inv:
  assumes "pmm_inv p" "f \<in> free_frames p"
  shows "pmm_inv (take_frame f p)"
proof -
  have "unat (g_freeFrames p) = card (free_frames p)" using assms(1) by (simp add: pmm_inv_def)
  moreover have "1 \<le> card (free_frames p)" using assms(2) by (auto simp: Suc_le_eq card_gt_0_iff)
  ultimately have "unat (g_freeFrames p - 1) = card (free_frames p) - 1"
    by (simp add: unat_sub_nowrap)
  with assms show ?thesis by (simp add: pmm_inv_def take_frame_def)
qed

section \<open>Release\<close>

definition give_frame :: "u32 \<Rightarrow> pmm \<Rightarrow> pmm" where
  "give_frame f p = p\<lparr>g_bitmap := bclr (g_bitmap p) f, g_freeFrames := g_freeFrames p + 1\<rparr>"

lemma PMM_FreeFrame_eq:
  assumes "4096 dvd unat addr"
  shows "PMM_FreeFrame addr p =
     Some (if addr div 4096 < g_frameCap p \<and> bget (g_bitmap p) (addr div 4096)
           then give_frame (addr div 4096) p else p)"
  using assms by (simp add: PMM_FreeFrame_def page_aligned_iff give_frame_def Let_def)

lemma free_frames_give: "f < g_frameCap p \<Longrightarrow> free_frames (give_frame f p) = insert f (free_frames p)"
  by (auto simp: give_frame_def free_frames_bclr)

lemma give_frame_frameCap [simp]: "g_frameCap (give_frame f p) = g_frameCap p"
  by (simp add: give_frame_def)

lemma give_frame_inv:
  assumes "pmm_inv p" "f < g_frameCap p" "bget (g_bitmap p) f"
  shows "pmm_inv (give_frame f p)"
proof -
  have notin: "f \<notin> free_frames p" using assms(3) by (simp add: free_frames_def)
  have "card (free_frames p) \<le> 1048576"
    using card_free_frames_le [of p] assms(1) by (simp add: pmm_inv_def word_le_nat_alt)
  then have "unat (g_freeFrames p + 1) = card (free_frames p) + 1"
    using assms(1) by (simp add: pmm_inv_def unat_add_nowrap)
  then have "unat (g_freeFrames (give_frame f p)) = card (free_frames (give_frame f p))"
    using notin assms(2) by (simp add: free_frames_give) (simp add: give_frame_def)
  with assms(1) show ?thesis by (simp add: pmm_inv_def)
qed

lemma low_reserved_give: "low_reserved p \<Longrightarrow> 256 \<le> f \<Longrightarrow> low_reserved (give_frame f p)"
  by (auto simp: low_reserved_def give_frame_def)

lemma bclr_bset: "\<not> bget b i \<Longrightarrow> bclr (bset b i) i = b"
proof
  fix w assume "\<not> bget b i"
  then have nb: "\<not> bit (b (drop_bit 5 i)) (unat (take_bit 5 i))" by (simp add: bget_iff_bit)
  have "bit (b (drop_bit 5 i)) n \<Longrightarrow> \<not> bit (push_bit (unat (take_bit 5 i)) (1 :: u32)) n" for n
    using nb by (auto simp: bit_exp_iff)
  then show "bclr (bset b i) i w = b w"
    by (auto simp: bclr_def bset_def and_31 bit_simps intro!: bit_word_eqI)
qed

lemma give_take_frame:
  "f \<in> free_frames p \<Longrightarrow> give_frame f (take_frame f p) = p"
  by (simp add: give_frame_def take_frame_def bclr_bset free_frames_def)

section \<open>Marking byte ranges\<close>

lemma mark_used_step_eq:
  assumes "pmm_inv p" "f < g_frameCap p"
  shows "mark_used_step f p = (if f \<in> free_frames p then take_frame f p else p)"
proof -
  have "g_freeFrames p \<noteq> 0" if "f \<in> free_frames p"
  proof -
    have "0 < card (free_frames p)" using that by (auto simp: card_gt_0_iff)
    then show ?thesis using assms(1) by (auto simp: pmm_inv_def)
  qed
  then show ?thesis using assms(2) by (auto simp: mark_used_step_def take_frame_def free_frames_def)
qed

lemma mark_free_step_eq:
  "f < g_frameCap p \<Longrightarrow> mark_free_step f p = (if f \<in> free_frames p then p else give_frame f p)"
  by (auto simp: mark_free_step_def give_frame_def free_frames_def)

lemma range_end_le: "range_end p e \<le> g_frameCap p"
  by (auto simp: range_end_def Let_def not_less)

lemma mark_used_loop:
  assumes "pmm_inv p" "n \<le> g_frameCap p"
  shows "pmm_inv (for_range s n mark_used_step p) \<and>
    g_frameCap (for_range s n mark_used_step p) = g_frameCap p \<and>
    free_frames (for_range s n mark_used_step p) = free_frames p - {f. s \<le> f \<and> f < n}"
proof (cases "s \<le> n")
  case False
  with assms(1) show ?thesis by (auto simp: for_range_done)
next
  case True
  let ?P = "\<lambda>k q. pmm_inv q \<and> g_frameCap q = g_frameCap p \<and>
     free_frames q = free_frames p - {f. unat s \<le> unat f \<and> unat f < k}"
  have "?P (unat n) (for_range s n mark_used_step p)"
  proof (rule for_range_rule [where P = ?P])
    show "?P (unat s) p" using assms(1) by auto
    fix j q assume j: "unat s \<le> unat j" "j < n" and q: "?P (unat j) q"
    then have jc: "j < g_frameCap q" using assms(2) by simp
    have "{f. unat s \<le> unat f \<and> unat f < Suc (unat j)} =
          insert j {f. unat s \<le> unat f \<and> unat f < unat j}"
      using j by (auto simp: less_Suc_eq intro: unat_eqI)
    with q jc show "?P (Suc (unat j)) (mark_used_step j q)"
      by (auto simp: mark_used_step_eq take_frame_inv)
  qed (rule True)
  then show ?thesis by (simp add: word_le_nat_alt word_less_nat_alt)
qed

lemma mark_free_loop:
  assumes "pmm_inv p" "n \<le> g_frameCap p"
  shows "pmm_inv (for_range s n mark_free_step p) \<and>
    g_frameCap (for_range s n mark_free_step p) = g_frameCap p \<and>
    free_frames (for_range s n mark_free_step p) = free_frames p \<union> {f. s \<le> f \<and> f < n}"
proof (cases "s \<le> n")
  case False
  with assms(1) show ?thesis by (auto simp: for_range_done)
next
  case True
  let ?P = "\<lambda>k q. pmm_inv q \<and> g_frameCap q = g_frameCap p \<and>
     free_frames q = free_frames p \<union> {f. unat s \<le> unat f \<and> unat f < k}"
  have "?P (unat n) (for_range s n mark_free_step p)"
  proof (rule for_range_rule [where P = ?P])
    show "?P (unat s) p" using assms(1) by auto
    fix j q assume j: "unat s \<le> unat j" "j < n" and q: "?P (unat j) q"
    then have jc: "j < g_frameCap q" using assms(2) by simp
    have "bget (g_bitmap q) j" if "j \<notin> free_frames q" using that jc by (simp add: free_frames_def)
    moreover have "{f. unat s \<le> unat f \<and> unat f < Suc (unat j)} =
          insert j {f. unat s \<le> unat f \<and> unat f < unat j}"
      using j by (auto simp: less_Suc_eq intro: unat_eqI)
    ultimately show "?P (Suc (unat j)) (mark_free_step j q)"
      using q jc by (auto simp: mark_free_step_eq give_frame_inv free_frames_give)
  qed (rule True)
  then show ?thesis by (simp add: word_le_nat_alt word_less_nat_alt)
qed

section \<open>Initialisation\<close>

lemma bget_bset_range:
  "bget (for_range s n (\<lambda>f b. bset b f) b) j \<longleftrightarrow> s \<le> j \<and> j < n \<or> bget b j"
proof (cases "s \<le> n")
  case False
  then show ?thesis by (auto simp: for_range_done)
next
  case True
  let ?P = "\<lambda>k c. \<forall>j. bget c j \<longleftrightarrow> unat s \<le> unat j \<and> unat j < k \<or> bget b j"
  have "?P (unat n) (for_range s n (\<lambda>f b. bset b f) b)"
  proof (rule for_range_rule [where P = ?P])
    fix i :: u32 and c assume "unat s \<le> unat i" "?P (unat i) c"
    then show "?P (Suc (unat i)) (bset c i)"
      by (auto simp: less_Suc_eq intro: unat_eqI)
  qed (use True in auto)
  then show ?thesis by (simp add: word_le_nat_alt word_less_nat_alt)
qed

lemma clear_words: "unat i < unat n \<Longrightarrow> for_range 0 n (\<lambda>i b. b(i := 0)) b i = (0 :: u32)"
proof -
  assume i: "unat i < unat n"
  let ?P = "\<lambda>k c. \<forall>i. unat i < k \<longrightarrow> c i = (0 :: u32)"
  have "?P (unat n) (for_range 0 n (\<lambda>i b. b(i := 0)) b)"
    by (rule for_range_rule [where P = ?P]) (auto simp: less_Suc_eq intro: unat_eqI)
  then show ?thesis using i by blast
qed

lemma count_used:
  "unat (for_range 0 n (\<lambda>f k. if bget b f then k + 1 else k) (0 :: u32)) = card {f. f < n \<and> bget b f}"
proof -
  let ?P = "\<lambda>m k. unat k = card {f. unat f < m \<and> bget b f}"
  have "?P (unat n) (for_range 0 n (\<lambda>f k. if bget b f then k + 1 else k) (0 :: u32))"
  proof (rule for_range_rule [where P = ?P])
    fix j and k :: u32 assume j: "j < n" and k: "?P (unat j) k"
    have ins: "{f. unat f < Suc (unat j) \<and> bget b f} =
        (if bget b j then insert j {f. unat f < unat j \<and> bget b f} else {f. unat f < unat j \<and> bget b f})"
      by (auto simp: less_Suc_eq dest!: unat_eqI)
    have "card {f. unat f < unat j \<and> bget b f} \<le> card {f. f < j}"
      by (rule card_mono) (auto simp: word_less_nat_alt)
    then have "unat k \<le> unat j" using k by (simp add: card_words_below)
    then have "unat (k + 1) = unat k + 1"
      using j u32_less_limit [of n] by (simp add: unat_add_nowrap word_less_nat_alt)
    then show "?P (Suc (unat j)) (if bget b j then k + 1 else k)"
      by (simp add: ins k)
  qed simp_all
  then show ?thesis by (simp add: word_less_nat_alt)
qed

lemma bitmap_word_index:
  assumes "f < cap" "cap \<le> 1048576"
  shows "unat (drop_bit 5 f) < unat ((cap + 31) div 32 :: u32)"
proof -
  have c: "unat (cap + 31) = unat cap + 31" "unat f < unat cap"
    using assms by (simp_all add: unat_add_nowrap word_le_nat_alt word_less_nat_alt)
  have "unat (drop_bit 5 f) = unat f div 32" by (simp add: drop_bit_eq_div unat_div)
  then show ?thesis using c by (simp add: unat_div)
qed

text \<open>The number of managed frames that \<^verbatim>\<open>Init\<close> derives from the Multiboot memory sizes.\<close>

definition init_frames :: "u32 \<Rightarrow> u32 \<Rightarrow> nat" where
  "init_frames memLowerKB memUpperKB =
     min 1048576 (max 256 (if memLowerKB = 0 \<and> memUpperKB = 0 then 32768
                           else (unat memLowerKB + unat memUpperKB) div 4))"

lemma unat_min_if: "unat (if a < b then a else b) = min (unat a) (unat (b :: u32))"
  by (simp add: word_less_nat_alt)

lemma PMM_Init_frameCap:
  "unat (g_frameCap (PMM_Init lo hi ks ke p)) = init_frames lo hi"
proof -
  let ?t = "ucast lo * 1024 + ucast hi * 1024 :: u64"
  have t: "unat ?t = (unat lo + unat hi) * 1024"
    using u32_less_limit [of lo] u32_less_limit [of hi] by (simp add: unat_add_nowrap unat_mult_nowrap)
  have "unat (ucast (x div 4096 :: u64) :: u32) = unat x div 4096" if "unat x \<le> 8796093022208" for x :: u64
    using that by (simp add: unat_ucast_u32 unat_div)
  note cast = this
  have bound: "unat lo + unat hi \<le> 8589934592" using u32_less_limit [of lo] u32_less_limit [of hi] by simp
  show ?thesis
    using t bound
    by (auto simp: PMM_Init_def Let_def MAX_FRAMES_def unat_min_if init_frames_def cast word_less_nat_alt)
qed

lemma pages_up [simp]: "unat (ucast ((4095 + ucast e :: u64) div 4096) :: u32) = (unat (e :: u32) + 4095) div 4096"
proof -
  have "unat (4095 + ucast e :: u64) = unat e + 4095"
    using u32_less_limit [of e] by (simp add: unat_add_nowrap)
  then show ?thesis using u32_less_limit [of e] by (simp add: unat_ucast_u32 unat_div)
qed

lemma PMM_Init_bitmap:
  assumes "f < g_frameCap (PMM_Init lo hi ks ke p)"
  shows "bget (g_bitmap (PMM_Init lo hi ks ke p)) f \<longleftrightarrow>
    f < 256 \<or> ks div 4096 \<le> f \<and> unat f < (unat ke + 4095) div 4096"
proof -
  let ?cap = "g_frameCap (PMM_Init lo hi ks ke p)"
  let ?kend0 = "ucast ((ucast ke + 4096 - 1 :: u64) div 4096) :: u32"
  let ?kend = "if ?cap < ?kend0 then ?cap else ?kend0"
  let ?b0 = "for_range 0 ((?cap + 31) div 32) (\<lambda>i b. b(i := 0)) (g_bitmap p)"
  let ?b1 = "for_range 0 256 (\<lambda>f b. bset b f) ?b0"
  have eq: "g_bitmap (PMM_Init lo hi ks ke p) = for_range (ks div 4096) ?kend (\<lambda>f b. bset b f) ?b1"
    by (simp add: PMM_Init_def Let_def)
  have cap: "?cap \<le> 1048576"
    using PMM_Init_frameCap [of lo hi ks ke p] by (simp add: word_le_nat_alt init_frames_def)
  have "?b0 (drop_bit 5 f) = 0"
    by (rule clear_words) (rule bitmap_word_index [OF assms cap])
  then have clear: "\<not> bget ?b0 f" by (simp add: bget_iff_bit)
  have "f < ?kend \<longleftrightarrow> unat f < (unat ke + 4095) div 4096"
    using assms by (simp add: word_less_nat_alt unat_min_if)
  with clear show ?thesis
    unfolding eq bget_bset_range by (auto simp: word_le_nat_alt word_less_nat_alt)
qed

lemma card_split_used:
  fixes cap :: u32
  shows "card {f. f < cap \<and> bget b f} + card {f. f < cap \<and> \<not> bget b f} = unat cap"
proof -
  have "card {f. f < cap \<and> bget b f} + card {f. f < cap \<and> \<not> bget b f} =
        card ({f. f < cap \<and> bget b f} \<union> {f. f < cap \<and> \<not> bget b f})"
    by (rule card_Un_disjoint [symmetric]) auto
  also have "{f. f < cap \<and> bget b f} \<union> {f. f < cap \<and> \<not> bget b f} = {f. f < cap}" by auto
  finally show ?thesis by (simp add: card_words_below)
qed

lemma PMM_Init_inv: "pmm_inv (PMM_Init lo hi ks ke p)"
proof -
  let ?q = "PMM_Init lo hi ks ke p"
  let ?used = "for_range 0 (g_frameCap ?q) (\<lambda>f n. if bget (g_bitmap ?q) f then n + 1 else n) (0 :: u32)"
  have free: "g_freeFrames ?q = g_frameCap ?q - ?used"
    by (simp add: PMM_Init_def Let_def)
  have "unat ?used + card (free_frames ?q) = unat (g_frameCap ?q)"
    using card_split_used [of "g_frameCap ?q" "g_bitmap ?q"] by (simp add: count_used free_frames_def)
  then have "unat (g_freeFrames ?q) = card (free_frames ?q)"
    unfolding free by (subst unat_sub_nowrap) linarith+
  moreover have "256 \<le> g_frameCap ?q" "g_frameCap ?q \<le> 1048576"
    using PMM_Init_frameCap [of lo hi ks ke p] by (simp_all add: word_le_nat_alt init_frames_def)
  ultimately show ?thesis by (simp add: pmm_inv_def)
qed

lemma PMM_Init_low_reserved: "low_reserved (PMM_Init lo hi ks ke p)"
proof -
  have "256 \<le> g_frameCap (PMM_Init lo hi ks ke p)" using PMM_Init_inv by (simp add: pmm_inv_def)
  then show ?thesis unfolding low_reserved_def
    by (auto simp: PMM_Init_bitmap)
qed

section \<open>The interface of a frame allocator\<close>

text \<open>
  What paging, the heap and the loader rely on: an allocation either reports failure with
  address 0 and changes nothing, or removes one frame above the first MiB from the
  available set; returning that frame at once undoes the allocation.
\<close>

locale frame_allocator =
  fixes alloc :: "'s \<Rightarrow> ('s \<times> u32) option"
    and release :: "u32 \<Rightarrow> 's \<Rightarrow> 's option"
    and avail :: "'s \<Rightarrow> u32 set"
    and inv :: "'s \<Rightarrow> bool"
  assumes alloc_empty: "inv s \<Longrightarrow> avail s = {} \<Longrightarrow> alloc s = Some (s, 0)"
    and alloc_some: "inv s \<Longrightarrow> avail s \<noteq> {} \<Longrightarrow>
          \<exists>s' f. alloc s = Some (s', f * 4096) \<and> f \<in> avail s \<and> avail s' = avail s - {f} \<and> inv s' \<and>
                 release (f * 4096) s' = Some s"
    and avail_range: "inv s \<Longrightarrow> f \<in> avail s \<Longrightarrow> 256 \<le> f \<and> f < 1048576"
    and avail_finite: "finite (avail s)"
begin

lemma frame_nonzero: "inv s \<Longrightarrow> f \<in> avail s \<Longrightarrow> f * 4096 \<noteq> 0"
proof
  assume "inv s" "f \<in> avail s" "f * 4096 = 0"
  then have "unat f * 4096 = 0" "256 \<le> unat f"
    using avail_range [of s f] frame_address(2) [of f] by (auto simp: word_le_nat_alt)
  then show False by simp
qed

lemma alloc_returns: "inv s \<Longrightarrow> \<exists>s' a. alloc s = Some (s', a)"
  by (cases "avail s = {}") (simp add: alloc_empty, drule (1) alloc_some, blast)

lemma alloc_cases:
  assumes "inv s" "alloc s = Some (s', a)"
  obtains (fail) "a = 0" "s' = s" "avail s = {}"
  | (frame) f where "a = f * 4096" "a \<noteq> 0" "f \<in> avail s" "f < 1048576"
      "avail s' = avail s - {f}" "inv s'" "release a s' = Some s"
proof (cases "avail s = {}")
  case True
  with assms fail show ?thesis by (auto dest: alloc_empty)
next
  case False
  from alloc_some [OF assms(1) this] assms(2) obtain f where
    "a = f * 4096" "f \<in> avail s" "avail s' = avail s - {f}" "inv s'" "release a s' = Some s"
    by auto
  moreover from this have "f < 1048576" "a \<noteq> 0"
    using avail_range [OF assms(1)] frame_nonzero [OF assms(1)] by auto
  ultimately show ?thesis using frame [of f] by simp
qed

text \<open>Allocation never grows the available set, and a success shrinks it: what makes the
  growth loops of the clients end.\<close>

lemma alloc_avail_le:
  assumes "inv s" "alloc s = Some (s', a)"
  shows "card (avail s') \<le> card (avail s)"
  using assms by (cases rule: alloc_cases) (auto intro: card_mono avail_finite)

lemma alloc_avail_less:
  assumes "inv s" "alloc s = Some (s', a)" "a \<noteq> 0"
  shows "card (avail s') < card (avail s)"
  using assms(1,2)
proof (cases rule: alloc_cases)
  case fail
  with assms(3) show ?thesis by simp
next
  case (frame f)
  then have "avail s' \<subset> avail s" by auto
  then show ?thesis by (simp add: psubset_card_mono avail_finite)
qed

lemma alloc_keeps_inv:
  assumes "inv s" "alloc s = Some (s', a)"
  shows "inv s'"
  using assms(1,2) by (cases rule: alloc_cases) (use assms(1) in auto)

end

interpretation frames: frame_allocator PMM_AllocFrame PMM_FreeFrame free_frames
  "\<lambda>p. pmm_inv p \<and> low_reserved p"
proof
  fix p assume inv: "pmm_inv p \<and> low_reserved p"
  show "free_frames p = {} \<Longrightarrow> PMM_AllocFrame p = Some (p, 0)"
    using inv by (simp add: PMM_AllocFrame_eq)
  {
    fix f assume f: "f \<in> free_frames p"
    then have "\<not> f < 256" using inv by (auto simp: low_reserved_def free_frames_def)
    then show "256 \<le> f \<and> f < 1048576" using f inv free_frame_below_cap [of p f] by (simp add: not_less)
  }
  show "\<exists>p' f. PMM_AllocFrame p = Some (p', f * 4096) \<and> f \<in> free_frames p \<and>
     free_frames p' = free_frames p - {f} \<and> (pmm_inv p' \<and> low_reserved p') \<and>
     PMM_FreeFrame (f * 4096) p' = Some p" if ne: "free_frames p \<noteq> {}"
  proof -
    let ?f = "Min (free_frames p)"
    have m: "?f \<in> free_frames p" using ne by simp
    then have lt: "?f < 1048576" using inv by (blast intro: free_frame_below_cap)
    have "?f < g_frameCap p" using m by (simp add: free_frames_def)
    moreover have "bget (g_bitmap (take_frame ?f p)) ?f" by (simp add: take_frame_def)
    ultimately have "PMM_FreeFrame (?f * 4096) (take_frame ?f p) = Some p"
      using m by (simp add: PMM_FreeFrame_eq frame_address [OF lt] frame_address_div [OF lt] give_take_frame)
    then show ?thesis using inv ne m
      by (intro exI [of _ "take_frame ?f p"] exI [of _ ?f])
        (simp add: PMM_AllocFrame_eq take_frame_inv)
  qed
qed simp

section \<open>Properties\<close>

text \<open>
  A concrete machine for the witnesses: 640 KiB of low and 31 MiB of upper memory, with the
  kernel image in the half MiB above 1 MiB.
\<close>

definition boot_pmm :: pmm where
  "boot_pmm = PMM_Init 640 31744 0x100000 0x180000
     \<lparr>g_totalFrames = 0, g_freeFrames = 0, g_frameCap = 0, g_bitmapWords = 0, g_bitmap = \<lambda>_. 0\<rparr>"

lemma boot_pmm_inv [simp]: "pmm_inv boot_pmm" "low_reserved boot_pmm"
  by (simp_all add: boot_pmm_def PMM_Init_inv PMM_Init_low_reserved)

text \<open>
  After \<^verbatim>\<open>PMM::Init\<close> the free frames are exactly the frames of the detected memory (capped at
  4 GiB, at least 1 MiB, 128 MiB when the loader reports none) that lie above the first MiB and
  outside the kernel image, and the free counter is their number.
\<close>

theorem PMM_Init_correct:
  "free_frames (PMM_Init lo hi ks ke p) =
     {f. 256 \<le> unat f \<and> unat f < init_frames lo hi \<and>
         \<not> (unat ks div 4096 \<le> unat f \<and> unat f < (unat ke + 4095) div 4096)} \<and>
   unat (PMM_FreeFrames (PMM_Init lo hi ks ke p)) = card (free_frames (PMM_Init lo hi ks ke p)) \<and>
   unat (PMM_TotalFrames (PMM_Init lo hi ks ke p)) = init_frames lo hi"
proof -
  let ?q = "PMM_Init lo hi ks ke p"
  have mem: "f \<in> free_frames ?q \<longleftrightarrow> 256 \<le> unat f \<and> unat f < init_frames lo hi \<and>
      \<not> (unat ks div 4096 \<le> unat f \<and> unat f < (unat ke + 4095) div 4096)" for f
    using PMM_Init_bitmap [of f lo hi ks ke p] PMM_Init_frameCap [of lo hi ks ke p, symmetric]
    by (cases "f < g_frameCap ?q")
      (auto simp: free_frames_def word_less_nat_alt word_le_nat_alt unat_div)
  then have "free_frames ?q = {f. 256 \<le> unat f \<and> unat f < init_frames lo hi \<and>
      \<not> (unat ks div 4096 \<le> unat f \<and> unat f < (unat ke + 4095) div 4096)}" by blast
  then show ?thesis
    using PMM_Init_inv [of lo hi ks ke p] PMM_Init_frameCap [of lo hi ks ke p]
    by (simp add: pmm_inv_def PMM_FreeFrames_def PMM_TotalFrames_def)
qed

text \<open>
  C6. \<^verbatim>\<open>PMM::AllocFrame\<close> never trips its alignment assertion. With free frames it returns the
  address of the least one, which is page-aligned and not 0, removes it from the free set and
  keeps the counter exact; without, it returns 0 and changes nothing.
\<close>

theorem PMM_AllocFrame_correct:
  assumes "pmm_inv p" and "low_reserved p"
  shows "\<exists>p' a. PMM_AllocFrame p = Some (p', a) \<and> pmm_inv p' \<and> low_reserved p' \<and>
    (if free_frames p = {} then a = 0 \<and> p' = p
     else a = Min (free_frames p) * 4096 \<and> a \<noteq> 0 \<and> 4096 dvd unat a \<and>
          free_frames p' = free_frames p - {Min (free_frames p)} \<and>
          PMM_FreeFrames p' = PMM_FreeFrames p - 1)"
proof (cases "free_frames p = {}")
  case True
  with assms show ?thesis by (simp add: PMM_AllocFrame_eq)
next
  case False
  let ?f = "Min (free_frames p)"
  have m: "?f \<in> free_frames p" using False by simp
  have lt: "?f < 1048576" using assms(1) m by (blast intro: free_frame_below_cap)
  have "?f * 4096 \<noteq> 0" using frames.frame_nonzero [of p] assms m by blast
  moreover have "4096 dvd unat (?f * 4096)" by (simp add: frame_address [OF lt])
  ultimately show ?thesis using assms False m
    by (auto simp: PMM_AllocFrame_eq take_frame_inv PMM_FreeFrames_def)
      (simp add: take_frame_def)
qed

theorem PMM_AllocFrame_correct_witness:
  "\<exists>p' a. PMM_AllocFrame boot_pmm = Some (p', a) \<and> pmm_inv p' \<and> low_reserved p' \<and>
    (if free_frames boot_pmm = {} then a = 0 \<and> p' = boot_pmm
     else a = Min (free_frames boot_pmm) * 4096 \<and> a \<noteq> 0 \<and> 4096 dvd unat a \<and>
          free_frames p' = free_frames boot_pmm - {Min (free_frames boot_pmm)} \<and>
          PMM_FreeFrames p' = PMM_FreeFrames boot_pmm - 1)"
  by (rule PMM_AllocFrame_correct [OF boot_pmm_inv])

text \<open>
  C32. \<^verbatim>\<open>PMM::FreeFrame\<close> panics exactly on an address that is not page-aligned. Otherwise the frame
  is free afterwards if it is managed at all, no other frame changes, the counter stays exact,
  and freeing a frame that is already free (a double free) changes nothing; freeing the frame
  just allocated restores the state before the allocation.
\<close>

theorem PMM_FreeFrame_correct:
  assumes "pmm_inv p"
  shows "(PMM_FreeFrame addr p = None \<longleftrightarrow> \<not> 4096 dvd unat addr) \<and>
    (\<forall>p'. PMM_FreeFrame addr p = Some p' \<longrightarrow>
       pmm_inv p' \<and> free_frames p' = free_frames p \<union> ({addr div 4096} \<inter> {f. f < g_frameCap p}) \<and>
       PMM_FreeFrame addr p' = Some p') \<and>
    (\<forall>p' a. low_reserved p \<longrightarrow> PMM_AllocFrame p = Some (p', a) \<longrightarrow> a \<noteq> 0 \<longrightarrow> PMM_FreeFrame a p' = Some p)"
proof (intro conjI allI impI)
  show "PMM_FreeFrame addr p = None \<longleftrightarrow> \<not> 4096 dvd unat addr"
    by (simp add: PMM_FreeFrame_def page_aligned_iff Let_def)
next
  fix p' assume p': "PMM_FreeFrame addr p = Some p'"
  then have al: "4096 dvd unat addr" by (simp add: PMM_FreeFrame_def page_aligned_iff Let_def split: if_splits)
  note eq = PMM_FreeFrame_eq [OF al]
  let ?f = "addr div 4096"
  have p'_eq: "p' = (if ?f < g_frameCap p \<and> bget (g_bitmap p) ?f then give_frame ?f p else p)"
    using p' by (simp add: eq)
  show "pmm_inv p'" using assms by (simp add: p'_eq give_frame_inv)
  show "free_frames p' = free_frames p \<union> ({?f} \<inter> {f. f < g_frameCap p})"
    by (auto simp: p'_eq free_frames_give) (simp_all add: free_frames_def)
  show "PMM_FreeFrame addr p' = Some p'"
    by (simp add: eq p'_eq give_frame_def)
next
  fix p' a assume "low_reserved p" "PMM_AllocFrame p = Some (p', a)" "a \<noteq> 0"
  with assms show "PMM_FreeFrame a p' = Some p"
    by (metis frames.alloc_cases)
qed

theorem PMM_FreeFrame_correct_witness:
  "(\<exists>p'. PMM_FreeFrame 0x200000 boot_pmm = Some p' \<and> pmm_inv p' \<and>
      free_frames p' = free_frames boot_pmm \<union> ({0x200} \<inter> {f. f < g_frameCap boot_pmm}) \<and>
      PMM_FreeFrame 0x200000 p' = Some p') \<and>
   PMM_FreeFrame 0x200001 boot_pmm = None"
proof -
  have "(4096 :: nat) dvd unat (0x200000 :: u32)" "\<not> (4096 :: nat) dvd unat (0x200001 :: u32)" by simp_all
  then show ?thesis
    using PMM_FreeFrame_correct [where addr = "0x200000", OF boot_pmm_inv(1)]
      PMM_FreeFrame_correct [where addr = "0x200001", OF boot_pmm_inv(1)]
    by fastforce
qed

text \<open>
  \<^verbatim>\<open>markRangeUsed\<close> and \<^verbatim>\<open>markRangeFree\<close> change exactly the managed frames that the byte range
  touches, rounding its end up to a page, and keep the free counter exact; an empty or reversed
  range changes nothing.
\<close>

theorem PMM_markRange_correct:
  assumes "pmm_inv p"
  shows "pmm_inv (PMM_markRangeUsed start end' p) \<and> pmm_inv (PMM_markRangeFree start end' p) \<and>
    (if end' \<le> start then PMM_markRangeUsed start end' p = p \<and> PMM_markRangeFree start end' p = p
     else
       (let R = {f. unat start div 4096 \<le> unat f \<and> unat f < (unat end' + 4095) div 4096 \<and> f < g_frameCap p}
        in free_frames (PMM_markRangeUsed start end' p) = free_frames p - R \<and>
           free_frames (PMM_markRangeFree start end' p) = free_frames p \<union> R))"
proof -
  have le: "range_end p end' \<le> g_frameCap p" by (rule range_end_le)
  have R: "{f. start div 4096 \<le> f \<and> f < range_end p end'} =
     {f. unat start div 4096 \<le> unat f \<and> unat f < (unat end' + 4095) div 4096 \<and> f < g_frameCap p}"
    by (auto simp: range_end_def Let_def word_le_nat_alt word_less_nat_alt unat_div)
  show ?thesis
    using mark_used_loop [OF assms le, of "start div 4096"] mark_free_loop [OF assms le, of "start div 4096"] assms
    by (simp add: PMM_markRangeUsed_def PMM_markRangeFree_def Let_def R)
qed

theorem PMM_markRange_correct_witness:
  "pmm_inv (PMM_markRangeUsed 0x200000 0x200001 boot_pmm) \<and> PMM_markRangeFree 8 8 boot_pmm = boot_pmm"
  using PMM_markRange_correct [where start = "0x200000" and end' = "0x200001", OF boot_pmm_inv(1)]
    PMM_markRange_correct [where start = 8 and end' = 8, OF boot_pmm_inv(1)]
  by simp

end
