(* ===== verification/KOS_Paging.thy ===== *)
theory KOS_Paging
  imports KOS_PMM
begin

text \<open>
  Two-level 32-bit paging, \<^verbatim>\<open>src/memory/paging.cpp\<close>. The state holds the frame allocator the code
  calls, the page directory pointer, physical memory as a function from (4-byte aligned)
  addresses to words, and the two control registers that \<^verbatim>\<open>Init\<close> writes. Directory and tables
  are read and written through their physical addresses, as the code does through the
  identity mapping; the translation look-aside buffer (\<^verbatim>\<open>invlpg\<close>, \<^verbatim>\<open>FlushAll\<close>) is not part of
  the state. \<open>None\<close> is the panic of a failed assertion or a range loop that never ends.

  The specification is the hardware's page walk, \<open>walk\<close>: the theorems say how each operation
  changes it, and the invariant \<open>paging_inv\<close> says that directory and tables are distinct
  allocated frames below 64 MiB.
\<close>

section \<open>State and table access\<close>

record paging =
  pg_pmm :: pmm
  g_pageDirectory :: u32
  pmem :: "u32 \<Rightarrow> u32"
  cr0 :: u32
  cr3 :: u32

abbreviation (input) Paging_Present :: u32 where "Paging_Present \<equiv> 1"
abbreviation (input) Paging_RW :: u32 where "Paging_RW \<equiv> 2"
abbreviation (input) Paging_User :: u32 where "Paging_User \<equiv> 4"

definition pde_index :: "u32 \<Rightarrow> u32" where "pde_index addr = drop_bit 22 addr AND 0x3FF"

definition pte_index :: "u32 \<Rightarrow> u32" where "pte_index addr = drop_bit 12 addr AND 0x3FF"

text \<open>The address of entry \<open>i\<close> of a table of 32-bit entries.\<close>

definition entry_addr :: "u32 \<Rightarrow> u32 \<Rightarrow> u32" where "entry_addr base i = base + 4 * i"

definition clear_table :: "u32 \<Rightarrow> (u32 \<Rightarrow> u32) \<Rightarrow> (u32 \<Rightarrow> u32)" where
  "clear_table base m = for_range 0 1024 (\<lambda>i m. m(entry_addr base i := 0)) m"

section \<open>Operations\<close>

text \<open>
  The retry loop of \<^verbatim>\<open>ensureTable\<close>: frames at or above 64 MiB are given back and the allocation
  is tried again, \<open>n\<close> times at most; 0 stands for the null result.
\<close>

fun table_frame :: "nat \<Rightarrow> pmm \<Rightarrow> (pmm \<times> u32) option" where
  "table_frame 0 p = Some (p, 0)"
| "table_frame (Suc n) p =
     do {
       (p1, frame) \<leftarrow> PMM_AllocFrame p;
       if frame = 0 then Some (p1, 0)
       else if frame AND 4095 \<noteq> 0 then None
       else if frame < 64 * 1024 * 1024 then Some (p1, frame)
       else do { p2 \<leftarrow> PMM_FreeFrame frame p1; table_frame n p2 }
     }"

definition ensureTable :: "u32 \<Rightarrow> bool \<Rightarrow> bool \<Rightarrow> paging \<Rightarrow> (paging \<times> u32) option" where
  "ensureTable vaddr create user s =
     (let pdeAddr = entry_addr (g_pageDirectory s) (pde_index vaddr)
      in if pmem s pdeAddr AND 1 = 0
         then if \<not> create then Some (s, 0)
           else do {
             (p', frame) \<leftarrow> table_frame 100 (pg_pmm s);
             if frame = 0 then Some (s\<lparr>pg_pmm := p'\<rparr>, 0)
             else let m = clear_table frame (pmem s);
                      pdeFlags = (Paging_Present OR Paging_RW) OR (if user then Paging_User else 0)
                  in Some (s\<lparr>pg_pmm := p',
                             pmem := m(pdeAddr := (frame AND 0xFFFFF000) OR pdeFlags)\<rparr>, frame)
           }
         else let ptPhys = pmem s pdeAddr AND 0xFFFFF000
           in if 64 * 1024 * 1024 \<le> ptPhys then Some (s, 0) else Some (s, ptPhys))"

definition MapPage :: "u32 \<Rightarrow> u32 \<Rightarrow> u32 \<Rightarrow> paging \<Rightarrow> paging option" where
  "MapPage vaddr paddr flags s =
     (if paddr AND 4095 \<noteq> 0 then None
      else do {
        (s1, pt) \<leftarrow> ensureTable vaddr True (flags AND Paging_User \<noteq> 0) s;
        if pt = 0 then Some s1
        else let pdeAddr = entry_addr (g_pageDirectory s1) (pde_index vaddr);
                 m1 = (if flags AND Paging_User \<noteq> 0
                       then (pmem s1)(pdeAddr := pmem s1 pdeAddr OR Paging_User) else pmem s1);
                 m2 = m1(entry_addr pt (pte_index vaddr) :=
                           (paddr AND 0xFFFFF000) OR (flags AND 0xFFF) OR Paging_Present)
             in Some (s1\<lparr>pmem := m2\<rparr>)
      })"

definition UnmapPage :: "u32 \<Rightarrow> paging \<Rightarrow> paging option" where
  "UnmapPage vaddr s =
     do {
       (s1, pt) \<leftarrow> ensureTable vaddr False False s;
       if pt = 0 then Some s1
       else Some (s1\<lparr>pmem := (pmem s1)(entry_addr pt (pte_index vaddr) := 0)\<rparr>)
     }"

definition UnmapRange :: "u32 \<Rightarrow> u32 \<Rightarrow> paging \<Rightarrow> paging option" where
  "UnmapRange vaddr sz s = page_loop (\<lambda>off. UnmapPage (vaddr + off)) 0 sz s"

definition GetPhys :: "u32 \<Rightarrow> paging \<Rightarrow> u32 option" where
  "GetPhys vaddr s =
     do {
       (s1, pt) \<leftarrow> ensureTable vaddr False False s;
       if pt = 0 then Some 0
       else let e = pmem s1 (entry_addr pt (pte_index vaddr))
            in if e AND Paging_Present = 0 then Some 0
               else Some ((e AND 0xFFFFF000) OR (vaddr AND 0xFFF))
     }"

text \<open>\<^verbatim>\<open>MapRange\<close> stops at the first page whose mapping did not take effect.\<close>

partial_function (option) map_range_loop :: "u32 \<Rightarrow> u32 \<Rightarrow> u32 \<Rightarrow> u32 \<Rightarrow> u32 \<Rightarrow> paging \<Rightarrow> paging option" where
  "map_range_loop vaddr paddr flags sz off s =
     (if off < sz then
        do {
          s1 \<leftarrow> MapPage (vaddr + off) (paddr + off) flags s;
          got \<leftarrow> GetPhys (vaddr + off) s1;
          if got AND 0xFFFFF000 \<noteq> (paddr + off) AND 0xFFFFF000 then Some s1
          else map_range_loop vaddr paddr flags sz (off + 4096) s1
        }
      else Some s)"

definition MapRange :: "u32 \<Rightarrow> u32 \<Rightarrow> u32 \<Rightarrow> u32 \<Rightarrow> paging \<Rightarrow> paging option" where
  "MapRange vaddr paddr sz flags s = map_range_loop vaddr paddr flags sz 0 s"

definition RemapPageFlags :: "u32 \<Rightarrow> u32 \<Rightarrow> paging \<Rightarrow> paging option" where
  "RemapPageFlags vaddr flags s =
     do {
       (s1, pt) \<leftarrow> ensureTable vaddr (flags AND Paging_User \<noteq> 0) (flags AND Paging_User \<noteq> 0) s;
       if pt = 0 then Some s1
       else let a = entry_addr pt (pte_index vaddr); e = pmem s1 a
            in if e AND Paging_Present = 0 then Some s1
               else Some (s1\<lparr>pmem := (pmem s1)(a := (e AND 0xFFFFF000) OR (flags AND 0xFFF) OR Paging_Present)\<rparr>)
     }"

definition RemapRangeFlags :: "u32 \<Rightarrow> u32 \<Rightarrow> u32 \<Rightarrow> paging \<Rightarrow> paging option" where
  "RemapRangeFlags vaddr sz flags s = page_loop (\<lambda>off. RemapPageFlags (vaddr + off) flags) 0 sz s"

text \<open>
  \<^verbatim>\<open>Paging::Init\<close>. The section boundaries come from the linker script and are arguments.
\<close>

definition Paging_Init :: "u32 \<Rightarrow> u32 \<Rightarrow> u32 \<Rightarrow> paging \<Rightarrow> paging option" where
  "Paging_Init text_end rodata_start rodata_end s =
     do {
       (p', pdPhys) \<leftarrow> PMM_AllocFrame (pg_pmm s);
       if pdPhys = 0 then Some (s\<lparr>pg_pmm := p'\<rparr>)
       else do {
         let s1 = s\<lparr>pg_pmm := p', g_pageDirectory := pdPhys, pmem := clear_table pdPhys (pmem s)\<rparr>;
         s2 \<leftarrow> page_loop (\<lambda>addr. MapPage addr addr (Paging_Present OR Paging_RW)) 0 (64 * 1024 * 1024) s1;
         let s3 = s2\<lparr>cr3 := pdPhys, cr0 := cr0 s2 OR 0x80000000\<rparr>;
         s4 \<leftarrow> RemapRangeFlags 0x00100000 (text_end - 0x00100000) Paging_Present s3;
         RemapRangeFlags rodata_start (rodata_end - rodata_start) Paging_Present s4
       }
     }"

section \<open>Table indices and entry addresses\<close>

lemma unat_and_1023: "unat ((a :: u32) AND 1023) = unat a mod 1024"
proof -
  have "a AND 1023 = take_bit 10 a" by (simp add: take_bit_eq_mask mask_eq_exp_minus_1)
  then show ?thesis by (simp add: take_bit_eq_mod unat_mod)
qed

lemma unat_pde_index: "unat (pde_index a) = unat a div 4194304"
  using u32_less_limit [of a]
  by (simp add: pde_index_def unat_and_1023 drop_bit_eq_div unat_div)

lemma unat_pte_index: "unat (pte_index a) = (unat a div 4096) mod 1024"
  by (simp add: pte_index_def unat_and_1023 drop_bit_eq_div unat_div)

lemma index_bounds [simp]: "pde_index a < 1024" "pte_index a < 1024"
  using u32_less_limit [of a]
  by (simp_all add: word_less_nat_alt unat_pde_index unat_pte_index)

text \<open>Two addresses select the same entries exactly when they lie in the same page.\<close>

lemma same_page_iff:
  "pde_index v = pde_index w \<and> pte_index v = pte_index w \<longleftrightarrow> unat v div 4096 = unat w div 4096"
proof -
  have q: "unat a div 4194304 = unat a div 4096 div 1024" for a :: u32
    using div_mult2_eq [of "unat a" 4096 1024] by simp
  have inj: "m = n \<longleftrightarrow> m div 1024 = n div 1024 \<and> m mod 1024 = n mod 1024" for m n :: nat
    by (rule iffI, simp) (use div_mod_decomp [of m 1024] div_mod_decomp [of n 1024] in linarith)
  show ?thesis
    by (simp only: word_unat_eq_iff unat_pde_index unat_pte_index q inj [of "unat v div 4096"])
qed

lemma unat_entry_addr:
  assumes "4096 dvd unat b" "i < 1024"
  shows "unat (entry_addr b i) = unat b + 4 * unat i"
proof -
  have i: "unat i < 1024" using assms(2) by (simp add: word_less_nat_alt)
  have "unat b \<le> 4294963200"
    using u32_less_limit [of b] assms(1) by (auto elim!: dvdE)
  then show ?thesis using i by (simp add: entry_addr_def unat_add_nowrap unat_mult_nowrap)
qed

lemma entry_addr_eq_iff:
  assumes "4096 dvd unat b" "4096 dvd unat c" "i < 1024" "j < 1024"
  shows "entry_addr b i = entry_addr c j \<longleftrightarrow> b = c \<and> i = j"
proof
  assume eq: "entry_addr b i = entry_addr c j"
  have ij: "4 * unat i < 4096" "4 * unat j < 4096" using assms(3,4) by (simp_all add: word_less_nat_alt)
  from eq have sum: "unat b + 4 * unat i = unat c + 4 * unat j"
    by (simp add: word_unat_eq_iff unat_entry_addr assms)
  from assms(1,2) obtain k l where kl: "unat b = 4096 * k" "unat c = 4096 * l" by (elim dvdE)
  have "k = l"
    using sum ij unfolding kl by linarith
  with kl sum show "b = c \<and> i = j" by (simp add: word_unat_eq_iff)
qed simp

lemma clear_table_apply:
  assumes "4096 dvd unat b"
  shows "clear_table b m a = (if \<exists>i < 1024. a = entry_addr b i then 0 else m a)"
proof -
  let ?P = "\<lambda>k m'. \<forall>a. m' a = (if \<exists>i. unat i < k \<and> a = entry_addr b i then 0 else m a)"
  have "?P (unat (1024 :: u32)) (clear_table b m)"
    unfolding clear_table_def
    by (rule for_range_rule [where P = ?P and i = 0, simplified unat_0])
      (auto simp: less_Suc_eq dest!: unat_eqI)
  then show ?thesis by (simp add: word_less_nat_alt)
qed

lemma clear_table_entry [simp]:
  assumes "4096 dvd unat b" "i < 1024"
  shows "clear_table b m (entry_addr b i) = 0"
  using assms by (auto simp: clear_table_apply)

lemma clear_table_other:
  assumes "4096 dvd unat b" "4096 dvd unat c" "b \<noteq> c" "i < 1024"
  shows "clear_table b m (entry_addr c i) = m (entry_addr c i)"
  using assms by (auto simp: clear_table_apply entry_addr_eq_iff)

section \<open>Entry bits\<close>

lemma entry_bits:
  "(x OR (f AND 0xFFF) OR 1) AND 0xFFFFF000 = x AND (0xFFFFF000 :: u32)"
  "(x OR 4) AND 0xFFFFF000 = x AND (0xFFFFF000 :: u32)"
  "(x OR 3) AND 0xFFFFF000 = x AND (0xFFFFF000 :: u32)"
  "(x OR 7) AND 0xFFFFF000 = x AND (0xFFFFF000 :: u32)"
  "(x OR (f AND 0xFFF) OR 1) AND 1 = (1 :: u32)"
  "(x OR 4) AND 1 = x AND (1 :: u32)"
  "(x OR 3) AND 1 = (1 :: u32)"
  "(x OR 7) AND 1 = (1 :: u32)"
  by (simp_all add: bit.conj_disj_distrib2 and.assoc)

lemma frame_bits_id: "4096 dvd unat a \<Longrightarrow> a AND 0xFFFFF000 = (a :: u32)"
proof -
  assume "4096 dvd unat a"
  then have 0: "a AND 4095 = 0" by (simp add: page_aligned_iff)
  have "(4095 OR 0xFFFFF000 :: u32) = - 1" by simp
  then have "a = a AND (4095 OR 0xFFFFF000)" by (simp only: and.right_neutral)
  also have "\<dots> = (a AND 4095) OR (a AND 0xFFFFF000)" by (simp only: bit.conj_disj_distrib)
  finally show ?thesis using 0 by simp
qed

lemma frame_bits_aligned [simp]: "4096 dvd unat (x AND 0xFFFFF000 :: u32)"
  by (simp add: page_aligned_iff [symmetric] and.assoc)

section \<open>The page walk and the invariant\<close>

definition pde :: "paging \<Rightarrow> u32 \<Rightarrow> u32" where
  "pde s i = pmem s (entry_addr (g_pageDirectory s) i)"

definition present :: "paging \<Rightarrow> u32 \<Rightarrow> bool" where
  "present s i \<longleftrightarrow> pde s i AND 1 \<noteq> 0"

definition table_of :: "paging \<Rightarrow> u32 \<Rightarrow> u32" where
  "table_of s i = pde s i AND 0xFFFFF000"

text \<open>What the hardware finds for an address: the present page table entry, if any.\<close>

definition pte :: "paging \<Rightarrow> u32 \<Rightarrow> u32 \<Rightarrow> u32" where
  "pte s i j = pmem s (entry_addr (table_of s i) j)"

definition walk :: "paging \<Rightarrow> u32 \<Rightarrow> u32 option" where
  "walk s v =
     (let e = pte s (pde_index v) (pte_index v)
      in if present s (pde_index v) \<and> e AND 1 \<noteq> 0 then Some e else None)"

definition owned :: "pmm \<Rightarrow> u32 \<Rightarrow> bool" where
  "owned p a \<longleftrightarrow> 4096 dvd unat a \<and> a \<noteq> 0 \<and> a div 4096 \<notin> free_frames p"

definition paging_inv :: "paging \<Rightarrow> bool" where
  "paging_inv s \<longleftrightarrow> pmm_inv (pg_pmm s) \<and> low_reserved (pg_pmm s) \<and> owned (pg_pmm s) (g_pageDirectory s) \<and>
     (\<forall>i < 1024. present s i \<longrightarrow>
        owned (pg_pmm s) (table_of s i) \<and> table_of s i < 0x4000000 \<and> table_of s i \<noteq> g_pageDirectory s \<and>
        (\<forall>j < 1024. present s j \<and> table_of s j = table_of s i \<longrightarrow> j = i))"

text \<open>Whether the allocator's next frame can hold a page table.\<close>

definition low_frame :: "pmm \<Rightarrow> bool" where
  "low_frame p \<longleftrightarrow> free_frames p \<noteq> {} \<and> Min (free_frames p) * 4096 < 0x4000000"

definition can_map :: "paging \<Rightarrow> u32 \<Rightarrow> bool" where
  "can_map s v \<longleftrightarrow> present s (pde_index v) \<or> low_frame (pg_pmm s)"

definition set_page :: "u32 \<Rightarrow> u32 option \<Rightarrow> (u32 \<Rightarrow> u32 option) \<Rightarrow> (u32 \<Rightarrow> u32 option)" where
  "set_page v e w = (\<lambda>a. if unat a div 4096 = unat v div 4096 then e else w a)"

lemma table_frame_eq:
  assumes "pmm_inv p" "low_reserved p"
  shows "table_frame n p =
    Some (if n = 0 \<or> \<not> low_frame p then (p, 0)
          else (take_frame (Min (free_frames p)) p, Min (free_frames p) * 4096))"
proof (induction n)
  case (Suc n)
  let ?f = "Min (free_frames p)"
  show ?case
  proof (cases "free_frames p = {}")
    case False
    then have f: "?f \<in> free_frames p" by simp
    have lt: "?f < 1048576" by (rule free_frame_below_cap [OF assms(1) f])
    have nz: "?f * 4096 \<noteq> 0" using frames.frame_nonzero [of p] assms f by blast
    have "give_frame ?f (take_frame ?f p) = p" by (rule give_take_frame [OF f])
    moreover have "?f < g_frameCap p" using f by (simp add: free_frames_def)
    ultimately have "PMM_FreeFrame (?f * 4096) (take_frame ?f p) = Some p"
      using lt by (subst PMM_FreeFrame_eq)
        (simp_all add: frame_address frame_address_div take_frame_def)
    then show ?thesis
      using Suc assms nz lt False
      by (simp add: PMM_AllocFrame_eq frame_address_aligned low_frame_def)
  qed (simp add: PMM_AllocFrame_eq assms low_frame_def)
qed simp

lemma owned_new_frame:
  assumes "pmm_inv p" "low_reserved p" "f \<in> free_frames p"
  shows "owned (take_frame f p) (f * 4096)" "owned p a \<Longrightarrow> a \<noteq> f * 4096"
    "owned p a \<Longrightarrow> owned (take_frame f p) a"
proof -
  have lt: "f < 1048576" by (rule free_frame_below_cap [OF assms(1,3)])
  have nz: "f * 4096 \<noteq> 0" using frames.frame_nonzero [of p] assms by blast
  show "owned (take_frame f p) (f * 4096)"
    using lt nz by (simp add: owned_def frame_address frame_address_div)
  show "owned p a \<Longrightarrow> a \<noteq> f * 4096"
    using assms(3) lt by (auto simp: owned_def frame_address_div)
qed (auto simp: owned_def)

lemma owned_aligned: "owned p a \<Longrightarrow> 4096 dvd unat a"
  by (simp add: owned_def)

subsection \<open>Writing a page table entry, raising the user bit, adding a table\<close>

definition regs :: "paging \<Rightarrow> u32 \<times> u32 \<times> u32" where
  "regs s = (g_pageDirectory s, cr0 s, cr3 s)"

definition put_pte :: "u32 \<Rightarrow> u32 \<Rightarrow> paging \<Rightarrow> paging" where
  "put_pte v e s = s\<lparr>pmem := (pmem s)(entry_addr (table_of s (pde_index v)) (pte_index v) := e)\<rparr>"

definition put_user :: "u32 \<Rightarrow> paging \<Rightarrow> paging" where
  "put_user v s = (let a = entry_addr (g_pageDirectory s) (pde_index v)
                   in s\<lparr>pmem := (pmem s)(a := pmem s a OR 4)\<rparr>)"

definition put_table :: "u32 \<Rightarrow> bool \<Rightarrow> paging \<Rightarrow> paging" where
  "put_table v user s =
     (let f = Min (free_frames (pg_pmm s))
      in s\<lparr>pg_pmm := take_frame f (pg_pmm s),
           pmem := (clear_table (f * 4096) (pmem s))
             (entry_addr (g_pageDirectory s) (pde_index v) := f * 4096 OR (if user then 7 else 3))\<rparr>)"

lemma paging_inv_pd:
  assumes "paging_inv s"
  shows "pmm_inv (pg_pmm s)" "low_reserved (pg_pmm s)" "owned (pg_pmm s) (g_pageDirectory s)"
    "4096 dvd unat (g_pageDirectory s)"
  using assms by (simp_all add: paging_inv_def owned_def)

lemma paging_inv_table:
  assumes "paging_inv s" "present s i" "i < 1024"
  shows "owned (pg_pmm s) (table_of s i)" "4096 dvd unat (table_of s i)" "table_of s i < 0x4000000"
    "table_of s i \<noteq> g_pageDirectory s" "table_of s i \<noteq> 0"
    "j < 1024 \<Longrightarrow> present s j \<Longrightarrow> table_of s j = table_of s i \<Longrightarrow> j = i"
  using assms by (auto simp: paging_inv_def owned_def)

lemma paging_inv_cong:
  assumes "pg_pmm s' = pg_pmm s" "g_pageDirectory s' = g_pageDirectory s"
    and "\<And>i. i < 1024 \<Longrightarrow> present s' i = present s i \<and> table_of s' i = table_of s i"
  shows "paging_inv s' = paging_inv s"
  using assms by (auto simp: paging_inv_def)

lemma put_pte_pde:
  assumes "paging_inv s" "present s (pde_index v)" "i < 1024"
  shows "pde (put_pte v e s) i = pde s i"
  using paging_inv_table [OF assms(1,2)] paging_inv_pd [OF assms(1)] assms(3)
  by (simp add: pde_def put_pte_def entry_addr_eq_iff)

lemma put_pte_same [simp]:
  "pg_pmm (put_pte v e s) = pg_pmm s" "g_pageDirectory (put_pte v e s) = g_pageDirectory s"
  "regs (put_pte v e s) = regs s"
  by (simp_all add: put_pte_def regs_def)

lemma put_pte_inv:
  assumes "paging_inv s" "present s (pde_index v)"
  shows "paging_inv (put_pte v e s)"
  using assms paging_inv_cong [of "put_pte v e s" s] by (simp add: present_def table_of_def put_pte_pde)

lemma put_pte_walk:
  assumes "paging_inv s" "present s (pde_index v)"
  shows "walk (put_pte v e s) = set_page v (if e AND 1 \<noteq> 0 then Some e else None) (walk s)"
proof
  fix w
  have same: "present (put_pte v e s) (pde_index w) = present s (pde_index w)"
    "table_of (put_pte v e s) (pde_index w) = table_of s (pde_index w)"
    using assms by (simp_all add: present_def table_of_def put_pte_pde)
  have "pte (put_pte v e s) (pde_index w) (pte_index w) =
      (if pde_index w = pde_index v \<and> pte_index w = pte_index v then e else pte s (pde_index w) (pte_index w))"
    if "present s (pde_index w)"
    using that paging_inv_table [OF assms(1)] assms(2)
    by (auto simp: pte_def same entry_addr_eq_iff) (auto simp: put_pte_def entry_addr_eq_iff)
  then show "walk (put_pte v e s) w = set_page v (if e AND 1 \<noteq> 0 then Some e else None) (walk s) w"
    using assms(2) by (auto simp: walk_def Let_def same set_page_def same_page_iff [symmetric])
qed

lemma put_user_pde:
  assumes "paging_inv s" "i < 1024"
  shows "pde (put_user v s) i = (if i = pde_index v then pde s i OR 4 else pde s i)"
  using paging_inv_pd [OF assms(1)] assms(2)
  by (auto simp: pde_def put_user_def Let_def entry_addr_eq_iff)

lemma put_user_same [simp]:
  "pg_pmm (put_user v s) = pg_pmm s" "g_pageDirectory (put_user v s) = g_pageDirectory s"
  "regs (put_user v s) = regs s"
  by (simp_all add: put_user_def Let_def regs_def)

lemma put_user_present_table:
  assumes "paging_inv s" "i < 1024"
  shows "present (put_user v s) i = present s i" "table_of (put_user v s) i = table_of s i"
  using assms by (simp_all add: present_def table_of_def put_user_pde entry_bits)

lemma put_user_inv: "paging_inv s \<Longrightarrow> paging_inv (put_user v s)"
  using paging_inv_cong [of "put_user v s" s] by (simp add: put_user_present_table)

lemma put_user_walk: "paging_inv s \<Longrightarrow> walk (put_user v s) = walk s"
proof
  fix w assume inv: "paging_inv s"
  have "present s (pde_index w) \<Longrightarrow> pte (put_user v s) (pde_index w) (pte_index w) = pte s (pde_index w) (pte_index w)"
    using paging_inv_table [OF inv] paging_inv_pd [OF inv] inv
    by (simp add: pte_def put_user_present_table)
       (auto simp: put_user_def Let_def entry_addr_eq_iff)
  then show "walk (put_user v s) w = walk s w"
    using inv by (auto simp: walk_def Let_def put_user_present_table)
qed

lemma put_table_same [simp]:
  "g_pageDirectory (put_table v u s) = g_pageDirectory s" "regs (put_table v u s) = regs s"
  by (simp_all add: put_table_def Let_def regs_def)

lemma put_table_pmm: "pg_pmm (put_table v u s) = take_frame (Min (free_frames (pg_pmm s))) (pg_pmm s)"
  by (simp add: put_table_def Let_def)

lemma low_frame_new:
  assumes "paging_inv s" "low_frame (pg_pmm s)"
  defines "f \<equiv> Min (free_frames (pg_pmm s))"
  shows "f \<in> free_frames (pg_pmm s)" "4096 dvd unat (f * 4096)" "f * 4096 \<noteq> g_pageDirectory s"
    "f * 4096 < 0x4000000" "f * 4096 \<noteq> 0" "f * 4096 AND 0xFFFFF000 = f * 4096"
    "i < 1024 \<Longrightarrow> present s i \<Longrightarrow> table_of s i \<noteq> f * 4096"
proof -
  show f: "f \<in> free_frames (pg_pmm s)" using assms by (simp add: low_frame_def)
  note new = owned_new_frame [OF paging_inv_pd(1,2) [OF assms(1)] f]
  show al: "4096 dvd unat (f * 4096)" using owned_aligned [OF new(1)] .
  then show "f * 4096 AND 0xFFFFF000 = f * 4096" by (rule frame_bits_id)
  show "f * 4096 \<noteq> g_pageDirectory s" using new(2) [OF paging_inv_pd(3) [OF assms(1)]] by simp
  show "f * 4096 < 0x4000000" using assms by (simp add: low_frame_def)
  show "f * 4096 \<noteq> 0" using new(1) by (simp add: owned_def)
  show "i < 1024 \<Longrightarrow> present s i \<Longrightarrow> table_of s i \<noteq> f * 4096"
    using new(2) [OF paging_inv_table(1) [OF assms(1)]] by simp
qed

lemma put_table_pde:
  assumes "paging_inv s" "low_frame (pg_pmm s)" "i < 1024"
  shows "pde (put_table v u s) i =
    (if i = pde_index v then Min (free_frames (pg_pmm s)) * 4096 OR (if u then 7 else 3) else pde s i)"
  using low_frame_new [OF assms(1,2)] paging_inv_pd [OF assms(1)] assms(3)
  by (auto simp: pde_def put_table_def Let_def entry_addr_eq_iff clear_table_other)

lemma put_table_present_table:
  assumes "paging_inv s" "low_frame (pg_pmm s)" "i < 1024"
  shows "present (put_table v u s) i \<longleftrightarrow> i = pde_index v \<or> present s i"
    "table_of (put_table v u s) i =
      (if i = pde_index v then Min (free_frames (pg_pmm s)) * 4096 else table_of s i)"
  using low_frame_new(6) [OF assms(1,2)]
  by (simp_all add: present_def table_of_def put_table_pde [OF assms] entry_bits)

lemma put_table_inv:
  assumes "paging_inv s" "low_frame (pg_pmm s)" "\<not> present s (pde_index v)"
  shows "paging_inv (put_table v u s)"
proof -
  let ?f = "Min (free_frames (pg_pmm s))"
  note new = low_frame_new [OF assms(1,2)]
  note own = owned_new_frame [OF paging_inv_pd(1,2) [OF assms(1)] new(1)]
  have "pmm_inv (take_frame ?f (pg_pmm s)) \<and> low_reserved (take_frame ?f (pg_pmm s))"
    using take_frame_inv [OF paging_inv_pd(1) [OF assms(1)] new(1)] paging_inv_pd(2) [OF assms(1)] by simp
  moreover have "owned (take_frame ?f (pg_pmm s)) (g_pageDirectory s)"
    using own(3) paging_inv_pd(3) [OF assms(1)] by blast
  moreover have "owned (take_frame ?f (pg_pmm s)) (table_of s i)" if "i < 1024" "present s i" for i
    using own(3) paging_inv_table(1) [OF assms(1)] that by blast
  moreover have "?f * 4096 \<noteq> table_of s i" if "i < 1024" "present s i" for i
    using new(7) [OF that] by simp
  ultimately show ?thesis
    using new own(1) paging_inv_table [OF assms(1)] assms(3)
    unfolding paging_inv_def
    by (auto simp: put_table_pmm put_table_present_table [OF assms(1,2)])
qed

lemma put_table_walk:
  assumes "paging_inv s" "low_frame (pg_pmm s)" "\<not> present s (pde_index v)"
  shows "walk (put_table v u s) = walk s"
proof
  fix w
  let ?f = "Min (free_frames (pg_pmm s))"
  note new = low_frame_new [OF assms(1,2)]
  have "pte (put_table v u s) (pde_index w) (pte_index w) = pte s (pde_index w) (pte_index w)"
    if "present s (pde_index w)"
    using that new(1-6) new(7) [OF _ that, THEN not_sym] paging_inv_table [OF assms(1) that]
      paging_inv_pd(4) [OF assms(1)] assms(3)
    by (auto simp: pte_def put_table_present_table [OF assms(1,2)])
       (auto simp: put_table_def Let_def entry_addr_eq_iff clear_table_other)
  moreover have "pte (put_table v u s) (pde_index v) (pte_index w) = 0"
    using new paging_inv_pd(4) [OF assms(1)]
    by (simp add: pte_def put_table_present_table [OF assms(1,2)])
       (simp add: put_table_def Let_def entry_addr_eq_iff)
  ultimately show "walk (put_table v u s) w = walk s w"
    using assms(3) by (auto simp: walk_def Let_def put_table_present_table [OF assms(1,2)])
qed

section \<open>What the operations do\<close>

lemma ensureTable_eq:
  assumes "paging_inv s"
  shows "ensureTable v create u s =
    Some (if present s (pde_index v) then (s, table_of s (pde_index v))
          else if create \<and> low_frame (pg_pmm s)
          then (put_table v u s, Min (free_frames (pg_pmm s)) * 4096) else (s, 0))"
proof (cases "present s (pde_index v)")
  case True
  then have "pmem s (entry_addr (g_pageDirectory s) (pde_index v)) AND 1 \<noteq> 0"
    "\<not> 0x4000000 \<le> pmem s (entry_addr (g_pageDirectory s) (pde_index v)) AND 0xFFFFF000"
    using paging_inv_table(3) [OF assms True] by (auto simp: present_def pde_def table_of_def)
  with True show ?thesis by (simp add: ensureTable_def Let_def table_of_def pde_def)
next
  case False
  then have "pmem s (entry_addr (g_pageDirectory s) (pde_index v)) AND 1 = 0"
    by (auto simp: present_def pde_def)
  with False show ?thesis
    using low_frame_new(5,6) [OF assms] paging_inv_pd [OF assms]
    by (auto simp: ensureTable_def Let_def table_frame_eq put_table_def)
qed

text \<open>The page table word that \<^verbatim>\<open>MapPage\<close> writes.\<close>

definition pte_word :: "u32 \<Rightarrow> u32 \<Rightarrow> u32" where
  "pte_word paddr flags = (paddr AND 0xFFFFF000) OR (flags AND 0xFFF) OR 1"

lemma pte_word_bits:
  "pte_word p fl AND 1 = 1" "4096 dvd unat p \<Longrightarrow> pte_word p fl AND 0xFFFFF000 = p"
  by (simp_all add: pte_word_def entry_bits frame_bits_id and.assoc)

definition with_table :: "u32 \<Rightarrow> bool \<Rightarrow> paging \<Rightarrow> paging" where
  "with_table v u s = (if present s (pde_index v) then s else put_table v u s)"

lemma with_table_props:
  assumes "paging_inv s" "can_map s v"
  shows "paging_inv (with_table v u s)" "present (with_table v u s) (pde_index v)"
    "walk (with_table v u s) = walk s" "table_of (with_table v u s) (pde_index v) \<noteq> 0"
proof -
  show inv: "paging_inv (with_table v u s)" "present (with_table v u s) (pde_index v)"
    "walk (with_table v u s) = walk s"
    using assms by (auto simp: can_map_def with_table_def put_table_inv put_table_present_table put_table_walk)
  show "table_of (with_table v u s) (pde_index v) \<noteq> 0"
    using paging_inv_table(5) [OF inv(1,2)] by simp
qed

lemma ensureTable_create:
  assumes "paging_inv s"
  shows "ensureTable v True u s =
    Some (if can_map s v then (with_table v u s, table_of (with_table v u s) (pde_index v)) else (s, 0))"
  using assms by (auto simp: ensureTable_eq can_map_def with_table_def put_table_present_table)

lemma MapPage_eq:
  assumes "paging_inv s" "4096 dvd unat p"
  shows "MapPage v p fl s =
    Some (if can_map s v
          then put_pte v (pte_word p fl)
            (if fl AND 4 \<noteq> 0 then put_user v (with_table v True s) else with_table v False s)
          else s)"
proof (cases "can_map s v")
  case True
  note t = with_table_props [OF assms(1) True]
  have "table_of (put_user v (with_table v True s)) (pde_index v) = table_of (with_table v True s) (pde_index v)"
    using t(1) by (simp add: put_user_present_table)
  then show ?thesis using True assms t
    by (auto simp: MapPage_def page_aligned_iff Let_def put_pte_def pte_word_def ensureTable_create)
       (simp_all add: put_user_def Let_def)
qed (use assms in \<open>simp add: MapPage_def ensureTable_create page_aligned_iff\<close>)

lemma MapPage_step:
  assumes "paging_inv s" "4096 dvd unat p"
  obtains s' where "MapPage v p fl s = Some s'" "paging_inv s'" "regs s' = regs s"
    "walk s' = (if can_map s v then set_page v (Some (pte_word p fl)) (walk s) else walk s)"
    "can_map s v \<Longrightarrow> present s' (pde_index v)" "\<not> can_map s v \<Longrightarrow> s' = s"
    "free_frames (pg_pmm s') = (if can_map s v \<and> \<not> present s (pde_index v)
       then free_frames (pg_pmm s) - {Min (free_frames (pg_pmm s))} else free_frames (pg_pmm s))"
    "\<And>i. i < 1024 \<Longrightarrow> present s i \<Longrightarrow> present s' i"
proof -
  let ?t = "if fl AND 4 \<noteq> 0 then put_user v (with_table v True s) else with_table v False s"
  have t: "paging_inv ?t" "present ?t (pde_index v)" "walk ?t = walk s" if "can_map s v"
    using with_table_props [OF assms(1) that]
    by (simp_all add: put_user_inv put_user_present_table put_user_walk)
  have fr: "free_frames (pg_pmm ?t) = (if \<not> present s (pde_index v)
       then free_frames (pg_pmm s) - {Min (free_frames (pg_pmm s))} else free_frames (pg_pmm s))"
    by (simp add: with_table_def put_table_pmm)
  have pr: "present ?t i" if "can_map s v" "i < 1024" "present s i" for i
    using with_table_props [OF assms(1) that(1)] that assms(1)
    by (auto simp: put_user_present_table with_table_def put_table_present_table can_map_def)
  have pp: "present (put_pte v e ?t) i = present ?t i" if "can_map s v" "i < 1024" for e i
    using put_pte_pde [OF t(1,2)] that by (simp add: present_def)
  show thesis
  proof (cases "can_map s v")
    case True
    show thesis
      by (rule that [OF MapPage_eq [OF assms]])
        (use True t fr pr pp in \<open>simp_all add: put_pte_inv put_pte_walk pte_word_bits with_table_def\<close>)
  qed (rule that [OF MapPage_eq [OF assms]], use assms in simp_all)
qed

lemma GetPhys_eq:
  assumes "paging_inv s"
  shows "GetPhys v s = Some (case walk s v of None \<Rightarrow> 0 | Some e \<Rightarrow> (e AND 0xFFFFF000) OR (v AND 0xFFF))"
  using paging_inv_table(5) [OF assms, of "pde_index v"]
  by (simp add: GetPhys_def ensureTable_eq [OF assms] walk_def Let_def pte_def)

lemma walk_not_present: "\<not> present s (pde_index v) \<Longrightarrow> unat a div 4096 = unat v div 4096 \<Longrightarrow> walk s a = None"
  using same_page_iff [of a v] by (simp add: walk_def)

text \<open>The effect of an operation on the walk of one page.\<close>

definition upd_page ::
  "u32 \<Rightarrow> (u32 \<Rightarrow> u32 option \<Rightarrow> u32 option) \<Rightarrow> (u32 \<Rightarrow> u32 option) \<Rightarrow> (u32 \<Rightarrow> u32 option)" where
  "upd_page v g w = (\<lambda>a. if unat a div 4096 = unat v div 4096 then g a (w a) else w a)"

lemma UnmapPage_step:
  assumes "paging_inv s"
  obtains s' where "UnmapPage v s = Some s'" "paging_inv s'" "pg_pmm s' = pg_pmm s"
    "regs s' = regs s" "walk s' = upd_page v (\<lambda>_ _. None) (walk s)"
proof (cases "present s (pde_index v)")
  case True
  have eq: "UnmapPage v s = Some (put_pte v 0 s)"
    using paging_inv_table(5) [OF assms True] True
    by (simp add: UnmapPage_def ensureTable_eq [OF assms] put_pte_def)
  show thesis
    by (rule that [OF eq])
      (use assms True in \<open>simp_all add: put_pte_inv put_pte_walk set_page_def upd_page_def\<close>)
next
  case False
  have "walk s = upd_page v (\<lambda>_ _. None) (walk s)"
    using walk_not_present [OF False] by (auto simp: upd_page_def)
  with False that [of s] assms show thesis
    by (simp add: UnmapPage_def ensureTable_eq [OF assms])
qed

lemma RemapPageFlags_step:
  assumes "paging_inv s"
  obtains s' where "RemapPageFlags v fl s = Some s'" "paging_inv s'" "regs s' = regs s"
    "walk s' = upd_page v (\<lambda>_. map_option (\<lambda>e. pte_word e fl)) (walk s)"
    "fl AND 4 = 0 \<Longrightarrow> pg_pmm s' = pg_pmm s"
proof (cases "if fl AND 4 \<noteq> 0 then can_map s v else present s (pde_index v)")
  case True
  let ?t = "if fl AND 4 \<noteq> 0 then with_table v True s else s"
  let ?e = "pte ?t (pde_index v) (pte_index v)"
  have t: "paging_inv ?t" "present ?t (pde_index v)" "walk ?t = walk s"
    "regs ?t = regs s"
    using True with_table_props [OF assms] assms by (auto split: if_splits simp: with_table_def)
  have ens: "ensureTable v (fl AND 4 \<noteq> 0) (fl AND 4 \<noteq> 0) s = Some (?t, table_of ?t (pde_index v))"
    using True ensureTable_create [OF assms] ensureTable_eq [OF assms] by (cases "fl AND 4 \<noteq> 0") auto
  have nz: "table_of ?t (pde_index v) \<noteq> 0" by (rule paging_inv_table(5) [OF t(1,2)]) simp
  have eq: "RemapPageFlags v fl s = Some (if ?e AND 1 = 0 then ?t else put_pte v (pte_word ?e fl) ?t)"
    using nz unfolding RemapPageFlags_def ens
    by (simp add: pte_def Let_def put_pte_def pte_word_def)
  have w: "walk s a = (if ?e AND 1 = 0 then None else Some ?e)" if "unat a div 4096 = unat v div 4096" for a
    using that same_page_iff [of a v] t(2) t(3) [symmetric] by (simp add: walk_def)
  show thesis
    by (rule that [OF eq])
      (use t w in \<open>auto simp: put_pte_inv put_pte_walk set_page_def upd_page_def pte_word_bits fun_eq_iff\<close>)
next
  case False
  have "RemapPageFlags v fl s = Some s"
    using False assms by (auto split: if_splits simp: RemapPageFlags_def ensureTable_eq ensureTable_create can_map_def)
  moreover have "walk s = upd_page v (\<lambda>_. map_option (\<lambda>e. pte_word e fl)) (walk s)"
    using walk_not_present [of s v] False by (auto simp: upd_page_def can_map_def split: if_splits)
  ultimately show thesis using that [of s] assms by simp
qed

section \<open>Ranges\<close>

definition range_pages :: "u32 \<Rightarrow> nat" where
  "range_pages sz = (unat sz + 4095) div 4096"

definition in_pages :: "u32 \<Rightarrow> nat \<Rightarrow> u32 \<Rightarrow> bool" where
  "in_pages v n a \<longleftrightarrow> unat v div 4096 \<le> unat a div 4096 \<and> unat a div 4096 < unat v div 4096 + n"

lemma page_of_offset:
  fixes v j :: u32
  assumes "unat v div 4096 + (unat j div 4096) < 1048576" "4096 dvd unat j"
  shows "unat (v + j) div 4096 = unat v div 4096 + unat j div 4096" "unat (v + j) = unat v + unat j"
proof -
  have "unat v mod 4096 < 4096" by simp
  then have "unat v + unat j < 4294967296"
    using assms div_mod_decomp [of "unat v" 4096] by (auto elim!: dvdE)
  then show *: "unat (v + j) = unat v + unat j" by (simp add: unat_add_nowrap)
  show "unat (v + j) div 4096 = unat v div 4096 + unat j div 4096"
    unfolding * using assms(2) by (auto elim!: dvdE)
qed

lemma upd_page_extend:
  assumes "unat v div 4096 + unat j div 4096 < 1048576" "4096 dvd unat j"
  shows "upd_page (v + j) g (\<lambda>a. if in_pages v (unat j div 4096) a then g a (w a) else w a) =
    (\<lambda>a. if in_pages v (Suc (unat j div 4096)) a then g a (w a) else w a)"
  using page_of_offset(1) [OF assms] by (auto simp: upd_page_def in_pages_def fun_eq_iff)

lemma page_loop_walk:
  assumes inv: "paging_inv s" and Q: "Q 0 s" and sz: "unat sz \<le> 4294963200"
    and nowrap: "unat v div 4096 + range_pages sz \<le> 1048576"
    and step: "\<And>j s. j < sz \<Longrightarrow> 4096 dvd unat j \<Longrightarrow> paging_inv s \<Longrightarrow> Q (unat j) s \<Longrightarrow>
      \<exists>s'. body j s = Some s' \<and> paging_inv s' \<and> Q (unat j + 4096) s' \<and> walk s' = upd_page (v + j) g (walk s)"
  shows "\<exists>s'. page_loop body 0 sz s = Some s' \<and> paging_inv s' \<and> Q (4096 * range_pages sz) s' \<and>
    walk s' = (\<lambda>a. if in_pages v (range_pages sz) a then g a (walk s a) else walk s a)"
proof -
  let ?P = "\<lambda>k s'. k < unat sz + 4096 \<and> paging_inv s' \<and> Q k s' \<and>
    walk s' = (\<lambda>a. if in_pages v (k div 4096) a then g a (walk s a) else walk s a)"
  have "\<exists>s' k. page_loop body 0 sz s = Some s' \<and> ?P k s' \<and> unat sz \<le> k \<and> 4096 dvd k"
  proof (rule page_loop_rule [where P = ?P])
    show "?P (unat (0 :: u32)) s" using inv Q by (auto simp: in_pages_def fun_eq_iff)
    fix j s1 assume j: "j < sz" "4096 dvd unat j" "?P (unat j) s1"
    have "unat j < unat sz" using j(1) by (simp add: word_less_nat_alt)
    then have "unat v div 4096 + unat j div 4096 < 1048576" "unat j + 4096 < unat sz + 4096"
      using nowrap j(2) by (auto simp: range_pages_def elim!: dvdE)
    then show "\<exists>s'. body j s1 = Some s' \<and> ?P (unat j + 4096) s'"
      using step [OF j(1,2), of s1] j upd_page_extend [of v j g "walk s"] by auto
  qed (use sz in simp_all)
  then obtain s' k where s': "page_loop body 0 sz s = Some s'" "?P k s'" "unat sz \<le> k" "4096 dvd k" by blast
  then have "k = 4096 * range_pages sz" by (auto simp: range_pages_def elim!: dvdE)
  with s' show ?thesis by auto
qed

text \<open>The walk with the first \<open>m\<close> pages of a range mapped to consecutive frames from \<open>p\<close>.\<close>

definition mapped :: "u32 \<Rightarrow> u32 \<Rightarrow> u32 \<Rightarrow> nat \<Rightarrow> (u32 \<Rightarrow> u32 option) \<Rightarrow> (u32 \<Rightarrow> u32 option)" where
  "mapped v p fl m w = (\<lambda>a. if in_pages v m a
     then Some (pte_word (p + of_nat ((unat a div 4096 - unat v div 4096) * 4096)) fl) else w a)"

lemma mapped_0 [simp]: "mapped v p fl 0 w = w"
  by (auto simp: mapped_def in_pages_def fun_eq_iff)

lemma mapped_extend:
  assumes "unat v div 4096 + unat j div 4096 < 1048576" "4096 dvd unat j"
  shows "set_page (v + j) (Some (pte_word (p + j) fl)) (mapped v p fl (unat j div 4096) w) =
    mapped v p fl (Suc (unat j div 4096)) w"
proof -
  have "of_nat (unat j div 4096 * 4096) = j" using assms(2) by simp
  then show ?thesis
    using page_of_offset(1) [OF assms] by (auto simp: set_page_def mapped_def in_pages_def fun_eq_iff)
qed

lemma phys_bits: "(x OR (v AND 0xFFF)) AND 0xFFFFF000 = x AND (0xFFFFF000 :: u32)"
  by (simp add: bit.conj_disj_distrib2 and.assoc)

lemma map_range_loop_spec:
  assumes "paging_inv s" "4096 dvd unat p" "0 < unat p" "unat p + unat sz \<le> 4294967296"
    "unat sz \<le> 4294963200" "unat v div 4096 + range_pages sz \<le> 1048576"
    "4096 dvd unat off" "unat off < unat sz + 4096" "walk s = mapped v p fl (unat off div 4096) w"
  shows "\<exists>s' m. map_range_loop v p fl sz off s = Some s' \<and> paging_inv s' \<and> m \<le> range_pages sz \<and>
    walk s' = mapped v p fl m w \<and> (m < range_pages sz \<longrightarrow> \<not> can_map s' (v + of_nat (4096 * m)))"
  using assms(1,7-)
proof (induction "unat sz + 4096 - unat off" arbitrary: off s rule: less_induct)
  case less
  show ?case
  proof (cases "off < sz")
    case False
    with less.prems have "unat off div 4096 = range_pages sz"
      by (auto simp: range_pages_def word_less_nat_alt elim!: dvdE)
    with less.prems False show ?thesis
      by (intro exI [of _ s] exI [of _ "range_pages sz"]) (simp add: map_range_loop.simps [of v p fl sz off])
  next
    case True
    then have lt: "unat off < unat sz" by (simp add: word_less_nat_alt)
    have pg: "unat off div 4096 < range_pages sz" "unat v div 4096 + unat off div 4096 < 1048576"
      using lt assms(6) less.prems(2) by (auto simp: range_pages_def elim!: dvdE)
    have po: "unat (p + off) = unat p + unat off" using assms(4) lt by (simp add: unat_add_nowrap)
    then have al: "4096 dvd unat (p + off)" and nz: "p + off \<noteq> 0"
      using assms(2,3) less.prems(2) by (auto simp: word_unat_eq_iff)
    have id: "(p + off) AND 0xFFFFF000 = p + off" by (rule frame_bits_id [OF al])
    have o: "unat (off + 4096) = unat off + 4096" "of_nat (4096 * (unat off div 4096)) = off"
      using lt assms(5) less.prems(2) by (simp_all add: unat_add_nowrap dvd_mult_div_cancel)
    obtain s1 where s1: "MapPage (v + off) (p + off) fl s = Some s1" "paging_inv s1"
      "walk s1 = (if can_map s (v + off) then set_page (v + off) (Some (pte_word (p + off) fl)) (walk s) else walk s)"
      "\<not> can_map s (v + off) \<Longrightarrow> s1 = s"
      using MapPage_step [OF less.prems(1) al] by metis
    show ?thesis
    proof (cases "can_map s (v + off)")
      case True
      have "unat (off + 4096) div 4096 = Suc (unat off div 4096)"
        unfolding o using div_add_self2 [of 4096 "unat off"] by simp
      then have w: "walk s1 = mapped v p fl (unat (off + 4096) div 4096) w"
        using s1(3) True less.prems(4) mapped_extend [OF pg(2) less.prems(2)] by simp
      have "walk s1 (v + off) = Some (pte_word (p + off) fl)"
        using s1(3) True by (simp add: set_page_def)
      then have eq: "map_range_loop v p fl sz off s = map_range_loop v p fl sz (off + 4096) s1"
        using s1(1) \<open>off < sz\<close> pte_word_bits(2) [OF al]
        by (simp add: map_range_loop.simps [of v p fl sz off] GetPhys_eq [OF s1(2)] phys_bits id)
      show ?thesis unfolding eq
        by (rule less.hyps) (use s1(2) w lt less.prems(2) in \<open>simp_all add: o\<close>)
    next
      case False
      then have "walk s (v + off) = None" using walk_not_present [of s "v + off"] by (simp add: can_map_def)
      then have "map_range_loop v p fl sz off s = Some s"
        using s1(1,4) False \<open>off < sz\<close> nz
        by (simp add: map_range_loop.simps [of v p fl sz off] GetPhys_eq [OF less.prems(1)] id)
      then show ?thesis using less.prems(1,4) False pg(1) o(2)
        by (intro exI [of _ s] exI [of _ "unat off div 4096"]) simp
    qed
  qed
qed

section \<open>Identity mapping at start-up\<close>

definition low_free :: "pmm \<Rightarrow> u32 set" where
  "low_free p = {f \<in> free_frames p. f < 16384}"

lemma low_frame_iff: 
  assumes "pmm_inv p"
  shows "low_frame p \<longleftrightarrow> low_free p \<noteq> {}"
proof (cases "free_frames p = {}")
  case False
  then have m: "Min (free_frames p) \<in> free_frames p" by simp
  have "Min (free_frames p) * 4096 < 0x4000000 \<longleftrightarrow> Min (free_frames p) < 16384"
    using frame_address(2) [OF free_frame_below_cap [OF assms m]] by (simp add: word_less_nat_alt)
  moreover have "(\<exists>f \<in> free_frames p. f < 16384) \<longleftrightarrow> Min (free_frames p) < 16384"
    using m by (auto intro: le_less_trans [OF Min_le] bexI [of _ "Min (free_frames p)"])
  ultimately show ?thesis using False by (auto simp: low_frame_def low_free_def)
qed (simp add: low_frame_def low_free_def)

lemma low_free_take_Min:
  assumes "pmm_inv p" "low_frame p" "free_frames q = free_frames p - {Min (free_frames p)}"
  shows "card (low_free q) = card (low_free p) - 1"
proof -
  have "free_frames p \<noteq> {}" using assms(2) by (simp add: low_frame_def)
  then have m: "Min (free_frames p) \<in> free_frames p" by simp
  have "unat (Min (free_frames p)) < 16384"
    using assms(2) frame_address(2) [OF free_frame_below_cap [OF assms(1) m]]
    by (simp add: word_less_nat_alt low_frame_def)
  then have "low_free q = low_free p - {Min (free_frames p)}" "Min (free_frames p) \<in> low_free p"
    using assms(3) m by (auto simp: low_free_def word_less_nat_alt)
  then show ?thesis by simp
qed

lemma page_base_eq:
  assumes "unat a div 4096 = unat b div 4096"
  shows "a AND 0xFFFFF000 = b AND (0xFFFFF000 :: u32)"
proof -
  have base: "x AND 0xFFFFF000 = push_bit 12 (drop_bit 12 x)" for x :: u32
  proof -
    have "(0xFFFFF000 :: u32) = NOT (mask 12)" by (simp add: mask_eq_exp_minus_1)
    then have "x AND 0xFFFFF000 = x AND NOT (mask 12)" by (simp only:)
    also have "\<dots> = push_bit 12 (drop_bit 12 x)" by (rule bit_word_eqI) (auto simp: bit_simps)
    finally show ?thesis .
  qed
  have "drop_bit 12 a = drop_bit 12 b"
    by (rule unat_eqI) (use assms in \<open>simp add: drop_bit_eq_div unat_div\<close>)
  then show ?thesis by (simp add: base)
qed

text \<open>Page tables needed for the first \<open>k\<close> bytes.\<close>

definition tables_for :: "nat \<Rightarrow> nat" where
  "tables_for k = (k + 4194303) div 4194304"

lemma tables_for_step:
  assumes "4096 dvd j"
  shows "tables_for (j + 4096) = (if 4194304 dvd j then Suc (tables_for j) else tables_for j)"
    "\<not> 4194304 dvd j \<Longrightarrow> j div 4194304 < tables_for j"
    "4194304 dvd j \<Longrightarrow> tables_for j = j div 4194304"
    "tables_for (j + 4096) = Suc (j div 4194304)"
proof -
  define q r where "q = j div 4194304" and "r = j mod 4194304"
  have j: "j = 4194304 * q + r" and r: "r < 4194304" by (simp_all add: q_def r_def)
  have "4096 dvd r" unfolding r_def by (rule dvd_mod) (use assms in simp_all)
  with r have r': "r \<le> 4190208" by (auto elim!: dvdE)
  have "(r + 4096 + 4194303) div 4194304 = 1" "(r + 4194303) div 4194304 = (if r = 0 then 0 else 1)"
    using r r' by (auto intro!: div_nat_eqI)
  then have "tables_for (j + 4096) = q + 1" "tables_for j = (if r = 0 then q else q + 1)"
    using div_mult_self4 [of 4194304 q "r + 4096 + 4194303"] div_mult_self4 [of 4194304 q "r + 4194303"]
    by (simp_all add: tables_for_def j add_ac)
  moreover have "4194304 dvd j \<longleftrightarrow> r = 0" by (simp add: r_def dvd_eq_mod_eq_0)
  ultimately show
    "tables_for (j + 4096) = (if 4194304 dvd j then Suc (tables_for j) else tables_for j)"
    "\<not> 4194304 dvd j \<Longrightarrow> j div 4194304 < tables_for j"
    "4194304 dvd j \<Longrightarrow> tables_for j = j div 4194304"
    "tables_for (j + 4096) = Suc (j div 4194304)"
    by (simp_all add: q_def [symmetric])
qed

lemma identity_step:
  assumes inv: "paging_inv t" and j: "unat j < 0x4000000" "4096 dvd unat j"
    and tabs: "\<forall>i. unat i < tables_for (unat j) \<longrightarrow> present t i"
    and low: "16 \<le> card (low_free (pg_pmm t)) + tables_for (unat j)"
  shows "\<exists>t'. MapPage j j 3 t = Some t' \<and> paging_inv t' \<and> regs t' = regs t \<and>
    (\<forall>i. unat i < tables_for (unat j + 4096) \<longrightarrow> present t' i) \<and>
    16 \<le> card (low_free (pg_pmm t')) + tables_for (unat j + 4096) \<and>
    walk t' = upd_page j (\<lambda>a _. Some (pte_word (a AND 0xFFFFF000) 3)) (walk t)"
proof -
  note step = tables_for_step [OF j(2)]
  have pi: "unat (pde_index j) = unat j div 4194304" by (rule unat_pde_index)
  have "can_map t j"
  proof (cases "4194304 dvd unat j")
    case True
    then have "unat j div 4194304 < 16" "tables_for (unat j) = unat j div 4194304"
      using j(1) step(3) by auto
    then have "card (low_free (pg_pmm t)) \<noteq> 0" using low by linarith
    then show ?thesis
      using low_frame_iff [OF paging_inv_pd(1) [OF inv]] by (auto simp: can_map_def)
  qed (use tabs step(2) pi in \<open>auto simp: can_map_def\<close>)
  then obtain t' where t': "MapPage j j 3 t = Some t'" "paging_inv t'" "regs t' = regs t"
    "walk t' = set_page j (Some (pte_word j 3)) (walk t)" "present t' (pde_index j)"
    "free_frames (pg_pmm t') = (if \<not> present t (pde_index j)
       then free_frames (pg_pmm t) - {Min (free_frames (pg_pmm t))} else free_frames (pg_pmm t))"
    "\<And>i. i < 1024 \<Longrightarrow> present t i \<Longrightarrow> present t' i"
    using MapPage_step [OF inv j(2)] by metis
  have same: "pte_word (a AND 0xFFFFF000) 3 = pte_word j 3" if "unat a div 4096 = unat j div 4096" for a
    using page_base_eq [OF that] by (simp add: pte_word_def and.assoc)
  have "present t' i" if "unat i < tables_for (unat j + 4096)" for i
  proof (cases "i = pde_index j")
    case False
    then have "unat i < tables_for (unat j)" "unat i < 1024"
      using that step j(1) pi by (auto simp: word_unat_eq_iff split: if_splits)
    then show ?thesis using tabs t'(7) by (simp add: word_less_nat_alt)
  qed (use t'(5) in simp)
  moreover have "16 \<le> card (low_free (pg_pmm t')) + tables_for (unat j + 4096)"
  proof (cases "present t (pde_index j)")
    case True
    with t'(6) low step(1) show ?thesis by (auto simp: low_free_def)
  next
    case False
    then have "low_frame (pg_pmm t)" "4194304 dvd unat j"
      using \<open>can_map t j\<close> tabs [rule_format, of "pde_index j"] step(2) pi by (auto simp: can_map_def)
    then show ?thesis
      using low_free_take_Min [OF paging_inv_pd(1) [OF inv]] t'(6) False low step(1) by simp
  qed
  moreover have "walk t' = upd_page j (\<lambda>a _. Some (pte_word (a AND 0xFFFFF000) 3)) (walk t)"
    unfolding t'(4) upd_page_def set_page_def by (rule ext) (simp add: same)
  ultimately show ?thesis using t'(1-3) by blast
qed

lemma identity_loop:
  assumes "paging_inv s" "16 \<le> card (low_free (pg_pmm s))"
  shows "\<exists>s'. page_loop (\<lambda>addr. MapPage addr addr 3) 0 0x4000000 s = Some s' \<and> paging_inv s' \<and>
    regs s' = regs s \<and>
    walk s' = (\<lambda>a. if unat a < 0x4000000 then Some (pte_word (a AND 0xFFFFF000) 3) else walk s a)"
proof -
  let ?Q = "\<lambda>k t. regs t = regs s \<and>
    (\<forall>i. unat i < tables_for k \<longrightarrow> present t i) \<and> 16 \<le> card (low_free (pg_pmm t)) + tables_for k"
  have r: "range_pages 0x4000000 = 16384" by (simp add: range_pages_def)
  have "\<exists>s'. page_loop (\<lambda>addr. MapPage addr addr 3) 0 0x4000000 s = Some s' \<and> paging_inv s' \<and>
    ?Q (4096 * range_pages 0x4000000) s' \<and>
    walk s' = (\<lambda>a. if in_pages 0 (range_pages 0x4000000) a then Some (pte_word (a AND 0xFFFFF000) 3) else walk s a)"
  proof (rule page_loop_walk [where Q = ?Q])
    fix j t assume "j < (0x4000000 :: u32)" "4096 dvd unat j" "paging_inv t" "?Q (unat j) t"
    then show "\<exists>s'. MapPage j j 3 t = Some s' \<and> paging_inv s' \<and> ?Q (unat j + 4096) s' \<and>
        walk s' = upd_page (0 + j) (\<lambda>a _. Some (pte_word (a AND 0xFFFFF000) 3)) (walk t)"
      using identity_step [of t j] by (auto simp: word_less_nat_alt)
  qed (use assms r in \<open>simp_all add: tables_for_def\<close>)
  moreover have "in_pages 0 16384 a \<longleftrightarrow> unat a < 0x4000000" for a
    by (auto simp: in_pages_def)
  ultimately show ?thesis unfolding r by auto
qed

section \<open>Properties\<close>

text \<open>A machine with paging set up and nothing mapped, for the concrete instances below.\<close>

definition boot_paging :: paging where
  "boot_paging = \<lparr>pg_pmm = boot_pmm, g_pageDirectory = 0x1000, pmem = \<lambda>_. 0, cr0 = 0x11, cr3 = 0\<rparr>"

lemma boot_low_free: "low_free boot_pmm = {f. f < 8096} - {f. f < 384}"
proof -
  have cap: "g_frameCap boot_pmm = 8096"
    by (rule unat_eqI) (simp add: boot_pmm_def PMM_Init_frameCap init_frames_def)
  have "bget (g_bitmap boot_pmm) f \<longleftrightarrow> f < 384" if "f < 8096" for f
  proof -
    have "bget (g_bitmap boot_pmm) f \<longleftrightarrow> unat f < 256 \<or> 256 \<le> unat f \<and> unat f < 384"
      using PMM_Init_bitmap [of f 640 31744 "0x100000" "0x180000"] that cap
      unfolding boot_pmm_def by (simp add: word_less_nat_alt word_le_nat_alt)
    then show ?thesis by (auto simp: word_less_nat_alt)
  qed
  moreover have "f < 8096 \<Longrightarrow> f < 16384" for f :: u32 by (simp add: word_less_nat_alt)
  ultimately show ?thesis
    by (auto simp: low_free_def free_frames_def cap)
qed

lemma boot_low_free_card: "card (low_free boot_pmm) = 7712"
proof -
  have "{f :: u32. f < 384} \<subseteq> {f. f < 8096}" by (auto simp: word_less_nat_alt)
  then show ?thesis by (simp add: boot_low_free card_Diff_subset card_words_below)
qed

lemma boot_low_frame [simp]: "low_frame boot_pmm"
  using boot_low_free_card low_frame_iff [OF boot_pmm_inv(1)] by fastforce

lemma boot_paging_inv [simp]: "paging_inv boot_paging"
proof -
  have "(1 :: u32) \<notin> free_frames boot_pmm"
    using boot_pmm_inv(2) by (simp add: low_reserved_def free_frames_def)
  then show ?thesis
    by (simp add: paging_inv_def boot_paging_def owned_def present_def pde_def)
qed

text \<open>
  C5. \<^verbatim>\<open>Paging::MapPage\<close> panics exactly on an unaligned physical address. Otherwise it keeps the
  page tables well formed, and if a table for the address exists or can be allocated below
  64 MiB, the hardware walk afterwards finds the requested entry for the addresses of that one
  page and what it found before for every other address; \<^verbatim>\<open>GetPhys\<close> then reads the mapping back.
  If no table can be had, nothing changes.
\<close>

theorem MapPage_correct:
  assumes "paging_inv s"
  shows "(MapPage v p fl s = None \<longleftrightarrow> \<not> 4096 dvd unat p) \<and>
    (\<forall>s'. MapPage v p fl s = Some s' \<longrightarrow> paging_inv s' \<and>
       (if can_map s v
        then walk s' = set_page v (Some (pte_word p fl)) (walk s) \<and> GetPhys v s' = Some (p OR (v AND 0xFFF))
        else s' = s))"
proof (cases "4096 dvd unat p")
  case True
  obtain s' where s': "MapPage v p fl s = Some s'" "paging_inv s'"
    "walk s' = (if can_map s v then set_page v (Some (pte_word p fl)) (walk s) else walk s)"
    "\<not> can_map s v \<Longrightarrow> s' = s"
    using MapPage_step [OF assms True] by metis
  then have "can_map s v \<Longrightarrow> GetPhys v s' = Some (p OR (v AND 0xFFF))"
    using pte_word_bits(2) [OF True] by (simp add: GetPhys_eq set_page_def)
  with s' True show ?thesis by auto
qed (simp add: MapPage_def page_aligned_iff)

theorem MapPage_correct_witness:
  "\<exists>s'. MapPage 0x40000123 0x300000 3 boot_paging = Some s' \<and> paging_inv s' \<and>
    GetPhys 0x40000123 s' = Some 0x300123"
proof -
  have "can_map boot_paging 0x40000123" by (simp add: can_map_def boot_paging_def)
  moreover have "(4096 :: nat) dvd unat (0x300000 :: u32)" by simp
  moreover have "(0x300000 :: u32) OR (0x40000123 AND 0xFFF) = 0x300123" by simp
  ultimately show ?thesis
    using MapPage_correct [OF boot_paging_inv, where v = "0x40000123" and p = "0x300000" and fl = 3]
    by (metis not_None_eq)
qed

text \<open>
  C33. \<^verbatim>\<open>Paging::MapRange\<close> on a range that stays inside the address space returns, and maps a prefix
  of the pages of the range to consecutive frames, leaving every other page as it was. The prefix
  is the whole range unless the directory entry of the first page left out is missing and no
  frame below 64 MiB is free for it.
\<close>

theorem MapRange_correct:
  assumes "paging_inv s" and "4096 dvd unat p" and "0 < unat p" and "unat p + unat sz \<le> 2 ^ 32"
    and "unat sz \<le> 0xFFFFF000" and "unat v div 4096 + range_pages sz \<le> 2 ^ 20"
  shows "\<exists>s' m. MapRange v p sz fl s = Some s' \<and> paging_inv s' \<and> m \<le> range_pages sz \<and>
    walk s' = mapped v p fl m (walk s) \<and>
    (m < range_pages sz \<longrightarrow> \<not> can_map s' (v + of_nat (4096 * m)))"
  unfolding MapRange_def by (rule map_range_loop_spec) (use assms in simp_all)

theorem MapRange_correct_witness:
  "\<exists>s' m. MapRange 0x08000000 0x200000 0x5000 7 boot_paging = Some s' \<and> paging_inv s' \<and> m \<le> 5 \<and>
    walk s' = mapped 0x08000000 0x200000 7 m (walk boot_paging)"
  using MapRange_correct [OF boot_paging_inv, where v = "0x08000000" and p = "0x200000" and sz = "0x5000" and fl = 7]
  by (auto simp: range_pages_def)

text \<open>
  \<^verbatim>\<open>Paging::UnmapRange\<close> returns for every size up to the last page of the address space and removes
  exactly the pages of the range from the walk, touching no frame and no register.
\<close>

theorem UnmapRange_correct:
  assumes "paging_inv s" and "unat sz \<le> 0xFFFFF000" and "unat v div 4096 + range_pages sz \<le> 2 ^ 20"
  shows "\<exists>s'. UnmapRange v sz s = Some s' \<and> paging_inv s' \<and> pg_pmm s' = pg_pmm s \<and> regs s' = regs s \<and>
    walk s' = (\<lambda>a. if in_pages v (range_pages sz) a then None else walk s a)"
proof -
  have "\<exists>s'. page_loop (\<lambda>off. UnmapPage (v + off)) 0 sz s = Some s' \<and> paging_inv s' \<and>
    (pg_pmm s' = pg_pmm s \<and> regs s' = regs s) \<and>
    walk s' = (\<lambda>a. if in_pages v (range_pages sz) a then None else walk s a)"
  proof (rule page_loop_walk [where Q = "\<lambda>_ s'. pg_pmm s' = pg_pmm s \<and> regs s' = regs s" and g = "\<lambda>_ _. None"])
    fix j t assume t: "paging_inv t" "pg_pmm t = pg_pmm s \<and> regs t = regs s"
    then show "\<exists>s'. UnmapPage (v + j) t = Some s' \<and> paging_inv s' \<and>
        (pg_pmm s' = pg_pmm s \<and> regs s' = regs s) \<and> walk s' = upd_page (v + j) (\<lambda>_ _. None) (walk t)"
      using UnmapPage_step [OF t(1), of "v + j"] by metis
  qed (use assms in simp_all)
  then show ?thesis by (simp add: UnmapRange_def)
qed

theorem UnmapRange_correct_witness:
  "\<exists>s'. UnmapRange 0x01000000 0x400000 boot_paging = Some s' \<and> paging_inv s' \<and> walk s' 0x01000000 = None"
  using UnmapRange_correct [OF boot_paging_inv, where v = "0x01000000" and sz = "0x400000"]
  by (auto simp: range_pages_def in_pages_def)

text \<open>Both range loops spin for ever on a size in the last page.\<close>

lemma range_ops_diverge:
  assumes "0xFFFFF000 < unat sz"
  shows "UnmapRange v sz s = None" "RemapRangeFlags v sz fl s = None"
  using assms by (simp_all add: UnmapRange_def RemapRangeFlags_def page_loop_diverges)

lemma RemapRangeFlags_spec:
  assumes "paging_inv s" "unat sz \<le> 0xFFFFF000" "unat v div 4096 + range_pages sz \<le> 2 ^ 20"
  shows "\<exists>s'. RemapRangeFlags v sz fl s = Some s' \<and> paging_inv s' \<and> regs s' = regs s \<and>
    walk s' = (\<lambda>a. if in_pages v (range_pages sz) a then map_option (\<lambda>e. pte_word e fl) (walk s a) else walk s a)"
  unfolding RemapRangeFlags_def
proof (rule page_loop_walk [where Q = "\<lambda>_ s'. regs s' = regs s"])
  fix j t assume t: "paging_inv t" "regs t = regs s"
  then show "\<exists>s'. RemapPageFlags (v + j) fl t = Some s' \<and> paging_inv s' \<and> regs s' = regs s \<and>
      walk s' = upd_page (v + j) (\<lambda>_. map_option (\<lambda>e. pte_word e fl)) (walk t)"
    using RemapPageFlags_step [OF t(1), of "v + j" fl] by metis
qed (use assms in simp_all)

lemma protect_section:
  assumes "paging_inv s" "unat first \<le> unat stop" "unat stop \<le> 0x4000000"
  obtains s' where "RemapRangeFlags first (stop - first) 1 s = Some s'" "paging_inv s'" "regs s' = regs s"
    "walk s' = (\<lambda>a. if in_pages first (range_pages (stop - first)) a
       then map_option (\<lambda>e. pte_word e 1) (walk s a) else walk s a)"
proof -
  have d: "unat (stop - first) = unat stop - unat first" using assms(2) by (rule unat_sub_nowrap)
  have "unat (stop - first) \<le> 0xFFFFF000" "unat first div 4096 + range_pages (stop - first) \<le> 2 ^ 20"
    using assms(2,3) by (simp_all add: range_pages_def d)
  from RemapRangeFlags_spec [OF assms(1) this, of 1] that show thesis by blast
qed

lemma pte_word_pte_word [simp]: "pte_word (pte_word p f1) f2 = pte_word p f2"
  by (simp add: pte_word_def bit.conj_disj_distrib2 and.assoc)

lemma new_directory:
  assumes "pmm_inv (pg_pmm s)" "low_reserved (pg_pmm s)" "low_frame (pg_pmm s)"
  defines "f \<equiv> Min (free_frames (pg_pmm s))"
  defines "t \<equiv> s\<lparr>pg_pmm := take_frame f (pg_pmm s), g_pageDirectory := f * 4096,
    pmem := clear_table (f * 4096) (pmem s)\<rparr>"
  shows "paging_inv t" "walk t a = None" "card (low_free (pg_pmm t)) = card (low_free (pg_pmm s)) - 1"
    "f * 4096 \<noteq> 0"
proof -
  have f: "f \<in> free_frames (pg_pmm s)" using assms(3) by (simp add: low_frame_def f_def)
  note own = owned_new_frame [OF assms(1,2) f]
  have al: "4096 dvd unat (f * 4096)" by (rule owned_aligned [OF own(1)])
  have np: "\<not> present t i" if "i < 1024" for i
    using that al by (simp add: present_def pde_def t_def)
  show "paging_inv t"
    using np own(1) assms(1,2) take_frame_inv [OF assms(1) f]
    by (simp add: paging_inv_def) (simp add: t_def)
  show "walk t a = None" using np by (simp add: walk_def)
  show "card (low_free (pg_pmm t)) = card (low_free (pg_pmm s)) - 1"
    by (rule low_free_take_Min [OF assms(1,3)]) (simp add: t_def f_def)
  show "f * 4096 \<noteq> 0" using own(1) by (simp add: owned_def)
qed

text \<open>
  With 17 free frames below 64 MiB (one directory, sixteen tables), \<^verbatim>\<open>Paging::Init\<close> returns with the
  new directory in CR3 and the paging bit of CR0 set. The first 64 MiB are mapped to themselves and
  nothing else is mapped; the pages of the text and read-only data sections are present but not
  writable, all others are writable.
\<close>

theorem Paging_Init_correct:
  assumes "pmm_inv (pg_pmm s)" and "low_reserved (pg_pmm s)" and "17 \<le> card (low_free (pg_pmm s))"
    and "0x100000 \<le> unat text_end" and "unat text_end \<le> 0x4000000"
    and "unat rodata_start \<le> unat rodata_end" and "unat rodata_end \<le> 0x4000000"
  shows "\<exists>s'. Paging_Init text_end rodata_start rodata_end s = Some s' \<and> paging_inv s' \<and>
    cr3 s' = g_pageDirectory s' \<and> cr0 s' = (cr0 s OR 0x80000000) \<and>
    walk s' = (\<lambda>a. if unat a < 0x4000000
      then Some (pte_word (a AND 0xFFFFF000)
        (if in_pages 0x100000 (range_pages (text_end - 0x100000)) a \<or>
            in_pages rodata_start (range_pages (rodata_end - rodata_start)) a then 1 else 3))
      else None)"
proof -
  let ?f = "Min (free_frames (pg_pmm s))"
  let ?t = "s\<lparr>pg_pmm := take_frame ?f (pg_pmm s), g_pageDirectory := ?f * 4096,
    pmem := clear_table (?f * 4096) (pmem s)\<rparr>"
  have low: "low_frame (pg_pmm s)" using assms(1,3) low_frame_iff by fastforce
  note new = new_directory [OF assms(1,2) low]
  have "16 \<le> card (low_free (pg_pmm ?t))" using new(3) assms(3) by linarith
  then obtain s2 where s2: "page_loop (\<lambda>addr. MapPage addr addr 3) 0 0x4000000 ?t = Some s2" "paging_inv s2"
    "regs s2 = regs ?t"
    "walk s2 = (\<lambda>a. if unat a < 0x4000000 then Some (pte_word (a AND 0xFFFFF000) 3) else walk ?t a)"
    using identity_loop [OF new(1)] by blast
  let ?s3 = "s2\<lparr>cr3 := ?f * 4096, cr0 := cr0 s2 OR 0x80000000\<rparr>"
  have s3: "paging_inv ?s3" "walk ?s3 = walk s2"
    using s2(2) by (auto simp: paging_inv_def walk_def present_def table_of_def pde_def pte_def fun_eq_iff)
  have te: "unat (0x100000 :: u32) \<le> unat text_end" using assms(4) by simp
  obtain s4 where s4: "RemapRangeFlags 0x100000 (text_end - 0x100000) 1 ?s3 = Some s4" "paging_inv s4"
    "regs s4 = regs ?s3" "walk s4 = (\<lambda>a. if in_pages 0x100000 (range_pages (text_end - 0x100000)) a
       then map_option (\<lambda>e. pte_word e 1) (walk s2 a) else walk s2 a)"
    by (rule protect_section [OF s3(1) te assms(5), unfolded s3(2)])
  obtain s5 where s5: "RemapRangeFlags rodata_start (rodata_end - rodata_start) 1 s4 = Some s5" "paging_inv s5"
    "regs s5 = regs s4" "walk s5 = (\<lambda>a. if in_pages rodata_start (range_pages (rodata_end - rodata_start)) a
       then map_option (\<lambda>e. pte_word e 1) (walk s4 a) else walk s4 a)"
    by (rule protect_section [OF s4(2) assms(6,7)])
  have "PMM_AllocFrame (pg_pmm s) = Some (take_frame ?f (pg_pmm s), ?f * 4096)"
    using low by (simp add: PMM_AllocFrame_eq [OF assms(1)] low_frame_def)
  then have "Paging_Init text_end rodata_start rodata_end s = Some s5"
    using new(4) s2(1) s4(1) s5(1) by (simp add: Paging_Init_def)
  moreover have "walk s5 = (\<lambda>a. if unat a < 0x4000000
      then Some (pte_word (a AND 0xFFFFF000)
        (if in_pages 0x100000 (range_pages (text_end - 0x100000)) a \<or>
            in_pages rodata_start (range_pages (rodata_end - rodata_start)) a then 1 else 3))
      else None)"
    unfolding s5(4) s4(4) s2(4) new(2) by (auto simp: fun_eq_iff)
  ultimately show ?thesis using s5(2,3) s4(3) s2(3) by (auto simp: regs_def)
qed

theorem Paging_Init_correct_witness:
  "\<exists>s'. Paging_Init 0x130000 0x130000 0x140000 boot_paging = Some s' \<and> paging_inv s' \<and>
    walk s' 0x120000 = Some 0x120001 \<and> walk s' 0x200000 = Some 0x200003 \<and> walk s' 0x4000000 = None"
proof -
  have pmm: "pg_pmm boot_paging = boot_pmm" by (simp add: boot_paging_def)
  show ?thesis
    using Paging_Init_correct [where s = boot_paging and text_end = "0x130000" and rodata_start = "0x130000"
        and rodata_end = "0x140000"]
    by (auto simp: pmm boot_low_free_card in_pages_def range_pages_def pte_word_def)
qed

end
