(* ===== verification/KOS_Heap.thy ===== *)
theory KOS_Heap
  imports KOS_Paging KOS_Bytes
begin

text \<open>
  The kernel heap, \<^verbatim>\<open>src/memory/heap.cpp\<close>, and the global \<^verbatim>\<open>new\<close>/\<^verbatim>\<open>delete\<close> of
  \<^verbatim>\<open>src/lib/newdelete_kernel.cpp\<close>. Heap memory is modelled byte by byte: block headers are six
  little-endian 32-bit fields at their address, and the pointer to the header that \<^verbatim>\<open>Alloc\<close>
  stores below the user pointer is four bytes of the same memory. The heap grows through the
  frame allocator and the page tables of \<open>KOS_Paging\<close>, whose state is a field of the record.
  \<open>None\<close> is a routine that does not return: a lock that is never released, an alignment
  above 2 GiB that \<^verbatim>\<open>normalize_align\<close> never reaches, a cyclic block list.

  The abstract view is the list of blocks in address order (\<open>blk\<close>); \<open>heap_rep\<close> relates it to
  the bytes. The results are about the bytes: what \<^verbatim>\<open>Alloc\<close> hands out is aligned, mapped and
  disjoint from every other live block and header, and bytes inside it may be overwritten at
  will.
\<close>

section \<open>State\<close>

record heap =
  hp_paging :: paging
  hmem :: "u32 \<Rightarrow> u8"
  g_heapBase :: u32
  g_heapEnd :: u32
  g_heapUsed :: u32
  g_heapLock :: u32
  g_firstBlock :: u32
  g_lastBlock :: u32

abbreviation (input) HEAP_MAGIC :: u32 where "HEAP_MAGIC \<equiv> 0x48454150"
abbreviation (input) MIN_ALIGNMENT :: u32 where "MIN_ALIGNMENT \<equiv> 8"
abbreviation (input) SPLIT_THRESHOLD :: u32 where "SPLIT_THRESHOLD \<equiv> 32"

text \<open>Fields of a block header at their offsets; the header takes 24 bytes.\<close>

abbreviation (input) hdr_size :: u32 where "hdr_size \<equiv> 24"
abbreviation (input) f_magic :: "u32 \<Rightarrow> u32" where "f_magic b \<equiv> b"
abbreviation (input) f_size :: "u32 \<Rightarrow> u32" where "f_size b \<equiv> b + 4"
abbreviation (input) f_prev :: "u32 \<Rightarrow> u32" where "f_prev b \<equiv> b + 8"
abbreviation (input) f_next :: "u32 \<Rightarrow> u32" where "f_next b \<equiv> b + 12"
abbreviation (input) f_used :: "u32 \<Rightarrow> u32" where "f_used b \<equiv> b + 16"
abbreviation (input) f_reserved :: "u32 \<Rightarrow> u32" where "f_reserved b \<equiv> b + 20"

section \<open>Operations\<close>

definition align_up_ptr :: "u32 \<Rightarrow> u32 \<Rightarrow> u32" where
  "align_up_ptr value align = (value + align - 1) AND NOT (align - 1)"

partial_function (option) norm_loop :: "u32 \<Rightarrow> u32 \<Rightarrow> u32 option" where
  "norm_loop normalized align =
     (if normalized < align then norm_loop (push_bit 1 normalized) align else Some normalized)"

definition normalize_align :: "u32 \<Rightarrow> u32 option" where
  "normalize_align align =
     (let align = (if align < MIN_ALIGNMENT then MIN_ALIGNMENT else align)
      in if align AND (align - 1) \<noteq> 0 then norm_loop MIN_ALIGNMENT align else Some align)"

definition payload_start :: "u32 \<Rightarrow> u32" where "payload_start block = block + hdr_size"

definition block_from_payload :: "(u32 \<Rightarrow> u8) \<Rightarrow> u32 \<Rightarrow> u32" where
  "block_from_payload m ptr = (if ptr \<noteq> 0 then rd32 m (ptr - 4) else 0)"

definition lock_heap :: "heap \<Rightarrow> heap option" where
  "lock_heap s = (if g_heapLock s \<noteq> 0 then None else Some (s\<lparr>g_heapLock := 1\<rparr>))"

definition unlock_heap :: "heap \<Rightarrow> heap" where
  "unlock_heap s = s\<lparr>g_heapLock := 0\<rparr>"

definition put_header :: "u32 \<Rightarrow> u32 \<Rightarrow> u32 \<Rightarrow> u32 \<Rightarrow> (u32 \<Rightarrow> u8) \<Rightarrow> (u32 \<Rightarrow> u8)" where
  "put_header b sz prev nxt m =
     wr32 (f_reserved b) 0 (wr32 (f_used b) 0 (wr32 (f_next b) nxt
       (wr32 (f_prev b) prev (wr32 (f_size b) sz (wr32 (f_magic b) HEAP_MAGIC m)))))"

definition create_block_at :: "u32 \<Rightarrow> u32 \<Rightarrow> u32 \<Rightarrow> heap \<Rightarrow> heap" where
  "create_block_at addr sz prev s =
     (let m1 = put_header addr sz prev 0 (hmem s);
          m2 = (if prev \<noteq> 0 then wr32 (f_next prev) addr m1 else m1)
      in s\<lparr>hmem := m2,
           g_firstBlock := (if g_firstBlock s = 0 then addr else g_firstBlock s),
           g_lastBlock := addr\<rparr>)"

text \<open>\<^verbatim>\<open>if (n) n->prev = b; else g_lastBlock = b;\<close> as in both \<^verbatim>\<open>absorb_next\<close> and \<^verbatim>\<open>split_block\<close>.\<close>

definition relink :: "u32 \<Rightarrow> u32 \<Rightarrow> heap \<Rightarrow> heap" where
  "relink n b s = (if n \<noteq> 0 then s\<lparr>hmem := wr32 (f_prev n) b (hmem s)\<rparr> else s\<lparr>g_lastBlock := b\<rparr>)"

definition absorb_next :: "u32 \<Rightarrow> heap \<Rightarrow> heap" where
  "absorb_next block s =
     (let next = (if block \<noteq> 0 then rd32 (hmem s) (f_next block) else 0)
      in if block = 0 \<or> next = 0 \<or> rd32 (hmem s) (f_used next) \<noteq> 0 then s
         else let m1 = wr32 (f_size block)
                    (rd32 (hmem s) (f_size block) + (hdr_size + rd32 (hmem s) (f_size next))) (hmem s);
                  nn = rd32 m1 (f_next next);
                  m2 = wr32 (f_next block) nn m1
              in relink nn block (s\<lparr>hmem := m2\<rparr>))"

definition split_block :: "u32 \<Rightarrow> u32 \<Rightarrow> heap \<Rightarrow> heap" where
  "split_block block usedSize s =
     (if block = 0 then s
      else if rd32 (hmem s) (f_size block) \<le> usedSize + hdr_size + SPLIT_THRESHOLD then s
      else let newBlock = payload_start block + usedSize;
               remaining = rd32 (hmem s) (f_size block) - usedSize - hdr_size;
               nn = rd32 (hmem s) (f_next block);
               m1 = put_header newBlock remaining block nn (hmem s);
               s1 = relink nn newBlock (s\<lparr>hmem := m1\<rparr>)
           in s1\<lparr>hmem := wr32 (f_size block) usedSize (wr32 (f_next block) newBlock (hmem s1))\<rparr>)"

text \<open>One frame mapped at the end of the heap; \<open>False\<close> when no frame is left.\<close>

definition map_page_at_end :: "heap \<Rightarrow> (heap \<times> bool) option" where
  "map_page_at_end s =
     do {
       (p', frame) \<leftarrow> PMM_AllocFrame (pg_pmm (hp_paging s));
       let s1 = s\<lparr>hp_paging := (hp_paging s)\<lparr>pg_pmm := p'\<rparr>\<rparr>;
       if frame = 0 then Some (s1, False)
       else do {
         pg \<leftarrow> MapPage (g_heapEnd s1) frame (Paging_Present OR Paging_RW) (hp_paging s1);
         Some (s1\<lparr>hp_paging := pg, g_heapEnd := g_heapEnd s1 + 4096\<rparr>, True)
       }
     }"

fun map_pages :: "nat \<Rightarrow> heap \<Rightarrow> (heap \<times> bool) option" where
  "map_pages 0 s = Some (s, True)"
| "map_pages (Suc n) s =
     do { (s1, ok) \<leftarrow> map_page_at_end s; if ok then map_pages n s1 else Some (s1, False) }"

definition grow_pages :: "u32 \<Rightarrow> u32" where
  "grow_pages minPayload =
     (let totalBytes = minPayload + hdr_size;
          pages = (ucast ((ucast totalBytes + 4096 - 1 :: u64) div 4096) :: u32)
      in if pages = 0 then 1 else pages)"

text \<open>The new bytes go to the last block if it is free, else they form a block of their own.\<close>

definition add_bytes :: "u32 \<Rightarrow> heap \<Rightarrow> heap" where
  "add_bytes growStart s =
     (let addedBytes = g_heapEnd s - growStart; l = g_lastBlock s
      in if l \<noteq> 0 \<and> rd32 (hmem s) (f_used l) = 0
         then s\<lparr>hmem := wr32 (f_size l) (rd32 (hmem s) (f_size l) + addedBytes) (hmem s)\<rparr>
         else create_block_at growStart (addedBytes - hdr_size) l s)"

definition grow_heap :: "u32 \<Rightarrow> heap \<Rightarrow> (heap \<times> bool) option" where
  "grow_heap minPayload s =
     do {
       (s1, ok) \<leftarrow> map_pages (unat (grow_pages minPayload)) s;
       if \<not> ok then Some (s1, False) else Some (add_bytes (g_heapEnd s) s1, True)
     }"

text \<open>The search: block, user pointer and bytes consumed; block 0 when no block fits.\<close>

partial_function (option) find_block ::
  "(u32 \<Rightarrow> u8) \<Rightarrow> u32 \<Rightarrow> u32 \<Rightarrow> u32 \<Rightarrow> (u32 \<times> u32 \<times> u32) option" where
  "find_block m sz align block =
     (if block = 0 then Some (0, 0, 0)
      else if rd32 m (f_used block) \<noteq> 0 then find_block m sz align (rd32 m (f_next block))
      else let raw = payload_start block;
               user = align_up_ptr (raw + 4) align;
               prefix = user - raw;
               consumed = prefix + sz
           in if rd32 m (f_size block) < consumed then find_block m sz align (rd32 m (f_next block))
              else Some (block, user, consumed))"

partial_function (option) Heap_ensure :: "u32 \<Rightarrow> heap \<Rightarrow> (heap \<times> bool) option" where
  "Heap_ensure limit s =
     (if g_heapEnd s < limit
      then do { (s1, ok) \<leftarrow> map_page_at_end s; if ok then Heap_ensure limit s1 else Some (s1, False) }
      else Some (s, True))"

definition Heap_Init :: "u32 \<Rightarrow> u32 \<Rightarrow> heap \<Rightarrow> heap option" where
  "Heap_Init base initialPages s =
     (let s1 = s\<lparr>g_heapBase := base, g_heapEnd := base, g_heapUsed := 0, g_firstBlock := 0, g_lastBlock := 0\<rparr>;
          pages = (if initialPages = 0 then 1 else initialPages)
      in do {
        (s2, ok) \<leftarrow> Heap_ensure (base + pages * 4096) s1;
        Some (if ok then create_block_at base (g_heapEnd s2 - g_heapBase s2 - hdr_size) 0 s2 else s2)
      })"

text \<open>The part of \<^verbatim>\<open>Alloc\<close> after a block has been found, up to the return.\<close>

definition take_block :: "u32 \<Rightarrow> u32 \<Rightarrow> u32 \<Rightarrow> heap \<Rightarrow> heap" where
  "take_block block userPtr consumed s =
     (let s1 = split_block block consumed s;
          m1 = wr32 (f_used block) 1 (hmem s1);
          m2 = wr32 (userPtr - 4) block m1
      in unlock_heap (s1\<lparr>hmem := m2, g_heapUsed := g_heapUsed s1 + rd32 m2 (f_size block)\<rparr>))"

definition Heap_Alloc :: "u32 \<Rightarrow> u32 \<Rightarrow> heap \<Rightarrow> (heap \<times> u32) option" where
  "Heap_Alloc sz align s =
     (if sz = 0 then Some (s, 0)
      else do {
        align' \<leftarrow> normalize_align align;
        s1 \<leftarrow> lock_heap s;
        (block, userPtr, consumed) \<leftarrow> find_block (hmem s1) sz align' (g_firstBlock s1);
        if block \<noteq> 0 then Some (take_block block userPtr consumed s1, userPtr)
        else do {
          (s2, ok) \<leftarrow> grow_heap (sz + align' + 4) s1;
          if \<not> ok then Some (unlock_heap s2, 0)
          else do {
            (block, userPtr, consumed) \<leftarrow> find_block (hmem s2) sz align' (g_firstBlock s2);
            if block = 0 then Some (unlock_heap s2, 0)
            else Some (take_block block userPtr consumed s2, userPtr)
          }
        }
      })"

text \<open>\<^verbatim>\<open>if (block->prev && !block->prev->used) absorb_next(block->prev);\<close>\<close>

definition absorb_prev :: "u32 \<Rightarrow> heap \<Rightarrow> heap" where
  "absorb_prev block s =
     (let prev = rd32 (hmem s) (f_prev block)
      in if prev \<noteq> 0 \<and> rd32 (hmem s) (f_used prev) = 0 then absorb_next prev s else s)"

definition Heap_Free :: "u32 \<Rightarrow> heap \<Rightarrow> heap option" where
  "Heap_Free ptr s =
     (if ptr = 0 then Some s
      else do {
        s1 \<leftarrow> lock_heap s;
        let block = block_from_payload (hmem s1) ptr;
        if block = 0 \<or> rd32 (hmem s1) (f_magic block) \<noteq> HEAP_MAGIC \<or> rd32 (hmem s1) (f_used block) = 0
        then Some (unlock_heap s1)
        else
          let bsz = rd32 (hmem s1) (f_size block);
              s2 = s1\<lparr>hmem := wr32 (f_used block) 0 (hmem s1),
                      g_heapUsed := (if bsz \<le> g_heapUsed s1 then g_heapUsed s1 - bsz else 0)\<rparr>
          in Some (unlock_heap (absorb_prev block (absorb_next block s2)))
      })"

definition Heap_Used :: "heap \<Rightarrow> u32" where "Heap_Used s = g_heapUsed s"
definition Heap_Brk :: "heap \<Rightarrow> u32" where "Heap_Brk s = g_heapBase s + g_heapUsed s"
definition Heap_End :: "heap \<Rightarrow> u32" where "Heap_End s = g_heapEnd s"

text \<open>The global allocation functions: \<^verbatim>\<open>delete\<close> releases nothing.\<close>

definition operator_new :: "u32 \<Rightarrow> heap \<Rightarrow> (heap \<times> u32) option" where
  "operator_new sz = Heap_Alloc sz 8"

definition operator_delete :: "u32 \<Rightarrow> heap \<Rightarrow> heap" where
  "operator_delete ptr s = s"

section \<open>Alignment\<close>

lemma and_not_mask_word: "(a :: 'a::len word) AND NOT (mask k) = a - take_bit k a"
proof -
  have "a AND NOT (mask k) = push_bit k (drop_bit k a)"
    by (rule bit_word_eqI) (auto simp: bit_simps)
  then show ?thesis using bits_ident [of k a] by (simp add: eq_diff_eq)
qed

lemma align_up_ptr_spec:
  fixes raw :: u32
  assumes A: "unat A = 2 ^ k" "k \<le> 31"
  defines "prefix \<equiv> align_up_ptr (raw + 4) A - raw"
  shows "4 \<le> unat prefix" "unat prefix < 2 ^ k + 4" "take_bit k (align_up_ptr (raw + 4) A) = 0"
proof -
  let ?y = "raw + 4 + A - 1"
  have "A = of_nat (unat A)" by simp
  then have Aw: "A = 2 ^ k" unfolding A(1) by simp
  then have mask: "A - 1 = mask k" by (simp add: mask_eq_exp_minus_1)
  have up: "align_up_ptr (raw + 4) A = ?y - take_bit k ?y"
    unfolding align_up_ptr_def mask by (simp add: and_not_mask_word)
  have r: "unat (take_bit k ?y) < 2 ^ k" by (simp add: unsigned_take_bit_eq)
  have "unat (A + 3) = 2 ^ k + 3"
    using A power_increasing [of k 31 "2 :: nat"] by (simp add: unat_add_nowrap)
  moreover have p: "prefix = A + 3 - take_bit k ?y" unfolding prefix_def up by simp
  ultimately have "unat prefix = 2 ^ k + 3 - unat (take_bit k ?y)"
    unfolding p using r by (subst unat_sub_nowrap) simp_all
  then show "4 \<le> unat prefix" "unat prefix < 2 ^ k + 4" using r by linarith+
  show "take_bit k (align_up_ptr (raw + 4) A) = 0"
    unfolding align_up_ptr_def mask by (rule bit_word_eqI) (auto simp: bit_simps)
qed

lemma norm_loop_spec:
  assumes "unat n = 2 ^ j" "j \<le> 31" "unat align \<le> 2 ^ 31"
  shows "\<exists>A k. norm_loop n align = Some A \<and> j \<le> k \<and> k \<le> 31 \<and> unat A = 2 ^ k \<and> unat align \<le> 2 ^ k"
  using assms(1,2)
proof (induction "31 - j" arbitrary: j n)
  case 0
  then have "\<not> n < align" using assms(3) by (simp add: word_less_nat_alt)
  then have "norm_loop n align = Some n" by (simp add: norm_loop.simps [of n])
  with 0 assms(3) show ?case by (intro exI [of _ n] exI [of _ 31]) simp
next
  case (Suc d)
  show ?case
  proof (cases "n < align")
    case False
    then have "norm_loop n align = Some n" by (simp add: norm_loop.simps [of n])
    with False Suc.prems show ?thesis by (intro exI [of _ n] exI [of _ j]) (simp add: word_less_nat_alt)
  next
    case True
    have j: "j < 31" and d: "d = 31 - Suc j" using Suc.hyps(2) by simp_all
    have "(2 :: nat) ^ j < 2 ^ 31" using j by (intro power_strict_increasing) simp_all
    then have "unat (push_bit 1 n) = 2 ^ Suc j"
      using Suc.prems(1) by (simp add: push_bit_eq_mult unat_mult_nowrap)
    then obtain A k where "norm_loop (push_bit 1 n) align = Some A" "Suc j \<le> k" "k \<le> 31"
      "unat A = 2 ^ k" "unat align \<le> 2 ^ k"
      using Suc.hyps(1) [of "Suc j" "push_bit 1 n"] d j by auto
    with True show ?thesis by (intro exI [of _ A] exI [of _ k]) (simp add: norm_loop.simps [of n])
  qed
qed

lemma power_of_two_word:
  fixes a :: u32
  assumes "a AND (a - 1) = 0" "0 < unat a"
  obtains k where "unat a = 2 ^ k" "k \<le> 31"
proof -
  obtain k where k: "2 ^ k \<le> unat a" "unat a < 2 ^ Suc k"
    using ex_power_ivl1 [of 2 "unat a"] assms(2) by auto
  have "(2 :: nat) ^ k < 2 ^ 32" using k(1) u32_less_limit [of a] by (simp add: order.strict_trans1)
  then have k31: "k < 32" by (simp only: power_strict_increasing_iff)
  have odd: "bit w k" if "2 ^ k \<le> unat w" "unat w < 2 ^ Suc k" for w :: u32
  proof -
    have "unat w div 2 ^ k = 1" using that by (intro div_nat_eqI) simp_all
    then have "bit (unat w) k" by (simp add: bit_iff_odd)
    then show ?thesis by (simp add: bit_unsigned_iff)
  qed
  have "unat a = 2 ^ k"
  proof (rule ccontr)
    assume "unat a \<noteq> 2 ^ k"
    then have "2 ^ k \<le> unat (a - 1)" "unat (a - 1) < 2 ^ Suc k"
      using k assms(2) by (simp_all add: unat_sub_nowrap)
    then have "bit (a AND (a - 1)) k" using odd k by (simp add: bit_and_iff)
    with assms(1) show False by simp
  qed
  with k31 that show thesis by force
qed

text \<open>
  Every alignment up to 2 GiB is normalised to a power of two that is at least as large and at
  least 8; a power of two is left alone.
\<close>

lemma normalize_align_spec:
  assumes "unat align \<le> 2 ^ 31"
  obtains A k where "normalize_align align = Some A" "3 \<le> k" "k \<le> 31" "unat A = 2 ^ k" "unat align \<le> 2 ^ k"
proof -
  let ?a = "if align < 8 then 8 else align"
  have a: "8 \<le> unat ?a" "unat align \<le> unat ?a" "unat ?a \<le> 2 ^ 31"
    using assms by (auto simp: word_less_nat_alt)
  show thesis
  proof (cases "?a AND (?a - 1) = 0")
    case True
    from a(1) have "0 < unat ?a" by linarith
    from power_of_two_word [OF True this] obtain k where k: "unat ?a = 2 ^ k" "k \<le> 31" .
    have "3 \<le> k"
    proof (rule ccontr)
      assume "\<not> 3 \<le> k"
      then have "(2 :: nat) ^ k < 2 ^ 3" by (intro power_strict_increasing) simp_all
      with k(1) a(1) show False by simp
    qed
    with k a that [of ?a k] True show thesis by (simp add: normalize_align_def Let_def)
  next
    case False
    have "unat (8 :: u32) = 2 ^ 3" by simp
    from norm_loop_spec [OF this _ a(3)] obtain A k where "norm_loop 8 ?a = Some A" "3 \<le> k" "k \<le> 31"
      "unat A = 2 ^ k" "unat ?a \<le> 2 ^ k" by auto
    with a(2) that [of A k] False show thesis by (simp add: normalize_align_def Let_def del: if_split)
  qed
qed

lemma norm_loop_diverges:
  assumes "2 ^ 31 < unat align" "n = 0 \<or> (\<exists>j \<le> 31. unat n = 2 ^ j)"
  shows "norm_loop n align = None"
proof (rule ccontr)
  assume "norm_loop n align \<noteq> None"
  then obtain r where "norm_loop n align = Some r" by blast
  then have "2 ^ 31 < unat align \<longrightarrow> (n = 0 \<or> (\<exists>j \<le> 31. unat n = 2 ^ j)) \<longrightarrow> False"
  proof (rule norm_loop.raw_induct
      [where P = "\<lambda>n align _. 2 ^ 31 < unat align \<longrightarrow> (n = 0 \<or> (\<exists>j \<le> 31. unat n = 2 ^ j)) \<longrightarrow> False", rotated])
    fix loop and n align r :: u32
    assume IH: "\<And>n align r. loop n align = Some r \<Longrightarrow>
        2 ^ 31 < unat align \<longrightarrow> (n = 0 \<or> (\<exists>j \<le> 31. unat n = 2 ^ j)) \<longrightarrow> False"
      and eq: "(if n < align then loop (push_bit 1 n) align else Some n) = Some r"
    show "2 ^ 31 < unat align \<longrightarrow> (n = 0 \<or> (\<exists>j \<le> 31. unat n = 2 ^ j)) \<longrightarrow> False"
    proof (intro impI)
      assume big: "2 ^ 31 < unat align" and n: "n = 0 \<or> (\<exists>j \<le> 31. unat n = 2 ^ j)"
      have le: "unat n \<le> 2 ^ 31" using n power_increasing [of _ 31 "2 :: nat"] by fastforce
      then have "n < align" using big by (simp add: word_less_nat_alt)
      then have step: "loop (push_bit 1 n) align = Some r" using eq by simp
      have "push_bit 1 n = 0 \<or> (\<exists>j \<le> 31. unat (push_bit 1 n) = 2 ^ j)"
      proof (cases "n = 0")
        case False
        then obtain j where j: "j \<le> 31" "unat n = 2 ^ j" using n by blast
        show ?thesis
        proof (cases "j = 31")
          case True
          then have "n = 0x80000000" using j by (simp add: word_unat_eq_iff)
          then show ?thesis by simp
        next
          case False
          then have "(2 :: nat) ^ j < 2 ^ 31" using j(1) by (intro power_strict_increasing) simp_all
          then have "unat (push_bit 1 n) = 2 ^ Suc j"
            using j(2) by (simp add: push_bit_eq_mult unat_mult_nowrap)
          with False j(1) show ?thesis by (intro disjI2 exI [of _ "Suc j"]) simp
        qed
      qed simp
      with IH [OF step] big show False by blast
    qed
  qed
  with assms show False by blast
qed

section \<open>Blocks in address order\<close>

text \<open>A block: header address, payload size, and the user pointer if it is allocated.\<close>

datatype blk = Blk (baddr: u32) (bsize: u32) (buser: "u32 option")

definition bend :: "blk \<Rightarrow> nat" where
  "bend b = unat (baddr b) + 24 + unat (bsize b)"

definition slot_ok :: "blk \<Rightarrow> bool" where
  "slot_ok b \<longleftrightarrow> (case buser b of None \<Rightarrow> True | Some u \<Rightarrow> unat (baddr b) + 28 \<le> unat u \<and> unat u \<le> bend b)"

text \<open>Blocks lie in \<open>[lo, hi)\<close> one after the other, possibly with gaps.\<close>

fun laid :: "nat \<Rightarrow> nat \<Rightarrow> blk list \<Rightarrow> bool" where
  "laid lo hi [] = (lo \<le> hi)"
| "laid lo hi (b # bs) = (lo \<le> unat (baddr b) \<and> slot_ok b \<and> laid (bend b) hi bs)"

definition hdr :: "(u32 \<Rightarrow> u8) \<Rightarrow> blk \<Rightarrow> u32 \<Rightarrow> u32 \<Rightarrow> bool" where
  "hdr m b p n \<longleftrightarrow> rd32 m (baddr b) = HEAP_MAGIC \<and> rd32 m (baddr b + 4) = bsize b \<and>
     rd32 m (baddr b + 8) = p \<and> rd32 m (baddr b + 12) = n \<and>
     rd32 m (baddr b + 16) = (if buser b = None then 0 else 1) \<and>
     (case buser b of None \<Rightarrow> True | Some u \<Rightarrow> rd32 m (u - 4) = baddr b)"

definition hd_addr :: "blk list \<Rightarrow> u32 \<Rightarrow> u32" where
  "hd_addr bs n = (case bs of [] \<Rightarrow> n | b # _ \<Rightarrow> baddr b)"

definition last_addr :: "blk list \<Rightarrow> u32 \<Rightarrow> u32" where
  "last_addr bs p = (if bs = [] then p else baddr (last bs))"

text \<open>The headers link the blocks: \<open>p\<close> precedes the first one and \<open>n\<close> follows the last one.\<close>

fun links :: "(u32 \<Rightarrow> u8) \<Rightarrow> u32 \<Rightarrow> blk list \<Rightarrow> u32 \<Rightarrow> bool" where
  "links m p [] n = True"
| "links m p (b # bs) n = (hdr m b p (hd_addr bs n) \<and> links m (baddr b) bs n)"

definition heap_rep :: "heap \<Rightarrow> blk list \<Rightarrow> bool" where
  "heap_rep s bl \<longleftrightarrow> links (hmem s) 0 bl 0 \<and> laid (unat (g_heapBase s)) (unat (g_heapEnd s)) bl \<and>
     g_firstBlock s = hd_addr bl 0 \<and> g_lastBlock s = last_addr bl 0 \<and> 4096 \<le> unat (g_heapBase s)"

lemma addr_simps [simp]:
  "hd_addr [] n = n" "hd_addr (b # bs) n = baddr b" "last_addr [] p = p"
  "last_addr (bs @ [b]) p = baddr b" "last_addr (b # bs) p = last_addr bs (baddr b)"
  "last_addr (bs @ b # cs) p = last_addr cs (baddr b)"
  by (simp_all add: hd_addr_def last_addr_def)

lemma hd_addr_append [simp]: "hd_addr (xs @ ys) n = hd_addr xs (hd_addr ys n)"
  by (cases xs) simp_all

lemma links_append:
  "links m p (xs @ ys) n \<longleftrightarrow> links m p xs (hd_addr ys n) \<and> links m (last_addr xs p) ys n"
  by (induction xs arbitrary: p) auto

lemma laid_le: "laid lo hi bs \<Longrightarrow> lo \<le> hi"
proof (induction bs arbitrary: lo)
  case (Cons b bs)
  then have "bend b \<le> hi" by simp
  with Cons.prems show ?case by (simp add: bend_def)
qed simp

lemma laid_append_Cons:
  "laid lo hi (xs @ b # ys) \<longleftrightarrow> laid lo (unat (baddr b)) xs \<and> slot_ok b \<and> laid (bend b) hi ys"
  by (induction xs arbitrary: lo) auto

lemma laid_mem: "laid lo hi bs \<Longrightarrow> b \<in> set bs \<Longrightarrow> lo \<le> unat (baddr b) \<and> bend b \<le> hi \<and> slot_ok b"
proof (induction bs arbitrary: lo)
  case (Cons c bs)
  have "unat (baddr c) \<le> bend c" by (simp add: bend_def)
  moreover have "bend c \<le> hi" using Cons.prems(1) laid_le by auto
  ultimately show ?case using Cons.IH [of "bend c"] Cons.prems by auto
qed simp

lemma laid_mono: "laid lo hi bs \<Longrightarrow> lo' \<le> lo \<Longrightarrow> hi \<le> hi' \<Longrightarrow> laid lo' hi' bs"
  by (induction bs arbitrary: lo lo') auto

lemma hdr_agree:
  assumes "agree m m' (unat (baddr b)) (bend b)" "slot_ok b" "bend b \<le> 2 ^ 32"
  shows "hdr m' b p n = hdr m b p n"
proof -
  have f: "rd32 m' (baddr b + k) = rd32 m (baddr b + k)" if "unat k \<le> 20" for k
  proof -
    have "unat (baddr b + k) = unat (baddr b) + unat k"
      using assms(3) that by (simp add: unat_add_nowrap bend_def)
    then show ?thesis using assms that by (intro rd32_agree [OF assms(1)]) (simp_all add: bend_def)
  qed
  have "rd32 m' (u - 4) = rd32 m (u - 4)" if "buser b = Some u" for u
  proof -
    have u: "unat (baddr b) + 28 \<le> unat u" "unat u \<le> bend b" using assms(2) that by (simp_all add: slot_ok_def)
    then have "unat (u - 4) = unat u - 4" by (simp add: unat_sub_nowrap)
    then show ?thesis using assms(3) u by (intro rd32_agree [OF assms(1)]) simp_all
  qed
  then show ?thesis
    using f [of 0] f [of 4] f [of 8] f [of 12] f [of 16] by (auto simp: hdr_def split: option.splits)
qed

lemma links_agree:
  assumes "\<And>b. b \<in> set bs \<Longrightarrow> agree m m' (unat (baddr b)) (bend b)" "laid lo hi bs" "hi \<le> 2 ^ 32"
  shows "links m' p bs n = links m p bs n"
  using assms(1,2)
proof (induction bs arbitrary: p lo)
  case (Cons b bs)
  then have "slot_ok b" "laid (bend b) hi bs" by auto
  moreover have "bend b \<le> 2 ^ 32" using laid_le [OF calculation(2)] assms(3) by simp
  moreover have "agree m m' (unat (baddr b)) (bend b)" using Cons.prems(1) by simp
  ultimately have "hdr m' b p (hd_addr bs n) = hdr m b p (hd_addr bs n)" by (intro hdr_agree)
  moreover have "links m' (baddr b) bs n = links m (baddr b) bs n"
    using Cons.IH [of "bend b" "baddr b"] Cons.prems by simp
  ultimately show ?case by simp
qed simp

lemma links_agree_range:
  assumes "agree m m' lo hi" "laid lo hi bs" "hi \<le> 2 ^ 32"
  shows "links m' p bs n = links m p bs n"
proof (rule links_agree [OF _ assms(2,3)])
  fix b assume "b \<in> set bs"
  then show "agree m m' (unat (baddr b)) (bend b)"
    using agree_sub [OF assms(1)] laid_mem [OF assms(2)] by blast
qed

subsection \<open>Writing header fields\<close>

named_theorems fld_simps \<open>reads and writes of header fields of one block\<close>

lemma unat_fld: "unat a + 24 \<le> 2 ^ 32 \<Longrightarrow> unat k \<le> 20 \<Longrightarrow> unat (a + k) = unat a + unat (k :: u32)"
  by (simp add: unat_add_nowrap)

lemma rd_fld [fld_simps]:
  assumes "unat a + 24 \<le> 2 ^ 32" "unat k \<le> 20" "unat l \<le> 20" "unat k + 4 \<le> unat l \<or> unat l + 4 \<le> unat k"
  shows "rd32 (wr32 (a + k) v m) (a + l) = rd32 m (a + l)"
  using assms by (intro rd32_wr32_other) (auto simp: unat_fld)

lemma rd_fld_0 [fld_simps]:
  assumes "unat a + 24 \<le> 2 ^ 32" "unat k \<le> 20" "4 \<le> unat k"
  shows "rd32 (wr32 (a + k) v m) a = rd32 m a" "rd32 (wr32 a v m) (a + k) = rd32 m (a + k)"
  using assms by (intro rd32_wr32_other; simp add: unat_fld)+

lemma rd_slot [fld_simps]:
  assumes "unat a + 28 \<le> unat u" "unat k \<le> 20"
  shows "rd32 (wr32 (a + k) v m) (u - 4) = rd32 m (u - 4)"
    "rd32 (wr32 (u - 4) v m) (a + k) = rd32 m (a + k)"
proof -
  have u: "unat (u - 4) = unat u - 4" using assms by (simp add: unat_sub_nowrap)
  have "unat a + 24 \<le> 2 ^ 32" using assms(1) u32_less_limit [of u] by simp
  then show "rd32 (wr32 (a + k) v m) (u - 4) = rd32 m (u - 4)"
    "rd32 (wr32 (u - 4) v m) (a + k) = rd32 m (a + k)"
    using assms u32_less_limit [of u] by (intro rd32_wr32_other; simp add: unat_fld u)+
qed

lemma rd_slot_0 [fld_simps]:
  "unat a + 28 \<le> unat u \<Longrightarrow> rd32 (wr32 (u - 4) v m) a = rd32 m a"
  using rd_slot(2) [of a u 0] by simp

lemma agree_fld:
  assumes "agree m m' lo hi" "unat a + 24 \<le> 2 ^ 32" "unat k \<le> 20" "unat a + 24 \<le> lo \<or> hi \<le> unat a"
  shows "agree m (wr32 (a + k) v m') lo hi"
  using assms by (intro agree_wr32) (auto simp: unat_fld)

lemma agree_fld_0:
  assumes "agree m m' lo hi" "unat a + 24 \<le> 2 ^ 32" "unat a + 24 \<le> lo \<or> hi \<le> unat a"
  shows "agree m (wr32 a v m') lo hi"
  using agree_fld [OF assms(1,2) _ assms(3), of 0] by simp

lemma hdr_writes:
  assumes "hdr m b p n" "slot_ok b" "bend b \<le> 2 ^ 32"
  shows "hdr (wr32 (baddr b + 4) z m) (Blk (baddr b) z (buser b)) p n"
    "hdr (wr32 (baddr b + 8) q m) b q n" "hdr (wr32 (baddr b + 12) q m) b p q"
    "hdr (wr32 (baddr b + 16) 0 m) (Blk (baddr b) (bsize b) None) p n"
    "unat (baddr b) + 28 \<le> unat u \<Longrightarrow> 
     hdr (wr32 (u - 4) (baddr b) (wr32 (baddr b + 16) 1 m)) (Blk (baddr b) (bsize b) (Some u)) p n"
proof -
  have a: "unat (baddr b) + 24 \<le> 2 ^ 32" using assms(3) by (simp add: bend_def)
  note s = fld_simps hdr_def slot_ok_def
  show "hdr (wr32 (baddr b + 4) z m) (Blk (baddr b) z (buser b)) p n"
    "hdr (wr32 (baddr b + 8) q m) b q n" "hdr (wr32 (baddr b + 12) q m) b p q"
    "hdr (wr32 (baddr b + 16) 0 m) (Blk (baddr b) (bsize b) None) p n"
    using assms(1,2) a by (auto simp: s split: option.splits)
  show "hdr (wr32 (u - 4) (baddr b) (wr32 (baddr b + 16) 1 m)) (Blk (baddr b) (bsize b) (Some u)) p n"
    if "unat (baddr b) + 28 \<le> unat u"
    using assms(1) that a by (auto simp: s)
qed

lemma put_header_hdr:
  assumes "unat a + 24 \<le> 2 ^ 32"
  shows "hdr (put_header a sz p n m) (Blk a sz None) p n"
  using assms by (simp add: hdr_def put_header_def fld_simps)

lemma put_header_agree:
  assumes "unat a + 24 \<le> 2 ^ 32" "unat a + 24 \<le> lo \<or> hi \<le> unat a"
  shows "agree m (put_header a sz p n m) lo hi"
  unfolding put_header_def using assms by (intro agree_fld agree_fld_0 agree_refl) simp_all

text \<open>Relinking the block that follows.\<close>

lemma links_set_prev:
  assumes "links m p bs n" "laid lo hi bs" "hi \<le> 2 ^ 32" "bs \<noteq> []"
  shows "links (wr32 (hd_addr bs 0 + 8) q m) q bs n" "agree m (wr32 (hd_addr bs 0 + 8) q m) 0 lo"
proof -
  obtain b cs where bs: "bs = b # cs" using assms(4) by (cases bs) auto
  have b: "slot_ok b" "laid (bend b) hi cs" "lo \<le> unat (baddr b)" "bend b \<le> 2 ^ 32"
    using assms(2,3) laid_le [of "bend b" hi cs] by (auto simp: bs)
  have a: "unat (baddr b) + 24 \<le> 2 ^ 32" "unat (baddr b) + 24 \<le> bend b" using b(4) by (simp_all add: bend_def)
  have "agree m (wr32 (baddr b + 8) q m) (bend b) hi"
    using a by (intro agree_fld agree_refl) simp_all
  from links_agree_range [OF this b(2) assms(3)]
  show "links (wr32 (hd_addr bs 0 + 8) q m) q bs n"
    using assms(1) hdr_writes(2) [OF _ b(1,4)] unfolding bs by auto
  show "agree m (wr32 (hd_addr bs 0 + 8) q m) 0 lo"
    using a b(3) unfolding bs by (simp del: One_nat_def) (intro agree_fld agree_refl, simp_all)
qed

lemma relink_spec:
  fixes q :: u32
  assumes "links (hmem s) p bs 0" "laid lo hi bs" "hi \<le> 2 ^ 32" "0 < lo" "g_lastBlock s = last_addr bs p"
  defines "s' \<equiv> relink (hd_addr bs 0) q s"
  shows "links (hmem s') q bs 0" "agree (hmem s) (hmem s') 0 lo" "g_lastBlock s' = last_addr bs q"
    "s' = s\<lparr>hmem := hmem s', g_lastBlock := g_lastBlock s'\<rparr>"
proof -
  have "hd_addr bs 0 \<noteq> 0" if "bs \<noteq> []"
    using that assms(2,4) by (cases bs) auto
  then show "links (hmem s') q bs 0" "agree (hmem s) (hmem s') 0 lo" "g_lastBlock s' = last_addr bs q"
    "s' = s\<lparr>hmem := hmem s', g_lastBlock := g_lastBlock s'\<rparr>"
    using links_set_prev [OF assms(1-3)] assms(5)
    by (cases "bs = []"; simp add: s'_def relink_def last_addr_def)+
qed

section \<open>The operations on the block list\<close>

lemma hdr_agree_free:
  assumes "agree m m' (unat (baddr b)) (unat (baddr b) + 24)" "buser b = None" "unat (baddr b) + 24 \<le> 2 ^ 32"
  shows "hdr m' b p n = hdr m b p n"
proof -
  have "rd32 m' (baddr b + k) = rd32 m (baddr b + k)" if "unat k \<le> 20" for k
    using assms(3) that by (intro rd32_agree [OF assms(1)]) (simp_all add: unat_fld)
  from this [of 0] this [of 4] this [of 8] this [of 12] this [of 16] show ?thesis
    using assms(2) by (simp add: hdr_def)
qed

lemma heap_rep_split:
  "heap_rep s (xs @ b # ys) \<longleftrightarrow>
     links (hmem s) 0 xs (baddr b) \<and> hdr (hmem s) b (last_addr xs 0) (hd_addr ys 0) \<and>
     links (hmem s) (baddr b) ys 0 \<and> laid (unat (g_heapBase s)) (unat (baddr b)) xs \<and> slot_ok b \<and>
     laid (bend b) (unat (g_heapEnd s)) ys \<and> g_firstBlock s = hd_addr xs (baddr b) \<and>
     g_lastBlock s = last_addr ys (baddr b) \<and> 4096 \<le> unat (g_heapBase s)"
  by (auto simp: heap_rep_def links_append laid_append_Cons)

lemma heap_rep_bounds:
  assumes "heap_rep s (xs @ b # ys)"
  shows "4096 \<le> unat (baddr b)" "bend b \<le> unat (g_heapEnd s)" "bend b < 2 ^ 32" "baddr b \<noteq> 0"
proof -
  have "b \<in> set (xs @ b # ys)" by simp
  then show "4096 \<le> unat (baddr b)" "bend b \<le> unat (g_heapEnd s)"
    using assms laid_mem unfolding heap_rep_def by (blast intro: le_trans)+
  then show "bend b < 2 ^ 32" "baddr b \<noteq> 0" using u32_less_limit [of "g_heapEnd s"] by auto
qed

lemma heap_rep_modify:
  assumes "heap_rep s (xs @ b # ys)" "baddr b' = baddr b" "slot_ok b'" "laid (bend b') (unat (g_heapEnd s)) ys"
    and "agree (hmem s) m' 0 (unat (baddr b))" "agree (hmem s) m' (bend b) (2 ^ 32)"
    and "hdr m' b' (last_addr xs 0) (hd_addr ys 0)"
  shows "heap_rep (s\<lparr>hmem := m'\<rparr>) (xs @ b' # ys)"
proof -
  have r: "links (hmem s) 0 xs (baddr b)" "links (hmem s) (baddr b) ys 0"
    "laid (unat (g_heapBase s)) (unat (baddr b)) xs" "laid (bend b) (unat (g_heapEnd s)) ys"
    using assms(1) by (simp_all add: heap_rep_split)
  have "links m' 0 xs (baddr b) = links (hmem s) 0 xs (baddr b)"
    using links_agree_range [OF agree_sub [OF assms(5)] r(3)] u32_less_limit [of "baddr b"] by simp
  moreover have "links m' (baddr b) ys 0 = links (hmem s) (baddr b) ys 0"
    using links_agree_range [OF agree_sub [OF assms(6)] r(4)] u32_less_limit [of "g_heapEnd s"] by simp
  ultimately show ?thesis using assms r by (simp add: heap_rep_split)
qed

lemma agree_own_fields:
  assumes "bend b \<le> 2 ^ 32" "unat k \<le> 20"
  shows "agree m (wr32 (baddr b + k) v m) 0 (unat (baddr b))" "agree m (wr32 (baddr b + k) v m) (bend b) hi"
  using assms by (intro agree_fld agree_refl; simp add: bend_def)+

lemma heap_rep_mark_free:
  assumes "heap_rep s (xs @ b # ys)"
  shows "heap_rep (s\<lparr>hmem := wr32 (baddr b + 16) 0 (hmem s)\<rparr>) (xs @ Blk (baddr b) (bsize b) None # ys)"
proof -
  note bd = heap_rep_bounds [OF assms]
  show ?thesis
    by (rule heap_rep_modify [OF assms])
      (use assms bd agree_own_fields [of b 16] hdr_writes(4) [of "hmem s" b] in
        \<open>simp_all add: heap_rep_split slot_ok_def bend_def\<close>)
qed

lemma heap_rep_mark_used:
  assumes "heap_rep s (xs @ b # ys)" "unat (baddr b) + 28 \<le> unat u" "unat u \<le> bend b"
  shows "heap_rep (s\<lparr>hmem := wr32 (u - 4) (baddr b) (wr32 (baddr b + 16) 1 (hmem s))\<rparr>)
    (xs @ Blk (baddr b) (bsize b) (Some u) # ys)"
proof -
  note bd = heap_rep_bounds [OF assms(1)]
  have u: "unat (u - 4) = unat u - 4" using assms(2) by (simp add: unat_sub_nowrap)
  have "agree (hmem s) (wr32 (u - 4) (baddr b) (wr32 (baddr b + 16) 1 (hmem s))) 0 (unat (baddr b))"
    "agree (hmem s) (wr32 (u - 4) (baddr b) (wr32 (baddr b + 16) 1 (hmem s))) (bend b) (2 ^ 32)"
    using bd(3) assms(2,3) u32_less_limit [of u]
    by (intro agree_wr32 [OF agree_own_fields(1)] agree_wr32 [OF agree_own_fields(2)]; simp add: u)+
  then show ?thesis
    by (intro heap_rep_modify [OF assms(1)])
      (use assms bd hdr_writes(5) [of "hmem s" b] in \<open>simp_all add: heap_rep_split slot_ok_def bend_def\<close>)
qed

lemma heap_rep_resize:
  assumes "heap_rep s (xs @ b # ys)" "laid (unat (baddr b) + 24 + unat z) (unat (g_heapEnd s)) ys" "buser b = None"
  shows "heap_rep (s\<lparr>hmem := wr32 (baddr b + 4) z (hmem s)\<rparr>) (xs @ Blk (baddr b) z None # ys)"
proof -
  note bd = heap_rep_bounds [OF assms(1)]
  show ?thesis
    by (rule heap_rep_modify [OF assms(1)])
      (use assms bd agree_own_fields [of b 4] hdr_writes(1) [of "hmem s" b _ _ z] in
        \<open>simp_all add: heap_rep_split slot_ok_def bend_def\<close>)
qed

subsection \<open>Coalescing\<close>

lemma absorb_next_rep:
  assumes rep: "heap_rep s (xs @ b # c # ys)" and free: "buser b = None" "buser c = None"
  shows "heap_rep (absorb_next (baddr b) s) (xs @ Blk (baddr b) (bsize b + (24 + bsize c)) None # ys)"
    "absorb_next (baddr b) s =
       s\<lparr>hmem := hmem (absorb_next (baddr b) s), g_lastBlock := g_lastBlock (absorb_next (baddr b) s)\<rparr>"
proof -
  let ?z = "bsize b + (24 + bsize c)"
  let ?m1 = "wr32 (baddr b + 4) ?z (hmem s)"
  let ?m2 = "wr32 (baddr b + 12) (hd_addr ys 0) ?m1"
  let ?s2 = "s\<lparr>hmem := ?m2\<rparr>"
  let ?s3 = "relink (hd_addr ys 0) (baddr b) ?s2"
  note bb = heap_rep_bounds [OF rep]
  have rc: "heap_rep s ((xs @ [b]) @ c # ys)" using rep by simp
  note bc = heap_rep_bounds [OF rc]
  have r: "links (hmem s) 0 xs (baddr b)" "hdr (hmem s) b (last_addr xs 0) (baddr c)"
    "hdr (hmem s) c (baddr b) (hd_addr ys 0)" "links (hmem s) (baddr c) ys 0"
    "laid (unat (g_heapBase s)) (unat (baddr b)) xs" "laid (bend c) (unat (g_heapEnd s)) ys"
    "bend b \<le> unat (baddr c)" "g_firstBlock s = hd_addr xs (baddr b)" "4096 \<le> unat (g_heapBase s)"
    "g_lastBlock s = last_addr ys (baddr c)"
    using rep by (simp_all add: heap_rep_split)
  have z: "unat ?z = unat (bsize b) + (24 + unat (bsize c))"
    using r(7) bc(3) by (simp add: bend_def unat_add_nowrap)
  then have be: "bend (Blk (baddr b) ?z None) \<le> bend c" using r(7) by (simp add: bend_def)
  have nz: "baddr b \<noteq> 0" "baddr c \<noteq> 0" using bb(4) bc(4) by blast+
  have nn: "rd32 ?m1 (baddr c + 12) = hd_addr ys 0"
    using r(3,7) bb(3) bc(3) by (subst rd32_wr32_other) (auto simp: hdr_def bend_def unat_fld)
  have eq: "absorb_next (baddr b) s = ?s3"
    using r(2,3) nz free(2) nn by (simp add: absorb_next_def Let_def hdr_def)
  have a2: "agree (hmem s) ?m2 0 (unat (baddr b))" "agree (hmem s) ?m2 (bend b) (2 ^ 32)"
    using bb(3) by (intro agree_fld agree_refl; simp add: bend_def)+
  have "links ?m2 (baddr c) ys 0"
    using links_agree_range [OF agree_sub [OF a2(2)] r(6)] r(4,7) bc u32_less_limit [of "g_heapEnd s"]
    by (simp add: bend_def)
  then have l2: "links (hmem ?s2) (baddr c) ys 0" by simp
  have "0 < bend c" "unat (g_heapEnd s) \<le> 2 ^ 32" "g_lastBlock ?s2 = last_addr ys (baddr c)"
    using u32_less_limit [of "g_heapEnd s"] r(10) by (simp_all add: bend_def)
  note re = relink_spec [OF l2 r(6) this(2,1,3), of "baddr b"]
  have "hdr ?m2 (Blk (baddr b) ?z None) (last_addr xs 0) (hd_addr ys 0)"
    using r(2) free(1) bb(3) by (auto simp: hdr_def fld_simps bend_def)
  then have h3: "hdr (hmem ?s3) (Blk (baddr b) ?z None) (last_addr xs 0) (hd_addr ys 0)"
    using hdr_agree [of ?m2 "hmem ?s3" "Blk (baddr b) ?z None"] agree_sub [OF re(2)] be bc(3)
    by (simp add: slot_ok_def)
  have "agree (hmem s) (hmem ?s3) 0 (unat (baddr b))"
    by (rule agree_trans [OF a2(1)]) (use agree_sub [OF re(2)] r(7) in \<open>simp add: bend_def\<close>)
  then have "links (hmem ?s3) 0 xs (baddr b) = links (hmem s) 0 xs (baddr b)"
    using links_agree_range [OF agree_sub [of _ _ 0] r(5)] u32_less_limit [of "baddr b"] by simp
  moreover have "g_heapBase ?s3 = g_heapBase s" "g_heapEnd ?s3 = g_heapEnd s" "g_firstBlock ?s3 = g_firstBlock s"
    by (subst re(4); simp)+
  ultimately show "heap_rep (absorb_next (baddr b) s) (xs @ Blk (baddr b) ?z None # ys)"
    unfolding eq using r h3 re(1,3) laid_mono [OF r(6) be]
    by (simp add: heap_rep_split slot_ok_def)
  show "absorb_next (baddr b) s =
       s\<lparr>hmem := hmem (absorb_next (baddr b) s), g_lastBlock := g_lastBlock (absorb_next (baddr b) s)\<rparr>"
    unfolding eq by (subst re(4)) simp
qed

subsection \<open>Splitting and taking a block\<close>

definition split_blks :: "blk \<Rightarrow> u32 \<Rightarrow> u32 option \<Rightarrow> blk list" where
  "split_blks b consumed u =
     (if unat (bsize b) \<le> unat consumed + 56 then [Blk (baddr b) (bsize b) u]
      else [Blk (baddr b) consumed u, Blk (baddr b + 24 + consumed) (bsize b - consumed - 24) None])"

lemma split_test:
  assumes "heap_rep s (xs @ b # ys)" "unat consumed \<le> unat (bsize b)"
  shows "rd32 (hmem s) (baddr b + 4) \<le> consumed + 24 + 32 \<longleftrightarrow> unat (bsize b) \<le> unat consumed + 56"
    "rd32 (hmem s) (baddr b + 4) = bsize b" "rd32 (hmem s) (baddr b + 12) = hd_addr ys 0"
proof -
  show sz: "rd32 (hmem s) (baddr b + 4) = bsize b" "rd32 (hmem s) (baddr b + 12) = hd_addr ys 0"
    using assms(1) by (simp_all add: heap_rep_split hdr_def)
  have "unat (consumed + 24 + 32) = unat consumed + 56"
    using assms(2) heap_rep_bounds(1,3) [OF assms(1)] by (simp add: bend_def unat_add_nowrap)
  then show "rd32 (hmem s) (baddr b + 4) \<le> consumed + 24 + 32 \<longleftrightarrow> unat (bsize b) \<le> unat consumed + 56"
    by (simp only: sz word_le_nat_alt)
qed

text \<open>The rest of the block becomes a block of its own.\<close>

lemma split_block_cut:
  assumes rep: "heap_rep s (xs @ b # ys)" and free: "buser b = None"
    and cut: "unat consumed + 56 < unat (bsize b)"
  defines "na \<equiv> baddr b + 24 + consumed" and "rem \<equiv> bsize b - consumed - 24"
  shows "heap_rep (split_block (baddr b) consumed s) (xs @ Blk (baddr b) consumed None # Blk na rem None # ys) \<and>
    (\<exists>m l. split_block (baddr b) consumed s = s\<lparr>hmem := m, g_lastBlock := l\<rparr>)"
proof -
  note bb = heap_rep_bounds [OF rep]
  have r: "links (hmem s) 0 xs (baddr b)" "hdr (hmem s) b (last_addr xs 0) (hd_addr ys 0)"
    "links (hmem s) (baddr b) ys 0" "laid (unat (g_heapBase s)) (unat (baddr b)) xs"
    "laid (bend b) (unat (g_heapEnd s)) ys" "g_firstBlock s = hd_addr xs (baddr b)"
    "4096 \<le> unat (g_heapBase s)" "g_lastBlock s = last_addr ys (baddr b)"
    using rep by (simp_all add: heap_rep_split)
  let ?nb = "Blk na rem None" and ?b' = "Blk (baddr b) consumed None"
  have na: "unat na = unat (baddr b) + 24 + unat consumed"
    using cut bb(3) by (simp add: na_def bend_def unat_add_nowrap)
  have rem: "unat rem = unat (bsize b) - unat consumed - 24"
    using cut by (simp add: rem_def unat_sub_nowrap)
  have ends: "bend ?nb = bend b" "bend ?b' = unat na" "unat na + 24 \<le> bend b" "unat na + 24 \<le> 2 ^ 32"
    using cut bb(3) by (simp_all add: bend_def na rem)
  have lo: "unat (baddr b) + 24 \<le> unat na" "unat (baddr b) + 24 \<le> 2 ^ 32" "unat na \<le> bend b"
    using bb(3) ends(3) by (simp_all add: na bend_def)
  let ?m1 = "put_header na rem (baddr b) (hd_addr ys 0) (hmem s)"
  let ?s1 = "s\<lparr>hmem := ?m1\<rparr>"
  let ?s2 = "relink (hd_addr ys 0) na ?s1"
  let ?m3 = "wr32 (baddr b + 4) consumed (wr32 (baddr b + 12) na (hmem ?s2))"
  have a1: "agree (hmem s) ?m1 0 (unat na)" "agree (hmem s) ?m1 (bend b) (2 ^ 32)"
    using put_header_agree [OF ends(4)] ends(3) by simp_all
  have "links (hmem ?s1) (baddr b) ys 0"
    using links_agree_range [OF agree_sub [OF a1(2)] r(5)] r(3) u32_less_limit [of "g_heapEnd s"] by simp
  moreover have "unat (g_heapEnd s) \<le> 2 ^ 32" "0 < bend b" "g_lastBlock ?s1 = last_addr ys (baddr b)"
    using u32_less_limit [of "g_heapEnd s"] r(8) by (simp_all add: bend_def)
  ultimately have re: "links (hmem ?s2) na ys 0" "agree ?m1 (hmem ?s2) 0 (bend b)"
    "g_lastBlock ?s2 = last_addr ys na" "?s2 = ?s1\<lparr>hmem := hmem ?s2, g_lastBlock := g_lastBlock ?s2\<rparr>"
    using relink_spec [of ?s1 "baddr b" ys "bend b" "unat (g_heapEnd s)" na] r(5) by simp_all
  have a3: "agree (hmem ?s2) ?m3 0 (unat (baddr b))" "agree (hmem ?s2) ?m3 (unat na) (2 ^ 32)"
    using lo by (intro agree_fld agree_refl; simp)+
  have nb: "hdr ?m3 ?nb (baddr b) (hd_addr ys 0)"
    using put_header_hdr [OF ends(4), of rem "baddr b" "hd_addr ys 0" "hmem s"]
      hdr_agree_free [OF agree_trans [OF agree_sub [OF re(2)] agree_sub [OF a3(2)]], of ?nb] ends by simp
  have "hdr (hmem ?s2) b (last_addr xs 0) (hd_addr ys 0)"
    using hdr_agree_free [OF agree_trans [OF agree_sub [OF a1(1)] agree_sub [OF re(2)]], of b] r(2) free lo by simp
  then have hb: "hdr ?m3 ?b' (last_addr xs 0) na" using free lo(2) by (simp add: hdr_def fld_simps)
  have "agree (hmem s) ?m3 0 (unat (baddr b))"
    using agree_trans [OF agree_trans [OF agree_sub [OF a1(1)] agree_sub [OF re(2)]] a3(1)] lo by simp
  then have lx: "links ?m3 0 xs (baddr b) = links (hmem s) 0 xs (baddr b)"
    using links_agree_range [OF agree_sub [of _ _ 0] r(4)] u32_less_limit [of "baddr b"] by simp
  have ly: "links ?m3 na ys 0"
    using links_agree_range [OF agree_sub [OF a3(2)] r(5)] re(1) lo u32_less_limit [of "g_heapEnd s"] by simp
  have eq: "split_block (baddr b) consumed s = ?s2\<lparr>hmem := ?m3\<rparr>"
    using cut bb(4) split_test [OF rep, of consumed]
    by (simp add: split_block_def payload_start_def Let_def na_def rem_def)
  have sames: "g_heapBase ?s2 = g_heapBase s" "g_heapEnd ?s2 = g_heapEnd s" "g_firstBlock ?s2 = g_firstBlock s"
    by (subst re(4); simp)+
  have "heap_rep (?s2\<lparr>hmem := ?m3\<rparr>) (xs @ ?b' # ?nb # ys)"
    using r lx ly nb hb re(3) ends sames by (simp add: heap_rep_split slot_ok_def)
  moreover have "?s2\<lparr>hmem := ?m3\<rparr> = s\<lparr>hmem := ?m3, g_lastBlock := g_lastBlock ?s2\<rparr>"
    by (subst (1) re(4)) simp
  ultimately show ?thesis unfolding eq by (metis (no_types))
qed

lemma split_block_rep:
  assumes rep: "heap_rep s (xs @ b # ys)" and free: "buser b = None" and fits: "unat consumed \<le> unat (bsize b)"
  shows "heap_rep (split_block (baddr b) consumed s) (xs @ split_blks b consumed None @ ys) \<and>
    (\<exists>m l. split_block (baddr b) consumed s = s\<lparr>hmem := m, g_lastBlock := l\<rparr>)"
proof (cases "unat (bsize b) \<le> unat consumed + 56")
  case True
  then have eq: "split_block (baddr b) consumed s = s"
    using split_test [OF rep fits] by (simp add: split_block_def)
  have "Blk (baddr b) (bsize b) None = b" using free by (cases b) simp
  with True rep have "heap_rep s (xs @ split_blks b consumed None @ ys)" by (simp add: split_blks_def)
  then show ?thesis unfolding eq by (intro conjI exI [of _ "hmem s"] exI [of _ "g_lastBlock s"]) simp_all
next
  case False
  then show ?thesis using split_block_cut [OF rep free, of consumed] by (simp add: split_blks_def)
qed

text \<open>Bytes in live blocks.\<close>

definition used_sum :: "blk list \<Rightarrow> nat" where
  "used_sum bl = sum_list (map (\<lambda>b. unat (bsize b)) (filter (\<lambda>b. buser b \<noteq> None) bl))"

lemma used_sum_simps [simp]:
  "used_sum [] = 0" "used_sum (xs @ ys) = used_sum xs + used_sum ys"
  "used_sum (b # bs) = (if buser b = None then 0 else unat (bsize b)) + used_sum bs"
  by (simp_all add: used_sum_def)

lemma laid_used_sum: "laid lo hi bl \<Longrightarrow> lo + used_sum bl \<le> hi"
proof (induction bl arbitrary: lo)
  case (Cons b bl)
  then have "bend b + used_sum bl \<le> hi" "lo \<le> unat (baddr b)" by auto
  then show ?case by (simp add: bend_def)
qed simp

lemma take_block_rep:
  assumes rep: "heap_rep s (xs @ b # ys)" and free: "buser b = None"
    and u: "unat (baddr b) + 28 \<le> unat u" "unat u \<le> unat (baddr b) + 24 + unat consumed"
    and fits: "unat consumed \<le> unat (bsize b)"
    and used: "unat (g_heapUsed s) = used_sum (xs @ b # ys)"
  defines "s' \<equiv> take_block (baddr b) u consumed s"
  shows "heap_rep s' (xs @ split_blks b consumed (Some u) @ ys)"
    "unat (g_heapUsed s') = used_sum (xs @ split_blks b consumed (Some u) @ ys)"
    "hp_paging s' = hp_paging s" "g_heapEnd s' = g_heapEnd s" "g_heapBase s' = g_heapBase s" "g_heapLock s' = 0"
proof -
  obtain m l where s1: "heap_rep (split_block (baddr b) consumed s) (xs @ split_blks b consumed None @ ys)"
    "split_block (baddr b) consumed s = s\<lparr>hmem := m, g_lastBlock := l\<rparr>"
    using split_block_rep [OF rep free fits] by blast
  obtain c cs where c: "split_blks b consumed None = c # cs" "split_blks b consumed (Some u) = Blk (baddr b) (bsize c) (Some u) # cs"
    "baddr c = baddr b" "unat u \<le> bend c" "buser c = None" "filter (\<lambda>b. buser b \<noteq> None) cs = []"
    using u(2) fits by (cases "unat (bsize b) \<le> unat consumed + 56") (fastforce simp: split_blks_def bend_def)+
  have rc: "heap_rep (s\<lparr>hmem := m, g_lastBlock := l\<rparr>) (xs @ c # (cs @ ys))" using s1 c(1) by simp
  let ?m2 = "wr32 (u - 4) (baddr b) (wr32 (baddr b + 16) 1 m)"
  have rep2: "heap_rep (s\<lparr>hmem := ?m2, g_lastBlock := l\<rparr>) (xs @ Blk (baddr b) (bsize c) (Some u) # (cs @ ys))"
    using heap_rep_mark_used [OF rc] u(1) c(3,4) by (simp add: heap_rep_def)
  then have sz: "rd32 ?m2 (baddr b + 4) = bsize c" by (simp add: heap_rep_split hdr_def)
  have s': "s' = s\<lparr>hmem := ?m2, g_lastBlock := l, g_heapUsed := g_heapUsed s + bsize c, g_heapLock := 0\<rparr>"
    unfolding s'_def take_block_def s1(2) by (simp add: sz unlock_heap_def)
  show rep': "heap_rep s' (xs @ split_blks b consumed (Some u) @ ys)"
    using rep2 c(2) by (simp add: s' heap_rep_def)
  have sum: "used_sum (xs @ split_blks b consumed (Some u) @ ys) = unat (g_heapUsed s) + unat (bsize c)"
    using c free by (simp add: used used_sum_def)
  moreover have "used_sum (xs @ split_blks b consumed (Some u) @ ys) < 2 ^ 32"
    using rep' laid_used_sum u32_less_limit [of "g_heapEnd s'"] unfolding heap_rep_def by fastforce
  ultimately show "unat (g_heapUsed s') = used_sum (xs @ split_blks b consumed (Some u) @ ys)"
    by (simp add: s' unat_add_nowrap)
qed (simp_all add: s'_def take_block_def Let_def unlock_heap_def, insert split_block_rep [OF rep free fits], auto)

subsection \<open>Searching\<close>

definition user_of :: "u32 \<Rightarrow> blk \<Rightarrow> u32" where
  "user_of A b = align_up_ptr (baddr b + 24 + 4) A"

definition consumed_of :: "u32 \<Rightarrow> u32 \<Rightarrow> blk \<Rightarrow> u32" where
  "consumed_of sz A b = user_of A b - (baddr b + 24) + sz"

definition fits :: "u32 \<Rightarrow> u32 \<Rightarrow> blk \<Rightarrow> bool" where
  "fits sz A b \<longleftrightarrow> buser b = None \<and> consumed_of sz A b \<le> bsize b"

lemma find_block_spec:
  assumes "links m p bl 0" "\<And>b. b \<in> set bl \<Longrightarrow> baddr b \<noteq> 0"
  shows "find_block m sz A (hd_addr bl 0) =
    Some (case find (fits sz A) bl of None \<Rightarrow> (0, 0, 0) | Some b \<Rightarrow> (baddr b, user_of A b, consumed_of sz A b))"
  using assms
proof (induction bl arbitrary: p)
  case (Cons b bl)
  then have h: "hdr m b p (hd_addr bl 0)" "baddr b \<noteq> 0" and l: "links m (baddr b) bl 0" by auto
  from Cons.IH [OF l] Cons.prems(2) h show ?case
    by (auto simp: find_block.simps [of m sz A "baddr b"] hdr_def fits_def consumed_of_def user_of_def
        payload_start_def Let_def not_le)
qed (simp add: find_block.simps)

lemma heap_rep_nonzero: "heap_rep s bl \<Longrightarrow> b \<in> set bl \<Longrightarrow> baddr b \<noteq> 0"
  by (metis heap_rep_bounds(4) split_list)

text \<open>What fits is aligned and has room for the size.\<close>

lemma fits_room:
  assumes A: "unat A = 2 ^ k" "k \<le> 31" and nowrap: "2 ^ k + 4 + unat sz \<le> 2 ^ 32"
    and b: "bend b < 2 ^ 32" and fit: "fits sz A b"
  shows "unat (baddr b) + 28 \<le> unat (user_of A b)" "take_bit k (user_of A b) = 0"
    "unat (consumed_of sz A b) \<le> unat (bsize b)"
    "unat (user_of A b) + unat sz = unat (baddr b) + 24 + unat (consumed_of sz A b)"
proof -
  let ?raw = "baddr b + 24" and ?u = "user_of A b"
  note al = align_up_ptr_spec [OF A, of ?raw, folded user_of_def]
  have c: "unat (consumed_of sz A b) = unat (?u - ?raw) + unat sz"
    unfolding consumed_of_def using al(2) nowrap by (intro unat_add_nowrap) (simp add: user_of_def)
  show fit': "unat (consumed_of sz A b) \<le> unat (bsize b)" using fit by (simp add: fits_def word_le_nat_alt)
  have raw: "unat ?raw = unat (baddr b) + 24" using b by (simp add: bend_def unat_add_nowrap)
  have "?u = ?raw + (?u - ?raw)" by simp
  moreover have "unat (?raw + (?u - ?raw)) = unat ?raw + unat (?u - ?raw)"
    using b fit' c raw by (intro unat_add_nowrap) (simp add: bend_def)
  ultimately have u: "unat ?u = unat ?raw + unat (?u - ?raw)" by simp
  show "unat (baddr b) + 28 \<le> unat ?u" using u al(1) raw by (simp add: user_of_def)
  show "take_bit k ?u = 0" using al(3) by (simp add: user_of_def)
  show "unat ?u + unat sz = unat (baddr b) + 24 + unat (consumed_of sz A b)" using u raw c by simp
qed

lemma fits_intro:
  assumes A: "unat A = 2 ^ k" "k \<le> 31" and nowrap: "2 ^ k + 4 + unat sz \<le> 2 ^ 32"
    and "buser b = None" "unat sz + 2 ^ k + 4 \<le> unat (bsize b)"
  shows "fits sz A b"
proof -
  note al = align_up_ptr_spec [OF A, of "baddr b + 24"]
  have "unat (consumed_of sz A b) = unat (user_of A b - (baddr b + 24)) + unat sz"
    unfolding consumed_of_def using al(2) nowrap by (intro unat_add_nowrap) (simp add: user_of_def)
  with al(2) assms(4,5) show ?thesis by (simp add: fits_def word_le_nat_alt user_of_def)
qed

subsection \<open>Growing\<close>

abbreviation heap_frames :: "heap \<Rightarrow> u32 set" where
  "heap_frames s \<equiv> free_frames (pg_pmm (hp_paging s))"

text \<open>Free blocks are never neighbours: coalescing is complete.\<close>

definition coalesced :: "blk list \<Rightarrow> bool" where
  "coalesced bl \<longleftrightarrow> successively (\<lambda>b c. buser b \<noteq> None \<or> buser c \<noteq> None) bl"

text \<open>
  The working invariant: the blocks are well formed and coalesced, so are the page tables, the
  counter of live bytes is exact, and the address space above the heap has room for every frame
  that is left.
\<close>

definition heap_ok :: "heap \<Rightarrow> blk list \<Rightarrow> bool" where
  "heap_ok s bl \<longleftrightarrow> heap_rep s bl \<and> coalesced bl \<and> paging_inv (hp_paging s) \<and> unat (g_heapUsed s) = used_sum bl \<and>
     unat (g_heapEnd s) + 4096 * card (heap_frames s) < 2 ^ 32"

definition core :: "heap \<Rightarrow> (u32 \<Rightarrow> u8) \<times> u32 \<times> u32 \<times> u32 \<times> u32 \<times> u32" where
  "core s = (hmem s, g_heapBase s, g_heapUsed s, g_heapLock s, g_firstBlock s, g_lastBlock s)"

lemma paging_inv_alloc:
  assumes inv: "paging_inv s" and ne: "free_frames (pg_pmm s) \<noteq> {}"
  defines "f \<equiv> Min (free_frames (pg_pmm s))"
  defines "s' \<equiv> s\<lparr>pg_pmm := take_frame f (pg_pmm s)\<rparr>"
  shows "PMM_AllocFrame (pg_pmm s) = Some (take_frame f (pg_pmm s), f * 4096)" "f * 4096 \<noteq> 0"
    "4096 dvd unat (f * 4096)" "paging_inv s'" "card (free_frames (pg_pmm s')) = card (free_frames (pg_pmm s)) - 1"
proof -
  have f: "f \<in> free_frames (pg_pmm s)" using ne by (simp add: f_def)
  note own = owned_new_frame [OF paging_inv_pd(1,2) [OF inv] f]
  show "PMM_AllocFrame (pg_pmm s) = Some (take_frame f (pg_pmm s), f * 4096)"
    using ne by (simp add: PMM_AllocFrame_eq [OF paging_inv_pd(1) [OF inv]] f_def)
  show "f * 4096 \<noteq> 0" "4096 dvd unat (f * 4096)" using own(1) by (simp_all add: owned_def)
  have same: "present s' = present s" "table_of s' = table_of s"
    by (simp_all add: fun_eq_iff present_def table_of_def pde_def s'_def)
  have "pmm_inv (pg_pmm s')" "low_reserved (pg_pmm s')"
    using take_frame_inv [OF paging_inv_pd(1) [OF inv] f] paging_inv_pd(2) [OF inv] by (simp_all add: s'_def)
  then show "paging_inv s'"
    using inv own(3) unfolding paging_inv_def same by (auto simp: s'_def)
  show "card (free_frames (pg_pmm s')) = card (free_frames (pg_pmm s)) - 1"
    using f by (simp add: s'_def)
qed

lemma MapPage_frames:
  assumes "paging_inv s" "4096 dvd unat p" "MapPage v p fl s = Some s'"
  shows "paging_inv s'" "card (free_frames (pg_pmm s')) \<le> card (free_frames (pg_pmm s))"
proof -
  obtain t where "MapPage v p fl s = Some t" "paging_inv t"
    "free_frames (pg_pmm t) \<subseteq> free_frames (pg_pmm s)"
    using MapPage_step [OF assms(1,2), of v fl] by (metis (full_types) Diff_subset order_refl)
  with assms(3) show "paging_inv s'" "card (free_frames (pg_pmm s')) \<le> card (free_frames (pg_pmm s))"
    by (auto intro: card_mono)
qed

lemma map_page_at_end_spec:
  assumes ok: "heap_ok s bl"
  shows "\<exists>s' r. map_page_at_end s = Some (s', r) \<and> core s' = core s \<and> heap_ok s' bl \<and>
    (if r then unat (g_heapEnd s') = unat (g_heapEnd s) + 4096 \<and> card (heap_frames s') < card (heap_frames s)
     else s' = s \<and> heap_frames s = {})"
proof (cases "heap_frames s = {}")
  case True
  have "PMM_AllocFrame (pg_pmm (hp_paging s)) = Some (pg_pmm (hp_paging s), 0)"
    using True ok PMM_AllocFrame_eq [OF paging_inv_pd(1)] by (simp add: heap_ok_def)
  then show ?thesis using True ok
    by (intro exI [of _ s] exI [of _ False]) (simp add: map_page_at_end_def)
next
  case False
  have inv: "paging_inv (hp_paging s)" using ok by (simp add: heap_ok_def)
  let ?f = "Min (heap_frames s)"
  let ?pg = "(hp_paging s)\<lparr>pg_pmm := take_frame ?f (pg_pmm (hp_paging s))\<rparr>"
  note al = paging_inv_alloc [OF inv False]
  obtain pg where pg: "MapPage (g_heapEnd s) (?f * 4096) 3 ?pg = Some pg"
    using MapPage_step [OF al(4,3)] by metis
  let ?s' = "s\<lparr>hp_paging := pg, g_heapEnd := g_heapEnd s + 4096\<rparr>"
  have eq: "map_page_at_end s = Some (?s', True)"
    using al(1,2) pg by (simp add: map_page_at_end_def)
  have pos: "0 < card (heap_frames s)" using False by (simp add: card_gt_0_iff)
  have card: "card (heap_frames ?s') < card (heap_frames s)"
    using MapPage_frames(2) [OF al(4,3) pg] al(5) pos by simp
  have e: "unat (g_heapEnd s + 4096) = unat (g_heapEnd s) + 4096"
    using ok pos by (simp add: heap_ok_def unat_add_nowrap)
  have "heap_rep ?s' bl"
    using ok by (auto simp: heap_ok_def heap_rep_def e elim: laid_mono)
  then have "heap_ok ?s' bl"
    using ok card MapPage_frames(1) [OF al(4,3) pg] by (simp add: heap_ok_def e)
  with eq e card show ?thesis by (intro exI [of _ ?s'] exI [of _ True]) (simp add: core_def)
qed

lemma map_pages_spec:
  assumes "heap_ok s bl"
  shows "\<exists>s' r. map_pages n s = Some (s', r) \<and> core s' = core s \<and> heap_ok s' bl \<and>
    (if r then unat (g_heapEnd s') = unat (g_heapEnd s) + 4096 * n else heap_frames s' = {})"
  using assms
proof (induction n arbitrary: s)
  case (Suc n)
  obtain s1 r where s1: "map_page_at_end s = Some (s1, r)" "core s1 = core s" "heap_ok s1 bl"
    "if r then unat (g_heapEnd s1) = unat (g_heapEnd s) + 4096 else s1 = s \<and> heap_frames s = {}"
    using map_page_at_end_spec [OF Suc.prems] by (metis (full_types))
  show ?case
  proof (cases r)
    case True
    obtain s2 r2 where "map_pages n s1 = Some (s2, r2)" "core s2 = core s1" "heap_ok s2 bl"
      "if r2 then unat (g_heapEnd s2) = unat (g_heapEnd s1) + 4096 * n else heap_frames s2 = {}"
      using Suc.IH [OF s1(3)] by blast
    with True s1 show ?thesis by (intro exI [of _ s2] exI [of _ r2]) simp
  qed (use s1 in auto)
qed (auto intro: exI [of _ True])

definition live :: "blk list \<Rightarrow> blk list" where
  "live bl = filter (\<lambda>b. buser b \<noteq> None) bl"

lemma live_simps [simp]:
  "live [] = []" "live (xs @ ys) = live xs @ live ys"
  "live (b # bs) = (if buser b = None then live bs else b # live bs)"
  by (simp_all add: live_def)

lemma used_sum_live: "used_sum bl = sum_list (map (\<lambda>b. unat (bsize b)) (live bl))"
  by (simp add: used_sum_def live_def)

lemma links_set_next:
  assumes "links m p (xs @ [b]) n" "laid lo hi (xs @ [b])" "hi \<le> 2 ^ 32"
  shows "links (wr32 (baddr b + 12) n' m) p (xs @ [b]) n'"
proof -
  have b: "slot_ok b" "bend b \<le> 2 ^ 32" "laid lo (unat (baddr b)) xs"
    using assms(2,3) by (simp_all add: laid_append_Cons)
  have "agree m (wr32 (baddr b + 12) n' m) lo (unat (baddr b))"
    by (rule agree_sub [OF agree_own_fields(1) [OF b(2)]]) simp_all
  from links_agree_range [OF this b(3)] u32_less_limit [of "baddr b"] show ?thesis
    using assms(1) hdr_writes(3) [OF _ b(1,2)] by (auto simp: links_append)
qed

lemma create_block_at_rep:
  assumes rep: "heap_rep s bl" and room: "laid (unat (g_heapBase s)) (unat a) bl"
    "unat a + 24 + unat z \<le> unat (g_heapEnd s)" and a: "unat (g_heapBase s) \<le> unat a"
  shows "heap_rep (create_block_at a z (g_lastBlock s) s) (bl @ [Blk a z None])"
proof -
  have r: "links (hmem s) 0 bl 0" "g_lastBlock s = last_addr bl 0" "g_firstBlock s = hd_addr bl 0"
    "4096 \<le> unat (g_heapBase s)"
    using rep by (simp_all add: heap_rep_def)
  have lim: "unat a + 24 \<le> 2 ^ 32" "unat a \<le> 2 ^ 32" using room(2) u32_less_limit [of "g_heapEnd s"] by simp_all
  let ?m1 = "put_header a z (g_lastBlock s) 0 (hmem s)"
  have h: "hdr ?m1 (Blk a z None) (g_lastBlock s) 0" by (rule put_header_hdr [OF lim(1)])
  have ag: "agree (hmem s) ?m1 (unat (g_heapBase s)) (unat a)" by (rule put_header_agree [OF lim(1)]) simp
  have l1: "links ?m1 0 bl 0" using links_agree_range [OF ag room(1) lim(2)] r(1) by simp
  show ?thesis
  proof (cases bl rule: rev_cases)
    case Nil
    then show ?thesis using h r room a by (simp add: create_block_at_def heap_rep_def slot_ok_def bend_def)
  next
    case (snoc xs b)
    then have b: "baddr b \<noteq> 0" "g_firstBlock s \<noteq> 0" "bend b \<le> unat a" "g_lastBlock s = baddr b"
      using heap_rep_nonzero [OF rep] r(2,3) room(1) by (cases xs; auto simp: laid_append_Cons)+
    have "agree ?m1 (wr32 (baddr b + 12) a ?m1) (unat (baddr (Blk a z None))) (unat (baddr (Blk a z None)) + 24)"
      using b(3) lim by (intro agree_fld agree_refl) (simp_all add: bend_def)
    from hdr_agree_free [OF this] have "hdr (wr32 (baddr b + 12) a ?m1) (Blk a z None) (g_lastBlock s) 0"
      using h lim by simp
    moreover have "links (wr32 (baddr b + 12) a ?m1) 0 bl a"
      using links_set_next [OF _ _ lim(2)] l1 room(1) unfolding snoc by blast
    ultimately show ?thesis
      using r room b snoc by (simp add: create_block_at_def heap_rep_def slot_ok_def bend_def links_append
          laid_append_Cons)
  qed
qed

lemma grow_pages_spec:
  assumes "unat mp + 24 < 2 ^ 32"
  shows "unat mp + 24 \<le> 4096 * unat (grow_pages mp)" "0 < unat (grow_pages mp)"
proof -
  let ?p = "(ucast ((ucast (mp + 24) + 4096 - 1 :: u64) div 4096) :: u32)"
  have "unat (mp + 24) = unat mp + 24" using assms(1) by (simp add: unat_add_nowrap)
  then have p: "unat ?p = (unat mp + 24 + 4095) div 4096"
    using pages_up [of "mp + 24"] by (simp add: add.commute)
  then have "?p \<noteq> 0" unfolding word_unat_eq_iff by simp
  then have "grow_pages mp = ?p" by (simp only: grow_pages_def Let_def if_False)
  with p show "unat mp + 24 \<le> 4096 * unat (grow_pages mp)" "0 < unat (grow_pages mp)" by simp_all
qed

text \<open>After the pages are mapped, \<open>n\<close> new bytes above the old end become free space.\<close>

lemma add_bytes_rep:
  assumes rep: "heap_rep s bl" and lay: "laid (unat (g_heapBase s)) (unat e0) bl"
    and e: "unat (g_heapEnd s) = unat e0 + n" "24 \<le> n"
  shows "\<exists>bl'. heap_rep (add_bytes e0 s) bl' \<and> live bl' = live bl \<and> (coalesced bl \<longrightarrow> coalesced bl') \<and>
    (\<exists>b \<in> set bl'. buser b = None \<and> n - 24 \<le> unat (bsize b))"
proof (cases "g_lastBlock s \<noteq> 0 \<and> rd32 (hmem s) (g_lastBlock s + 16) = 0")
  case ext: True
  then obtain xs b where bl: "bl = xs @ [b]"
    using rep by (cases bl rule: rev_cases) (auto simp: heap_rep_def)
  have b: "buser b = None" "g_lastBlock s = baddr b" "rd32 (hmem s) (baddr b + 4) = bsize b"
    using rep ext unfolding bl by (auto simp: heap_rep_split hdr_def split: if_splits)
  let ?z = "bsize b + (g_heapEnd s - e0)"
  have add: "unat (g_heapEnd s - e0) = n" using e by (simp add: unat_sub_nowrap)
  have be: "bend b \<le> unat e0" using lay by (simp add: bl laid_append_Cons)
  have z: "unat ?z = unat (bsize b) + n"
    using be e u32_less_limit [of "g_heapEnd s"] add by (simp add: unat_add_nowrap bend_def)
  have "heap_rep (s\<lparr>hmem := wr32 (baddr b + 4) ?z (hmem s)\<rparr>) (xs @ [Blk (baddr b) ?z None])"
    using heap_rep_resize [of s xs b "[]" ?z] rep b be e z by (simp add: bl bend_def)
  moreover have "add_bytes e0 s = s\<lparr>hmem := wr32 (baddr b + 4) ?z (hmem s)\<rparr>"
    using ext b by (simp add: add_bytes_def Let_def)
  moreover have "n - 24 \<le> unat ?z" unfolding z by simp
  ultimately show ?thesis using b(1)
    by (intro exI [of _ "xs @ [Blk (baddr b) ?z None]"]) (simp add: bl coalesced_def successively_append_iff)
next
  case new: False
  let ?z = "g_heapEnd s - e0 - 24"
  have z: "unat ?z = n - 24" using e by (simp add: unat_sub_nowrap)
  have "heap_rep (create_block_at e0 ?z (g_lastBlock s) s) (bl @ [Blk e0 ?z None])"
    by (rule create_block_at_rep [OF rep lay]) (use e z laid_le [OF lay] in simp_all)
  moreover have "add_bytes e0 s = create_block_at e0 ?z (g_lastBlock s) s"
    using new by (auto simp: add_bytes_def Let_def)
  moreover have "coalesced (bl @ [Blk e0 ?z None])" if "coalesced bl"
  proof (cases bl rule: rev_cases)
    case (snoc xs b)
    then have "buser b \<noteq> None"
      using new rep heap_rep_nonzero [OF rep, of b] by (auto simp: heap_rep_split hdr_def split: if_splits)
    with that snoc show ?thesis by (simp add: coalesced_def successively_append_iff)
  qed (simp add: coalesced_def)
  ultimately show ?thesis using z by (intro exI [of _ "bl @ [Blk e0 ?z None]"]) simp
qed

lemma add_bytes_same [simp]:
  "hp_paging (add_bytes e s) = hp_paging s" "g_heapEnd (add_bytes e s) = g_heapEnd s"
  "g_heapBase (add_bytes e s) = g_heapBase s" "g_heapUsed (add_bytes e s) = g_heapUsed s"
  "g_heapLock (add_bytes e s) = g_heapLock s"
  by (simp_all add: add_bytes_def create_block_at_def Let_def)

lemma grow_heap_spec:
  assumes ok: "heap_ok s bl" and mp: "unat mp + 24 < 2 ^ 32"
  shows "\<exists>s' r. grow_heap mp s = Some (s', r) \<and> g_heapLock s' = g_heapLock s \<and> g_heapBase s' = g_heapBase s \<and>
    (if r then \<exists>bl'. heap_ok s' bl' \<and> live bl' = live bl \<and> (\<exists>b \<in> set bl'. buser b = None \<and> unat mp \<le> unat (bsize b))
     else heap_ok s' bl \<and> heap_frames s' = {})"
proof -
  note pg = grow_pages_spec [OF mp]
  obtain s1 r where s1: "map_pages (unat (grow_pages mp)) s = Some (s1, r)" "core s1 = core s" "heap_ok s1 bl"
    "if r then unat (g_heapEnd s1) = unat (g_heapEnd s) + 4096 * unat (grow_pages mp) else heap_frames s1 = {}"
    using map_pages_spec [OF ok] by blast
  show ?thesis
  proof (cases r)
    case False
    then have "grow_heap mp s = Some (s1, False)" using s1(1) by (simp add: grow_heap_def)
    then show ?thesis using s1 False by (auto simp: core_def)
  next
    case True
    let ?s' = "add_bytes (g_heapEnd s) s1"
    have base: "g_heapBase s1 = g_heapBase s" "g_heapLock s1 = g_heapLock s"
      using s1(2) by (simp_all add: core_def)
    have rep1: "heap_rep s1 bl" "laid (unat (g_heapBase s1)) (unat (g_heapEnd s)) bl"
      using s1(3) ok base by (simp_all add: heap_ok_def heap_rep_def)
    obtain bl' where bl': "heap_rep ?s' bl'" "live bl' = live bl"
      "\<exists>b \<in> set bl'. buser b = None \<and> 4096 * unat (grow_pages mp) - 24 \<le> unat (bsize b)"
      "coalesced bl \<longrightarrow> coalesced bl'"
      using add_bytes_rep [OF rep1, of "4096 * unat (grow_pages mp)"] s1(4) True pg by auto
    have "heap_ok ?s' bl'" using s1(3) bl'(1,2,4) by (simp add: heap_ok_def used_sum_live)
    moreover have "\<exists>b \<in> set bl'. buser b = None \<and> unat mp \<le> unat (bsize b)"
      using bl'(3) pg(1) by force
    moreover have "grow_heap mp s = Some (?s', True)" using s1(1) True by (simp add: grow_heap_def)
    ultimately show ?thesis using bl'(2) base by (intro exI [of _ ?s'] exI [of _ True]) auto
  qed
qed

subsection \<open>Allocating\<close>

lemma live_split_blks:
  "live (split_blks b c (Some u)) = [Blk (baddr b) (bsize (hd (split_blks b c (Some u)))) (Some u)]"
  by (simp add: split_blks_def)

lemma coalesced_append:
  "coalesced (xs @ ys) \<longleftrightarrow> coalesced xs \<and> coalesced ys \<and>
     (xs \<noteq> [] \<and> ys \<noteq> [] \<longrightarrow> buser (last xs) \<noteq> None \<or> buser (hd ys) \<noteq> None)"
  by (auto simp: coalesced_def successively_append_iff)

lemma coalesced_Cons:
  "coalesced (b # bs) \<longleftrightarrow> coalesced bs \<and> (bs \<noteq> [] \<longrightarrow> buser b \<noteq> None \<or> buser (hd bs) \<noteq> None)"
  by (cases bs) (auto simp: coalesced_def)

lemma coalesced_Nil [simp]: "coalesced []"
  by (simp add: coalesced_def)

lemma coalesced_split:
  assumes "coalesced (xs @ b # ys)" "buser b = None"
  shows "coalesced (xs @ split_blks b c (Some u) @ ys)"
  using assms by (auto simp: coalesced_append coalesced_Cons split_blks_def)

text \<open>An allocation that found a fitting block.\<close>

lemma take_fitting_block:
  assumes ok: "heap_ok s bl" and fnd: "find (fits sz A) bl = Some b"
    and A: "unat A = 2 ^ k" "k \<le> 31" and nowrap: "2 ^ k + 4 + unat sz \<le> 2 ^ 32" and sz: "0 < unat sz"
  defines "u \<equiv> user_of A b"
  defines "s' \<equiv> take_block (baddr b) u (consumed_of sz A b) s"
  shows "\<exists>bl' c xs ys. heap_ok s' bl' \<and> g_heapLock s' = 0 \<and> u \<noteq> 0 \<and> 2 ^ k dvd unat u \<and>
    c \<in> set bl' \<and> buser c = Some u \<and> unat u + unat sz \<le> bend c \<and>
    live bl' = xs @ c # ys \<and> live bl = xs @ ys"
proof -
  obtain xs ys where bl: "bl = xs @ b # ys" and fit: "fits sz A b"
    using fnd by (metis find_Some_iff in_set_conv_decomp nth_mem)
  have rep: "heap_rep s (xs @ b # ys)" and used: "unat (g_heapUsed s) = used_sum (xs @ b # ys)"
    using ok unfolding heap_ok_def bl by blast+
  note room = fits_room [OF A nowrap heap_rep_bounds(3) [OF rep] fit, folded u_def]
  have free: "buser b = None" using fit by (simp add: fits_def)
  have ule: "unat u \<le> unat (baddr b) + 24 + unat (consumed_of sz A b)" using room(4) by linarith
  note tb = take_block_rep [OF rep free room(1) ule room(3) used, folded s'_def]
  let ?bl' = "xs @ split_blks b (consumed_of sz A b) (Some u) @ ys"
  let ?c = "hd (split_blks b (consumed_of sz A b) (Some u))"
  have "coalesced (xs @ b # ys)" using ok unfolding heap_ok_def bl by blast
  then have "heap_ok s' ?bl'"
    using ok tb coalesced_split [OF _ free] by (simp add: heap_ok_def)
  moreover have "u \<noteq> 0" using room(1) by (auto simp: word_unat_eq_iff)
  moreover have "2 ^ k dvd unat u"
    using room(2) by (metis take_bit_eq_0_iff unsigned_take_bit_eq unsigned_0)
  moreover have "?c \<in> set ?bl'" "buser ?c = Some u" "unat u + unat sz \<le> bend ?c"
    "live ?bl' = live xs @ ?c # live ys"
    using room(3,4) by (auto simp: split_blks_def bend_def)
  moreover have "live bl = live xs @ live ys" using free by (simp add: bl)
  ultimately show ?thesis using tb(6)
    by (intro exI [of _ ?bl'] exI [of _ ?c] exI [of _ "live xs"] exI [of _ "live ys"]) simp
qed

lemma find_fits_ex: "b \<in> set bl \<Longrightarrow> fits sz A b \<Longrightarrow> find (fits sz A) bl \<noteq> None"
  by (auto simp: find_None_iff)

lemma heap_ok_lock [simp]: "heap_ok (s\<lparr>g_heapLock := l\<rparr>) bl = heap_ok s bl"
  by (simp add: heap_ok_def heap_rep_def)

lemma find_block_ok:
  assumes "heap_ok s bl"
  shows "find_block (hmem s) sz A (g_firstBlock s) =
    Some (case find (fits sz A) bl of None \<Rightarrow> (0, 0, 0) | Some b \<Rightarrow> (baddr b, user_of A b, consumed_of sz A b))"
proof -
  have rep: "heap_rep s bl" using assms by (simp add: heap_ok_def)
  then have "links (hmem s) 0 bl 0" "g_firstBlock s = hd_addr bl 0" by (simp_all add: heap_rep_def)
  with find_block_spec [of "hmem s" 0 bl sz A] heap_rep_nonzero [OF rep] show ?thesis by simp
qed

lemma find_fits_nonzero: "heap_ok s bl \<Longrightarrow> find (fits sz A) bl = Some b \<Longrightarrow> baddr b \<noteq> 0"
  by (metis find_Some_iff heap_ok_def heap_rep_nonzero nth_mem)

lemma Heap_Alloc_spec:
  assumes ok: "heap_ok s bl" and lock: "g_heapLock s = 0" and sz: "0 < unat sz"
    and A: "normalize_align align = Some A" "unat A = 2 ^ k" "k \<le> 31"
    and nowrap: "2 ^ k + 28 + unat sz < 2 ^ 32"
  shows "\<exists>s' u. Heap_Alloc sz align s = Some (s', u) \<and> g_heapLock s' = 0 \<and>
    (if u = 0 then (\<exists>bl'. heap_ok s' bl' \<and> live bl' = live bl) \<and> heap_frames s' = {}
     else \<exists>bl' c xs ys. heap_ok s' bl' \<and> 2 ^ k dvd unat u \<and> c \<in> set bl' \<and> buser c = Some u \<and>
       unat u + unat sz \<le> bend c \<and> live bl' = xs @ c # ys \<and> live bl = xs @ ys)"
proof -
  let ?s1 = "s\<lparr>g_heapLock := 1\<rparr>"
  have sz0: "sz \<noteq> 0" using sz by auto
  have ok1: "heap_ok ?s1 bl" using ok by simp
  have nw: "2 ^ k + 4 + unat sz \<le> 2 ^ 32" using nowrap by linarith
  note tk = take_fitting_block [OF _ _ A(2,3) nw sz]
  show ?thesis
  proof (cases "find (fits sz A) bl")
    case (Some b)
    then have "Heap_Alloc sz align s =
        Some (take_block (baddr b) (user_of A b) (consumed_of sz A b) ?s1, user_of A b)"
      using sz0 lock A(1) find_block_ok [OF ok1] find_fits_nonzero [OF ok Some]
      by (simp add: Heap_Alloc_def lock_heap_def)
    with tk [OF ok1 Some] show ?thesis by auto
  next
    case None
    have mp: "unat (sz + A + 4) = unat sz + 2 ^ k + 4" using nowrap A(2) by (simp add: unat_add_nowrap)
    then have "unat (sz + A + 4) + 24 < 2 ^ 32" using nowrap by simp
    from grow_heap_spec [OF ok1 this] obtain s2 r where s2: "grow_heap (sz + A + 4) ?s1 = Some (s2, r)"
      "if r then \<exists>bl'. heap_ok s2 bl' \<and> live bl' = live bl \<and>
          (\<exists>b \<in> set bl'. buser b = None \<and> unat (sz + A + 4) \<le> unat (bsize b))
       else heap_ok s2 bl \<and> heap_frames s2 = {}" by blast
    show ?thesis
    proof (cases r)
      case False
      then have "Heap_Alloc sz align s = Some (unlock_heap s2, 0)"
        using sz0 lock A(1) find_block_ok [OF ok1] None s2(1) by (simp add: Heap_Alloc_def lock_heap_def)
      with False s2(2) show ?thesis by (auto simp: unlock_heap_def)
    next
      case True
      then obtain bl' b0 where bl': "heap_ok s2 bl'" "live bl' = live bl" "b0 \<in> set bl'" "buser b0 = None"
        "unat sz + 2 ^ k + 4 \<le> unat (bsize b0)" using s2(2) mp by auto
      then obtain b where b: "find (fits sz A) bl' = Some b"
        using find_fits_ex fits_intro [OF A(2,3) nw] by blast
      then have "Heap_Alloc sz align s =
          Some (take_block (baddr b) (user_of A b) (consumed_of sz A b) s2, user_of A b)"
        using sz0 lock A(1) find_block_ok [OF ok1] find_block_ok [OF bl'(1)] None s2(1) True
          find_fits_nonzero [OF bl'(1) b] by (simp add: Heap_Alloc_def lock_heap_def)
      with tk [OF bl'(1) b] bl'(2) show ?thesis by auto
    qed
  qed
qed

subsection \<open>Freeing\<close>

definition merge_next :: "blk \<Rightarrow> blk list \<Rightarrow> blk list" where
  "merge_next b ys = (case ys of [] \<Rightarrow> [b]
     | c # cs \<Rightarrow> if buser c = None then Blk (baddr b) (bsize b + (24 + bsize c)) None # cs else b # ys)"

lemma heap_same [simp]: "\<exists>m l. s = s\<lparr>hmem := m, g_lastBlock := l\<rparr>"
  by (intro exI [of _ "hmem s"] exI [of _ "g_lastBlock s"]) simp

lemma absorb_next_merge:
  assumes rep: "heap_rep s (xs @ b # ys)" and free: "buser b = None"
  shows "heap_rep (absorb_next (baddr b) s) (xs @ merge_next b ys) \<and>
    (\<exists>m l. absorb_next (baddr b) s = s\<lparr>hmem := m, g_lastBlock := l\<rparr>)"
proof (cases "ys \<noteq> [] \<and> buser (hd ys) = None")
  case True
  then obtain c cs where ys: "ys = c # cs" "buser c = None" by (cases ys) auto
  then show ?thesis
    using absorb_next_rep [of s xs b c cs] rep free by (auto simp: merge_next_def)
next
  case False
  have h: "hdr (hmem s) b (last_addr xs 0) (hd_addr ys 0)" "links (hmem s) (baddr b) ys 0"
    using rep by (simp_all add: heap_rep_split)
  have "absorb_next (baddr b) s = s"
    using False h heap_rep_bounds(4) [OF rep]
    by (cases ys) (auto simp: absorb_next_def Let_def hdr_def)
  moreover have "merge_next b ys = b # ys" using False by (cases ys) (auto simp: merge_next_def)
  ultimately show ?thesis using rep by simp
qed

lemma merge_next_simps:
  assumes "buser b = None"
  shows "live (merge_next b ys) = live ys" "\<exists>z cs. merge_next b ys = Blk (baddr b) z None # cs"
    "coalesced ys \<Longrightarrow> coalesced (merge_next b ys)"
proof -
  have "b = Blk (baddr b) (bsize b) None" using assms by (cases b) simp
  then show "live (merge_next b ys) = live ys" "\<exists>z cs. merge_next b ys = Blk (baddr b) z None # cs"
    "coalesced ys \<Longrightarrow> coalesced (merge_next b ys)"
    using assms by (auto simp: merge_next_def coalesced_Cons split: list.splits)
qed

text \<open>The second step of \<^verbatim>\<open>Free\<close>: the free block before takes in the one just freed.\<close>

definition merge_prev :: "blk list \<Rightarrow> blk \<Rightarrow> blk list \<Rightarrow> blk list" where
  "merge_prev xs b ys = (if xs \<noteq> [] \<and> buser (last xs) = None
     then butlast xs @ merge_next (last xs) (b # ys) else xs @ b # ys)"

lemma absorb_prev_merge:
  assumes rep: "heap_rep s (xs @ b # ys)" and free: "buser b = None"
  shows "heap_rep (absorb_prev (baddr b) s) (merge_prev xs b ys) \<and>
    (\<exists>m l. absorb_prev (baddr b) s = s\<lparr>hmem := m, g_lastBlock := l\<rparr>)"
proof (cases xs rule: rev_cases)
  case Nil
  then have "rd32 (hmem s) (baddr b + 8) = 0"
    using rep heap_rep_split [of s "[]" b ys] by (simp add: hdr_def)
  then have "absorb_prev (baddr b) s = s" by (simp add: absorb_prev_def)
  then show ?thesis using rep Nil by (simp add: merge_prev_def)
next
  case (snoc zs p)
  then have rp: "heap_rep s (zs @ p # b # ys)" using rep by simp
  have prev: "rd32 (hmem s) (baddr b + 8) = baddr p" using rep snoc by (simp add: heap_rep_split hdr_def)
  have used: "rd32 (hmem s) (baddr p + 16) = 0 \<longleftrightarrow> buser p = None"
    using rp by (auto simp: heap_rep_split hdr_def)
  show ?thesis
  proof (cases "buser p = None")
    case True
    then have "absorb_prev (baddr b) s = absorb_next (baddr p) s"
      using prev used heap_rep_bounds(4) [OF rp] by (simp add: absorb_prev_def Let_def)
    then show ?thesis using absorb_next_merge [OF rp True] True snoc by (simp add: merge_prev_def)
  next
    case False
    then have "absorb_prev (baddr b) s = s" using prev used by (auto simp: absorb_prev_def Let_def)
    then show ?thesis using False rep snoc by (auto simp: merge_prev_def)
  qed
qed

lemma merge_prev_simps:
  assumes "buser b = None"
  shows "live (merge_prev xs b ys) = live xs @ live ys"
    "coalesced xs \<Longrightarrow> coalesced (b # ys) \<Longrightarrow> coalesced (merge_prev xs b ys)"
proof -
  show "live (merge_prev xs b ys) = live xs @ live ys"
    using assms merge_next_simps(1) [of "last xs" "b # ys"]
    by (cases xs rule: rev_cases) (simp_all add: merge_prev_def)
  show "coalesced (merge_prev xs b ys)" if "coalesced xs" "coalesced (b # ys)"
    using that assms
    by (cases xs rule: rev_cases) (auto simp: merge_prev_def coalesced_append coalesced_Cons merge_next_def)
qed

lemma Heap_Free_spec:
  assumes ok: "heap_ok s (xs @ b # ys)" and lock: "g_heapLock s = 0" and u: "buser b = Some u"
  shows "\<exists>s' bl'. Heap_Free u s = Some s' \<and> g_heapLock s' = 0 \<and> heap_ok s' bl' \<and> live bl' = live xs @ live ys"
proof -
  let ?bl = "xs @ b # ys"
  have rep: "heap_rep s ?bl" and co: "coalesced ?bl" using ok by (simp_all add: heap_ok_def)
  have h: "hdr (hmem s) b (last_addr xs 0) (hd_addr ys 0)" "slot_ok b" using rep by (simp_all add: heap_rep_split)
  have u0: "u \<noteq> 0" using h(2) u by (auto simp: slot_ok_def)
  let ?b' = "Blk (baddr b) (bsize b) None"
  let ?used = "if bsize b \<le> g_heapUsed s then g_heapUsed s - bsize b else 0"
  let ?s2 = "s\<lparr>g_heapLock := 1, hmem := wr32 (baddr b + 16) 0 (hmem s), g_heapUsed := ?used\<rparr>"
  have used: "unat (g_heapUsed s) = used_sum xs + unat (bsize b) + used_sum ys"
    using ok u by (simp add: heap_ok_def)
  have rep2: "heap_rep ?s2 (xs @ ?b' # ys)"
    using heap_rep_mark_free [OF rep] by (simp add: heap_rep_def)
  obtain m3 l3 where s3: "heap_rep (absorb_next (baddr b) ?s2) (xs @ merge_next ?b' ys)"
    "absorb_next (baddr b) ?s2 = ?s2\<lparr>hmem := m3, g_lastBlock := l3\<rparr>"
    using absorb_next_merge [OF rep2] by auto
  let ?s3 = "absorb_next (baddr b) ?s2"
  obtain z cs where mn: "merge_next ?b' ys = Blk (baddr b) z None # cs"
    using merge_next_simps(2) [of ?b' ys] by auto
  let ?c = "Blk (baddr b) z None"
  let ?s4 = "absorb_prev (baddr b) ?s3"
  have rep3: "heap_rep ?s3 (xs @ ?c # cs)" using s3(1) mn by simp
  obtain m4 l4 where s4: "heap_rep ?s4 (merge_prev xs ?c cs)" "?s4 = ?s3\<lparr>hmem := m4, g_lastBlock := l4\<rparr>"
    using absorb_prev_merge [OF rep3] by auto
  have live: "live (merge_prev xs ?c cs) = live xs @ live ys"
    using merge_prev_simps(1) [of ?c xs cs] merge_next_simps(1) [of ?b' ys] mn by simp
  have co': "coalesced (merge_prev xs ?c cs)"
    using merge_prev_simps(2) [of ?c xs cs] merge_next_simps(3) [of ?b' ys] mn co
    by (simp add: coalesced_append coalesced_Cons)
  have free: "Heap_Free u s = Some (unlock_heap ?s4)"
    using u0 lock h(1) u heap_rep_bounds(4) [OF rep]
    by (simp add: Heap_Free_def lock_heap_def block_from_payload_def hdr_def Let_def)
  have "unat ?used = used_sum xs + used_sum ys"
    using used by (auto simp: word_le_nat_alt unat_sub_nowrap)
  then have "heap_ok (unlock_heap ?s4) (merge_prev xs ?c cs)"
    using s4 s3(2) ok co' live
    by (simp add: heap_ok_def heap_rep_def unlock_heap_def used_sum_live)
  with free live show ?thesis by (auto simp: unlock_heap_def)
qed

subsection \<open>Writing to allocated memory\<close>

text \<open>Bytes at or above a user pointer and below the end of its block hold neither headers nor slots.\<close>

lemma heap_ok_user_write:
  assumes ok: "heap_ok s bl" and b: "b \<in> set bl" "buser b = Some u" and x: "unat u \<le> unat x" "unat x < bend b"
  shows "heap_ok (s\<lparr>hmem := (hmem s)(x := v)\<rparr>) bl"
proof -
  obtain xs ys where bl: "bl = xs @ b # ys" using b(1) by (meson split_list)
  have rep: "heap_rep s (xs @ b # ys)" using ok by (simp add: heap_ok_def bl)
  note bd = heap_rep_bounds [OF rep]
  let ?m = "(hmem s)(x := v)"
  have so: "slot_ok b" and hd: "hdr (hmem s) b (last_addr xs 0) (hd_addr ys 0)" "laid (bend b) (unat (g_heapEnd s)) ys"
    using rep by (simp_all add: heap_rep_split)
  have ub: "unat (baddr b) + 28 \<le> unat u" "unat u \<le> bend b" using so b(2) by (simp_all add: slot_ok_def)
  have "agree (hmem s) ?m 0 (unat (baddr b))" "agree (hmem s) ?m (bend b) (2 ^ 32)"
    using x ub by (auto simp: agree_def)
  moreover have "hdr ?m b (last_addr xs 0) (hd_addr ys 0)"
  proof -
    let ?b0 = "Blk (baddr b) (u - (baddr b + 24)) (Some u)"
    have raw: "unat (baddr b + 24) = unat (baddr b) + 24" using bd(3) by (simp add: bend_def unat_add_nowrap)
    then have "bend ?b0 = unat u" using ub by (simp add: bend_def unat_sub_nowrap)
    moreover have "agree (hmem s) ?m (unat (baddr b)) (unat u)" using x by (auto simp: agree_def)
    ultimately have "rd32 ?m (baddr b + k) = rd32 (hmem s) (baddr b + k)" if "unat k \<le> 20" for k
      using rd32_agree [of "hmem s" ?m "unat (baddr b)" "unat u" "baddr b + k"] that ub bd(3)
        unat_fld [of "baddr b" k] u32_less_limit [of u] by (simp add: bend_def)
    moreover have "rd32 ?m (u - 4) = rd32 (hmem s) (u - 4)"
      using rd32_agree [OF \<open>agree (hmem s) ?m (unat (baddr b)) (unat u)\<close>, of "u - 4"] ub u32_less_limit [of u]
      by (simp add: unat_sub_nowrap)
    moreover from calculation(1) [of 0] have "rd32 ?m (baddr b) = rd32 (hmem s) (baddr b)" by simp
    ultimately show ?thesis using hd(1) b(2) by (simp add: hdr_def)
  qed
  ultimately have "heap_rep (s\<lparr>hmem := ?m\<rparr>) bl"
    using heap_rep_modify [OF rep, of b ?m] so hd(2) by (simp add: bl)
  then show ?thesis using ok by (simp add: heap_ok_def)
qed

subsection \<open>Start-up\<close>

lemma Heap_ensure_map_pages:
  assumes "heap_ok s bl" "unat limit = unat (g_heapEnd s) + 4096 * n"
  shows "Heap_ensure limit s = map_pages n s"
  using assms
proof (induction n arbitrary: s)
  case 0
  then show ?case by (simp add: Heap_ensure.simps [of limit s] word_less_nat_alt)
next
  case (Suc n)
  obtain s1 r where s1: "map_page_at_end s = Some (s1, r)" "heap_ok s1 bl"
    "if r then unat (g_heapEnd s1) = unat (g_heapEnd s) + 4096 else s1 = s"
    using map_page_at_end_spec [OF Suc.prems(1)] by (metis (full_types))
  have "g_heapEnd s < limit" using Suc.prems(2) by (simp add: word_less_nat_alt)
  then show ?case
    using s1 Suc.IH [OF s1(2)] Suc.prems(2) by (cases r) (simp_all add: Heap_ensure.simps [of limit s])
qed

lemma Heap_Init_spec:
  assumes inv: "paging_inv (hp_paging s)" and base: "4096 \<le> unat base"
    and room: "unat base + 4096 * card (heap_frames s) < 2 ^ 32" "unat base + 4096 * max 1 (unat ip) < 2 ^ 32"
  shows "\<exists>s'. Heap_Init base ip s = Some s' \<and> g_heapLock s' = g_heapLock s \<and> g_heapBase s' = base \<and>
    (heap_ok s' [Blk base (of_nat (4096 * max 1 (unat ip) - 24)) None] \<or> heap_ok s' [] \<and> heap_frames s' = {})"
proof -
  define s1 where "s1 = s\<lparr>g_heapBase := base, g_heapEnd := base, g_heapUsed := 0, g_firstBlock := 0, g_lastBlock := 0\<rparr>"
  define pages :: u32 where "pages = (if ip = 0 then 1 else ip)"
  let ?n = "max 1 (unat ip)"
  have n: "unat pages = ?n" by (cases "unat ip") (auto simp: pages_def word_unat_eq_iff)
  have ok1: "heap_ok s1 []" using inv base room(1) by (simp add: s1_def heap_ok_def heap_rep_def)
  have lim: "unat (base + pages * 4096) = unat (g_heapEnd s1) + 4096 * ?n"
    using room(2) n by (simp add: s1_def unat_add_nowrap unat_mult_nowrap mult.commute)
  obtain s2 r where s2: "map_pages ?n s1 = Some (s2, r)" "core s2 = core s1" "heap_ok s2 []"
    "if r then unat (g_heapEnd s2) = unat (g_heapEnd s1) + 4096 * ?n else heap_frames s2 = {}"
    using map_pages_spec [OF ok1] by blast
  have ens: "Heap_ensure (base + pages * 4096) s1 = Some (s2, r)"
    using Heap_ensure_map_pages [OF ok1 lim] s2(1) by simp
  let ?z = "g_heapEnd s2 - g_heapBase s2 - 24"
  have init: "Heap_Init base ip s = Some (if r then create_block_at base ?z 0 s2 else s2)"
    using ens by (simp add: Heap_Init_def s1_def [symmetric] pages_def [symmetric] Let_def)
  have c2: "g_heapBase s2 = base" "g_heapLock s2 = g_heapLock s" "g_lastBlock s2 = 0" "g_heapUsed s2 = 0"
    using s2(2) by (simp_all add: core_def s1_def)
  show ?thesis
  proof (cases r)
    case True
    have z: "unat ?z = 4096 * ?n - 24" "unat (g_heapEnd s2) = unat base + 4096 * ?n"
      using s2(4) True c2(1) by (simp_all add: s1_def unat_sub_nowrap)
    have "?z = of_nat (unat ?z)" by simp
    then have zz: "?z = of_nat (4096 * ?n - 24)" unfolding z(1) .
    have "heap_rep (create_block_at base ?z (g_lastBlock s2) s2) ([] @ [Blk base ?z None])"
      by (rule create_block_at_rep) (use s2(3) z c2(1) in \<open>simp_all add: heap_ok_def\<close>)
    then have "heap_ok (create_block_at base ?z 0 s2) [Blk base ?z None]"
      using s2(3) c2 by (simp add: heap_ok_def create_block_at_def Let_def coalesced_def)
    then show ?thesis using init True c2 zz by (simp add: create_block_at_def Let_def)
  qed (use init s2 c2 in auto)
qed

section \<open>The interface to the users of the heap\<close>

text \<open>
  What the rest of the kernel may rely on. \<open>inv s g\<close> says that the heap is intact and \<open>g\<close> describes its
  allocations; \<open>region g u n\<close> that the \<open>n\<close> bytes at \<open>u\<close> belong to one of them. Allocation keeps the
  regions there are and returns 0 or a fresh region that overlaps none of them, and writing
  into a region keeps the heap intact.
\<close>

definition disjoint_bytes :: "u32 \<Rightarrow> nat \<Rightarrow> u32 \<Rightarrow> nat \<Rightarrow> bool" where
  "disjoint_bytes u n v m \<longleftrightarrow> unat u + n \<le> unat v \<or> unat v + m \<le> unat u"

text \<open>A run of allocations with an allocator \<open>al\<close>, collecting the pointers.\<close>

fun alloc_list :: "(u32 \<Rightarrow> 's \<Rightarrow> ('s \<times> u32) option) \<Rightarrow> u32 list \<Rightarrow> 's \<Rightarrow> ('s \<times> u32 list) option" where
  "alloc_list al [] s = Some (s, [])"
| "alloc_list al (n # ns) s =
     do { (s1, u) \<leftarrow> al n s; (s2, us) \<leftarrow> alloc_list al ns s1; Some (s2, u # us) }"

locale memory_allocator =
  fixes alloc :: "u32 \<Rightarrow> 's \<Rightarrow> ('s \<times> u32) option"
    and poke :: "u32 \<Rightarrow> u8 \<Rightarrow> 's \<Rightarrow> 's"
    and region :: "'g \<Rightarrow> u32 \<Rightarrow> nat \<Rightarrow> bool"
    and inv :: "'s \<Rightarrow> 'g \<Rightarrow> bool"
    and max_size :: nat
  assumes alloc_law: "inv s g \<Longrightarrow> 0 < unat n \<Longrightarrow> unat n \<le> max_size \<Longrightarrow>
      \<exists>s' u g'. alloc n s = Some (s', u) \<and> inv s' g' \<and> (\<forall>v m. region g v m \<longrightarrow> region g' v m) \<and>
        (u \<noteq> 0 \<longrightarrow> region g' u (unat n) \<and> (\<forall>v m. region g v m \<longrightarrow> disjoint_bytes u (unat n) v m))"
    and poke_law: "inv s g \<Longrightarrow> region g u k \<Longrightarrow> unat u \<le> unat x \<Longrightarrow> unat x < unat u + k \<Longrightarrow> inv (poke x b s) g"
begin

lemma alloc_list_spec:
  assumes "inv s g" "\<forall>n \<in> set ns. 0 < unat n \<and> unat n \<le> max_size"
  shows "\<exists>s' us g'. alloc_list alloc ns s = Some (s', us) \<and> inv s' g' \<and> length us = length ns \<and>
    (\<forall>v m. region g v m \<longrightarrow> region g' v m) \<and>
    (\<forall>i < length us. us ! i \<noteq> 0 \<longrightarrow> region g' (us ! i) (unat (ns ! i)) \<and>
       (\<forall>v m. region g v m \<longrightarrow> disjoint_bytes (us ! i) (unat (ns ! i)) v m)) \<and>
    (\<forall>i j. i < j \<and> j < length us \<and> us ! i \<noteq> 0 \<and> us ! j \<noteq> 0 \<longrightarrow>
       disjoint_bytes (us ! j) (unat (ns ! j)) (us ! i) (unat (ns ! i)))"
  using assms
proof (induction ns arbitrary: s g)
  case (Cons n ns)
  have n: "0 < unat n" "unat n \<le> max_size" using Cons.prems(2) by simp_all
  obtain s1 u g1 where s1: "alloc n s = Some (s1, u)" "inv s1 g1" "\<forall>v m. region g v m \<longrightarrow> region g1 v m"
    "u \<noteq> 0 \<longrightarrow> region g1 u (unat n) \<and> (\<forall>v m. region g v m \<longrightarrow> disjoint_bytes u (unat n) v m)"
    using alloc_law [OF Cons.prems(1) n] by (elim exE conjE)
  have "\<forall>k \<in> set ns. 0 < unat k \<and> unat k \<le> max_size" using Cons.prems(2) by simp
  from Cons.IH [OF s1(2) this]
  obtain s2 us g2 where s2: "alloc_list alloc ns s1 = Some (s2, us)" "inv s2 g2" "length us = length ns"
    "\<forall>v m. region g1 v m \<longrightarrow> region g2 v m"
    "\<forall>i < length us. us ! i \<noteq> 0 \<longrightarrow> region g2 (us ! i) (unat (ns ! i)) \<and>
       (\<forall>v m. region g1 v m \<longrightarrow> disjoint_bytes (us ! i) (unat (ns ! i)) v m)"
    "\<forall>i j. i < j \<and> j < length us \<and> us ! i \<noteq> 0 \<and> us ! j \<noteq> 0 \<longrightarrow>
       disjoint_bytes (us ! j) (unat (ns ! j)) (us ! i) (unat (ns ! i))"
    by (elim exE conjE)
  have "alloc_list alloc (n # ns) s = Some (s2, u # us)" using s1(1) s2(1) by simp
  moreover have "\<forall>i < length (u # us). (u # us) ! i \<noteq> 0 \<longrightarrow> region g2 ((u # us) ! i) (unat ((n # ns) ! i)) \<and>
       (\<forall>v m. region g v m \<longrightarrow> disjoint_bytes ((u # us) ! i) (unat ((n # ns) ! i)) v m)"
    using s2(4,5) s1(3,4) by (auto simp: nth_Cons split: nat.splits)
  moreover have "\<forall>i j. i < j \<and> j < length (u # us) \<and> (u # us) ! i \<noteq> 0 \<and> (u # us) ! j \<noteq> 0 \<longrightarrow>
       disjoint_bytes ((u # us) ! j) (unat ((n # ns) ! j)) ((u # us) ! i) (unat ((n # ns) ! i))"
    using s2(5,6) s1(4) by (auto simp: nth_Cons split: nat.splits)
  ultimately show ?case using s2(2-4) s1(3)
    by (intro exI [of _ s2] exI [of _ "u # us"] exI [of _ g2]) simp
qed auto

end

definition heap_inv :: "heap \<Rightarrow> blk list \<Rightarrow> bool" where
  "heap_inv s bl \<longleftrightarrow> heap_ok s bl \<and> g_heapLock s = 0"

definition blk_region :: "blk list \<Rightarrow> u32 \<Rightarrow> nat \<Rightarrow> bool" where
  "blk_region bl u n \<longleftrightarrow> (\<exists>b \<in> set bl. buser b = Some u \<and> unat u + n \<le> bend b)"

text \<open>A store through a pointer.\<close>

definition heap_poke :: "u32 \<Rightarrow> u8 \<Rightarrow> heap \<Rightarrow> heap" where
  "heap_poke x v s = s\<lparr>hmem := (hmem s)(x := v)\<rparr>"

lemma laid_live: "laid lo hi bl \<Longrightarrow> laid lo hi (live bl)"
proof (induction bl arbitrary: lo)
  case (Cons b bl)
  then have "laid (bend b) hi (live bl)" "lo \<le> bend b" by (auto simp: bend_def)
  with Cons.prems show ?case by (auto elim: laid_mono)
qed simp

text \<open>Two live blocks do not overlap, headers included.\<close>

lemma live_disjoint:
  assumes ok: "heap_ok s bl" and live: "live bl = xs @ c # ys" and d: "d \<in> set xs \<union> set ys"
  shows "bend d \<le> unat (baddr c) \<or> bend c \<le> unat (baddr d)"
proof -
  have "laid (unat (g_heapBase s)) (unat (g_heapEnd s)) (xs @ c # ys)"
    using laid_live ok live by (metis heap_ok_def heap_rep_def)
  then have "laid (unat (g_heapBase s)) (unat (baddr c)) xs" "laid (bend c) (unat (g_heapEnd s)) ys"
    by (simp_all add: laid_append_Cons)
  with d laid_mem show ?thesis by fastforce
qed

lemma user_inside: "heap_ok s bl \<Longrightarrow> b \<in> set bl \<Longrightarrow> buser b = Some u \<Longrightarrow> unat (baddr b) + 28 \<le> unat u"
  using laid_mem by (fastforce simp: heap_ok_def heap_rep_def slot_ok_def)

lemma mem_live: "b \<in> set (live bl) \<longleftrightarrow> b \<in> set bl \<and> buser b \<noteq> None"
  by (auto simp: live_def)

lemma normalize_align_8: "normalize_align 8 = Some 8"
  by (simp add: normalize_align_def)

lemma operator_new_spec:
  assumes "heap_ok s bl" "g_heapLock s = 0" "0 < unat n" "unat n \<le> 4294967259"
  shows "\<exists>s' u. operator_new n s = Some (s', u) \<and> g_heapLock s' = 0 \<and>
    (if u = 0 then (\<exists>bl'. heap_ok s' bl' \<and> live bl' = live bl) \<and> heap_frames s' = {}
     else \<exists>bl' c xs ys. heap_ok s' bl' \<and> 2 ^ 3 dvd unat u \<and> c \<in> set bl' \<and> buser c = Some u \<and>
       unat u + unat n \<le> bend c \<and> live bl' = xs @ c # ys \<and> live bl = xs @ ys)"
  unfolding operator_new_def
  by (rule Heap_Alloc_spec [OF assms(1-3) normalize_align_8]) (use assms(4) in simp_all)

lemma new_region_disjoint:
  assumes ok: "heap_ok s bl'" and c: "c \<in> set bl'" "buser c = Some u" "unat u + n \<le> bend c"
    and live: "live bl' = xs @ c # ys" "live bl = xs @ ys" and reg: "blk_region bl v m"
  shows "blk_region bl' v m" "disjoint_bytes u n v m"
proof -
  from reg obtain b where b: "b \<in> set bl" "buser b = Some v" "unat v + m \<le> bend b"
    by (auto simp: blk_region_def)
  then have "b \<in> set (live bl)" by (simp add: mem_live)
  then have bl: "b \<in> set xs \<union> set ys" "b \<in> set (live bl')" using live by auto
  then have b': "b \<in> set bl'" by (simp add: mem_live)
  with b show "blk_region bl' v m" by (auto simp: blk_region_def)
  show "disjoint_bytes u n v m"
    using live_disjoint [OF ok live(1) bl(1)] user_inside [OF ok c(1,2)] user_inside [OF ok b' b(2)] b(3) c(3)
    unfolding disjoint_bytes_def by linarith
qed

interpretation kheap: memory_allocator operator_new heap_poke blk_region heap_inv 4294967259
proof
  fix s bl n assume inv: "heap_inv s bl" and n: "0 < unat (n :: u32)" "unat n \<le> 4294967259"
  then have ok: "heap_ok s bl" "g_heapLock s = 0" by (simp_all add: heap_inv_def)
  obtain s' u where al: "operator_new n s = Some (s', u)" "g_heapLock s' = 0"
    "if u = 0 then (\<exists>bl'. heap_ok s' bl' \<and> live bl' = live bl) \<and> heap_frames s' = {}
     else \<exists>bl' c xs ys. heap_ok s' bl' \<and> 2 ^ 3 dvd unat u \<and> c \<in> set bl' \<and> buser c = Some u \<and>
       unat u + unat n \<le> bend c \<and> live bl' = xs @ c # ys \<and> live bl = xs @ ys"
    using operator_new_spec [OF ok n] by blast
  show "\<exists>s' u g'. operator_new n s = Some (s', u) \<and> heap_inv s' g' \<and>
      (\<forall>v m. blk_region bl v m \<longrightarrow> blk_region g' v m) \<and>
      (u \<noteq> 0 \<longrightarrow> blk_region g' u (unat n) \<and> (\<forall>v m. blk_region bl v m \<longrightarrow> disjoint_bytes u (unat n) v m))"
  proof (cases "u = 0")
    case True
    then obtain bl' where bl': "heap_ok s' bl'" "live bl' = live bl" using al(3) by auto
    have "blk_region bl v m \<Longrightarrow> blk_region bl' v m" for v m
      unfolding blk_region_def using bl'(2) by (metis mem_live option.distinct(1))
    with True al(1,2) bl'(1) show ?thesis by (auto simp: heap_inv_def)
  next
    case False
    then obtain bl' c xs ys where c: "heap_ok s' bl'" "c \<in> set bl'" "buser c = Some u"
       "unat u + unat n \<le> bend c" "live bl' = xs @ c # ys" "live bl = xs @ ys" using al(3) by auto
    have "blk_region bl' u (unat n)" using c(2-4) by (auto simp: blk_region_def)
    with new_region_disjoint [OF c] c(1) al(1,2) show ?thesis by (auto simp: heap_inv_def)
  qed
next
  fix s bl u k x b
  assume "heap_inv s bl" "blk_region bl u k" "unat u \<le> unat (x :: u32)" "unat x < unat u + k"
  then show "heap_inv (heap_poke x b s) bl"
    using heap_ok_user_write [of s bl _ u x b] by (auto simp: heap_inv_def blk_region_def heap_poke_def)
qed

section \<open>Properties\<close>

text \<open>A two-page heap at the kernel's base address, for the concrete instances below.\<close>

definition boot_heap :: heap where
  "boot_heap = \<lparr>hp_paging = boot_paging, hmem = put_header 0x2000000 0x1FE8 0 0 (\<lambda>_. 0),
     g_heapBase = 0x2000000, g_heapEnd = 0x2002000, g_heapUsed = 0, g_heapLock = 0,
     g_firstBlock = 0x2000000, g_lastBlock = 0x2000000\<rparr>"

lemma boot_heap_inv [simp]: "heap_inv boot_heap [Blk 0x2000000 0x1FE8 None]"
proof -
  have "card (free_frames boot_pmm) \<le> unat (g_frameCap boot_pmm)" by (rule card_free_frames_le)
  also have "\<dots> = 8096" by (simp add: boot_pmm_def PMM_Init_frameCap init_frames_def)
  finally have "card (free_frames boot_pmm) \<le> 8096" .
  moreover have "hdr (put_header 0x2000000 0x1FE8 0 0 (\<lambda>_. 0)) (Blk 0x2000000 0x1FE8 None) 0 0"
    by (rule put_header_hdr) simp
  moreover have "pg_pmm boot_paging = boot_pmm" by (simp add: boot_paging_def)
  ultimately show ?thesis
    by (simp add: heap_inv_def heap_ok_def heap_rep_def boot_heap_def coalesced_def slot_ok_def bend_def)
qed

text \<open>
  C1. \<^verbatim>\<open>Heap::Alloc\<close> on an intact heap returns and leaves it intact and unlocked. It returns null only
  when the machine is out of physical frames, and then no allocation is lost. Otherwise the
  pointer is aligned as requested, the requested bytes lie inside one new block, and the live
  blocks are the old ones plus that block, none of which overlaps it (headers included). The
  sizes the rounding cannot represent are excluded.
\<close>

theorem Heap_Alloc_correct:
  assumes "heap_inv s bl" and "0 < unat sz" and "normalize_align align = Some A"
    and "unat A + 28 + unat sz < 2 ^ 32" and "unat align \<le> 2 ^ 31"
  shows "\<exists>s' u bl'. Heap_Alloc sz align s = Some (s', u) \<and> heap_inv s' bl' \<and>
    (if u = 0 then live bl' = live bl \<and> heap_frames s' = {}
     else \<exists>c xs ys. live bl' = xs @ c # ys \<and> live bl = xs @ ys \<and> buser c = Some u \<and>
       unat A dvd unat u \<and> unat (baddr c) + 28 \<le> unat u \<and> unat u + unat sz \<le> bend c \<and>
       (\<forall>d \<in> set (live bl). bend d \<le> unat (baddr c) \<or> bend c \<le> unat (baddr d)))"
proof -
  have ok: "heap_ok s bl" "g_heapLock s = 0" using assms(1) by (simp_all add: heap_inv_def)
  obtain k where k: "k \<le> 31" "unat A = 2 ^ k"
    using normalize_align_spec [OF assms(5)] assms(3) by (metis option.inject)
  obtain s' u where a: "Heap_Alloc sz align s = Some (s', u)" "g_heapLock s' = 0"
    "if u = 0 then (\<exists>bl'. heap_ok s' bl' \<and> live bl' = live bl) \<and> heap_frames s' = {}
     else \<exists>bl' c xs ys. heap_ok s' bl' \<and> 2 ^ k dvd unat u \<and> c \<in> set bl' \<and> buser c = Some u \<and>
       unat u + unat sz \<le> bend c \<and> live bl' = xs @ c # ys \<and> live bl = xs @ ys"
    using Heap_Alloc_spec [OF ok assms(2,3) k(2,1)] assms(4) k(2) by auto
  show ?thesis
  proof (cases "u = 0")
    case True
    with a show ?thesis by (auto simp: heap_inv_def)
  next
    case False
    then obtain bl' c xs ys where c: "heap_ok s' bl'" "2 ^ k dvd unat u" "c \<in> set bl'" "buser c = Some u"
       "unat u + unat sz \<le> bend c" "live bl' = xs @ c # ys" "live bl = xs @ ys" using a(3) by auto
    have "\<forall>d \<in> set (live bl). bend d \<le> unat (baddr c) \<or> bend c \<le> unat (baddr d)"
      using live_disjoint [OF c(1,6)] c(7) by simp
    with False a(1,2) c k(2) user_inside [OF c(1,3,4)] show ?thesis
      by (intro exI [of _ s'] exI [of _ u] exI [of _ bl']) (simp add: heap_inv_def, blast)
  qed
qed

theorem Heap_Alloc_correct_witness:
  "\<exists>s' u bl'. Heap_Alloc 100 16 boot_heap = Some (s', u) \<and> heap_inv s' bl' \<and>
    (u = 0 \<or> 16 dvd unat u \<and> (\<exists>c \<in> set (live bl'). buser c = Some u \<and> unat u + 100 \<le> bend c))"
proof -
  have "normalize_align 16 = Some 16" by (simp add: normalize_align_def)
  from Heap_Alloc_correct [OF boot_heap_inv _ this, of 100] obtain s' u bl'
    where "Heap_Alloc 100 16 boot_heap = Some (s', u)" "heap_inv s' bl'"
      "if u = 0 then live bl' = live [Blk 0x2000000 0x1FE8 None] \<and> heap_frames s' = {}
       else \<exists>c xs ys. live bl' = xs @ c # ys \<and> live [Blk 0x2000000 0x1FE8 None] = xs @ ys \<and> buser c = Some u \<and>
         unat (16 :: u32) dvd unat u \<and> unat (baddr c) + 28 \<le> unat u \<and> unat u + unat (100 :: u32) \<le> bend c \<and>
         (\<forall>d \<in> set (live [Blk 0x2000000 0x1FE8 None]). bend d \<le> unat (baddr c) \<or> bend c \<le> unat (baddr d))"
    by auto
  then show ?thesis by (auto split: if_splits intro!: exI)
qed

text \<open>
  C9. \<^verbatim>\<open>Heap::Free\<close> of a live pointer returns, leaves the heap intact and unlocked, with no two free
  blocks next to each other, removes exactly that block from the live ones and lowers
  \<^verbatim>\<open>Heap::Used\<close> by its size.
\<close>

theorem Heap_Free_correct:
  assumes "heap_inv s (xs @ b # ys)" and "buser b = Some u"
  shows "\<exists>s' bl'. Heap_Free u s = Some s' \<and> heap_inv s' bl' \<and> live bl' = live xs @ live ys \<and> coalesced bl' \<and>
    unat (Heap_Used s') = unat (Heap_Used s) - unat (bsize b)"
proof -
  have ok: "heap_ok s (xs @ b # ys)" "g_heapLock s = 0" using assms(1) by (simp_all add: heap_inv_def)
  obtain s' bl' where s': "Heap_Free u s = Some s'" "g_heapLock s' = 0" "heap_ok s' bl'"
    "live bl' = live xs @ live ys"
    using Heap_Free_spec [OF ok assms(2)] by blast
  have "unat (g_heapUsed s') = used_sum xs + used_sum ys" "coalesced bl'"
    "unat (g_heapUsed s) = used_sum xs + unat (bsize b) + used_sum ys"
    using s'(3,4) ok(1) assms(2) by (simp_all add: heap_ok_def used_sum_live)
  with s' show ?thesis by (auto simp: heap_inv_def Heap_Used_def)
qed

definition boot_heap_used :: heap where
  "boot_heap_used = boot_heap\<lparr>hmem := wr32 (0x2000020 - 4) 0x2000000 (wr32 (0x2000000 + 16) 1 (hmem boot_heap)),
     g_heapUsed := 0x1FE8\<rparr>"

lemma boot_heap_used_inv: "heap_inv boot_heap_used ([] @ Blk 0x2000000 0x1FE8 (Some 0x2000020) # [])"
proof -
  have ok: "heap_ok boot_heap ([] @ Blk 0x2000000 0x1FE8 None # [])"
    using boot_heap_inv by (simp add: heap_inv_def)
  then have "heap_rep boot_heap ([] @ Blk 0x2000000 0x1FE8 None # [])" by (simp add: heap_ok_def)
  from heap_rep_mark_used [OF this, of "0x2000020"]
  have "heap_rep (boot_heap\<lparr>hmem := wr32 (0x2000020 - 4) 0x2000000 (wr32 (0x2000000 + 16) 1 (hmem boot_heap))\<rparr>)
      [Blk 0x2000000 0x1FE8 (Some 0x2000020)]"
    by (simp add: bend_def)
  with ok boot_heap_inv show ?thesis
    by (simp add: heap_inv_def heap_ok_def boot_heap_used_def heap_rep_def coalesced_def)
qed

theorem Heap_Free_correct_witness:
  "\<exists>s' bl'. Heap_Free 0x2000020 boot_heap_used = Some s' \<and> heap_inv s' bl' \<and> live bl' = [] \<and> Heap_Used s' = 0"
  using Heap_Free_correct [OF boot_heap_used_inv, of "0x2000020"]
  by (auto simp: Heap_Used_def boot_heap_used_def word_unat_eq_iff)

text \<open>
  C19. Objects never overlap: a sequence of \<^verbatim>\<open>operator new\<close> calls on an intact heap returns, and all
  non-null results are pairwise disjoint regions of live memory.
\<close>

theorem operator_new_disjoint:
  assumes "heap_inv s bl" and "\<forall>n \<in> set ns. 0 < unat n \<and> unat n \<le> 4294967259"
  shows "\<exists>s' us bl'. alloc_list operator_new ns s = Some (s', us) \<and> heap_inv s' bl' \<and> length us = length ns \<and>
    (\<forall>i < length us. us ! i \<noteq> 0 \<longrightarrow> blk_region bl' (us ! i) (unat (ns ! i))) \<and>
    (\<forall>i j. i < j \<and> j < length us \<and> us ! i \<noteq> 0 \<and> us ! j \<noteq> 0 \<longrightarrow>
       disjoint_bytes (us ! j) (unat (ns ! j)) (us ! i) (unat (ns ! i)))"
  using kheap.alloc_list_spec [OF assms] by blast

theorem operator_new_disjoint_witness:
  "\<exists>s' us bl'. alloc_list operator_new [24, 5000, 108] boot_heap = Some (s', us) \<and> heap_inv s' bl' \<and> length us = 3"
  using operator_new_disjoint [OF boot_heap_inv, of "[24, 5000, 108]"] by auto



text \<open>
  \<^verbatim>\<open>Heap::Init\<close> returns. If the frames suffice the heap consists of one free block that spans the
  requested pages (at least one); if they do not, the heap is empty and no frame is left.
\<close>

theorem Heap_Init_correct:
  assumes "paging_inv (hp_paging s)" and "g_heapLock s = 0" and "4096 \<le> unat base"
    and "unat base + 4096 * card (heap_frames s) < 2 ^ 32" and "unat base + 4096 * max 1 (unat initialPages) < 2 ^ 32"
  shows "\<exists>s'. Heap_Init base initialPages s = Some s' \<and>
    (heap_inv s' [Blk base (of_nat (4096 * max 1 (unat initialPages) - 24)) None] \<or>
     heap_inv s' [] \<and> heap_frames s' = {})"
  using Heap_Init_spec [OF assms(1,3-5)] assms(2) by (auto simp: heap_inv_def)

theorem Heap_Init_correct_witness:
  "\<exists>s'. Heap_Init 0x2000000 2 boot_heap = Some s' \<and>
    (heap_inv s' [Blk 0x2000000 0x1FE8 None] \<or> heap_inv s' [] \<and> heap_frames s' = {})"
proof -
  have "heap_ok boot_heap [Blk 0x2000000 0x1FE8 None]" using boot_heap_inv by (simp add: heap_inv_def)
  then have "paging_inv (hp_paging boot_heap)" "33562624 + 4096 * card (heap_frames boot_heap) < 2 ^ 32"
    by (simp_all add: heap_ok_def boot_heap_def)
  then show ?thesis
    using Heap_Init_correct [of boot_heap "0x2000000" 2] by (simp add: boot_heap_def)
qed

text \<open>
  The size arithmetic of \<^verbatim>\<open>find_block\<close> wraps for sizes within a few bytes of 4 GiB: the request is
  granted from a block that cannot hold it.
\<close>

lemma Heap_Alloc_size_wrap:
  "find_block (hmem boot_heap) 0xFFFFFFFF 8 (g_firstBlock boot_heap) = Some (0x2000000, 0x2000020, 7)"
proof -
  have "heap_ok boot_heap [Blk 0x2000000 0x1FE8 None]" using boot_heap_inv by (simp add: heap_inv_def)
  from find_block_ok [OF this, of "0xFFFFFFFF" 8] show ?thesis
    by (simp add: fits_def consumed_of_def user_of_def align_up_ptr_def)
qed

end
