(* ===== verification/KOS_Thread.thy ===== *)
theory KOS_Thread
  imports KOS_Heap KOS_String
begin

text \<open>
  Thread control blocks, \<^verbatim>\<open>src/process/thread.cpp\<close> with \<^verbatim>\<open>include/process/thread.h\<close>: construction,
  stack allocation, the initial CPU context, the thread factory and the utility functions.
  Thread objects are kept in a store indexed by the address that \<^verbatim>\<open>operator new\<close> returned for
  them; stacks are bytes of the heap's memory. Names are the strings the name pointers point to.
\<close>

section \<open>Data\<close>

datatype TaskState = TASK_READY | TASK_RUNNING | TASK_BLOCKED | TASK_SLEEPING | TASK_SUSPENDED | TASK_TERMINATED

text \<open>Priorities are the numbers of the enumeration; a number outside it can come from a cast.\<close>

type_synonym ThreadPriority = u32

abbreviation (input) PRIORITY_CRITICAL :: ThreadPriority where "PRIORITY_CRITICAL \<equiv> 0"
abbreviation (input) PRIORITY_HIGH :: ThreadPriority where "PRIORITY_HIGH \<equiv> 1"
abbreviation (input) PRIORITY_NORMAL :: ThreadPriority where "PRIORITY_NORMAL \<equiv> 2"
abbreviation (input) PRIORITY_LOW :: ThreadPriority where "PRIORITY_LOW \<equiv> 3"
abbreviation (input) PRIORITY_IDLE :: ThreadPriority where "PRIORITY_IDLE \<equiv> 4"

record CPUContext =
  r_edi :: u32
  r_esi :: u32
  r_ebp :: u32
  r_esp_dump :: u32
  r_ebx :: u32
  r_edx :: u32
  r_ecx :: u32
  r_eax :: u32
  r_ds :: u32
  r_es :: u32
  r_fs :: u32
  r_gs :: u32
  r_eip :: u32
  r_cs :: u32
  r_eflags :: u32
  r_esp :: u32
  r_ss :: u32

text \<open>\<^verbatim>\<open>memset(&context, 0, sizeof(CPUContext))\<close>\<close>

definition CPUContext_zero :: CPUContext where
  "CPUContext_zero = \<lparr>r_edi = 0, r_esi = 0, r_ebp = 0, r_esp_dump = 0, r_ebx = 0, r_edx = 0, r_ecx = 0, r_eax = 0,
     r_ds = 0, r_es = 0, r_fs = 0, r_gs = 0, r_eip = 0, r_cs = 0, r_eflags = 0, r_esp = 0, r_ss = 0\<rparr>"

record Thread =
  task_id :: u32
  task_state :: TaskState
  priority :: ThreadPriority
  ctxt :: CPUContext
  stack_base :: u32
  stack_size :: u32
  time_slice :: u32
  sleep_until :: u32
  total_runtime :: u32
  task_name :: string
  next_task :: u32

text \<open>Thread objects by address. \<^verbatim>\<open>sizeof(Thread)\<close> is 108.\<close>

type_synonym tstore = "u32 \<Rightarrow> Thread"

abbreviation (input) sizeof_Thread :: u32 where "sizeof_Thread \<equiv> 108"

section \<open>Operations\<close>

definition Thread_new :: Thread where
  "Thread_new = \<lparr>task_id = 0, task_state = TASK_READY, priority = PRIORITY_NORMAL, ctxt = CPUContext_zero,
     stack_base = 0, stack_size = 0, time_slice = 0, sleep_until = 0, total_runtime = 0,
     task_name = ''unnamed'', next_task = 0\<rparr>"

definition CalculateTimeSlice :: "ThreadPriority \<Rightarrow> u32" where
  "CalculateTimeSlice p =
     (if p = PRIORITY_CRITICAL then 20
      else if p = PRIORITY_HIGH then 15
      else if p = PRIORITY_NORMAL then 10
      else if p = PRIORITY_LOW then 5
      else if p = PRIORITY_IDLE then 3
      else 10)"

definition FreeStack :: "Thread \<times> heap \<Rightarrow> (Thread \<times> heap) option" where
  "FreeStack = (\<lambda>(t, h).
     if stack_base t \<noteq> 0
     then do { h' \<leftarrow> Heap_Free (stack_base t) h; Some (t\<lparr>stack_base := 0, stack_size := 0\<rparr>, h') }
     else Some (t, h))"

definition AllocateStack :: "u32 \<Rightarrow> Thread \<times> heap \<Rightarrow> ((Thread \<times> heap) \<times> bool) option" where
  "AllocateStack sz = (\<lambda>(t0, h0).
     do {
       (t, h) \<leftarrow> (if stack_base t0 \<noteq> 0 then FreeStack (t0, h0) else Some (t0, h0));
       (h1, p) \<leftarrow> Heap_Alloc sz 8 h;
       if p = 0 then Some ((t\<lparr>stack_base := 0, stack_size := 0\<rparr>, h1), False)
       else Some ((t\<lparr>stack_base := p, stack_size := sz\<rparr>, h1\<lparr>hmem := libc_memset (hmem h1) p 0 sz\<rparr>), True)
     })"

definition SetupInitialStack :: "u32 \<Rightarrow> Thread \<Rightarrow> Thread" where
  "SetupInitialStack entry_point t =
     (if stack_base t = 0 then t
      else t\<lparr>ctxt := CPUContext_zero
        \<lparr>r_esp := stack_base t + stack_size t - 4,
         r_ss := 0x10, r_cs := 0x08, r_ds := 0x10, r_es := 0x10, r_fs := 0x10, r_gs := 0x10,
         r_eip := entry_point,
         r_eflags := 0x202\<rparr>\<rparr>)"

definition Thread_Initialize ::
  "u32 \<Rightarrow> u32 \<Rightarrow> u32 \<Rightarrow> ThreadPriority \<Rightarrow> string \<Rightarrow> Thread \<times> heap \<Rightarrow> ((Thread \<times> heap) \<times> bool) option" where
  "Thread_Initialize tid entry_point stack_sz prio thread_name = (\<lambda>(t, h).
     do {
       ((t1, h1), ok) \<leftarrow> AllocateStack stack_sz
         (t\<lparr>task_id := tid, priority := prio, stack_size := stack_sz, task_name := thread_name,
            task_state := TASK_READY, time_slice := CalculateTimeSlice prio\<rparr>, h);
       Some ((if ok then SetupInitialStack entry_point t1 else t1, h1), ok)
     })"

definition Thread_Cleanup :: "Thread \<times> heap \<Rightarrow> (Thread \<times> heap) option" where
  "Thread_Cleanup th = do { (t, h) \<leftarrow> FreeStack th; Some (t\<lparr>task_state := TASK_TERMINATED\<rparr>, h) }"

text \<open>The constructor with arguments ignores the result of \<^verbatim>\<open>Initialize\<close>.\<close>

definition Thread_new_args ::
  "u32 \<Rightarrow> u32 \<Rightarrow> u32 \<Rightarrow> ThreadPriority \<Rightarrow> string \<Rightarrow> heap \<Rightarrow> (Thread \<times> heap) option" where
  "Thread_new_args tid entry_point stack_sz prio thread_name h =
     do {
       (th, ok) \<leftarrow> Thread_Initialize tid entry_point stack_sz prio thread_name
         (Thread_new\<lparr>task_id := tid, priority := prio, stack_size := stack_sz, task_name := thread_name\<rparr>, h);
       Some th
     }"

text \<open>\<^verbatim>\<open>delete thread\<close>: the destructor, then a deallocation that does nothing.\<close>

definition delete_Thread :: "u32 \<Rightarrow> tstore \<times> heap \<Rightarrow> (tstore \<times> heap) option" where
  "delete_Thread p = (\<lambda>(ts, h).
     do { (t, h1) \<leftarrow> Thread_Cleanup (ts p, h); Some (ts(p := t), operator_delete p h1) })"

definition CreateThread ::
  "u32 \<Rightarrow> u32 \<Rightarrow> u32 \<Rightarrow> ThreadPriority \<Rightarrow> string \<Rightarrow> tstore \<times> heap \<Rightarrow> ((tstore \<times> heap) \<times> u32) option" where
  "CreateThread tid entry_point stack_sz prio thread_name = (\<lambda>(ts, h).
     do {
       (h1, p) \<leftarrow> operator_new sizeof_Thread h;
       if p = 0 then Some ((ts, h1), 0)
       else do {
         ((t, h2), ok) \<leftarrow> Thread_Initialize tid entry_point stack_sz prio thread_name (Thread_new, h1);
         if \<not> ok then do { th \<leftarrow> delete_Thread p (ts(p := t), h2); Some (th, 0) }
         else Some ((ts(p := t), h2), p)
       }
     })"

definition DestroyThread :: "u32 \<Rightarrow> tstore \<times> heap \<Rightarrow> (tstore \<times> heap) option" where
  "DestroyThread p = (\<lambda>(ts, h).
     if p \<noteq> 0
     then do { (t, h1) \<leftarrow> Thread_Cleanup (ts p, h); delete_Thread p (ts(p := t), h1) }
     else Some (ts, h))"

definition SetupThreadStack :: "u32 \<Rightarrow> u32 \<Rightarrow> bool" where
  "SetupThreadStack thread entry_point = (if thread = 0 then False else True)"

text \<open>The accessors of the header with an effect or a condition.\<close>

definition DecrementTimeSlice :: "Thread \<Rightarrow> Thread" where
  "DecrementTimeSlice t = (if time_slice t > 0 then t\<lparr>time_slice := time_slice t - 1\<rparr> else t)"

definition ShouldWakeUp :: "u32 \<Rightarrow> Thread \<Rightarrow> bool" where
  "ShouldWakeUp tick t \<longleftrightarrow> task_state t = TASK_SLEEPING \<and> tick \<ge> sleep_until t"

subsection \<open>Utilities\<close>

fun StateToString :: "TaskState \<Rightarrow> string" where
  "StateToString TASK_READY = ''READY''"
| "StateToString TASK_RUNNING = ''RUNNING''"
| "StateToString TASK_BLOCKED = ''BLOCKED''"
| "StateToString TASK_SLEEPING = ''SLEEPING''"
| "StateToString TASK_SUSPENDED = ''SUSPENDED''"
| "StateToString TASK_TERMINATED = ''TERMINATED''"

definition PriorityToString :: "ThreadPriority \<Rightarrow> string" where
  "PriorityToString p =
     (if p = PRIORITY_CRITICAL then ''CRITICAL''
      else if p = PRIORITY_HIGH then ''HIGH''
      else if p = PRIORITY_NORMAL then ''NORMAL''
      else if p = PRIORITY_LOW then ''LOW''
      else if p = PRIORITY_IDLE then ''IDLE''
      else ''UNKNOWN'')"

definition IsValidPriority :: "ThreadPriority \<Rightarrow> bool" where
  "IsValidPriority p \<longleftrightarrow> p \<ge> PRIORITY_CRITICAL \<and> p \<le> PRIORITY_IDLE"

definition MillisecondsToTicks :: "u32 \<Rightarrow> u32 \<Rightarrow> u32" where
  "MillisecondsToTicks milliseconds timer_frequency =
     (let f = (if timer_frequency = 0 then 100 else timer_frequency);
          ticks = (milliseconds * f) div 1000
      in if ticks > 0 then ticks else 1)"

definition TicksToMilliseconds :: "u32 \<Rightarrow> u32 \<Rightarrow> u32" where
  "TicksToMilliseconds ticks timer_frequency =
     (let f = (if timer_frequency = 0 then 100 else timer_frequency) in (ticks * 1000) div f)"

text \<open>Console output of \<^verbatim>\<open>PrintInfo\<close>, as the sequence of writes.\<close>

datatype tty_write = TTY_Write string | TTY_WriteHex u8

definition PrintInfo :: "Thread \<Rightarrow> tty_write list" where
  "PrintInfo t =
     [TTY_Write ''Thread ID: '', TTY_WriteHex (ucast (task_id t)),
      TTY_Write '' Name: '', TTY_Write (task_name t),
      TTY_Write '' State: '', TTY_Write (StateToString (task_state t)),
      TTY_Write '' Priority: '', TTY_Write (PriorityToString (priority t)),
      TTY_Write '' Runtime: '', TTY_WriteHex (ucast (total_runtime t)), TTY_Write '' ticks\<newline>'']"

section \<open>Clearing a stack\<close>

lemma blk_region_bound:
  assumes "heap_inv h bl" "blk_region bl u n"
  shows "unat u + n \<le> 2 ^ 32"
proof -
  from assms obtain b where b: "b \<in> set bl" "unat u + n \<le> bend b" by (auto simp: blk_region_def)
  have "laid (unat (g_heapBase h)) (unat (g_heapEnd h)) bl" using assms(1) by (simp add: heap_inv_def heap_ok_def heap_rep_def)
  then have "bend b \<le> unat (g_heapEnd h)" using b(1) laid_mem by blast
  then show ?thesis using b(2) u32_less_limit [of "g_heapEnd h"] by simp
qed

lemma heap_inv_memset:
  assumes inv: "heap_inv h bl" and reg: "blk_region bl u (unat n)"
  shows "heap_inv (h\<lparr>hmem := libc_memset (hmem h) u c n\<rparr>) bl"
proof -
  have "heap_inv (h\<lparr>hmem := for_range 0 n (\<lambda>i m. m(u + i := ucast (c AND 0xFF))) (hmem h)\<rparr>) bl"
  proof (rule for_range_rule_any [where P = "\<lambda>m. heap_inv (h\<lparr>hmem := m\<rparr>) bl"])
    fix j m assume j: "j < n" and m: "heap_inv (h\<lparr>hmem := m\<rparr>) bl"
    have "unat (u + j) = unat u + unat j"
      using j blk_region_bound [OF inv reg] by (simp add: unat_add_nowrap word_less_nat_alt)
    then show "heap_inv (h\<lparr>hmem := m(u + j := ucast (c AND 0xFF))\<rparr>) bl"
      using kheap.poke_law [OF m reg, of "u + j"] j by (simp add: heap_poke_def word_less_nat_alt)
  qed (use inv in simp)
  then show ?thesis by (simp add: libc_memset_def)
qed

section \<open>Creating a thread\<close>

lemma AllocateStack_spec:
  assumes inv: "heap_inv h bl" and n: "0 < unat n" "unat n \<le> 4294967259" and t: "stack_base t = 0"
  shows "\<exists>h' u bl'. heap_inv h' bl' \<and> (\<forall>v m. blk_region bl v m \<longrightarrow> blk_region bl' v m) \<and>
    (if u = 0 then AllocateStack n (t, h) = Some ((t\<lparr>stack_base := 0, stack_size := 0\<rparr>, h'), False)
     else AllocateStack n (t, h) = Some ((t\<lparr>stack_base := u, stack_size := n\<rparr>, h'), True) \<and>
       blk_region bl' u (unat n) \<and> (\<forall>v m. blk_region bl v m \<longrightarrow> disjoint_bytes u (unat n) v m) \<and>
       (\<forall>x. unat u \<le> unat x \<and> unat x < unat u + unat n \<longrightarrow> hmem h' x = 0))"
proof -
  obtain h1 u bl' where al: "operator_new n h = Some (h1, u)" "heap_inv h1 bl'" "\<forall>v m. blk_region bl v m \<longrightarrow> blk_region bl' v m"
    "u \<noteq> 0 \<longrightarrow> blk_region bl' u (unat n) \<and> (\<forall>v m. blk_region bl v m \<longrightarrow> disjoint_bytes u (unat n) v m)"
    using kheap.alloc_law [OF inv n] by (elim exE conjE)
  show ?thesis
  proof (cases "u = 0")
    case True
    with al t show ?thesis
      by (intro exI [of _ h1] exI [of _ "0 :: u32"] exI [of _ bl']) (simp add: AllocateStack_def operator_new_def)
  next
    case False
    with al have reg: "blk_region bl' u (unat n)" by blast
    let ?h = "h1\<lparr>hmem := libc_memset (hmem h1) u 0 n\<rparr>"
    have "\<forall>x. unat u \<le> unat x \<and> unat x < unat u + unat n \<longrightarrow> hmem ?h x = 0"
      using memset_spec [OF blk_region_bound [OF al(2) reg], of "hmem h1" 0]
      by (simp add: libc_memset_def String_memset_def)
    with False al t heap_inv_memset [OF al(2) reg, of 0] show ?thesis
      by (intro exI [of _ ?h] exI [of _ u] exI [of _ bl']) (simp add: AllocateStack_def operator_new_def)
  qed
qed

lemma CreateThread_spec:
  assumes inv: "heap_inv h bl" and n: "0 < unat n" "unat n \<le> 4294967259"
  shows "\<exists>ts' h' p bl'. CreateThread tid entry n pr nm (ts, h) = Some ((ts', h'), p) \<and> heap_inv h' bl' \<and>
    (\<forall>v m. blk_region bl v m \<longrightarrow> blk_region bl' v m) \<and> (\<forall>q. blk_region bl q 108 \<longrightarrow> ts' q = ts q) \<and>
    (p \<noteq> 0 \<longrightarrow>
      (\<forall>q. q \<noteq> p \<longrightarrow> ts' q = ts q) \<and> task_id (ts' p) = tid \<and> priority (ts' p) = pr \<and> task_state (ts' p) = TASK_READY \<and>
      time_slice (ts' p) = CalculateTimeSlice pr \<and> task_name (ts' p) = nm \<and> next_task (ts' p) = 0 \<and>
      r_eip (ctxt (ts' p)) = entry \<and> r_esp (ctxt (ts' p)) = stack_base (ts' p) + n - 4 \<and>
      stack_size (ts' p) = n \<and> stack_base (ts' p) \<noteq> 0 \<and>
      blk_region bl' p 108 \<and> blk_region bl' (stack_base (ts' p)) (unat n) \<and> disjoint_bytes (stack_base (ts' p)) (unat n) p 108 \<and>
      (\<forall>v m. blk_region bl v m \<longrightarrow> disjoint_bytes p 108 v m \<and> disjoint_bytes (stack_base (ts' p)) (unat n) v m) \<and>
      (\<forall>x. unat (stack_base (ts' p)) \<le> unat x \<and> unat x < unat (stack_base (ts' p)) + unat n \<longrightarrow> hmem h' x = 0))"
proof -
  obtain h1 p bl1 where al: "operator_new 108 h = Some (h1, p)" "heap_inv h1 bl1" "\<forall>v m. blk_region bl v m \<longrightarrow> blk_region bl1 v m"
    "p \<noteq> 0 \<longrightarrow> blk_region bl1 p 108 \<and> (\<forall>v m. blk_region bl v m \<longrightarrow> disjoint_bytes p 108 v m)"
    using kheap.alloc_law [OF inv, of 108] by auto
  show ?thesis
  proof (cases "p = 0")
    case True
    with al show ?thesis
      by (intro exI [of _ ts] exI [of _ h1] exI [of _ "0 :: u32"] exI [of _ bl1]) (simp add: CreateThread_def)
  next
    case False
    then have reg: "blk_region bl1 p 108" and dis: "\<forall>v m. blk_region bl v m \<longrightarrow> disjoint_bytes p 108 v m" using al(4) by auto
    have fresh: "\<not> blk_region bl p 108"
    proof
      assume "blk_region bl p 108"
      with dis have "disjoint_bytes p 108 p 108" by blast
      then show False by (simp add: disjoint_bytes_def)
    qed
    let ?t = "Thread_new\<lparr>task_id := tid, priority := pr, stack_size := n, task_name := nm,
            task_state := TASK_READY, time_slice := CalculateTimeSlice pr\<rparr>"
    obtain h2 u bl2 where as: "heap_inv h2 bl2" "\<forall>v m. blk_region bl1 v m \<longrightarrow> blk_region bl2 v m"
      "if u = 0 then AllocateStack n (?t, h1) = Some ((?t\<lparr>stack_base := 0, stack_size := 0\<rparr>, h2), False)
       else AllocateStack n (?t, h1) = Some ((?t\<lparr>stack_base := u, stack_size := n\<rparr>, h2), True) \<and>
         blk_region bl2 u (unat n) \<and> (\<forall>v m. blk_region bl1 v m \<longrightarrow> disjoint_bytes u (unat n) v m) \<and>
         (\<forall>x. unat u \<le> unat x \<and> unat x < unat u + unat n \<longrightarrow> hmem h2 x = 0)"
      using AllocateStack_spec [OF al(2) n, of ?t] by (auto simp: Thread_new_def)
    show ?thesis
    proof (cases "u = 0")
      case True
      let ?ts = "ts(p := ?t\<lparr>stack_base := 0, stack_size := 0, task_state := TASK_TERMINATED\<rparr>)"
      have "CreateThread tid entry n pr nm (ts, h) = Some ((?ts, h2), 0)"
        using al(1) False as(3) True
        by (simp add: CreateThread_def Thread_Initialize_def delete_Thread_def Thread_Cleanup_def FreeStack_def operator_delete_def)
      then show ?thesis using as(1,2) al(3) fresh
        by (intro exI [of _ ?ts] exI [of _ h2] exI [of _ "0 :: u32"] exI [of _ bl2]) auto
    next
      case u: False
      let ?ts = "ts(p := SetupInitialStack entry (?t\<lparr>stack_base := u, stack_size := n\<rparr>))"
      have "CreateThread tid entry n pr nm (ts, h) = Some ((?ts, h2), p)"
        using al(1) False as(3) u by (simp add: CreateThread_def Thread_Initialize_def)
      then show ?thesis using as al(3) fresh reg dis u False
        by (intro exI [of _ ?ts] exI [of _ h2] exI [of _ p] exI [of _ bl2])
          (auto simp: SetupInitialStack_def Thread_new_def)
    qed
  qed
qed

end
