(* ===== verification/KOS_Scheduler.thy ===== *)
theory KOS_Scheduler
  imports KOS_Thread
begin

text \<open>
  The preemptive priority scheduler, \<^verbatim>\<open>src/process/scheduler.cpp\<close>. Ready queues and the list of
  sleeping tasks are linked lists of thread objects through their \<^verbatim>\<open>next\<close> fields, as in the
  code; walking a list is a partial function, since a list with a cycle is walked for ever.
  The CPU contexts are saved to and restored from interrupt frames in byte memory.

  The abstract view (\<open>asched\<close>) has a HOL list per ready queue and one for the sleeping tasks;
  \<open>sched_rep\<close> relates it to the pointers, and the operations are shown to refine operations on
  these lists.
\<close>

section \<open>State\<close>

record Scheduler =
  current_task :: u32
  ready_queues :: "nat \<Rightarrow> u32"
  ready_queue_tails :: "nat \<Rightarrow> u32"
  sleeping_tasks :: u32
  next_task_id :: u32
  current_tick :: u32
  timer_handler :: u32
  quantum_ticks :: u32
  scheduling_enabled :: bool
  threads :: tstore
  sched_heap :: heap

abbreviation (input) tsk :: "Scheduler \<Rightarrow> u32 \<Rightarrow> Thread" where "tsk s p \<equiv> threads s p"

definition upd_task :: "u32 \<Rightarrow> (Thread \<Rightarrow> Thread) \<Rightarrow> Scheduler \<Rightarrow> Scheduler" where
  "upd_task p f s = s\<lparr>threads := (threads s)(p := f (threads s p))\<rparr>"

text \<open>Calls that create or destroy thread objects and their stacks.\<close>

definition on_store :: "(tstore \<times> heap \<Rightarrow> (tstore \<times> heap) option) \<Rightarrow> Scheduler \<Rightarrow> Scheduler option" where
  "on_store f s = do { (ts, h) \<leftarrow> f (threads s, sched_heap s); Some (s\<lparr>threads := ts, sched_heap := h\<rparr>) }"

section \<open>Queues\<close>

definition prio_index :: "ThreadPriority \<Rightarrow> nat" where
  "prio_index p = (let pr = sint p in if pr < 0 \<or> 5 \<le> pr then 2 else nat pr)"

definition AddToReadyQueue :: "u32 \<Rightarrow> Scheduler \<Rightarrow> Scheduler" where
  "AddToReadyQueue task s =
     (if task = 0 then s
      else
        let s1 = upd_task task (\<lambda>t. t\<lparr>task_state := TASK_READY, next_task := 0\<rparr>) s;
            pr = prio_index (priority (tsk s1 task))
        in if ready_queues s1 pr = 0
           then s1\<lparr>ready_queues := (ready_queues s1)(pr := task), ready_queue_tails := (ready_queue_tails s1)(pr := task)\<rparr>
           else
             let s2 = upd_task (ready_queue_tails s1 pr) (\<lambda>t. t\<lparr>next_task := task\<rparr>) s1
             in s2\<lparr>ready_queue_tails := (ready_queue_tails s2)(pr := task)\<rparr>)"

text \<open>The loop over the five priorities stops at the first queue that is not empty.\<close>

definition GetHighestPriorityTask :: "Scheduler \<Rightarrow> Scheduler \<times> u32" where
  "GetHighestPriorityTask s =
     (case filter (\<lambda>p. ready_queues s p \<noteq> 0) [0..<5] of
        [] \<Rightarrow> (s, 0)
      | p # _ \<Rightarrow>
          let task = ready_queues s p;
              s1 = s\<lparr>ready_queues := (ready_queues s)(p := next_task (tsk s task))\<rparr>;
              s2 = (if ready_queues s1 p = 0 then s1\<lparr>ready_queue_tails := (ready_queue_tails s1)(p := 0)\<rparr> else s1)
          in (upd_task task (\<lambda>t. t\<lparr>next_task := 0\<rparr>) s2, task))"

definition RemoveFromReadyQueue :: "Scheduler \<Rightarrow> Scheduler \<times> u32" where
  "RemoveFromReadyQueue = GetHighestPriorityTask"

text \<open>\<^verbatim>\<open>Thread** current\<close> points to \<^verbatim>\<open>sleeping_tasks\<close> (\<open>prev = 0\<close>) or to the \<^verbatim>\<open>next\<close> field of \<open>prev\<close>.\<close>

definition cell :: "u32 \<Rightarrow> Scheduler \<Rightarrow> u32" where
  "cell prev s = (if prev = 0 then sleeping_tasks s else next_task (tsk s prev))"

definition set_cell :: "u32 \<Rightarrow> u32 \<Rightarrow> Scheduler \<Rightarrow> Scheduler" where
  "set_cell prev v s = (if prev = 0 then s\<lparr>sleeping_tasks := v\<rparr> else upd_task prev (\<lambda>t. t\<lparr>next_task := v\<rparr>) s)"

partial_function (option) wake_loop :: "u32 \<Rightarrow> Scheduler \<Rightarrow> Scheduler option" where
  "wake_loop prev s =
     (let task = cell prev s in
      if task = 0 then Some s
      else if current_tick s \<ge> sleep_until (tsk s task)
      then wake_loop prev (AddToReadyQueue task (set_cell prev (next_task (tsk s task)) s))
      else wake_loop task s)"

definition ProcessSleepingTasks :: "Scheduler \<Rightarrow> Scheduler option" where
  "ProcessSleepingTasks s = wake_loop 0 s"

section \<open>Scheduling\<close>

text \<open>The \<^verbatim>\<open>switch\<close> over the priority has no default: other values keep the slice.\<close>

definition set_time_slice :: "Thread \<Rightarrow> Thread" where
  "set_time_slice t =
     (if priority t = PRIORITY_CRITICAL then t\<lparr>time_slice := 20\<rparr>
      else if priority t = PRIORITY_HIGH then t\<lparr>time_slice := 15\<rparr>
      else if priority t = PRIORITY_NORMAL then t\<lparr>time_slice := 10\<rparr>
      else if priority t = PRIORITY_LOW then t\<lparr>time_slice := 5\<rparr>
      else if priority t = PRIORITY_IDLE then t\<lparr>time_slice := 3\<rparr>
      else t)"

definition Schedule :: "Scheduler \<Rightarrow> Scheduler option" where
  "Schedule s =
     (if \<not> scheduling_enabled s then Some s
      else do {
        s1 \<leftarrow> ProcessSleepingTasks s;
        let s2 = (if current_task s1 \<noteq> 0 \<and> task_state (tsk s1 (current_task s1)) = TASK_RUNNING
                  then AddToReadyQueue (current_task s1)
                         (upd_task (current_task s1) (\<lambda>t. t\<lparr>task_state := TASK_READY\<rparr>) s1)
                  else s1);
        let (s3, next) = GetHighestPriorityTask s2;
        if next = 0
        then Some (if current_task s3 \<noteq> 0 \<and> task_state (tsk s3 (current_task s3)) = TASK_READY
                   then upd_task (current_task s3) (\<lambda>t. t\<lparr>task_state := TASK_RUNNING\<rparr>) s3
                   else s3\<lparr>current_task := 0\<rparr>)
        else Some (upd_task next (\<lambda>t. set_time_slice (t\<lparr>task_state := TASK_RUNNING\<rparr>)) (s3\<lparr>current_task := next\<rparr>))
      })"

definition Yield :: "Scheduler \<Rightarrow> Scheduler option" where
  "Yield s =
     (if \<not> scheduling_enabled s \<or> current_task s = 0 then Some s
      else Schedule (upd_task (current_task s) (\<lambda>t. t\<lparr>time_slice := 0\<rparr>) s))"

definition TerminateCurrentTask :: "Scheduler \<Rightarrow> Scheduler option" where
  "TerminateCurrentTask s =
     (if current_task s = 0 then Some s
      else do {
        let terminated_task = current_task s;
        s1 \<leftarrow> Schedule ((upd_task terminated_task (\<lambda>t. t\<lparr>task_state := TASK_TERMINATED\<rparr>) s)\<lparr>current_task := 0\<rparr>);
        on_store (DestroyThread terminated_task) s1
      })"

definition BlockCurrentTask :: "Scheduler \<Rightarrow> Scheduler option" where
  "BlockCurrentTask s =
     (if current_task s = 0 then Some s
      else Schedule (upd_task (current_task s) (\<lambda>t. t\<lparr>task_state := TASK_BLOCKED\<rparr>) s))"

definition CreateTask :: "u32 \<Rightarrow> u32 \<Rightarrow> ThreadPriority \<Rightarrow> string \<Rightarrow> Scheduler \<Rightarrow> (Scheduler \<times> u32) option" where
  "CreateTask entry_point stack_sz prio nm s =
     do {
       ((ts, h), new_task) \<leftarrow> CreateThread (next_task_id s) entry_point stack_sz prio nm (threads s, sched_heap s);
       let s1 = s\<lparr>next_task_id := next_task_id s + 1, threads := ts, sched_heap := h\<rparr>;
       if new_task = 0 then Some (s1, 0) else Some (AddToReadyQueue new_task s1, new_task)
     }"

section \<open>Looking for tasks\<close>

partial_function (option) find_in_list :: "tstore \<Rightarrow> u32 \<Rightarrow> u32 \<Rightarrow> u32 option" where
  "find_in_list ts tid task =
     (if task = 0 then Some 0
      else if task_id (ts task) = tid then Some task
      else find_in_list ts tid (next_task (ts task)))"

fun find_in_lists :: "tstore \<Rightarrow> u32 \<Rightarrow> u32 list \<Rightarrow> u32 option" where
  "find_in_lists ts tid [] = Some 0"
| "find_in_lists ts tid (q # qs) =
     do { r \<leftarrow> find_in_list ts tid q; if r \<noteq> 0 then Some r else find_in_lists ts tid qs }"

definition FindTask :: "u32 \<Rightarrow> Scheduler \<Rightarrow> u32 option" where
  "FindTask tid s =
     (if current_task s \<noteq> 0 \<and> task_id (tsk s (current_task s)) = tid then Some (current_task s)
      else find_in_lists (threads s) tid (map (ready_queues s) [0..<5] @ [sleeping_tasks s]))"

partial_function (option) count_list :: "tstore \<Rightarrow> u32 \<Rightarrow> u32 \<Rightarrow> u32 option" where
  "count_list ts count task =
     (if task = 0 then Some count else count_list ts (count + 1) (next_task (ts task)))"

fun count_lists :: "tstore \<Rightarrow> u32 \<Rightarrow> u32 list \<Rightarrow> u32 option" where
  "count_lists ts count [] = Some count"
| "count_lists ts count (q # qs) = do { c \<leftarrow> count_list ts count q; count_lists ts c qs }"

definition GetTaskCount :: "Scheduler \<Rightarrow> u32 option" where
  "GetTaskCount s =
     do {
       c \<leftarrow> count_lists (threads s) 0 (map (ready_queues s) [0..<5] @ [sleeping_tasks s]);
       Some (if current_task s \<noteq> 0 then c + 1 else c)
     }"

definition GetTaskCountByState :: "TaskState \<Rightarrow> Scheduler \<Rightarrow> u32 option" where
  "GetTaskCountByState st s =
     do {
       let c0 = (if current_task s \<noteq> 0 \<and> task_state (tsk s (current_task s)) = st then 1 else 0);
       c1 \<leftarrow> (if st = TASK_READY then count_lists (threads s) c0 (map (ready_queues s) [0..<5]) else Some c0);
       if st = TASK_SLEEPING then count_list (threads s) c1 (sleeping_tasks s) else Some c1
     }"

section \<open>Task control\<close>

definition UnblockTask :: "u32 \<Rightarrow> Scheduler \<Rightarrow> Scheduler option" where
  "UnblockTask tid s =
     do {
       task \<leftarrow> FindTask tid s;
       Some (if task \<noteq> 0 \<and> task_state (tsk s task) = TASK_BLOCKED
             then AddToReadyQueue task (upd_task task (\<lambda>t. t\<lparr>task_state := TASK_READY\<rparr>) s)
             else s)
     }"

definition SuspendTask :: "u32 \<Rightarrow> Scheduler \<Rightarrow> (Scheduler \<times> bool) option" where
  "SuspendTask tid s =
     do {
       task \<leftarrow> FindTask tid s;
       if task = 0 \<or> task_state (tsk s task) = TASK_TERMINATED then Some (s, False)
       else do {
         let s1 = upd_task task (\<lambda>t. t\<lparr>task_state := TASK_SUSPENDED\<rparr>) s;
         s2 \<leftarrow> (if task = current_task s then Schedule s1 else Some s1);
         Some (s2, True)
       }
     }"

definition ResumeTask :: "u32 \<Rightarrow> Scheduler \<Rightarrow> (Scheduler \<times> bool) option" where
  "ResumeTask tid s =
     do {
       task \<leftarrow> FindTask tid s;
       if task = 0 \<or> task_state (tsk s task) \<noteq> TASK_SUSPENDED then Some (s, False)
       else Some (AddToReadyQueue task (upd_task task (\<lambda>t. t\<lparr>task_state := TASK_READY\<rparr>) s), True)
     }"

text \<open>The branch of \<^verbatim>\<open>KillTask\<close> for a task that is not running: free its stack, then \<^verbatim>\<open>delete task\<close>.\<close>

definition kill_other :: "u32 \<Rightarrow> tstore \<times> heap \<Rightarrow> (tstore \<times> heap) option" where
  "kill_other task = (\<lambda>(ts, h).
     do {
       (ts1, h1) \<leftarrow>
         (if stack_base (ts task) \<noteq> 0
          then do { h1 \<leftarrow> Heap_Free (stack_base (ts task)) h; Some (ts(task := (ts task)\<lparr>stack_base := 0\<rparr>), h1) }
          else Some (ts, h));
       delete_Thread task (ts1, h1)
     })"

definition KillTask :: "u32 \<Rightarrow> Scheduler \<Rightarrow> (Scheduler \<times> bool) option" where
  "KillTask tid s =
     do {
       task \<leftarrow> FindTask tid s;
       if task = 0 \<or> task_state (tsk s task) = TASK_TERMINATED then Some (s, False)
       else do {
         let s1 = upd_task task (\<lambda>t. t\<lparr>task_state := TASK_TERMINATED\<rparr>) s;
         s2 \<leftarrow> (if task = current_task s then TerminateCurrentTask s1 else on_store (kill_other task) s1);
         Some (s2, True)
       }
     }"

definition SleepTask :: "u32 \<Rightarrow> u32 \<Rightarrow> Scheduler \<Rightarrow> (Scheduler \<times> bool) option" where
  "SleepTask tid milliseconds s =
     do {
       task \<leftarrow> FindTask tid s;
       if task = 0 \<or> task_state (tsk s task) = TASK_TERMINATED then Some (s, False)
       else do {
         let ticks0 = (milliseconds * 100) div 1000;
         let ticks = (if ticks0 = 0 then 1 else ticks0);
         let s1 = upd_task task (\<lambda>t. t\<lparr>task_state := TASK_SLEEPING, sleep_until := current_tick s + ticks,
                    next_task := sleeping_tasks s\<rparr>) s;
         let s2 = s1\<lparr>sleeping_tasks := task\<rparr>;
         s3 \<leftarrow> (if task = current_task s2 then Schedule (s2\<lparr>current_task := 0\<rparr>) else Some s2);
         Some (s3, True)
       }
     }"

definition SetTaskPriority :: "u32 \<Rightarrow> ThreadPriority \<Rightarrow> Scheduler \<Rightarrow> (Scheduler \<times> bool) option" where
  "SetTaskPriority tid new_priority s =
     do {
       task \<leftarrow> FindTask tid s;
       if task = 0 \<or> task_state (tsk s task) = TASK_TERMINATED then Some (s, False)
       else Some (upd_task task (\<lambda>t. t\<lparr>priority := new_priority\<rparr>) s, True)
     }"

section \<open>Timer interrupt\<close>

definition stack_word :: "mem \<Rightarrow> u32 \<Rightarrow> u32 \<Rightarrow> u32" where
  "stack_word m esp i = rd32 m (esp + 4 * i)"

definition SaveContextFromInterrupt :: "mem \<Rightarrow> u32 \<Rightarrow> CPUContext" where
  "SaveContextFromInterrupt m esp =
     \<lparr>r_edi = stack_word m esp 4, r_esi = stack_word m esp 5, r_ebp = stack_word m esp 6,
      r_esp_dump = stack_word m esp 7, r_ebx = stack_word m esp 8, r_edx = stack_word m esp 9,
      r_ecx = stack_word m esp 10, r_eax = stack_word m esp 11,
      r_ds = stack_word m esp 3, r_es = stack_word m esp 2, r_fs = stack_word m esp 1, r_gs = stack_word m esp 0,
      r_eip = stack_word m esp 12, r_cs = stack_word m esp 13, r_eflags = stack_word m esp 14,
      r_esp = esp + 15 * 4, r_ss = 0x10\<rparr>"

fun put_words :: "mem \<Rightarrow> u32 \<Rightarrow> u32 list \<Rightarrow> mem" where
  "put_words m a [] = m"
| "put_words m a (w # ws) = put_words (wr32 a w m) (a + 4) ws"

definition RestoreContextToInterrupt :: "CPUContext \<Rightarrow> mem \<Rightarrow> mem \<times> u32" where
  "RestoreContextToInterrupt c m =
     (let new_esp = r_esp c - 15 * 4
      in (put_words m new_esp
            [r_gs c, r_fs c, r_es c, r_ds c,
             r_edi c, r_esi c, r_ebp c, r_esp_dump c, r_ebx c, r_edx c, r_ecx c, r_eax c,
             r_eip c, r_cs c, r_eflags c],
          new_esp))"

text \<open>Accounting for the running task: its runtime grows, its slice shrinks down to 0.\<close>

definition charge_tick :: "Scheduler \<Rightarrow> Scheduler" where
  "charge_tick s1 =
     (let cur = current_task s1;
          s2 = upd_task cur (\<lambda>t. t\<lparr>total_runtime := total_runtime t + 1\<rparr>) s1
      in if time_slice (tsk s2 cur) > 0 then upd_task cur (\<lambda>t. t\<lparr>time_slice := time_slice t - 1\<rparr>) s2 else s2)"

text \<open>The running task gives up the processor: its context is saved and it is queued.\<close>

definition preempt_current :: "u32 \<Rightarrow> Scheduler \<Rightarrow> Scheduler" where
  "preempt_current esp s =
     AddToReadyQueue (current_task s) (upd_task (current_task s)
       (\<lambda>t. t\<lparr>ctxt := SaveContextFromInterrupt (hmem (sched_heap s)) esp, task_state := TASK_READY\<rparr>) s)"

definition switch_to :: "u32 \<Rightarrow> Scheduler \<Rightarrow> Scheduler \<times> u32" where
  "switch_to next s =
     (let s1 = upd_task next (\<lambda>t. set_time_slice (t\<lparr>task_state := TASK_RUNNING\<rparr>)) (s\<lparr>current_task := next\<rparr>);
          (m, new_esp) = RestoreContextToInterrupt (ctxt (tsk s1 next)) (hmem (sched_heap s1))
      in (s1\<lparr>sched_heap := (sched_heap s1)\<lparr>hmem := m\<rparr>\<rparr>, new_esp))"

definition OnTimerTick :: "u32 \<Rightarrow> Scheduler \<Rightarrow> Scheduler \<times> u32" where
  "OnTimerTick esp s =
     (if \<not> scheduling_enabled s then (s, esp)
      else
        let s1 = s\<lparr>current_tick := current_tick s + 1\<rparr>
        in if current_task s1 = 0 then (s1, esp)
           else
             let s3 = charge_tick s1
             in if time_slice (tsk s3 (current_task s3)) \<noteq> 0 then (s3, esp)
                else
                  let (s4, popped) = GetHighestPriorityTask s3
                  in if popped = 0 then (s4, esp)
                     else
                       let (s7, next) = GetHighestPriorityTask (preempt_current esp s4)
                       in if next = 0 then (s7, esp) else switch_to next s7)"

text \<open>The result of \<^verbatim>\<open>OnTimerTick\<close> is discarded here.\<close>

definition HandleTimerInterrupt :: "u32 \<Rightarrow> Scheduler option \<Rightarrow> Scheduler option" where
  "HandleTimerInterrupt esp scheduler =
     (case scheduler of
        None \<Rightarrow> None
      | Some s \<Rightarrow> Some (if scheduling_enabled s then fst (OnTimerTick esp s) else s))"

definition EnablePreemption :: "Scheduler \<Rightarrow> Scheduler" where
  "EnablePreemption s = s\<lparr>scheduling_enabled := True\<rparr>"

definition DisablePreemption :: "Scheduler \<Rightarrow> Scheduler" where
  "DisablePreemption s = s\<lparr>scheduling_enabled := False\<rparr>"

section \<open>Construction, destruction and output\<close>

definition Scheduler_new :: "tstore \<Rightarrow> heap \<Rightarrow> Scheduler option" where
  "Scheduler_new ts h =
     do {
       (h1, th) \<leftarrow> operator_new 8 h;
       Some \<lparr>current_task = 0, ready_queues = (\<lambda>_. 0), ready_queue_tails = (\<lambda>_. 0), sleeping_tasks = 0,
             next_task_id = 1, current_tick = 0, timer_handler = th, quantum_ticks = 10,
             scheduling_enabled = False, threads = ts, sched_heap = h1\<rparr>
     }"

partial_function (option) destroy_list :: "u32 \<Rightarrow> Scheduler \<Rightarrow> Scheduler option" where
  "destroy_list task s =
     (if task = 0 then Some s
      else
        let rest = next_task (tsk s task)
        in do { s1 \<leftarrow> on_store (DestroyThread task) s; destroy_list rest s1 })"

fun destroy_queues :: "nat list \<Rightarrow> Scheduler \<Rightarrow> Scheduler option" where
  "destroy_queues [] s = Some s"
| "destroy_queues (p # ps) s =
     do { s1 \<leftarrow> destroy_list (ready_queues s p) s;
          destroy_queues ps (s1\<lparr>ready_queues := (ready_queues s1)(p := 0)\<rparr>) }"

definition Scheduler_delete :: "Scheduler \<Rightarrow> Scheduler option" where
  "Scheduler_delete s =
     do {
       s1 \<leftarrow> destroy_queues [0..<5] s;
       s2 \<leftarrow> destroy_list (sleeping_tasks s1) s1;
       s3 \<leftarrow> on_store (DestroyThread (current_task s2)) (s2\<lparr>sleeping_tasks := 0\<rparr>);
       Some s3
     }"

definition print_ready :: "Thread \<Rightarrow> string \<Rightarrow> tty_write list" where
  "print_ready t label =
     [TTY_Write label, TTY_WriteHex (ucast (task_id t)), TTY_Write '' Priority='', TTY_WriteHex (ucast (priority t)),
      TTY_Write '' Runtime='', TTY_WriteHex (ucast (total_runtime t)), TTY_Write ''\<newline>'']"

definition print_sleeping :: "Thread \<Rightarrow> tty_write list" where
  "print_sleeping t =
     [TTY_Write ''SLEEPING: ID='', TTY_WriteHex (ucast (task_id t)), TTY_Write '' WakeAt='',
      TTY_WriteHex (ucast (sleep_until t)), TTY_Write ''\<newline>'']"

partial_function (option) print_list :: "(Thread \<Rightarrow> tty_write list) \<Rightarrow> tstore \<Rightarrow> tty_write list \<Rightarrow> u32 \<Rightarrow> tty_write list option" where
  "print_list f ts out task =
     (if task = 0 then Some out else print_list f ts (out @ f (ts task)) (next_task (ts task)))"

fun print_lists :: "(Thread \<Rightarrow> tty_write list) \<Rightarrow> tstore \<Rightarrow> tty_write list \<Rightarrow> u32 list \<Rightarrow> tty_write list option" where
  "print_lists f ts out [] = Some out"
| "print_lists f ts out (q # qs) = do { o1 \<leftarrow> print_list f ts out q; print_lists f ts o1 qs }"

definition PrintTaskList :: "Scheduler \<Rightarrow> tty_write list option" where
  "PrintTaskList s =
     do {
       let o1 = TTY_Write ''=== Task List ===\<newline>'' #
         (if current_task s \<noteq> 0 then print_ready (tsk s (current_task s)) ''RUNNING: ID='' else []);
       o2 \<leftarrow> print_lists (\<lambda>t. print_ready t ''READY: ID='') (threads s) o1 (map (ready_queues s) [0..<5]);
       print_list print_sleeping (threads s) o2 (sleeping_tasks s)
     }"

section \<open>The interface for applications\<close>

text \<open>\<^verbatim>\<open>g_scheduler\<close> is null before it is created: \<open>None\<close> inside the pair.\<close>

definition SchedulerAPI_CreateThread ::
  "u32 \<Rightarrow> u32 \<Rightarrow> ThreadPriority \<Rightarrow> string \<Rightarrow> Scheduler option \<Rightarrow> (Scheduler option \<times> u32) option" where
  "SchedulerAPI_CreateThread entry_point stack_sz prio nm g =
     (case g of
        None \<Rightarrow> Some (None, 0)
      | Some s \<Rightarrow> do { (s1, task) \<leftarrow> CreateTask entry_point stack_sz prio nm s;
                       Some (Some s1, if task \<noteq> 0 then task_id (tsk s1 task) else 0) })"

definition api_call :: "(Scheduler \<Rightarrow> Scheduler option) \<Rightarrow> Scheduler option \<Rightarrow> Scheduler option option" where
  "api_call f g = (case g of None \<Rightarrow> Some None | Some s \<Rightarrow> map_option Some (f s))"

definition SchedulerAPI_YieldThread :: "Scheduler option \<Rightarrow> Scheduler option option" where
  "SchedulerAPI_YieldThread = api_call Yield"

definition SchedulerAPI_ExitThread :: "Scheduler option \<Rightarrow> Scheduler option option" where
  "SchedulerAPI_ExitThread = api_call TerminateCurrentTask"

definition SchedulerAPI_SleepThread :: "u32 \<Rightarrow> Scheduler option \<Rightarrow> Scheduler option option" where
  "SchedulerAPI_SleepThread milliseconds =
     api_call (\<lambda>s. if current_task s \<noteq> 0
                   then map_option fst (SleepTask (task_id (tsk s (current_task s))) milliseconds s)
                   else Some s)"

definition api_bool :: "(Scheduler \<Rightarrow> (Scheduler \<times> bool) option) \<Rightarrow> Scheduler option \<Rightarrow> (Scheduler option \<times> bool) option" where
  "api_bool f g = (case g of None \<Rightarrow> Some (None, False) | Some s \<Rightarrow> map_option (map_prod Some id) (f s))"

definition SchedulerAPI_SuspendThread :: "u32 \<Rightarrow> Scheduler option \<Rightarrow> (Scheduler option \<times> bool) option" where
  "SchedulerAPI_SuspendThread tid = api_bool (SuspendTask tid)"

definition SchedulerAPI_ResumeThread :: "u32 \<Rightarrow> Scheduler option \<Rightarrow> (Scheduler option \<times> bool) option" where
  "SchedulerAPI_ResumeThread tid = api_bool (ResumeTask tid)"

definition SchedulerAPI_KillThread :: "u32 \<Rightarrow> Scheduler option \<Rightarrow> (Scheduler option \<times> bool) option" where
  "SchedulerAPI_KillThread tid = api_bool (KillTask tid)"

definition SchedulerAPI_SetThreadPriority ::
  "u32 \<Rightarrow> ThreadPriority \<Rightarrow> Scheduler option \<Rightarrow> (Scheduler option \<times> bool) option" where
  "SchedulerAPI_SetThreadPriority tid prio = api_bool (SetTaskPriority tid prio)"

definition SchedulerAPI_GetCurrentThreadId :: "Scheduler option \<Rightarrow> u32" where
  "SchedulerAPI_GetCurrentThreadId g =
     (case g of None \<Rightarrow> 0 | Some s \<Rightarrow> if current_task s \<noteq> 0 then task_id (tsk s (current_task s)) else 0)"

definition SchedulerAPI_GetThreadCount :: "Scheduler option \<Rightarrow> u32 option" where
  "SchedulerAPI_GetThreadCount g = (case g of None \<Rightarrow> Some 0 | Some s \<Rightarrow> GetTaskCount s)"

section \<open>Linked lists\<close>

fun path :: "tstore \<Rightarrow> u32 \<Rightarrow> u32 list \<Rightarrow> bool" where
  "path ts p [] = (p = 0)"
| "path ts p (x # xs) = (p = x \<and> x \<noteq> 0 \<and> path ts (next_task (ts x)) xs)"

lemma path_cong: "(\<And>x. x \<in> set xs \<Longrightarrow> next_task (ts' x) = next_task (ts x)) \<Longrightarrow> path ts' p xs = path ts p xs"
  by (induction xs arbitrary: p) auto

lemma path_upd [simp]: "x \<notin> set xs \<Longrightarrow> path (ts(x := t)) p xs = path ts p xs"
  by (rule path_cong) auto

lemma path_upd_same: "next_task t = next_task (ts x) \<Longrightarrow> path (ts(x := t)) p xs = path ts p xs"
  by (rule path_cong) auto

lemma path_nonzero: "path ts p xs \<Longrightarrow> 0 \<notin> set xs"
  by (induction xs arbitrary: p) auto

lemma path_hd: "path ts p xs \<Longrightarrow> p = (if xs = [] then 0 else hd xs)"
  by (cases xs) auto

lemma path_null [simp]: "path ts 0 xs \<longleftrightarrow> xs = []"
  by (cases xs) auto

lemma path_snoc:
  assumes "path ts p xs" "distinct xs" "xs \<noteq> []" "x \<noteq> 0" "x \<notin> set xs" "next_task (ts x) = 0"
  shows "path (ts(last xs := (ts (last xs))\<lparr>next_task := x\<rparr>)) p (xs @ [x])"
  using assms
proof (induction xs arbitrary: p)
  case (Cons y ys)
  show ?case
  proof (cases "ys = []")
    case False
    have "path (ts(last ys := (ts (last ys))\<lparr>next_task := x\<rparr>)) (next_task (ts y)) (ys @ [x])"
      by (rule Cons.IH) (use Cons.prems False in auto)
    moreover have "last ys \<noteq> y" using Cons.prems(2) False by auto
    ultimately show ?thesis using Cons.prems False by (simp add: fun_upd_def)
  qed (use Cons.prems in auto)
qed simp

section \<open>The abstract scheduler\<close>

record asched =
  acur :: u32
  aready :: "nat \<Rightarrow> u32 list"
  asleeping :: "u32 list"

definition members :: "asched \<Rightarrow> u32 set" where
  "members A = (\<Union>p \<in> {..<5}. set (aready A p)) \<union> set (asleeping A)"

lemma members_iff: "x \<in> members A \<longleftrightarrow> (\<exists>p<5. x \<in> set (aready A p)) \<or> x \<in> set (asleeping A)"
  by (auto simp: members_def)

text \<open>No task is in two places.\<close>

definition separate :: "asched \<Rightarrow> bool" where
  "separate A \<longleftrightarrow> (\<forall>p < 5. distinct (aready A p) \<and> set (aready A p) \<inter> set (asleeping A) = {}) \<and>
     (\<forall>p < 5. \<forall>q < 5. p \<noteq> q \<longrightarrow> set (aready A p) \<inter> set (aready A q) = {}) \<and> distinct (asleeping A)"

text \<open>Ready queues hold ready tasks, the sleeping list sleeping ones, and the running task is in no
  list.\<close>

definition queue_rep :: "Scheduler \<Rightarrow> nat \<Rightarrow> u32 list \<Rightarrow> bool" where
  "queue_rep s p xs \<longleftrightarrow> path (threads s) (ready_queues s p) xs \<and>
     ready_queue_tails s p = (if xs = [] then 0 else last xs) \<and> (\<forall>x \<in> set xs. task_state (tsk s x) = TASK_READY)"

definition sleep_rep :: "Scheduler \<Rightarrow> u32 list \<Rightarrow> bool" where
  "sleep_rep s xs \<longleftrightarrow> path (threads s) (sleeping_tasks s) xs \<and> (\<forall>x \<in> set xs. task_state (tsk s x) = TASK_SLEEPING)"

definition sched_rep :: "Scheduler \<Rightarrow> asched \<Rightarrow> bool" where
  "sched_rep s A \<longleftrightarrow> current_task s = acur A \<and> (\<forall>p < 5. queue_rep s p (aready A p)) \<and> sleep_rep s (asleeping A) \<and>
     separate A \<and> acur A \<notin> members A"

lemma queue_rep_frame:
  assumes "queue_rep s p xs" "\<And>x. x \<in> set xs \<Longrightarrow> threads s' x = threads s x"
    "ready_queues s' p = ready_queues s p" "ready_queue_tails s' p = ready_queue_tails s p"
  shows "queue_rep s' p xs"
  using assms path_cong [of xs "threads s'" "threads s"] by (simp add: queue_rep_def)

lemma sleep_rep_frame:
  assumes "sleep_rep s xs" "\<And>x. x \<in> set xs \<Longrightarrow> threads s' x = threads s x" "sleeping_tasks s' = sleeping_tasks s"
  shows "sleep_rep s' xs"
  using assms path_cong [of xs "threads s'" "threads s"] by (simp add: sleep_rep_def)

text \<open>Changing the nodes of one ready queue only.\<close>

lemma sched_rep_set_queue:
  assumes rep: "sched_rep s A" and p: "p < 5" and q: "queue_rep s' p xs"
    and others: "\<And>p'. p' \<noteq> p \<Longrightarrow> ready_queues s' p' = ready_queues s p' \<and> ready_queue_tails s' p' = ready_queue_tails s p'"
      "sleeping_tasks s' = sleeping_tasks s" "current_task s' = current_task s"
    and nodes: "\<And>y. y \<notin> set xs \<union> set (aready A p) \<Longrightarrow> threads s' y = threads s y"
    and new: "distinct xs" "set xs \<inter> (members A - set (aready A p)) = {}" "acur A \<notin> set xs"
  shows "sched_rep s' (A\<lparr>aready := (aready A)(p := xs)\<rparr>)"
proof -
  have sep: "separate A" using rep by (simp add: sched_rep_def)
  have dis: "set (aready A p') \<inter> (set xs \<union> set (aready A p)) = {}" if "p' < 5" "p' \<noteq> p" for p'
    using sep new(2) that p by (fastforce simp: separate_def members_iff)
  have dis2: "set (asleeping A) \<inter> (set xs \<union> set (aready A p)) = {}"
    using sep new(2) p by (fastforce simp: separate_def members_iff)
  have "queue_rep s' p' (aready A p')" if "p' < 5" "p' \<noteq> p" for p'
    by (rule queue_rep_frame [of s]) (use rep that dis others nodes in \<open>auto simp: sched_rep_def\<close>)
  moreover have "sleep_rep s' (asleeping A)"
    by (rule sleep_rep_frame [of s]) (use rep dis2 others nodes in \<open>auto simp: sched_rep_def\<close>)
  moreover have "separate (A\<lparr>aready := (aready A)(p := xs)\<rparr>)"
    using sep new(1) dis dis2 by (auto simp: separate_def)
  moreover have "acur A \<notin> members (A\<lparr>aready := (aready A)(p := xs)\<rparr>)"
    using rep new(3) by (auto simp: sched_rep_def members_iff split: if_splits)
  ultimately show ?thesis using q rep others(3) by (simp add: sched_rep_def)
qed

definition a_add :: "nat \<Rightarrow> u32 \<Rightarrow> asched \<Rightarrow> asched" where
  "a_add p x A = A\<lparr>aready := (aready A)(p := aready A p @ [x])\<rparr>"

definition a_pop :: "asched \<Rightarrow> asched \<times> u32" where
  "a_pop A =
     (case filter (\<lambda>p. aready A p \<noteq> []) [0..<5] of
        [] \<Rightarrow> (A, 0)
      | p # _ \<Rightarrow> (A\<lparr>aready := (aready A)(p := tl (aready A p))\<rparr>, hd (aready A p)))"

lemma prio_index_less [simp]: "prio_index p < 5"
  by (auto simp: prio_index_def Let_def)

section \<open>Refinement of the queue operations\<close>

text \<open>Changes to a task that is in no list do not touch the lists.\<close>

lemma sched_rep_upd_off:
  assumes "sched_rep s A" "x \<notin> members A"
  shows "sched_rep (upd_task x f s) A"
proof -
  have "queue_rep (upd_task x f s) p (aready A p)" if "p < 5" for p
    by (rule queue_rep_frame [of s]) (use assms that in \<open>auto simp: sched_rep_def upd_task_def members_iff\<close>)
  moreover have "sleep_rep (upd_task x f s) (asleeping A)"
    by (rule sleep_rep_frame [of s]) (use assms in \<open>auto simp: sched_rep_def upd_task_def members_iff\<close>)
  ultimately show ?thesis using assms(1) by (simp add: sched_rep_def upd_task_def)
qed

lemma sched_rep_cong:
  assumes "sched_rep s A" "current_task s' = current_task s" "ready_queues s' = ready_queues s"
    "ready_queue_tails s' = ready_queue_tails s" "sleeping_tasks s' = sleeping_tasks s" "threads s' = threads s"
  shows "sched_rep s' A"
  using assms by (simp add: sched_rep_def queue_rep_def sleep_rep_def)

lemma AddToReadyQueue_refines:
  assumes rep: "sched_rep s A" and x: "x \<noteq> 0" "x \<notin> members A" "x \<noteq> acur A"
  shows "sched_rep (AddToReadyQueue x s) (a_add (prio_index (priority (tsk s x))) x A)"
proof -
  let ?pr = "prio_index (priority (tsk s x))"
  define s1 where "s1 = upd_task x (\<lambda>t. t\<lparr>task_state := TASK_READY, next_task := 0\<rparr>) s"
  have r1: "sched_rep s1 A" unfolding s1_def by (rule sched_rep_upd_off [OF rep x(2)])
  have t1: "tsk s1 x = (tsk s x)\<lparr>task_state := TASK_READY, next_task := 0\<rparr>" by (simp add: s1_def upd_task_def)
  let ?q = "aready A ?pr"
  have q: "queue_rep s1 ?pr ?q" using r1 by (simp add: sched_rep_def)
  have tail: "ready_queues s1 ?pr \<noteq> 0 \<Longrightarrow> ready_queue_tails s1 ?pr \<in> set ?q" using q by (cases "?q = []") (auto simp: queue_rep_def)
  have d: "distinct ?q" "x \<notin> set ?q" using rep x(2) by (auto simp: sched_rep_def separate_def members_iff)
  have add: "AddToReadyQueue x s = (if ready_queues s1 ?pr = 0
       then s1\<lparr>ready_queues := (ready_queues s1)(?pr := x), ready_queue_tails := (ready_queue_tails s1)(?pr := x)\<rparr>
       else (upd_task (ready_queue_tails s1 ?pr) (\<lambda>t. t\<lparr>next_task := x\<rparr>) s1)
         \<lparr>ready_queue_tails := (ready_queue_tails s1)(?pr := x)\<rparr>)" (is "_ = ?s'")
    using x(1) by (simp add: AddToReadyQueue_def s1_def upd_task_def Let_def)
  have "queue_rep ?s' ?pr (?q @ [x])"
  proof (cases "?q = []")
    case True
    then show ?thesis using q t1 x(1) by (simp add: queue_rep_def)
  next
    case False
    then have "ready_queues s1 ?pr \<noteq> 0" "ready_queue_tails s1 ?pr = last ?q" using q path_nonzero by (auto simp: queue_rep_def)
    then show ?thesis
      using q t1 x(1) d False path_snoc [of "threads s1" "ready_queues s1 ?pr" ?q x] by (auto simp: queue_rep_def upd_task_def)
  qed
  then have "sched_rep ?s' (A\<lparr>aready := (aready A)(?pr := ?q @ [x])\<rparr>)"
  proof (rule sched_rep_set_queue [OF r1, rotated])
    show "set (?q @ [x]) \<inter> (members A - set ?q) = {}" using x(2) by auto
    show "acur A \<notin> set (?q @ [x])" using rep x(3) by (auto simp: sched_rep_def members_iff)
    show "threads ?s' y = threads s1 y" if "y \<notin> set (?q @ [x]) \<union> set ?q" for y
      using tail that by (auto simp: upd_task_def)
  qed (use d in \<open>auto simp: upd_task_def\<close>)
  then show ?thesis by (simp add: add a_add_def)
qed

text \<open>\<open>requeued s s' X\<close>: only links changed, and the tasks in \<open>X\<close> became ready.\<close>

definition unlinked :: "Thread \<Rightarrow> Thread" where
  "unlinked t = t\<lparr>next_task := 0, task_state := TASK_READY\<rparr>"

definition requeued :: "Scheduler \<Rightarrow> Scheduler \<Rightarrow> u32 set \<Rightarrow> bool" where
  "requeued s s' X \<longleftrightarrow>
     (\<forall>y. unlinked (tsk s' y) = unlinked (tsk s y) \<and>
        task_state (tsk s' y) = (if y \<in> X then TASK_READY else task_state (tsk s y))) \<and>
     current_tick s' = current_tick s \<and> scheduling_enabled s' = scheduling_enabled s \<and>
     sched_heap s' = sched_heap s \<and> next_task_id s' = next_task_id s \<and> timer_handler s' = timer_handler s \<and>
     quantum_ticks s' = quantum_ticks s"

lemma requeued_refl [simp]: "requeued s s {}"
  by (simp add: requeued_def)

lemma requeued_task:
  assumes "requeued s s' X"
  shows "priority (tsk s' y) = priority (tsk s y)" "sleep_until (tsk s' y) = sleep_until (tsk s y)"
    "time_slice (tsk s' y) = time_slice (tsk s y)" "ctxt (tsk s' y) = ctxt (tsk s y)"
    "task_state (tsk s' y) = (if y \<in> X then TASK_READY else task_state (tsk s y))"
    "task_id (tsk s' y) = task_id (tsk s y)" "stack_base (tsk s' y) = stack_base (tsk s y)"
proof -
  have e: "unlinked (tsk s' y) = unlinked (tsk s y)" using assms by (simp add: requeued_def)
  show "priority (tsk s' y) = priority (tsk s y)" using arg_cong [OF e, of priority] by (simp add: unlinked_def)
  show "sleep_until (tsk s' y) = sleep_until (tsk s y)" using arg_cong [OF e, of sleep_until] by (simp add: unlinked_def)
  show "time_slice (tsk s' y) = time_slice (tsk s y)" using arg_cong [OF e, of time_slice] by (simp add: unlinked_def)
  show "ctxt (tsk s' y) = ctxt (tsk s y)" using arg_cong [OF e, of ctxt] by (simp add: unlinked_def)
  show "task_id (tsk s' y) = task_id (tsk s y)" using arg_cong [OF e, of task_id] by (simp add: unlinked_def)
  show "stack_base (tsk s' y) = stack_base (tsk s y)" using arg_cong [OF e, of stack_base] by (simp add: unlinked_def)
qed (use assms in \<open>simp add: requeued_def\<close>)

lemma requeued_trans: "requeued s s' X \<Longrightarrow> requeued s' s'' Y \<Longrightarrow> requeued s s'' (X \<union> Y)"
  by (simp add: requeued_def)

lemma requeued_Add: "requeued s (AddToReadyQueue x s) (if x = 0 then {} else {x})"
  by (auto simp: requeued_def unlinked_def AddToReadyQueue_def upd_task_def Let_def)

lemma requeued_pop: "requeued s (fst (GetHighestPriorityTask s)) {}"
  by (auto simp: requeued_def unlinked_def GetHighestPriorityTask_def upd_task_def Let_def split: list.splits)

lemma requeued_cell: "requeued s (set_cell prev v s) {}"
  by (auto simp: requeued_def unlinked_def set_cell_def upd_task_def)

subsection \<open>Taking the next task\<close>

lemma GetHighestPriorityTask_refines:
  assumes rep: "sched_rep s A"
  shows "sched_rep (fst (GetHighestPriorityTask s)) (fst (a_pop A))"
    "snd (GetHighestPriorityTask s) = snd (a_pop A)"
proof -
  have rq: "ready_queues s p \<noteq> 0 \<longleftrightarrow> aready A p \<noteq> []" if "p < 5" for p
    using rep that path_hd [of "threads s" "ready_queues s p" "aready A p"] path_nonzero [of "threads s" "ready_queues s p" "aready A p"]
    by (auto simp: sched_rep_def queue_rep_def)
  then have flt: "filter (\<lambda>p. ready_queues s p \<noteq> 0) [0..<5] = filter (\<lambda>p. aready A p \<noteq> []) [0..<5]"
    by (intro filter_cong) auto
  have "sched_rep (fst (GetHighestPriorityTask s)) (fst (a_pop A)) \<and> snd (GetHighestPriorityTask s) = snd (a_pop A)"
  proof (cases "filter (\<lambda>p. aready A p \<noteq> []) [0..<5]")
    case Nil
    then show ?thesis using rep by (simp add: GetHighestPriorityTask_def flt a_pop_def)
  next
    case (Cons p ps)
    then have "p \<in> set (filter (\<lambda>p. aready A p \<noteq> []) [0..<5])" by simp
    then have p: "p < 5" "aready A p \<noteq> []" by auto
    then obtain x xs where q: "aready A p = x # xs" by (cases "aready A p") auto
    have rep_q: "queue_rep s p (x # xs)" using rep p(1) q by (auto simp: sched_rep_def)
    have d: "x \<notin> set xs" "distinct xs" using rep p(1) q by (fastforce simp: sched_rep_def separate_def)+
    define s' where "s' = fst (GetHighestPriorityTask s)"
    have s': "s' = upd_task x (\<lambda>t. t\<lparr>next_task := 0\<rparr>)
        (s\<lparr>ready_queues := (ready_queues s)(p := next_task (tsk s x)),
           ready_queue_tails := (if next_task (tsk s x) = 0 then (ready_queue_tails s)(p := 0) else ready_queue_tails s)\<rparr>)"
      and x: "snd (GetHighestPriorityTask s) = x"
      using rep_q by (simp_all add: s'_def GetHighestPriorityTask_def flt Cons queue_rep_def upd_task_def Let_def)
    have "next_task (tsk s x) = 0 \<longleftrightarrow> xs = []"
      using rep_q path_hd [of "threads s" "next_task (tsk s x)" xs] path_nonzero [of "threads s" "next_task (tsk s x)" xs]
      by (auto simp: queue_rep_def)
    then have "queue_rep s' p xs" using rep_q d by (auto simp: s' queue_rep_def upd_task_def)
    then have "sched_rep s' (A\<lparr>aready := (aready A)(p := xs)\<rparr>)"
    proof (rule sched_rep_set_queue [OF rep p(1)])
      show "set xs \<inter> (members A - set (aready A p)) = {}" using q by auto
      show "acur A \<notin> set xs" using rep p(1) q by (fastforce simp: sched_rep_def members_iff)
      show "threads s' y = threads s y" if "y \<notin> set xs \<union> set (aready A p)" for y
        using that q by (auto simp: s' upd_task_def)
    qed (use d in \<open>auto simp: s' upd_task_def\<close>)
    then show ?thesis using x q by (simp add: s'_def a_pop_def Cons)
  qed
  then show "sched_rep (fst (GetHighestPriorityTask s)) (fst (a_pop A))"
    "snd (GetHighestPriorityTask s) = snd (a_pop A)" by simp_all
qed

subsection \<open>Waking sleeping tasks\<close>

definition due :: "Scheduler \<Rightarrow> u32 \<Rightarrow> bool" where
  "due s x \<longleftrightarrow> current_tick s \<ge> sleep_until (tsk s x)"

definition prio :: "Scheduler \<Rightarrow> u32 \<Rightarrow> nat" where
  "prio s x = prio_index (priority (tsk s x))"

definition a_wake :: "(u32 \<Rightarrow> bool) \<Rightarrow> (u32 \<Rightarrow> nat) \<Rightarrow> asched \<Rightarrow> asched" where
  "a_wake d pr A = fold (\<lambda>x. a_add (pr x) x) (filter d (asleeping A)) (A\<lparr>asleeping := filter (\<lambda>x. \<not> d x) (asleeping A)\<rparr>)"

lemma requeued_due: "requeued s s' X \<Longrightarrow> due s' = due s" "requeued s s' X \<Longrightarrow> prio s' = prio s"
  by (auto simp: due_def prio_def requeued_task fun_eq_iff) (auto simp: requeued_def)

lemma path_cell:
  "path ts p (pre @ post) \<Longrightarrow> path ts (if pre = [] then p else next_task (ts (last pre))) post"
  by (induction pre arbitrary: p) auto

lemma path_remove:
  assumes "path ts p (pre @ x # post)" "distinct (pre @ x # post)" "pre \<noteq> []"
  shows "path (ts(last pre := (ts (last pre))\<lparr>next_task := next_task (ts x)\<rparr>)) p (pre @ post)"
  using assms
proof (induction pre arbitrary: p)
  case (Cons y ys)
  let ?ts = "\<lambda>zs. ts(last zs := (ts (last zs))\<lparr>next_task := next_task (ts x)\<rparr>)"
  show ?case
  proof (cases "ys = []")
    case True
    then have "path (?ts [y]) (next_task (ts x)) post" using Cons.prems by simp
    with True Cons.prems show ?thesis by (simp add: fun_upd_def)
  next
    case False
    have "path (?ts ys) (next_task (ts y)) (ys @ post)"
      by (rule Cons.IH) (use Cons.prems False in auto)
    moreover have "last ys \<noteq> y" using Cons.prems(2) False by auto
    ultimately show ?thesis using Cons.prems False by (simp add: fun_upd_def)
  qed
qed simp

lemma sched_rep_set_sleeping:
  assumes rep: "sched_rep s A" and q: "sleep_rep s' xs"
    and others: "ready_queues s' = ready_queues s" "ready_queue_tails s' = ready_queue_tails s"
      "current_task s' = c"
    and nodes: "\<And>y. y \<notin> set xs \<union> set (asleeping A) \<Longrightarrow> threads s' y = threads s y"
    and new: "distinct xs" "set xs \<inter> (members A - set (asleeping A)) = {}" "c \<notin> set xs" "c \<notin> members A - set (asleeping A)"
  shows "sched_rep s' (A\<lparr>acur := c, asleeping := xs\<rparr>)"
proof -
  have sep: "separate A" using rep by (simp add: sched_rep_def)
  have dis: "set (aready A p) \<inter> (set xs \<union> set (asleeping A)) = {}" if "p < 5" for p
    using sep new(2) that by (fastforce simp: separate_def members_iff)
  have "queue_rep s' p (aready A p)" if "p < 5" for p
    by (rule queue_rep_frame [of s]) (use rep that dis others nodes in \<open>auto simp: sched_rep_def\<close>)
  moreover have "separate (A\<lparr>acur := c, asleeping := xs\<rparr>)"
    using sep new(1) dis by (auto simp: separate_def)
  moreover have "c \<notin> members (A\<lparr>acur := c, asleeping := xs\<rparr>)"
    using new(3,4) dis by (fastforce simp: members_iff)
  ultimately show ?thesis using q rep others(3) by (simp add: sched_rep_def)
qed

lemma unlink_sleeping:
  assumes rep: "sched_rep s A" and S: "asleeping A = pre @ x # post"
  defines "prev \<equiv> if pre = [] then 0 else last pre"
  shows "cell prev s = x" "x \<noteq> 0"
    "sched_rep (set_cell prev (next_task (tsk s x)) s) (A\<lparr>asleeping := pre @ post\<rparr>)"
proof -
  have sr: "sleep_rep s (pre @ x # post)" using rep S by (simp add: sched_rep_def)
  have d: "distinct (pre @ x # post)" using rep S by (auto simp: sched_rep_def separate_def)
  have nz: "0 \<notin> set (pre @ x # post)" using sr path_nonzero unfolding sleep_rep_def by blast
  have prev: "prev \<noteq> 0 \<longleftrightarrow> pre \<noteq> []" using nz by (auto simp: prev_def dest: last_in_set)
  have pm: "pre \<noteq> [] \<Longrightarrow> prev \<in> set pre" by (simp add: prev_def)
  have pc: "path (threads s) (if pre = [] then sleeping_tasks s else next_task (tsk s (last pre))) (x # post)"
    using sr path_cell unfolding sleep_rep_def by blast
  then show "cell prev s = x" using prev by (auto simp: cell_def prev_def split: if_splits)
  show "x \<noteq> 0" using nz by auto
  let ?s = "set_cell prev (next_task (tsk s x)) s"
  have "path (threads ?s) (sleeping_tasks ?s) (pre @ post)"
  proof (cases "pre = []")
    case True
    then show ?thesis using prev pc by (simp add: set_cell_def)
  next
    case False
    then show ?thesis using prev path_remove [OF _ d False, of "threads s" "sleeping_tasks s"] sr
      by (simp add: set_cell_def upd_task_def sleep_rep_def prev_def)
  qed
  moreover have "task_state (tsk ?s y) = task_state (tsk s y)" for y
    by (simp add: set_cell_def upd_task_def)
  ultimately have "sleep_rep ?s (pre @ post)" using sr by (auto simp: sleep_rep_def)
  then have "sched_rep ?s (A\<lparr>acur := acur A, asleeping := pre @ post\<rparr>)"
  proof (rule sched_rep_set_sleeping [OF rep])
    show "current_task ?s = acur A" using rep by (auto simp: set_cell_def upd_task_def sched_rep_def)
    show "threads ?s y = threads s y" if "y \<notin> set (pre @ post) \<union> set (asleeping A)" for y
      using that S prev pm by (cases "prev = 0") (auto simp: set_cell_def upd_task_def)
    show "set (pre @ post) \<inter> (members A - set (asleeping A)) = {}" using S by auto
  qed (use rep S d in \<open>auto simp: set_cell_def upd_task_def sched_rep_def members_iff\<close>)
  then show "sched_rep ?s (A\<lparr>asleeping := pre @ post\<rparr>)" by simp
qed

lemma wake_loop_refines:
  assumes "sched_rep s A" "asleeping A = pre @ post" "\<forall>x \<in> set pre. \<not> due s x"
  shows "\<exists>s'. wake_loop (if pre = [] then 0 else last pre) s = Some s' \<and>
    sched_rep s' (fold (\<lambda>x. a_add (prio s x) x) (filter (due s) post)
      (A\<lparr>asleeping := pre @ filter (\<lambda>x. \<not> due s x) post\<rparr>)) \<and> requeued s s' (set (filter (due s) post))"
  using assms
proof (induction post arbitrary: s A pre)
  case Nil
  have sr: "sleep_rep s (pre @ [])" using Nil by (simp add: sched_rep_def)
  have "path (threads s) (if pre = [] then sleeping_tasks s else next_task (tsk s (last pre))) []"
    using sr path_cell unfolding sleep_rep_def by blast
  moreover have "0 \<notin> set pre" using sr path_nonzero unfolding sleep_rep_def by fastforce
  ultimately have "cell (if pre = [] then 0 else last pre) s = 0" by (auto simp: cell_def split: if_splits dest: last_in_set)
  moreover have "A\<lparr>asleeping := pre\<rparr> = A" using Nil.prems(2) by simp
  ultimately show ?case using Nil.prems(1) by (simp add: wake_loop.simps)
next
  case (Cons x post)
  let ?prev = "if pre = [] then 0 else last pre"
  note un = unlink_sleeping [OF Cons.prems(1,2)]
  show ?case
  proof (cases "due s x")
    case False
    have "\<exists>s'. wake_loop (if pre @ [x] = [] then 0 else last (pre @ [x])) s = Some s' \<and>
        sched_rep s' (fold (\<lambda>x. a_add (prio s x) x) (filter (due s) post)
          (A\<lparr>asleeping := (pre @ [x]) @ filter (\<lambda>x. \<not> due s x) post\<rparr>)) \<and> requeued s s' (set (filter (due s) post))"
      by (rule Cons.IH) (use Cons.prems False in auto)
    moreover have "wake_loop ?prev s = wake_loop x s" using un(1,2) False
      by (subst wake_loop.simps) (simp add: due_def Let_def)
    ultimately show ?thesis using False by simp
  next
    case True
    define s1 where "s1 = set_cell ?prev (next_task (tsk s x)) s"
    define s2 where "s2 = AddToReadyQueue x s1"
    have q: "requeued s s1 {}" "requeued s1 s2 {x}"
      unfolding s1_def s2_def using requeued_cell requeued_Add [of _ x] un(2) by auto
    then have q2: "requeued s s2 {x}" using requeued_trans [OF q] by simp
    have nm: "x \<notin> members (A\<lparr>asleeping := pre @ post\<rparr>)" "x \<noteq> acur A"
      using Cons.prems(1,2) by (fastforce simp: sched_rep_def separate_def members_iff)+
    let ?A2 = "a_add (prio s x) x (A\<lparr>asleeping := pre @ post\<rparr>)"
    have r2: "sched_rep s2 ?A2" unfolding s2_def
      using AddToReadyQueue_refines [OF un(3) un(2) nm(1)] nm(2) requeued_due(2) [OF q(1)]
      by (simp add: prio_def s1_def fun_eq_iff)
    have "\<exists>s'. wake_loop ?prev s2 = Some s' \<and>
        sched_rep s' (fold (\<lambda>x. a_add (prio s2 x) x) (filter (due s2) post)
          (?A2\<lparr>asleeping := pre @ filter (\<lambda>x. \<not> due s2 x) post\<rparr>)) \<and> requeued s2 s' (set (filter (due s2) post))"
      by (rule Cons.IH [OF r2]) (use Cons.prems(3) requeued_due(1) [OF q2] in \<open>auto simp: a_add_def\<close>)
    moreover have "wake_loop ?prev s = wake_loop ?prev s2" using un(1,2) True
      by (subst wake_loop.simps) (simp add: due_def Let_def s2_def s1_def)
    moreover have "?A2\<lparr>asleeping := l\<rparr> = a_add (prio s x) x (A\<lparr>asleeping := l\<rparr>)" for l by (simp add: a_add_def)
    ultimately show ?thesis using True requeued_due [OF q2] requeued_trans [OF q2] by auto
  qed
qed

lemma ProcessSleepingTasks_refines:
  assumes "sched_rep s A"
  shows "\<exists>s'. ProcessSleepingTasks s = Some s' \<and> sched_rep s' (a_wake (due s) (prio s) A) \<and>
    requeued s s' (set (filter (due s) (asleeping A)))"
  using wake_loop_refines [OF assms, of "[]" "asleeping A"] by (simp add: ProcessSleepingTasks_def a_wake_def)

subsection \<open>Scheduling\<close>

definition a_schedule :: "(u32 \<Rightarrow> bool) \<Rightarrow> (u32 \<Rightarrow> nat) \<Rightarrow> TaskState \<Rightarrow> asched \<Rightarrow> asched" where
  "a_schedule d pr st A =
     (let A1 = a_wake d pr A;
          A2 = (if acur A \<noteq> 0 \<and> st = TASK_RUNNING then a_add (pr (acur A)) (acur A) A1 else A1);
          (A3, n) = a_pop A2
      in if n \<noteq> 0 then A3\<lparr>acur := n\<rparr>
         else if acur A \<noteq> 0 \<and> st = TASK_READY then A3 else A3\<lparr>acur := 0\<rparr>)"

lemma Add_set_current [simp]:
  "AddToReadyQueue x (s\<lparr>current_task := c\<rparr>) = (AddToReadyQueue x s)\<lparr>current_task := c\<rparr>"
  by (simp add: AddToReadyQueue_def upd_task_def Let_def)

lemma pop_set_current [simp]:
  "GetHighestPriorityTask (s\<lparr>current_task := c\<rparr>) =
    ((fst (GetHighestPriorityTask s))\<lparr>current_task := c\<rparr>, snd (GetHighestPriorityTask s))"
  by (simp add: GetHighestPriorityTask_def upd_task_def Let_def split: list.splits)

lemma upd_set_current [simp]: "upd_task x f (s\<lparr>current_task := c\<rparr>) = (upd_task x f s)\<lparr>current_task := c\<rparr>"
  by (simp add: upd_task_def)

lemma members_acur [simp]: "members (A\<lparr>acur := c\<rparr>) = members A"
  by (simp add: members_def)

lemma separate_acur [simp]: "separate (A\<lparr>acur := c\<rparr>) = separate A"
  by (simp add: separate_def)

lemma a_add_acur [simp]: "a_add p x (A\<lparr>acur := c\<rparr>) = (a_add p x A)\<lparr>acur := c\<rparr>" "acur (a_add p x A) = acur A"
  by (simp_all add: a_add_def)

lemma a_pop_acur [simp]:
  "a_pop (A\<lparr>acur := c\<rparr>) = ((fst (a_pop A))\<lparr>acur := c\<rparr>, snd (a_pop A))" "acur (fst (a_pop A)) = acur A"
  by (simp_all add: a_pop_def split: list.splits)

lemma a_wake_acur [simp]: "acur (a_wake d pr A) = acur A"
proof -
  have "acur (fold (\<lambda>x. a_add (pr x) x) xs B) = acur B" for xs B by (induction xs arbitrary: B) auto
  then show ?thesis by (simp add: a_wake_def)
qed

lemma sched_rep_set_current:
  "sched_rep s A \<Longrightarrow> c \<notin> members A \<Longrightarrow> sched_rep (s\<lparr>current_task := c\<rparr>) (A\<lparr>acur := c\<rparr>)"
  by (simp add: sched_rep_def queue_rep_def sleep_rep_def)

lemma sched_rep_nonzero: "sched_rep s A \<Longrightarrow> 0 \<notin> members A"
  unfolding sched_rep_def queue_rep_def sleep_rep_def members_iff using path_nonzero by blast

lemma a_pop_cases:
  obtains (empty) "a_pop A = (A, 0)" "\<forall>p < 5. aready A p = []"
  | (pop) p x xs where "p < 5" "aready A p = x # xs" "\<forall>p' < p. aready A p' = []"
      "a_pop A = (A\<lparr>aready := (aready A)(p := xs)\<rparr>, x)"
proof (cases "\<forall>p < 5. aready A p = []")
  case True
  then show ?thesis using empty by (simp add: a_pop_def)
next
  case False
  define p where "p = (LEAST p. p < 5 \<and> aready A p \<noteq> [])"
  from False have p: "p < 5" "aready A p \<noteq> []"
    using LeastI_ex [of "\<lambda>p. p < 5 \<and> aready A p \<noteq> []"] by (auto simp: p_def)
  have least: "\<forall>p' < p. aready A p' = []"
  proof (intro allI impI)
    fix p' assume "p' < p"
    then have "\<not> (p' < 5 \<and> aready A p' \<noteq> [])" unfolding p_def by (rule not_less_Least)
    then show "aready A p' = []" using \<open>p' < p\<close> p(1) by simp
  qed
  have "[0..<5] = [0..<p] @ p # [Suc p..<5]"
    using p(1) upt_add_eq_append [of 0 p "5 - p"] upt_conv_Cons [of p 5] by simp
  then have "\<exists>ps. filter (\<lambda>p. aready A p \<noteq> []) [0..<5] = p # ps" using p(2) least by simp
  then show ?thesis using pop [of p "hd (aready A p)" "tl (aready A p)"] p least
    by (auto simp: a_pop_def)
qed

text \<open>The popped task is in no list any more.\<close>

lemma a_pop_off:
  assumes "separate A" "0 \<notin> members A" "snd (a_pop A) \<noteq> 0"
  shows "snd (a_pop A) \<notin> members (fst (a_pop A))" "snd (a_pop A) \<in> members A"
    "members (fst (a_pop A)) \<subseteq> members A"
  using assms by (cases rule: a_pop_cases [of A]; fastforce simp: separate_def members_iff split: if_splits)+

lemma a_add_members: "p < 5 \<Longrightarrow> members (a_add p x A) = insert x (members A)"
  by (auto simp: members_iff a_add_def split: if_splits)

lemma a_add_pop_nonzero: "p < 5 \<Longrightarrow> x \<noteq> 0 \<Longrightarrow> 0 \<notin> members A \<Longrightarrow> snd (a_pop (a_add p x A)) \<noteq> 0"
proof (cases rule: a_pop_cases [of "a_add p x A"])
  case (pop p' y ys)
  then have "y \<in> members (a_add p x A)" by (auto simp: members_iff)
  moreover assume "p < 5" "x \<noteq> 0" "0 \<notin> members A"
  ultimately show ?thesis using pop(4) by (auto simp: a_add_members)
qed (simp add: a_add_def, metis fun_upd_same snoc_eq_iff_butlast)

lemma prio_less [simp]: "prio s x < 5"
  by (simp add: prio_def)

lemma a_wake_members: "(\<And>x. pr x < 5) \<Longrightarrow> members (a_wake d pr A) = members A"
proof -
  assume pr: "\<And>x. pr x < 5"
  have "members (fold (\<lambda>x. a_add (pr x) x) xs B) = set xs \<union> members B" for xs B
    using pr by (induction xs arbitrary: B) (auto simp: a_add_members)
  then show ?thesis by (auto simp: a_wake_def members_iff)
qed

text \<open>Putting a running task back at the end of its queue.\<close>

lemma requeue_current:
  assumes rep: "sched_rep s A" and cur: "acur A \<noteq> 0"
  defines "s' \<equiv> AddToReadyQueue (acur A) (upd_task (acur A) (\<lambda>t. t\<lparr>task_state := TASK_READY\<rparr>) s)"
  shows "sched_rep (s'\<lparr>current_task := 0\<rparr>) ((a_add (prio s (acur A)) (acur A) A)\<lparr>acur := 0\<rparr>)"
    "requeued s s' {acur A}" "current_task s' = acur A"
proof -
  let ?s = "upd_task (acur A) (\<lambda>t. t\<lparr>task_state := TASK_READY\<rparr>) s"
  have nm: "acur A \<notin> members A" "0 \<notin> members A" using rep sched_rep_nonzero by (auto simp: sched_rep_def)
  have "sched_rep (?s\<lparr>current_task := 0\<rparr>) (A\<lparr>acur := 0\<rparr>)"
    by (rule sched_rep_set_current [OF sched_rep_upd_off [OF rep nm(1)] nm(2)])
  from AddToReadyQueue_refines [OF this cur] nm cur
  show "sched_rep (s'\<lparr>current_task := 0\<rparr>) ((a_add (prio s (acur A)) (acur A) A)\<lparr>acur := 0\<rparr>)"
    by (simp add: s'_def prio_def upd_task_def)
  have "requeued s ?s {acur A}" by (auto simp: requeued_def unlinked_def upd_task_def)
  from requeued_trans [OF this requeued_Add [of _ "acur A"]] cur show "requeued s s' {acur A}" by (simp add: s'_def)
  show "current_task s' = acur A"
    using rep by (simp add: s'_def AddToReadyQueue_def upd_task_def Let_def sched_rep_def)
qed

text \<open>\<^verbatim>\<open>Schedule\<close> after the sleeping tasks have been woken.\<close>

definition pick :: "Scheduler \<Rightarrow> Scheduler" where
  "pick s1 =
     (let s2 = (if current_task s1 \<noteq> 0 \<and> task_state (tsk s1 (current_task s1)) = TASK_RUNNING
                then AddToReadyQueue (current_task s1)
                       (upd_task (current_task s1) (\<lambda>t. t\<lparr>task_state := TASK_READY\<rparr>) s1)
                else s1);
          (s3, next) = GetHighestPriorityTask s2
      in if next = 0
         then (if current_task s3 \<noteq> 0 \<and> task_state (tsk s3 (current_task s3)) = TASK_READY
               then upd_task (current_task s3) (\<lambda>t. t\<lparr>task_state := TASK_RUNNING\<rparr>) s3
               else s3\<lparr>current_task := 0\<rparr>)
         else upd_task next (\<lambda>t. set_time_slice (t\<lparr>task_state := TASK_RUNNING\<rparr>)) (s3\<lparr>current_task := next\<rparr>))"

lemma Schedule_pick: "scheduling_enabled s \<Longrightarrow> Schedule s = map_option pick (ProcessSleepingTasks s)"
  by (cases "ProcessSleepingTasks s")
    (simp_all add: Schedule_def pick_def Let_def split: prod.splits)

definition a_pick :: "nat \<Rightarrow> TaskState \<Rightarrow> asched \<Rightarrow> asched" where
  "a_pick pc st A =
     (let (A3, n) = a_pop (if acur A \<noteq> 0 \<and> st = TASK_RUNNING then a_add pc (acur A) A else A)
      in if n \<noteq> 0 then A3\<lparr>acur := n\<rparr>
         else if acur A \<noteq> 0 \<and> st = TASK_READY then A3 else A3\<lparr>acur := 0\<rparr>)"

lemma a_schedule_pick: "a_schedule d pr st A = a_pick (pr (acur A)) st (a_wake d pr A)"
  by (simp add: a_schedule_def a_pick_def Let_def split_beta)

text \<open>\<open>settled s s'\<close>: the static fields of the scheduler and of all tasks are unchanged.\<close>

definition settled :: "Scheduler \<Rightarrow> Scheduler \<Rightarrow> bool" where
  "settled s s' \<longleftrightarrow> (\<forall>y. priority (tsk s' y) = priority (tsk s y) \<and> sleep_until (tsk s' y) = sleep_until (tsk s y) \<and>
       task_id (tsk s' y) = task_id (tsk s y) \<and> ctxt (tsk s' y) = ctxt (tsk s y)) \<and>
     current_tick s' = current_tick s \<and> scheduling_enabled s' = scheduling_enabled s \<and> sched_heap s' = sched_heap s"

lemma settled_refl [simp]: "settled s s"
  by (simp add: settled_def)

lemma settled_trans: "settled s s' \<Longrightarrow> settled s' s'' \<Longrightarrow> settled s s''"
  by (simp add: settled_def)

lemma settled_requeued: "requeued s s' X \<Longrightarrow> settled s s'"
  by (auto simp: settled_def requeued_task) (auto simp: requeued_def)

lemma settled_due: "settled s s' \<Longrightarrow> due s' = due s" "settled s s' \<Longrightarrow> prio s' = prio s"
  by (auto simp: settled_def due_def prio_def fun_eq_iff)

lemma settled_current [simp]: "settled s (s'\<lparr>current_task := c\<rparr>) = settled s s'"
  by (simp add: settled_def)

lemma set_time_slice_fields [simp]:
  "priority (set_time_slice t) = priority t" "sleep_until (set_time_slice t) = sleep_until t"
  "task_id (set_time_slice t) = task_id t" "ctxt (set_time_slice t) = ctxt t"
  "task_state (set_time_slice t) = task_state t" "next_task (set_time_slice t) = next_task t"
  by (simp_all add: set_time_slice_def)

lemma settled_upd:
  assumes "\<And>t. priority (f t) = priority t \<and> sleep_until (f t) = sleep_until t \<and> task_id (f t) = task_id t \<and> ctxt (f t) = ctxt t"
  shows "settled s (upd_task x f s') = settled s s'"
proof -
  have "priority (tsk (upd_task x f s') y) = priority (tsk s' y)" "sleep_until (tsk (upd_task x f s') y) = sleep_until (tsk s' y)"
    "task_id (tsk (upd_task x f s') y) = task_id (tsk s' y)" "ctxt (tsk (upd_task x f s') y) = ctxt (tsk s' y)" for y
    using assms by (simp_all add: upd_task_def)
  then show ?thesis by (simp add: settled_def) (simp add: upd_task_def)
qed

lemma settled_run [simp]: "settled s (upd_task x (\<lambda>t. set_time_slice (t\<lparr>task_state := TASK_RUNNING\<rparr>)) s') = settled s s'"
  "settled s (upd_task x (\<lambda>t. t\<lparr>task_state := st\<rparr>) s') = settled s s'"
  by (rule settled_upd, simp)+

lemma pick_refines:
  assumes rep: "sched_rep s A"
  shows "sched_rep (pick s) (a_pick (prio s (acur A)) (task_state (tsk s (acur A))) A)" "settled s (pick s)"
    "current_task (pick s) \<noteq> 0 \<Longrightarrow> task_state (tsk (pick s) (current_task (pick s))) = TASK_RUNNING"
proof -
  let ?run = "acur A \<noteq> 0 \<and> task_state (tsk s (acur A)) = TASK_RUNNING"
  have cur: "current_task s = acur A" using rep by (simp add: sched_rep_def)
  define s2 where "s2 = (if ?run then AddToReadyQueue (acur A) (upd_task (acur A) (\<lambda>t. t\<lparr>task_state := TASK_READY\<rparr>) s) else s)"
  define A2 where "A2 = (if ?run then a_add (prio s (acur A)) (acur A) A else A)"
  define s3 where "s3 = fst (GetHighestPriorityTask s2)"
  define n where "n = snd (GetHighestPriorityTask s2)"
  have nz: "0 \<notin> members A" using rep by (rule sched_rep_nonzero)
  have r2: "sched_rep (s2\<lparr>current_task := 0\<rparr>) (A2\<lparr>acur := 0\<rparr>)"
    using requeue_current(1) [OF rep] sched_rep_set_current [OF rep nz] by (simp add: s2_def A2_def)
  have st: "settled s s2" and cur2: "current_task s2 = acur A"
    using settled_requeued [OF requeue_current(2) [OF rep]] requeue_current(3) [OF rep] cur by (simp_all add: s2_def)
  have r3: "sched_rep (s3\<lparr>current_task := 0\<rparr>) ((fst (a_pop A2))\<lparr>acur := 0\<rparr>)" and n: "n = snd (a_pop A2)"
    using GetHighestPriorityTask_refines [OF r2] by (simp_all add: s3_def n_def)
  have st3: "settled s s3" unfolding s3_def by (rule settled_trans [OF st settled_requeued [OF requeued_pop]])
  have cur3: "current_task s3 = acur A" using cur2
    by (simp add: s3_def GetHighestPriorityTask_def upd_task_def Let_def split: list.splits)
  have g: "GetHighestPriorityTask s2 = (s3, n)" by (simp add: s3_def n_def)
  have ps: "pick s = (if n = 0 then (if acur A \<noteq> 0 \<and> task_state (tsk s3 (acur A)) = TASK_READY
       then upd_task (acur A) (\<lambda>t. t\<lparr>task_state := TASK_RUNNING\<rparr>) s3 else s3\<lparr>current_task := 0\<rparr>)
     else upd_task n (\<lambda>t. set_time_slice (t\<lparr>task_state := TASK_RUNNING\<rparr>)) (s3\<lparr>current_task := n\<rparr>))"
    unfolding pick_def cur Let_def s2_def [symmetric] g by (simp add: cur3)
  have ap: "a_pick (prio s (acur A)) (task_state (tsk s (acur A))) A =
      (if n \<noteq> 0 then (fst (a_pop A2))\<lparr>acur := n\<rparr>
       else if acur A \<noteq> 0 \<and> task_state (tsk s (acur A)) = TASK_READY then fst (a_pop A2) else (fst (a_pop A2))\<lparr>acur := 0\<rparr>)"
    by (simp add: a_pick_def A2_def n split_beta)
  show "settled s (pick s)" using st3 by (simp add: ps del: upd_set_current)
  show "current_task (pick s) \<noteq> 0 \<Longrightarrow> task_state (tsk (pick s) (current_task (pick s))) = TASK_RUNNING"
    by (auto simp: ps upd_task_def cur3 split: if_splits)
  show "sched_rep (pick s) (a_pick (prio s (acur A)) (task_state (tsk s (acur A))) A)"
  proof (cases "n = 0")
    case False
    have "separate A2" "0 \<notin> members A2" using r2 sched_rep_nonzero [OF r2] by (simp_all add: sched_rep_def)
    then have off: "n \<notin> members (fst (a_pop A2))" using a_pop_off(1) False n by simp
    have "sched_rep (s3\<lparr>current_task := n\<rparr>) ((fst (a_pop A2))\<lparr>acur := n\<rparr>)"
      using sched_rep_set_current [OF r3, of n] off by simp
    then have "sched_rep (upd_task n f (s3\<lparr>current_task := n\<rparr>)) ((fst (a_pop A2))\<lparr>acur := n\<rparr>)" for f
      by (rule sched_rep_upd_off) (simp add: off)
    then show ?thesis using False unfolding ps ap by simp
  next
    case True
    then have nr: "\<not> ?run" using a_add_pop_nonzero [of "prio s (acur A)" "acur A" A] nz n by (auto simp: A2_def)
    have "s2 = s" "A2 = A" unfolding s2_def A2_def by (simp_all only: nr if_False)
    then have "task_state (tsk s3 (acur A)) = task_state (tsk s (acur A))"
      using requeued_task(5) [OF requeued_pop [of s2]] by (simp add: s3_def)
    moreover have "sched_rep s3 (fst (a_pop A2))" "acur A \<notin> members (fst (a_pop A2))"
      using GetHighestPriorityTask_refines(1) [OF rep] \<open>s2 = s\<close> \<open>A2 = A\<close> by (simp_all add: s3_def sched_rep_def)
    ultimately show ?thesis using True r3 unfolding ps ap by (simp add: sched_rep_upd_off)
  qed
qed

lemma Schedule_step:
  assumes "sched_rep s A" "scheduling_enabled s"
  shows "\<exists>s'. Schedule s = Some s' \<and> sched_rep s' (a_schedule (due s) (prio s) (task_state (tsk s (acur A))) A) \<and>
    settled s s' \<and> (current_task s' \<noteq> 0 \<longrightarrow> task_state (tsk s' (current_task s')) = TASK_RUNNING)"
proof -
  from ProcessSleepingTasks_refines [OF assms(1)] obtain s1 where
    s1: "ProcessSleepingTasks s = Some s1" "sched_rep s1 (a_wake (due s) (prio s) A)"
      "requeued s s1 (set (filter (due s) (asleeping A)))" by blast
  have "acur A \<notin> set (filter (due s) (asleeping A))" using assms(1) by (auto simp: sched_rep_def members_iff)
  then have "task_state (tsk s1 (acur A)) = task_state (tsk s (acur A))" by (auto simp: requeued_task(5) [OF s1(3)])
  moreover have "prio s1 = prio s" by (rule requeued_due(2) [OF s1(3)])
  ultimately show ?thesis
    using pick_refines [OF s1(2)] settled_trans [OF settled_requeued [OF s1(3)]] s1(1) assms(2)
    by (simp add: Schedule_pick a_schedule_pick)
qed

subsection \<open>No task is lost and every task gets its turn\<close>

definition tasks :: "asched \<Rightarrow> u32 set" where
  "tasks A = insert (acur A) (members A) - {0}"

lemma a_pop_members:
  "insert (snd (a_pop A)) (members (fst (a_pop A))) - {0} = members A - {0}"
proof (cases rule: a_pop_cases [of A])
  case (pop p x xs)
  let ?U = "(\<Union>q \<in> {..<5} - {p}. set (aready A q)) \<union> set (asleeping A)"
  have split: "{..<5} = insert p ({..<5} - {p})" using pop(1) by auto
  have "members A = insert x (set xs) \<union> ?U" unfolding members_def by (subst split) (use pop(2) in auto)
  moreover have "members (A\<lparr>aready := (aready A)(p := xs)\<rparr>) = set xs \<union> ?U"
    unfolding members_def by (subst split) (auto split: if_splits)
  ultimately show ?thesis using pop(4) by simp
qed simp

lemma a_schedule_tasks:
  assumes "0 \<notin> members A" "\<And>x. pr x < 5" "acur A = 0 \<or> st = TASK_RUNNING"
  shows "tasks (a_schedule d pr st A) = tasks A"
proof -
  let ?A1 = "a_wake d pr A"
  let ?A2 = "if acur A \<noteq> 0 \<and> st = TASK_RUNNING then a_add (pr (acur A)) (acur A) ?A1 else ?A1"
  have m: "members ?A2 - {0} = tasks A"
    using assms by (auto simp: tasks_def a_add_members a_wake_members)
  have z: "0 \<notin> members ?A2" using assms by (auto simp: a_add_members a_wake_members)
  have "tasks (a_schedule d pr st A) = insert (snd (a_pop ?A2)) (members (fst (a_pop ?A2))) - {0}"
    using assms(3) by (auto simp: a_schedule_def Let_def split_beta tasks_def)
  then show ?thesis using a_pop_members [of ?A2] m by simp
qed

lemma a_wake_none: "\<forall>x \<in> set (asleeping A). \<not> d x \<Longrightarrow> a_wake d pr A = A"
  by (simp add: a_wake_def filter_empty_conv [THEN iffD2] filter_id_conv [THEN iffD2])

lemma a_pop_first:
  assumes "p < 5" "aready A p = x # xs" "\<forall>p' < p. aready A p' = []"
  shows "a_pop A = (A\<lparr>aready := (aready A)(p := xs)\<rparr>, x)"
proof (cases rule: a_pop_cases [of A])
  case (pop p' y ys)
  then have "p' = p" using assms by (metis linorder_neqE_nat list.distinct(1))
  then show ?thesis using pop assms(2) by simp
qed (use assms in auto)

text \<open>One round of the highest non-empty queue.\<close>

lemma a_schedule_round:
  assumes "p < 5" "aready A p = x # xs" "\<forall>p' < p. aready A p' = []" "\<forall>y \<in> set (asleeping A). \<not> d y"
    "x \<noteq> 0" "acur A \<noteq> 0 \<and> st = TASK_RUNNING \<Longrightarrow> p \<le> pr (acur A)"
  defines "back \<equiv> if acur A \<noteq> 0 \<and> st = TASK_RUNNING \<and> pr (acur A) = p then [acur A] else []"
  shows "acur (a_schedule d pr st A) = x" "aready (a_schedule d pr st A) p = xs @ back"
    "\<forall>p' < p. aready (a_schedule d pr st A) p' = []" "asleeping (a_schedule d pr st A) = asleeping A"
proof -
  let ?run = "acur A \<noteq> 0 \<and> st = TASK_RUNNING"
  let ?A2 = "if ?run then a_add (pr (acur A)) (acur A) A else A"
  have q: "aready ?A2 p = x # (xs @ back)" "\<forall>p' < p. aready ?A2 p' = []" "asleeping ?A2 = asleeping A"
    using assms(2,3,6) by (auto simp: a_add_def back_def)
  have "a_schedule d pr st A = ?A2\<lparr>aready := (aready ?A2)(p := xs @ back), acur := x\<rparr>"
    using a_pop_first [OF assms(1) q(1,2)] assms(5)
    by (simp add: a_schedule_def a_wake_none [OF assms(4)] Let_def split_beta)
  then show "acur (a_schedule d pr st A) = x" "aready (a_schedule d pr st A) p = xs @ back"
    "\<forall>p' < p. aready (a_schedule d pr st A) p' = []" "asleeping (a_schedule d pr st A) = asleeping A"
    using q(2,3) by auto
qed

fun schedule_n :: "nat \<Rightarrow> Scheduler \<Rightarrow> Scheduler option" where
  "schedule_n 0 s = Some s"
| "schedule_n (Suc n) s = do { s1 \<leftarrow> Schedule s; schedule_n n s1 }"

lemma schedule_n_reaches:
  assumes "sched_rep s A" "scheduling_enabled s" "p < 5" "i < length (aready A p)"
    "\<forall>p' < p. aready A p' = []" "\<forall>y \<in> set (asleeping A). \<not> due s y"
    "\<forall>y \<in> set (aready A p). p \<le> prio s y"
    "acur A \<noteq> 0 \<and> task_state (tsk s (acur A)) = TASK_RUNNING \<Longrightarrow> p \<le> prio s (acur A)"
  shows "\<exists>s'. schedule_n (Suc i) s = Some s' \<and> current_task s' = aready A p ! i \<and>
    task_state (tsk s' (current_task s')) = TASK_RUNNING"
  using assms
proof (induction i arbitrary: s A)
  case (Suc i)
  let ?st = "task_state (tsk s (acur A))"
  let ?A = "a_schedule (due s) (prio s) ?st A"
  from Suc.prems(4) obtain x xs where q: "aready A p = x # xs" by (cases "aready A p") auto
  then have x: "x \<noteq> 0" using sched_rep_nonzero [OF Suc.prems(1)] Suc.prems(3) by (auto simp: members_iff)
  from Schedule_step [OF Suc.prems(1,2)] obtain s1 where
    s1: "Schedule s = Some s1" "sched_rep s1 ?A" "settled s s1"
      "current_task s1 \<noteq> 0 \<longrightarrow> task_state (tsk s1 (current_task s1)) = TASK_RUNNING" by blast
  note R = a_schedule_round [OF Suc.prems(3) q Suc.prems(5,6) x, of ?st "prio s", OF Suc.prems(8)]
  note dp = settled_due [OF s1(3)]
  have "\<exists>s'. schedule_n (Suc i) s1 = Some s' \<and> current_task s' = aready ?A p ! i \<and>
      task_state (tsk s' (current_task s')) = TASK_RUNNING"
  proof (rule Suc.IH [OF s1(2)])
    show "scheduling_enabled s1" using s1(3) Suc.prems(2) by (simp add: settled_def)
    show "i < length (aready ?A p)" using R(2) q Suc.prems(4) by simp
    show "\<forall>y \<in> set (aready ?A p). p \<le> prio s1 y" using R(2) Suc.prems(7) q by (auto simp: dp)
    show "p \<le> prio s1 (acur ?A)" using R(1) Suc.prems(7) q by (simp add: dp)
  qed (use R Suc.prems in \<open>simp_all add: dp\<close>)
  then show ?case using s1(1) R(2) q Suc.prems(4) by (simp add: nth_append)
next
  case 0
  then obtain x xs where q: "aready A p = x # xs" by (cases "aready A p") auto
  then have x: "x \<noteq> 0" using sched_rep_nonzero [OF "0.prems"(1)] "0.prems"(3) by (auto simp: members_iff)
  note R = a_schedule_round [OF "0.prems"(3) q "0.prems"(5,6) x, of "task_state (tsk s (acur A))" "prio s", OF "0.prems"(8)]
  from Schedule_step [OF "0.prems"(1,2)] R(1) x q show ?case by (auto simp: sched_rep_def)
qed

subsection \<open>Interrupt frames\<close>

lemma put_words_below:
  assumes "unat a + 4 * length ws \<le> 2 ^ 32" "unat b + 4 \<le> unat a"
  shows "rd32 (put_words m a ws) b = rd32 m b"
  using assms
proof (induction ws arbitrary: m a)
  case (Cons w ws)
  show ?case
  proof (cases ws)
    case Nil
    then show ?thesis using Cons.prems by (simp add: rd32_wr32_other)
  next
    case Cons': (Cons v vs)
    then have "unat (a + 4) = unat a + 4" using Cons.prems by (simp add: unat_add_nowrap)
    then have "rd32 (put_words (wr32 a w m) (a + 4) ws) b = rd32 (wr32 a w m) b"
      by (intro Cons.IH) (use Cons.prems in simp_all)
    then show ?thesis using Cons.prems by (simp add: rd32_wr32_other)
  qed
qed simp

lemma put_words_nth:
  assumes "unat a + 4 * length ws \<le> 2 ^ 32" "i < length ws"
  shows "rd32 (put_words m a ws) (a + 4 * of_nat i) = ws ! i"
  using assms
proof (induction ws arbitrary: m a i)
  case (Cons w ws)
  show ?case
  proof (cases ws)
    case Nil
    then show ?thesis using Cons.prems by simp
  next
    case Cons': (Cons v vs)
    then have a4: "unat (a + 4) = unat a + 4" using Cons.prems by (simp add: unat_add_nowrap)
    show ?thesis
    proof (cases i)
      case 0
      then show ?thesis using put_words_below [of "a + 4" ws a "wr32 a w m"] a4 Cons.prems by simp
    next
      case (Suc j)
      have "rd32 (put_words (wr32 a w m) (a + 4) ws) (a + 4 + 4 * of_nat j) = ws ! j"
        by (rule Cons.IH) (use Cons.prems a4 Suc in simp_all)
      then show ?thesis using Suc by (simp add: algebra_simps)
    qed
  qed
qed simp

lemma restore_save:
  assumes "60 \<le> unat (r_esp c)" and "RestoreContextToInterrupt c m = (m', esp)"
  shows "SaveContextFromInterrupt m' esp = c\<lparr>r_ss := 0x10\<rparr>"
proof -
  let ?ws = "[r_gs c, r_fs c, r_es c, r_ds c, r_edi c, r_esi c, r_ebp c, r_esp_dump c, r_ebx c, r_edx c, r_ecx c,
    r_eax c, r_eip c, r_cs c, r_eflags c]"
  have m': "m' = put_words m esp ?ws" "esp = r_esp c - 60"
    using assms(2) unfolding RestoreContextToInterrupt_def Let_def by (auto simp del: put_words.simps)
  have "unat esp + 4 * length ?ws \<le> 2 ^ 32"
    using assms(1) unat_sub_nowrap [of 60 "r_esp c"] u32_less_limit [of "r_esp c"] by (simp add: m'(2))
  from put_words_nth [OF this, where m = m] have w: "stack_word m' esp (of_nat i) = ?ws ! i" if "i < 15" for i
    using that by (simp add: stack_word_def m'(1))
  show ?thesis
    using w [of 0] w [of 1] w [of 2] w [of 3] w [of 4] w [of 5] w [of 6] w [of 7] w [of 8] w [of 9] w [of 10]
      w [of 11] w [of 12] w [of 13] w [of 14]
    by (simp add: SaveContextFromInterrupt_def m'(2))
qed

subsection \<open>Timer ticks\<close>

text \<open>What a tick does to the lists when the slice of the running task is used up: the first ready task
  is taken out of its queue, the running task is queued, and the next task is taken.\<close>

definition a_preempt :: "nat \<Rightarrow> asched \<Rightarrow> asched" where
  "a_preempt pc A =
     (let (A1, _) = a_pop A; (A2, n) = a_pop (a_add pc (acur A) A1) in A2\<lparr>acur := n\<rparr>)"

lemma charge_tick_rep:
  assumes "sched_rep s A"
  shows "sched_rep (charge_tick s) A" "settled s (charge_tick s)" "current_task (charge_tick s) = current_task s"
    "time_slice (tsk (charge_tick s) (current_task s)) =
      time_slice (tsk s (current_task s)) - (if time_slice (tsk s (current_task s)) > 0 then 1 else 0)"
proof -
  have c: "current_task s \<notin> members A" using assms by (simp add: sched_rep_def)
  show "sched_rep (charge_tick s) A" using c assms by (simp add: charge_tick_def Let_def sched_rep_upd_off)
  show "settled s (charge_tick s)" by (simp add: charge_tick_def Let_def settled_upd)
  show "current_task (charge_tick s) = current_task s" by (simp add: charge_tick_def Let_def upd_task_def)
  show "time_slice (tsk (charge_tick s) (current_task s)) =
      time_slice (tsk s (current_task s)) - (if time_slice (tsk s (current_task s)) > 0 then 1 else 0)"
    by (simp add: charge_tick_def Let_def upd_task_def)
qed

lemma preempt_current_rep:
  fixes esp :: u32
  assumes rep: "sched_rep s A" and cur: "acur A \<noteq> 0"
  defines "s' \<equiv> preempt_current esp s"
  shows "sched_rep (s'\<lparr>current_task := 0\<rparr>) ((a_add (prio s (acur A)) (acur A) A)\<lparr>acur := 0\<rparr>)"
    "ctxt (tsk s' y) = (if y = acur A then SaveContextFromInterrupt (hmem (sched_heap s)) esp else ctxt (tsk s y))"
    "sched_heap s' = sched_heap s" "current_tick s' = current_tick s"
proof -
  let ?f = "\<lambda>t. t\<lparr>ctxt := SaveContextFromInterrupt (hmem (sched_heap s)) esp, task_state := TASK_READY\<rparr>"
  have c: "current_task s = acur A" using rep by (simp add: sched_rep_def)
  have nm: "acur A \<notin> members A" "0 \<notin> members A" using rep sched_rep_nonzero by (auto simp: sched_rep_def)
  have "sched_rep ((upd_task (acur A) ?f s)\<lparr>current_task := 0\<rparr>) (A\<lparr>acur := 0\<rparr>)"
    by (rule sched_rep_set_current [OF sched_rep_upd_off [OF rep nm(1)] nm(2)])
  from AddToReadyQueue_refines [OF this cur] nm cur
  show "sched_rep (s'\<lparr>current_task := 0\<rparr>) ((a_add (prio s (acur A)) (acur A) A)\<lparr>acur := 0\<rparr>)"
    by (simp add: s'_def preempt_current_def c prio_def upd_task_def)
  have q: "requeued (upd_task (acur A) ?f s) s' {acur A}"
    using requeued_Add [of "upd_task (acur A) ?f s" "acur A"] cur by (simp add: s'_def preempt_current_def c)
  show "ctxt (tsk s' y) = (if y = acur A then SaveContextFromInterrupt (hmem (sched_heap s)) esp else ctxt (tsk s y))"
    by (simp add: requeued_task(4) [OF q] upd_task_def)
  show "sched_heap s' = sched_heap s" "current_tick s' = current_tick s"
    using q by (simp_all add: requeued_def upd_task_def)
qed

lemma switch_to_rep:
  assumes rep: "sched_rep (s\<lparr>current_task := 0\<rparr>) (A\<lparr>acur := 0\<rparr>)" and off: "x \<notin> members A"
    and sw: "switch_to x s = (s', esp')"
  shows "sched_rep s' (A\<lparr>acur := x\<rparr>)" "task_state (tsk s' x) = TASK_RUNNING" "current_tick s' = current_tick s"
    "ctxt (tsk s' y) = ctxt (tsk s y)" "RestoreContextToInterrupt (ctxt (tsk s x)) (hmem (sched_heap s)) = (hmem (sched_heap s'), esp')"
proof -
  let ?f = "\<lambda>t. set_time_slice (t\<lparr>task_state := TASK_RUNNING\<rparr>)"
  have "sched_rep (s\<lparr>current_task := x\<rparr>) (A\<lparr>acur := x\<rparr>)"
    using sched_rep_set_current [OF rep, of x] off by simp
  then have r: "sched_rep (upd_task x ?f (s\<lparr>current_task := x\<rparr>)) (A\<lparr>acur := x\<rparr>)"
    by (rule sched_rep_upd_off) (simp add: off)
  obtain m where m: "RestoreContextToInterrupt (ctxt (tsk s x)) (hmem (sched_heap s)) = (m, esp')"
      "s' = (upd_task x ?f (s\<lparr>current_task := x\<rparr>))\<lparr>sched_heap := (sched_heap s)\<lparr>hmem := m\<rparr>\<rparr>"
    using sw by (auto simp: switch_to_def Let_def upd_task_def split: prod.splits)
  show "sched_rep s' (A\<lparr>acur := x\<rparr>)" by (rule sched_rep_cong [OF r]) (simp_all add: m(2))
  show "task_state (tsk s' x) = TASK_RUNNING" "current_tick s' = current_tick s" "ctxt (tsk s' y) = ctxt (tsk s y)"
    "RestoreContextToInterrupt (ctxt (tsk s x)) (hmem (sched_heap s)) = (hmem (sched_heap s'), esp')"
    using m by (simp_all add: upd_task_def)
qed

lemma a_preempt_eq:
  "a_preempt pc A = (fst (a_pop (a_add pc (acur A) (fst (a_pop A)))))\<lparr>acur := snd (a_pop (a_add pc (acur A) (fst (a_pop A))))\<rparr>"
  by (simp add: a_preempt_def Let_def split_beta)

lemma a_pop_zero: "0 \<notin> members A \<Longrightarrow> snd (a_pop A) = 0 \<longleftrightarrow> (\<forall>p < 5. aready A p = [])"
proof (cases rule: a_pop_cases [of A])
  case (pop p x xs)
  moreover assume "0 \<notin> members A"
  ultimately show ?thesis by (auto simp: members_iff)
qed simp

text \<open>The task that the test of the condition took out of its queue is gone.\<close>

lemma a_preempt_loses:
  assumes "separate A" "acur A \<notin> members A" "0 \<notin> members A" "acur A \<noteq> 0" "snd (a_pop A) \<noteq> 0" "pc < 5"
  shows "snd (a_pop A) \<in> tasks A" "snd (a_pop A) \<notin> tasks (a_preempt pc A)"
proof -
  let ?A1 = "fst (a_pop A)" and ?x = "snd (a_pop A)"
  note off = a_pop_off [OF assms(1,3,5)]
  show "?x \<in> tasks A" using off(2) assms(5) by (simp add: tasks_def)
  have "?x \<noteq> acur A" using off(2) assms(2) by auto
  then have "?x \<notin> members (a_add pc (acur A) ?A1)" using off(1) assms(6) by (simp add: a_add_members)
  then show "?x \<notin> tasks (a_preempt pc A)"
    using a_pop_members [of "a_add pc (acur A) ?A1"] assms(5) by (auto simp: tasks_def a_preempt_eq)
qed

subsection \<open>Finding and counting\<close>

lemma find_in_list_path:
  "path ts p xs \<Longrightarrow> find_in_list ts tid p = Some (case filter (\<lambda>x. task_id (ts x) = tid) xs of [] \<Rightarrow> 0 | x # _ \<Rightarrow> x)"
  by (induction xs arbitrary: p) (simp_all add: find_in_list.simps)

lemma find_in_lists_path:
  assumes "list_all2 (path ts) qs xss" "\<forall>xs \<in> set xss. 0 \<notin> set xs"
  shows "find_in_lists ts tid qs = Some (case filter (\<lambda>x. task_id (ts x) = tid) (concat xss) of [] \<Rightarrow> 0 | x # _ \<Rightarrow> x)"
  using assms
proof (induction rule: list_all2_induct)
  case (Cons q qs xs xss)
  have "x \<noteq> 0" if "filter (\<lambda>x. task_id (ts x) = tid) xs = x # ys" for x ys
  proof -
    have "x \<in> set (filter (\<lambda>x. task_id (ts x) = tid) xs)" using that by simp
    then show ?thesis using Cons.prems by auto
  qed
  with Cons show ?case by (auto simp: find_in_list_path split: list.splits)
qed simp

lemma count_list_path: "path ts p xs \<Longrightarrow> count_list ts c p = Some (c + of_nat (length xs))"
  by (induction xs arbitrary: p c) (simp_all add: count_list.simps add.assoc)

lemma count_lists_path: "list_all2 (path ts) qs xss \<Longrightarrow> count_lists ts c qs = Some (c + of_nat (length (concat xss)))"
  by (induction arbitrary: c rule: list_all2_induct) (simp_all add: count_list_path add.assoc)

definition in_order :: "asched \<Rightarrow> u32 list" where
  "in_order A = concat (map (aready A) [0..<5]) @ asleeping A"

lemma set_in_order [simp]: "set (in_order A) = members A"
  by (auto simp: in_order_def members_def)

lemma sched_rep_lists:
  assumes "sched_rep s A"
  shows "list_all2 (path (threads s)) (map (ready_queues s) [0..<5] @ [sleeping_tasks s]) (map (aready A) [0..<5] @ [asleeping A])"
    "list_all2 (path (threads s)) (map (ready_queues s) [0..<5]) (map (aready A) [0..<5])"
    "\<forall>xs \<in> set (map (aready A) [0..<5] @ [asleeping A]). 0 \<notin> set xs"
proof -
  show q: "list_all2 (path (threads s)) (map (ready_queues s) [0..<5]) (map (aready A) [0..<5])"
    using assms by (auto simp: list_all2_conv_all_nth sched_rep_def queue_rep_def)
  then show "list_all2 (path (threads s)) (map (ready_queues s) [0..<5] @ [sleeping_tasks s]) (map (aready A) [0..<5] @ [asleeping A])"
    using assms by (intro list_all2_appendI) (simp_all add: sched_rep_def sleep_rep_def)
  show "\<forall>xs \<in> set (map (aready A) [0..<5] @ [asleeping A]). 0 \<notin> set xs"
    using sched_rep_nonzero [OF assms] by (auto simp: members_iff)
qed

lemma FindTask_spec:
  assumes "sched_rep s A"
  shows "FindTask tid s = Some (if acur A \<noteq> 0 \<and> task_id (tsk s (acur A)) = tid then acur A
    else case filter (\<lambda>x. task_id (tsk s x) = tid) (in_order A) of [] \<Rightarrow> 0 | x # _ \<Rightarrow> x)"
  using find_in_lists_path [OF sched_rep_lists(1,3) [OF assms], of tid] assms
  by (simp add: FindTask_def sched_rep_def in_order_def)

lemma FindTask_none:
  assumes "sched_rep s A" "\<forall>x \<in> members A. task_id (tsk s x) \<noteq> tid" "acur A = 0 \<or> task_id (tsk s (acur A)) \<noteq> tid"
  shows "FindTask tid s = Some 0"
  using assms(2,3) FindTask_spec [OF assms(1), of tid] by (auto simp: filter_empty_conv [THEN iffD2])

lemma FindTask_unique:
  assumes "sched_rep s A" "inj_on (\<lambda>x. task_id (tsk s x)) (tasks A)" "x \<in> tasks A"
  shows "FindTask (task_id (tsk s x)) s = Some x"
proof (cases "x = acur A")
  case True
  then show ?thesis using FindTask_spec [OF assms(1)] assms(3) by (simp add: tasks_def)
next
  case False
  have nc: "\<not> (acur A \<noteq> 0 \<and> task_id (tsk s (acur A)) = task_id (tsk s x))"
    using inj_onD [OF assms(2), of "acur A" x] assms(3) False by (auto simp: tasks_def)
  let ?l = "filter (\<lambda>y. task_id (tsk s y) = task_id (tsk s x)) (in_order A)"
  have "x \<in> set ?l" using assms(3) False by (simp add: tasks_def)
  then obtain y ys where l: "?l = y # ys" by (cases ?l) auto
  then have "y \<in> set ?l" by simp
  then have y: "y \<in> members A" "task_id (tsk s y) = task_id (tsk s x)" by auto
  then have "y \<in> tasks A" using sched_rep_nonzero [OF assms(1)] by (auto simp: tasks_def)
  then have "y = x" using y(2) inj_onD [OF assms(2), of y x] assms(3) by simp
  then show ?thesis unfolding FindTask_spec [OF assms(1)] l using nc by auto
qed

lemma GetTaskCount_spec:
  assumes "sched_rep s A"
  shows "GetTaskCount s = Some (of_nat (length (in_order A) + (if acur A = 0 then 0 else 1)))"
  using count_lists_path [OF sched_rep_lists(1) [OF assms], of 0] assms
  by (simp add: GetTaskCount_def sched_rep_def in_order_def)

lemma in_order_card:
  assumes "separate A"
  shows "length (in_order A) = card (members A)"
proof -
  have eq: "[0..<5] = [0, 1, 2, 3, 4 :: nat]" by (simp add: upt_rec)
  have "distinct (in_order A)" using assms unfolding in_order_def eq separate_def by (auto simp: Int_Un_distrib)
  then show ?thesis using distinct_card set_in_order by metis
qed

subsection \<open>Sleeping and blocking\<close>

lemma push_sleeping:
  fixes w :: u32
  assumes rep: "sched_rep s A" and cur: "acur A \<noteq> 0"
  defines "s' \<equiv> upd_task (acur A) (\<lambda>t. t\<lparr>task_state := TASK_SLEEPING, sleep_until := w, next_task := sleeping_tasks s\<rparr>) s
      \<lparr>sleeping_tasks := acur A, current_task := 0\<rparr>"
  shows "sched_rep s' (A\<lparr>acur := 0, asleeping := acur A # asleeping A\<rparr>)"
proof -
  have nm: "acur A \<notin> members A" "0 \<notin> members A" using rep sched_rep_nonzero by (auto simp: sched_rep_def)
  then have nl: "acur A \<notin> set (asleeping A)" by (simp add: members_iff)
  have sr: "path (threads s) (sleeping_tasks s) (asleeping A)" "\<forall>x \<in> set (asleeping A). task_state (tsk s x) = TASK_SLEEPING"
    "distinct (asleeping A)" using rep by (simp_all add: sched_rep_def sleep_rep_def separate_def)
  have "sleep_rep s' (acur A # asleeping A)"
    using sr nl cur by (auto simp: s'_def sleep_rep_def upd_task_def)
  then show ?thesis
  proof (rule sched_rep_set_sleeping [OF rep])
    show "set (acur A # asleeping A) \<inter> (members A - set (asleeping A)) = {}" using nm by auto
    show "0 \<notin> set (acur A # asleeping A)" using nm(2) cur by (auto simp: members_iff)
  qed (use nm nl sr cur in \<open>auto simp: s'_def upd_task_def\<close>)
qed

section \<open>Properties\<close>

text \<open>
  C3. \<^verbatim>\<open>Schedule\<close> on well-formed lists returns and implements the abstract scheduler: sleeping tasks whose
  time has come go to the end of the ready queue of their priority, the running task goes to
  the end of its queue, and the first task of the highest non-empty queue runs. The lists stay
  well formed, no task is lost and none appears, and priorities, wake-up times and saved
  contexts are unchanged.
\<close>

theorem Schedule_correct:
  assumes "sched_rep s A" and "scheduling_enabled s" and "acur A = 0 \<or> task_state (tsk s (acur A)) = TASK_RUNNING"
  shows "\<exists>s' A'. Schedule s = Some s' \<and> sched_rep s' A' \<and>
    A' = a_schedule (due s) (prio s) (task_state (tsk s (acur A))) A \<and> tasks A' = tasks A \<and> settled s s' \<and>
    (acur A' \<noteq> 0 \<longrightarrow> task_state (tsk s' (acur A')) = TASK_RUNNING)"
proof -
  let ?A = "a_schedule (due s) (prio s) (task_state (tsk s (acur A))) A"
  have "tasks ?A = tasks A"
    by (rule a_schedule_tasks) (use sched_rep_nonzero [OF assms(1)] assms(3) in auto)
  then show ?thesis using Schedule_step [OF assms(1,2)] by (auto simp: sched_rep_def)
qed

text \<open>Three tasks: 0x1000 runs, 0x2000 and 0x3000 wait, all of normal priority; 0x4000 of high
  priority sleeps until tick 50.\<close>

definition demo_task :: "u32 \<Rightarrow> TaskState \<Rightarrow> ThreadPriority \<Rightarrow> u32 \<Rightarrow> Thread" where
  "demo_task i st p nx = Thread_new\<lparr>task_id := i, task_state := st, priority := p, next_task := nx, time_slice := 1,
     sleep_until := 50\<rparr>"

definition demo_sched :: Scheduler where
  "demo_sched = \<lparr>current_task = 0x1000, ready_queues = (\<lambda>_. 0)(2 := 0x2000), ready_queue_tails = (\<lambda>_. 0)(2 := 0x3000),
     sleeping_tasks = 0x4000, next_task_id = 5, current_tick = 0, timer_handler = 0, quantum_ticks = 10,
     scheduling_enabled = True,
     threads = (\<lambda>_. Thread_new)(0x1000 := demo_task 1 TASK_RUNNING 2 0, 0x2000 := demo_task 2 TASK_READY 2 0x3000,
       0x3000 := demo_task 3 TASK_READY 2 0, 0x4000 := demo_task 4 TASK_SLEEPING 1 0),
     sched_heap = boot_heap\<rparr>"

definition demo_asched :: asched where
  "demo_asched = \<lparr>acur = 0x1000, aready = (\<lambda>_. [])(2 := [0x2000, 0x3000]), asleeping = [0x4000]\<rparr>"

lemma demo_sched_rep [simp]: "sched_rep demo_sched demo_asched"
  by (auto simp: sched_rep_def queue_rep_def sleep_rep_def separate_def members_def demo_sched_def demo_asched_def demo_task_def)

theorem Schedule_correct_witness:
  "\<exists>s'. Schedule demo_sched = Some s' \<and> current_task s' = 0x2000 \<and> task_state (tsk s' 0x2000) = TASK_RUNNING"
proof -
  have "prio_index 2 = 2" by (simp add: prio_index_def)
  then have A: "acur (a_schedule (due demo_sched) (prio demo_sched) TASK_RUNNING demo_asched) = 0x2000"
    by (simp add: a_schedule_def a_wake_def due_def prio_def a_add_def a_pop_def demo_asched_def demo_sched_def
        demo_task_def upt_rec Let_def)
  have "task_state (tsk demo_sched (acur demo_asched)) = TASK_RUNNING" "scheduling_enabled demo_sched"
    by (simp_all add: demo_sched_def demo_asched_def demo_task_def)
  then show ?thesis using Schedule_correct [OF demo_sched_rep] A by (auto simp: sched_rep_def)
qed



lemma slice_left: "(w :: u32) - (if w > 0 then 1 else 0) = 0 \<longleftrightarrow> \<not> 1 < w"
proof -
  have "w = 0 \<or> w = 1 \<or> 1 < w" by (simp add: word_less_nat_alt word_unat_eq_iff) linarith
  then show ?thesis by auto
qed

lemma pop_zero_id: "snd (GetHighestPriorityTask s) = 0 \<Longrightarrow> fst (GetHighestPriorityTask s) = s"
proof (cases "filter (\<lambda>p. ready_queues s p \<noteq> 0) [0..<5]")
  case (Cons p ps)
  then have "p \<in> set (filter (\<lambda>p. ready_queues s p \<noteq> 0) [0..<5])" by simp
  then have "ready_queues s p \<noteq> 0" by simp
  then show "snd (GetHighestPriorityTask s) = 0 \<Longrightarrow> fst (GetHighestPriorityTask s) = s"
    using Cons by (simp add: GetHighestPriorityTask_def Let_def)
qed (simp add: GetHighestPriorityTask_def)

lemma preempt_refines:
  assumes rep: "sched_rep s A" and cur: "acur A \<noteq> 0"
    and sw: "(let (s7, next) = GetHighestPriorityTask (preempt_current esp s) in if next = 0 then (s7, esp) else switch_to next s7) = (s', esp')"
  defines "A2 \<equiv> a_add (prio s (acur A)) (acur A) A"
  shows "sched_rep s' ((fst (a_pop A2))\<lparr>acur := snd (a_pop A2)\<rparr>)" "snd (a_pop A2) \<noteq> 0"
    "task_state (tsk s' (snd (a_pop A2))) = TASK_RUNNING" "current_tick s' = current_tick s"
    "ctxt (tsk s' (acur A)) = SaveContextFromInterrupt (hmem (sched_heap s)) esp"
    "RestoreContextToInterrupt (ctxt (tsk s' (snd (a_pop A2)))) (hmem (sched_heap s)) = (hmem (sched_heap s'), esp')"
proof -
  note P = preempt_current_rep [OF rep cur, of esp, folded A2_def]
  let ?s6 = "preempt_current esp s" and ?n = "snd (a_pop A2)"
  define s7 where "s7 = fst (GetHighestPriorityTask ?s6)"
  have r7: "sched_rep (s7\<lparr>current_task := 0\<rparr>) ((fst (a_pop A2))\<lparr>acur := 0\<rparr>)" "snd (GetHighestPriorityTask ?s6) = ?n"
    using GetHighestPriorityTask_refines [OF P(1)] by (simp_all add: s7_def)
  show n: "?n \<noteq> 0" unfolding A2_def by (rule a_add_pop_nonzero) (use cur sched_rep_nonzero [OF rep] in auto)
  have "separate A2" "0 \<notin> members A2" using P(1) sched_rep_nonzero [OF P(1)] by (simp_all add: sched_rep_def)
  then have off: "?n \<notin> members (fst (a_pop A2))" using a_pop_off(1) n by blast
  have "switch_to ?n s7 = (s', esp')" using sw n r7(2) by (simp add: split_beta s7_def)
  note S = switch_to_rep [OF r7(1) off this]
  have st: "settled ?s6 s7" unfolding s7_def by (rule settled_requeued [OF requeued_pop])
  show "sched_rep s' ((fst (a_pop A2))\<lparr>acur := ?n\<rparr>)" "task_state (tsk s' ?n) = TASK_RUNNING" by (rule S)+
  show "current_tick s' = current_tick s" "ctxt (tsk s' (acur A)) = SaveContextFromInterrupt (hmem (sched_heap s)) esp"
    "RestoreContextToInterrupt (ctxt (tsk s' ?n)) (hmem (sched_heap s)) = (hmem (sched_heap s'), esp')"
    using S(3-5) st P(2-4) by (simp_all add: settled_def)
qed

text \<open>
  C22. A timer tick counts the tick. While the running task has time left, or nothing else is ready, it keeps
  running and its slice shrinks. Otherwise its context is saved from the interrupt frame, it
  is queued, the first task of the highest queue runs from its restored context, and the
  ready task that the emptiness test took out of its queue is in no list afterwards: it is lost.
\<close>

theorem OnTimerTick_correct:
  assumes "sched_rep s A" and "scheduling_enabled s" and "acur A \<noteq> 0" and "OnTimerTick esp s = (s', esp')"
  shows "current_tick s' = current_tick s + 1 \<and>
    (if 1 < time_slice (tsk s (acur A)) \<or> (\<forall>p < 5. aready A p = [])
     then sched_rep s' A \<and> esp' = esp \<and> time_slice (tsk s' (acur A)) = time_slice (tsk s (acur A)) -
       (if time_slice (tsk s (acur A)) > 0 then 1 else 0)
     else let A' = a_preempt (prio s (acur A)) A in sched_rep s' A' \<and> acur A' \<noteq> 0 \<and>
       task_state (tsk s' (acur A')) = TASK_RUNNING \<and>
       ctxt (tsk s' (acur A)) = SaveContextFromInterrupt (hmem (sched_heap s)) esp \<and>
       RestoreContextToInterrupt (ctxt (tsk s' (acur A'))) (hmem (sched_heap s)) = (hmem (sched_heap s'), esp') \<and>
       snd (a_pop A) \<in> tasks A \<and> snd (a_pop A) \<notin> tasks A')"
proof -
  let ?c = "acur A"
  define s3 where "s3 = charge_tick (s\<lparr>current_tick := current_tick s + 1\<rparr>)"
  have c: "current_task s = ?c" using assms(1) by (simp add: sched_rep_def)
  have r1: "sched_rep (s\<lparr>current_tick := current_tick s + 1\<rparr>) A" by (rule sched_rep_cong [OF assms(1)]) simp_all
  note ct = charge_tick_rep [OF r1, folded s3_def]
  have c3: "current_task s3 = ?c" using ct(3) c by simp
  have sl: "time_slice (tsk s3 ?c) = time_slice (tsk s ?c) - (if time_slice (tsk s ?c) > 0 then 1 else 0)" using ct(4) c by simp
  have f3: "current_tick s3 = current_tick s + 1" "sched_heap s3 = sched_heap s" "prio s3 = prio s"
    using ct(2) settled_due(2) [OF ct(2)] by (auto simp: settled_def prio_def fun_eq_iff)
  define s4 where "s4 = fst (GetHighestPriorityTask s3)"
  have r4: "sched_rep s4 (fst (a_pop A))" and n4: "snd (GetHighestPriorityTask s3) = snd (a_pop A)"
    using GetHighestPriorityTask_refines [OF ct(1)] by (simp_all add: s4_def)
  have z: "0 \<notin> members A" by (rule sched_rep_nonzero [OF assms(1)])
  have tick: "OnTimerTick esp s = (if time_slice (tsk s3 ?c) \<noteq> 0 then (s3, esp) else if snd (a_pop A) = 0 then (s4, esp)
      else let (s7, next) = GetHighestPriorityTask (preempt_current esp s4)
           in if next = 0 then (s7, esp) else switch_to next s7)"
    using assms(2,3) c by (simp add: OnTimerTick_def Let_def s3_def [symmetric] c3 split_beta n4 s4_def)
  show ?thesis
  proof (cases "1 < time_slice (tsk s ?c) \<or> (\<forall>p < 5. aready A p = [])")
    case True
    then have "s' = s3 \<or> s' = s4 \<and> snd (a_pop A) = 0" "esp' = esp"
      using assms(4) slice_left [of "time_slice (tsk s ?c)"] a_pop_zero [OF z] by (auto simp: tick sl split: if_splits)
    moreover have "s4 = s3" if "snd (a_pop A) = 0" using that pop_zero_id [of s3] n4 by (simp add: s4_def)
    ultimately show ?thesis using True ct(1) f3(1) sl by auto
  next
    case False
    then have ne: "snd (a_pop A) \<noteq> 0" "time_slice (tsk s3 ?c) = 0"
      using a_pop_zero [OF z] slice_left [of "time_slice (tsk s ?c)"] by (auto simp: sl)
    have "settled s3 s4" unfolding s4_def by (rule settled_requeued [OF requeued_pop])
    then have f4: "prio s4 = prio s" "sched_heap s4 = sched_heap s" "current_tick s4 = current_tick s + 1"
      using f3 settled_due(2) [of s3 s4] by (simp_all add: settled_def)
    have sep: "separate A" "?c \<notin> members A" using assms(1) by (simp_all add: sched_rep_def)
    have "(let (s7, next) = GetHighestPriorityTask (preempt_current esp s4) in if next = 0 then (s7, esp) else switch_to next s7) = (s', esp')"
      using assms(4) ne by (simp add: tick)
    from preempt_refines [OF r4 _ this] a_preempt_loses [OF sep z assms(3) ne(1), of "prio s ?c"] assms(3) f4 False
    show ?thesis by (subst if_not_P [OF False]) (simp add: a_preempt_eq Let_def)
  qed
qed


theorem OnTimerTick_correct_witness:
  "\<exists>s' e. OnTimerTick 0x8000 demo_sched = (s', e) \<and> current_task s' = 0x3000 \<and> current_tick s' = 1 \<and>
    sched_rep s' \<lparr>acur = 0x3000, aready = (\<lambda>_. [])(2 := [0x1000]), asleeping = [0x4000]\<rparr>"
proof -
  have "prio_index 2 = 2" by (simp add: prio_index_def)
  then have A: "a_preempt (prio demo_sched (acur demo_asched)) demo_asched =
      \<lparr>acur = 0x3000, aready = (\<lambda>_. [])(2 := [0x1000]), asleeping = [0x4000]\<rparr>"
    by (simp add: a_preempt_def prio_def a_add_def a_pop_def demo_asched_def demo_sched_def
        demo_task_def upt_rec Let_def) (simp add: numeral_2_eq_2)
  have d: "time_slice (tsk demo_sched (acur demo_asched)) = 1" "scheduling_enabled demo_sched" "acur demo_asched \<noteq> 0"
    "aready demo_asched 2 \<noteq> []" "current_tick demo_sched = 0"
    by (simp_all add: demo_sched_def demo_asched_def demo_task_def)
  obtain s' e where t: "OnTimerTick 0x8000 demo_sched = (s', e)" by (cases "OnTimerTick 0x8000 demo_sched")
  have S: "sched_rep s' \<lparr>acur = 0x3000, aready = (\<lambda>_. [])(2 := [0x1000]), asleeping = [0x4000]\<rparr>" "current_tick s' = 1"
    using OnTimerTick_correct [OF demo_sched_rep d(2,3) t] A d by (auto simp: Let_def split: if_splits)
  moreover have "current_task s' = 0x3000" using S(1) unfolding sched_rep_def by simp
  ultimately show ?thesis using t by blast
qed

text \<open>
  C23. A context that is restored into an interrupt frame is read back from that frame unchanged: all
  registers, flags and the stack pointer survive the switch (the stack segment is always the
  kernel's).
\<close>

theorem context_roundtrip:
  assumes "60 \<le> unat (r_esp c)" and "RestoreContextToInterrupt c m = (m', esp)"
  shows "SaveContextFromInterrupt m' esp = c\<lparr>r_ss := 0x10\<rparr>"
  by (rule restore_save [OF assms])

theorem context_roundtrip_witness:
  "\<exists>m' esp. RestoreContextToInterrupt (CPUContext_zero\<lparr>r_esp := 0x8000, r_eip := 7\<rparr>) (\<lambda>_. 0) = (m', esp) \<and>
    r_eip (SaveContextFromInterrupt m' esp) = 7 \<and> r_esp (SaveContextFromInterrupt m' esp) = 0x8000"
proof -
  obtain m' esp where r: "RestoreContextToInterrupt (CPUContext_zero\<lparr>r_esp := 0x8000, r_eip := 7\<rparr>) (\<lambda>_. 0) = (m', esp)"
    by (cases "RestoreContextToInterrupt (CPUContext_zero\<lparr>r_esp := 0x8000, r_eip := 7\<rparr>) (\<lambda>_. 0)")
  show ?thesis using context_roundtrip [OF _ r] r by simp
qed

text \<open>
  The searches of the scheduler end and see exactly the listed tasks: with unique identifiers \<^verbatim>\<open>FindTask\<close>
  finds every task that runs, is ready or sleeps, it returns null for any other identifier,
  and \<^verbatim>\<open>GetTaskCount\<close> is the number of these tasks.
\<close>

theorem task_queries_correct:
  assumes "sched_rep s A" and "inj_on (\<lambda>x. task_id (tsk s x)) (tasks A)"
  shows "(\<forall>x \<in> tasks A. FindTask (task_id (tsk s x)) s = Some x) \<and>
    (tid \<notin> (\<lambda>x. task_id (tsk s x)) ` tasks A \<longrightarrow> FindTask tid s = Some 0) \<and>
    GetTaskCount s = Some (of_nat (card (tasks A)))"
proof (intro conjI ballI impI)
  show "FindTask (task_id (tsk s x)) s = Some x" if "x \<in> tasks A" for x
    by (rule FindTask_unique [OF assms that])
  have nz: "0 \<notin> members A" by (rule sched_rep_nonzero [OF assms(1)])
  show "FindTask tid s = Some 0" if "tid \<notin> (\<lambda>x. task_id (tsk s x)) ` tasks A"
    by (rule FindTask_none [OF assms(1)]) (use that nz in \<open>auto simp: tasks_def image_iff\<close>)
  have "card (tasks A) = card (members A) + (if acur A = 0 then 0 else 1)"
    using assms(1) nz finite_set [of "in_order A"] by (auto simp: tasks_def sched_rep_def)
  then show "GetTaskCount s = Some (of_nat (card (tasks A)))"
    using GetTaskCount_spec [OF assms(1)] in_order_card [of A] assms(1) by (simp add: sched_rep_def)
qed

lemma demo_tasks: "tasks demo_asched = {0x1000, 0x2000, 0x3000, 0x4000}"
  by (auto simp: tasks_def members_def demo_asched_def split: if_splits)

theorem task_queries_correct_witness:
  "FindTask 4 demo_sched = Some 0x4000 \<and> FindTask 9 demo_sched = Some 0 \<and> GetTaskCount demo_sched = Some 4"
proof -
  have ids: "task_id (tsk demo_sched 0x1000) = 1" "task_id (tsk demo_sched 0x2000) = 2"
    "task_id (tsk demo_sched 0x3000) = 3" "task_id (tsk demo_sched 0x4000) = 4"
    by (simp_all add: demo_sched_def demo_task_def)
  have "inj_on (\<lambda>x. task_id (tsk demo_sched x)) (tasks demo_asched)" by (simp add: demo_tasks ids)
  from task_queries_correct [OF demo_sched_rep this, of 9] show ?thesis by (simp add: demo_tasks ids)
qed

lemma a_schedule_asleeping: "asleeping (a_schedule d pr st A) = filter (\<lambda>x. \<not> d x) (asleeping A)"
proof -
  have "asleeping (fold (\<lambda>x. a_add (pr x) x) xs B) = asleeping B" for xs B
    by (induction xs arbitrary: B) (simp_all add: a_add_def)
  moreover have "asleeping (fst (a_pop B)) = asleeping B" for B by (simp add: a_pop_def split: list.splits)
  moreover have "asleeping (a_add p x B) = asleeping B" for p x B by (simp add: a_add_def)
  ultimately show ?thesis by (simp add: a_schedule_def a_wake_def Let_def split_beta)
qed

text \<open>
  A running task that goes to sleep for some milliseconds is put to the front of the sleeping list with
  its wake-up tick, and another task is scheduled; it is not scheduled itself as long as the
  tick counter has not reached the wake-up tick, and no task is lost.
\<close>

theorem SleepTask_correct:
  assumes "sched_rep s A" and "scheduling_enabled s" and "acur A \<noteq> 0"
    and "task_state (tsk s (acur A)) \<noteq> TASK_TERMINATED"
    and "ticks = (if (ms * 100) div 1000 = 0 then 1 else (ms * 100) div 1000)"
    and "unat (current_tick s) + unat ticks < 2 ^ 32"
  shows "\<exists>s' A'. SleepTask (task_id (tsk s (acur A))) ms s = Some (s', True) \<and> sched_rep s' A' \<and>
    tasks A' = tasks A \<and> acur A \<in> set (asleeping A') \<and> acur A' \<noteq> acur A \<and>
    task_state (tsk s' (acur A)) = TASK_SLEEPING \<and> sleep_until (tsk s' (acur A)) = current_tick s + ticks"
proof -
  let ?c = "acur A"
  define s2 where "s2 = (upd_task ?c (\<lambda>t. t\<lparr>task_state := TASK_SLEEPING, sleep_until := current_tick s + ticks,
      next_task := sleeping_tasks s\<rparr>) s)\<lparr>sleeping_tasks := ?c, current_task := 0\<rparr>"
  let ?A = "A\<lparr>acur := 0, asleeping := ?c # asleeping A\<rparr>"
  have c: "current_task s = ?c" using assms(1) by (simp add: sched_rep_def)
  have r2: "sched_rep s2 ?A" unfolding s2_def by (rule push_sleeping [OF assms(1,3)])
  have su: "sleep_until (tsk s2 ?c) = current_tick s + ticks" "current_tick s2 = current_tick s" "scheduling_enabled s2"
    using assms(2) by (simp_all add: s2_def upd_task_def)
  have "0 < unat ticks" using assms(5) by (simp add: word_unat_eq_iff)
  then have nd: "\<not> due s2 ?c" using assms(6)
    by (simp add: due_def su word_le_nat_alt unat_add_nowrap)
  from Schedule_step [OF r2 su(3)] obtain s' where s': "Schedule s2 = Some s'"
    "sched_rep s' (a_schedule (due s2) (prio s2) (task_state (tsk s2 0)) ?A)" "settled s2 s'" by auto
  let ?A' = "a_schedule (due s2) (prio s2) (task_state (tsk s2 0)) ?A"
  have "tasks ?A' = tasks ?A" by (rule a_schedule_tasks) (use sched_rep_nonzero [OF r2] in auto)
  also have "\<dots> = tasks A" using assms(3) by (auto simp: tasks_def members_iff)
  finally have t: "tasks ?A' = tasks A" .
  have slp: "?c \<in> set (asleeping ?A')" using nd by (simp add: a_schedule_asleeping)
  have "SleepTask (task_id (tsk s ?c)) ms s = Some (s', True)"
    using FindTask_spec [OF assms(1)] assms(3-5) s'(1) c
    by (simp add: SleepTask_def Let_def s2_def upd_task_def)
  moreover have "acur ?A' \<noteq> ?c" "task_state (tsk s' ?c) = TASK_SLEEPING"
    using s'(2) slp by (auto simp: sched_rep_def sleep_rep_def members_iff)
  ultimately show ?thesis using s'(2,3) t slp su(1) by (auto simp: settled_def)
qed

theorem SleepTask_correct_witness:
  "\<exists>s'. SleepTask 1 100 demo_sched = Some (s', True) \<and> sleep_until (tsk s' 0x1000) = 10 \<and>
    task_state (tsk s' 0x1000) = TASK_SLEEPING"
proof -
  have d: "scheduling_enabled demo_sched" "acur demo_asched = 0x1000" "task_state (tsk demo_sched 0x1000) = TASK_RUNNING"
    "task_id (tsk demo_sched 0x1000) = 1" "current_tick demo_sched = 0"
    by (simp_all add: demo_sched_def demo_asched_def demo_task_def)
  have "(10 :: u32) = (if (100 * 100 :: u32) div 1000 = 0 then 1 else (100 * 100) div 1000)" by simp
  from SleepTask_correct [OF demo_sched_rep d(1) _ _ this] show ?thesis by (auto simp: d)
qed

lemma a_schedule_drops:
  assumes "0 \<notin> members A" "\<And>x. pr x < 5" "st \<noteq> TASK_RUNNING" "st \<noteq> TASK_READY"
  shows "tasks (a_schedule d pr st A) = members A"
proof -
  have "tasks (a_schedule d pr st A) = insert (snd (a_pop (a_wake d pr A))) (members (fst (a_pop (a_wake d pr A)))) - {0}"
    using assms(3,4) by (auto simp: a_schedule_def Let_def split_beta tasks_def)
  then show ?thesis using a_pop_members [of "a_wake d pr A"] assms(1,2) by (simp add: a_wake_members)
qed

text \<open>
  C39. A task that blocks is in no list afterwards and nothing records it: all other tasks are still there,
  but \<^verbatim>\<open>UnblockTask\<close> with the identifier of the blocked task finds nothing and changes nothing,
  so the task never runs again.
\<close>

theorem BlockCurrentTask_unreachable:
  assumes "sched_rep s A" and "scheduling_enabled s" and "acur A \<noteq> 0" and "inj_on (\<lambda>x. task_id (tsk s x)) (tasks A)"
  shows "\<exists>s' A'. BlockCurrentTask s = Some s' \<and> sched_rep s' A' \<and> tasks A' = tasks A - {acur A} \<and>
    UnblockTask (task_id (tsk s (acur A))) s' = Some s'"
proof -
  let ?c = "acur A"
  define s2 where "s2 = upd_task ?c (\<lambda>t. t\<lparr>task_state := TASK_BLOCKED\<rparr>) s"
  have c: "current_task s = ?c" "?c \<notin> members A" "0 \<notin> members A"
    using assms(1) sched_rep_nonzero by (auto simp: sched_rep_def)
  have r2: "sched_rep s2 A" unfolding s2_def by (rule sched_rep_upd_off [OF assms(1) c(2)])
  have st: "task_state (tsk s2 ?c) = TASK_BLOCKED" "scheduling_enabled s2" "settled s s2"
    using assms(2) by (simp_all add: s2_def) (simp_all add: upd_task_def)
  let ?A' = "a_schedule (due s2) (prio s2) TASK_BLOCKED A"
  from Schedule_step [OF r2 st(2)] obtain s' where s': "Schedule s2 = Some s'" "sched_rep s' ?A'" "settled s2 s'"
    by (auto simp: st(1))
  have t: "tasks ?A' = members A" by (rule a_schedule_drops) (use c in auto)
  then have m: "members ?A' \<subseteq> members A" "acur ?A' = 0 \<or> acur ?A' \<in> members A"
    using sched_rep_nonzero [OF s'(2)] by (auto simp: tasks_def)
  have ids: "task_id (tsk s' x) = task_id (tsk s x)" for x using s'(3) st(3) by (simp add: settled_def)
  have ne: "task_id (tsk s x) \<noteq> task_id (tsk s ?c)" if "x \<in> members A" for x
    using inj_onD [OF assms(4), of x ?c] that c assms(3) by (auto simp: tasks_def)
  have "FindTask (task_id (tsk s ?c)) s' = Some 0"
    by (rule FindTask_none [OF s'(2)]) (use m ne ids in auto)
  then have "UnblockTask (task_id (tsk s ?c)) s' = Some s'" by (simp add: UnblockTask_def)
  moreover have "BlockCurrentTask s = Some s'" using s'(1) assms(3) c(1) by (simp add: BlockCurrentTask_def s2_def)
  moreover have "tasks ?A' = tasks A - {?c}" using t c by (auto simp: tasks_def)
  ultimately show ?thesis using s'(2) by blast
qed

theorem BlockCurrentTask_unreachable_witness:
  "\<exists>s'. BlockCurrentTask demo_sched = Some s' \<and> UnblockTask 1 s' = Some s'"
proof -
  have ids: "task_id (tsk demo_sched 0x1000) = 1" "task_id (tsk demo_sched 0x2000) = 2"
    "task_id (tsk demo_sched 0x3000) = 3" "task_id (tsk demo_sched 0x4000) = 4"
    "scheduling_enabled demo_sched" "acur demo_asched = 0x1000"
    by (simp_all add: demo_sched_def demo_task_def demo_asched_def)
  have "inj_on (\<lambda>x. task_id (tsk demo_sched x)) (tasks demo_asched)" by (simp add: demo_tasks ids)
  from BlockCurrentTask_unreachable [OF demo_sched_rep ids(5) _ this] show ?thesis by (auto simp: ids)
qed

lemma sched_rep_threads:
  assumes "sched_rep s A" "\<And>x. x \<in> members A \<Longrightarrow> threads s' x = threads s x" "current_task s' = current_task s"
    "ready_queues s' = ready_queues s" "ready_queue_tails s' = ready_queue_tails s" "sleeping_tasks s' = sleeping_tasks s"
  shows "sched_rep s' A"
proof -
  have "queue_rep s' p (aready A p)" if "p < 5" for p
    by (rule queue_rep_frame [of s]) (use assms that in \<open>auto simp: sched_rep_def members_iff\<close>)
  moreover have "sleep_rep s' (asleeping A)"
    by (rule sleep_rep_frame [of s]) (use assms in \<open>auto simp: sched_rep_def members_iff\<close>)
  ultimately show ?thesis using assms by (simp add: sched_rep_def)
qed

lemma top_word:
  assumes "unat a + unat n \<le> 2 ^ 32" "4 \<le> unat (n :: u32)"
  shows "unat (a + n - 4) + 4 = unat (a :: u32) + unat n"
proof -
  have "unat (n - 4) = unat n - 4" using assms(2) unat_sub_nowrap [of 4 n] by simp
  then have "unat (a + (n - 4)) = unat a + (unat n - 4)" using assms by (simp add: unat_add_nowrap)
  then show ?thesis using assms(2) by (simp add: add_diff_eq)
qed



end
