(* ===== verification/KOS_Sync.thy ===== *)
theory KOS_Sync
  imports KOS_Scheduler
begin

text \<open>
  Mutex, semaphore, condition variable and lock guard, \<^verbatim>\<open>src/process/sync.cpp\<close> with
  \<^verbatim>\<open>include/process/sync.hpp\<close>. The operations follow one thread: the flag \<open>g\<close> says whether
  \<^verbatim>\<open>g_scheduler\<close> is set, and a spin that only another thread can end has no result (\<open>None\<close>), since
  \<^verbatim>\<open>Yield\<close> changes the scheduler's books but not the mutex. The second half has any number of
  threads whose accesses to one mutex interleave, as an inductive step relation.
\<close>

section \<open>Data\<close>

record Mutex =
  owner_thread_id :: u32
  mutex_waiting :: u32
  locked :: bool

record Semaphore =
  sem_count :: u32
  max_count :: u32
  sem_waiting :: u32

record ConditionVariable =
  cv_waiting :: u32

text \<open>The id of the running thread, 0 when there is none.\<close>

definition current_thread :: "Scheduler \<Rightarrow> u32" where
  "current_thread s = (if current_task s \<noteq> 0 then task_id (tsk s (current_task s)) else 0)"

lemma current_thread_heap: "current_thread (s\<lparr>sched_heap := h\<rparr>) = current_thread s"
  by (simp add: current_thread_def)

section \<open>Waiting queues\<close>

text \<open>One thread leaves the queue and is unblocked; the result has the rest of the queue.\<close>

definition wake_first :: "bool \<Rightarrow> u32 \<Rightarrow> Scheduler \<Rightarrow> (u32 \<times> Scheduler) option" where
  "wake_first g task s =
     (let rest = next_task (tsk s task)
      in if g then do { s1 \<leftarrow> UnblockTask (task_id (tsk s task)) s; Some (rest, s1) } else Some (rest, s))"

partial_function (option) wake_all :: "bool \<Rightarrow> u32 \<Rightarrow> Scheduler \<Rightarrow> Scheduler option" where
  "wake_all g queue s =
     (if queue = 0 then Some s else do { (rest, s1) \<leftarrow> wake_first g queue s; wake_all g rest s1 })"

section \<open>Mutex\<close>

definition Mutex_new :: Mutex where
  "Mutex_new = \<lparr>owner_thread_id = 0, mutex_waiting = 0, locked = False\<rparr>"

definition Mutex_delete :: "bool \<Rightarrow> Mutex \<times> Scheduler \<Rightarrow> (Mutex \<times> Scheduler) option" where
  "Mutex_delete g = (\<lambda>(mx, s). do { s1 \<leftarrow> wake_all g (mutex_waiting mx) s; Some (mx\<lparr>mutex_waiting := 0\<rparr>, s1) })"

partial_function (option) lock_loop :: "u32 \<Rightarrow> Mutex \<Rightarrow> Scheduler \<Rightarrow> (Mutex \<times> Scheduler) option" where
  "lock_loop current mx s =
     (if \<not> locked mx then Some (mx\<lparr>locked := True, owner_thread_id := current\<rparr>, s)
      else if owner_thread_id mx = current then Some (mx, s)
      else do { s1 \<leftarrow> Yield s; lock_loop current mx s1 })"

definition Mutex_Lock :: "bool \<Rightarrow> Mutex \<times> Scheduler \<Rightarrow> (Mutex \<times> Scheduler) option" where
  "Mutex_Lock g = (\<lambda>(mx, s). if \<not> g then Some (mx, s) else lock_loop (current_thread s) mx s)"

definition Mutex_TryLock :: "bool \<Rightarrow> Mutex \<times> Scheduler \<Rightarrow> Mutex \<times> bool" where
  "Mutex_TryLock g = (\<lambda>(mx, s).
     if \<not> g then (mx, False)
     else if \<not> locked mx then (mx\<lparr>locked := True, owner_thread_id := current_thread s\<rparr>, True)
     else (mx, owner_thread_id mx = current_thread s))"

definition Mutex_Unlock :: "bool \<Rightarrow> Mutex \<times> Scheduler \<Rightarrow> (Mutex \<times> Scheduler) option" where
  "Mutex_Unlock g = (\<lambda>(mx, s).
     if \<not> g \<or> owner_thread_id mx \<noteq> current_thread s then Some (mx, s)
     else
       let mx1 = mx\<lparr>locked := False, owner_thread_id := 0\<rparr>
       in if mutex_waiting mx = 0 then Some (mx1, s)
          else do { (rest, s1) \<leftarrow> wake_first g (mutex_waiting mx) s; Some (mx1\<lparr>mutex_waiting := rest\<rparr>, s1) })"

text \<open>\<^verbatim>\<open>LockGuard\<close>: constructor and destructor.\<close>

definition LockGuard_new :: "bool \<Rightarrow> Mutex \<times> Scheduler \<Rightarrow> (Mutex \<times> Scheduler) option" where
  "LockGuard_new g = Mutex_Lock g"

definition LockGuard_delete :: "bool \<Rightarrow> Mutex \<times> Scheduler \<Rightarrow> (Mutex \<times> Scheduler) option" where
  "LockGuard_delete g = Mutex_Unlock g"

section \<open>Semaphore\<close>

definition Semaphore_new :: "u32 \<Rightarrow> u32 \<Rightarrow> Semaphore" where
  "Semaphore_new initial_count maximum = \<lparr>sem_count = initial_count, max_count = maximum, sem_waiting = 0\<rparr>"

definition Semaphore_delete :: "bool \<Rightarrow> Semaphore \<times> Scheduler \<Rightarrow> (Semaphore \<times> Scheduler) option" where
  "Semaphore_delete g = (\<lambda>(sm, s). do { s1 \<leftarrow> wake_all g (sem_waiting sm) s; Some (sm\<lparr>sem_waiting := 0\<rparr>, s1) })"

partial_function (option) wait_loop :: "Semaphore \<Rightarrow> Scheduler \<Rightarrow> (Semaphore \<times> Scheduler) option" where
  "wait_loop sm s =
     (if 0 < sem_count sm then Some (sm\<lparr>sem_count := sem_count sm - 1\<rparr>, s)
      else do { s1 \<leftarrow> Yield s; wait_loop sm s1 })"

definition Semaphore_Wait :: "bool \<Rightarrow> Semaphore \<times> Scheduler \<Rightarrow> (Semaphore \<times> Scheduler) option" where
  "Semaphore_Wait g = (\<lambda>(sm, s). if \<not> g then Some (sm, s) else wait_loop sm s)"

definition Semaphore_TryWait :: "bool \<Rightarrow> Semaphore \<Rightarrow> Semaphore \<times> bool" where
  "Semaphore_TryWait g sm =
     (if \<not> g then (sm, False)
      else if 0 < sem_count sm then (sm\<lparr>sem_count := sem_count sm - 1\<rparr>, True)
      else (sm, False))"

definition Semaphore_Signal :: "bool \<Rightarrow> Semaphore \<times> Scheduler \<Rightarrow> (Semaphore \<times> Scheduler) option" where
  "Semaphore_Signal g = (\<lambda>(sm, s).
     if \<not> g \<or> \<not> sem_count sm < max_count sm then Some (sm, s)
     else
       let sm1 = sm\<lparr>sem_count := sem_count sm + 1\<rparr>
       in if sem_waiting sm = 0 then Some (sm1, s)
          else do { (rest, s1) \<leftarrow> wake_first g (sem_waiting sm) s; Some (sm1\<lparr>sem_waiting := rest\<rparr>, s1) })"

section \<open>Condition variable\<close>

definition ConditionVariable_new :: ConditionVariable where
  "ConditionVariable_new = \<lparr>cv_waiting = 0\<rparr>"

definition ConditionVariable_delete ::
  "bool \<Rightarrow> ConditionVariable \<times> Scheduler \<Rightarrow> (ConditionVariable \<times> Scheduler) option" where
  "ConditionVariable_delete g = (\<lambda>(cv, s).
     do { s1 \<leftarrow> wake_all g (cv_waiting cv) s; Some (cv\<lparr>cv_waiting := 0\<rparr>, s1) })"

definition ConditionVariable_Wait :: "bool \<Rightarrow> Mutex \<times> Scheduler \<Rightarrow> (Mutex \<times> Scheduler) option" where
  "ConditionVariable_Wait g = (\<lambda>(mx, s).
     if \<not> g then Some (mx, s)
     else do {
       (mx1, s1) \<leftarrow> Mutex_Unlock g (mx, s);
       s2 \<leftarrow> Yield s1;
       Mutex_Lock g (mx1, s2)
     })"

definition ConditionVariable_Signal ::
  "bool \<Rightarrow> ConditionVariable \<times> Scheduler \<Rightarrow> (ConditionVariable \<times> Scheduler) option" where
  "ConditionVariable_Signal g = (\<lambda>(cv, s).
     if \<not> g \<or> cv_waiting cv = 0 then Some (cv, s)
     else do { (rest, s1) \<leftarrow> wake_first g (cv_waiting cv) s; Some (cv\<lparr>cv_waiting := rest\<rparr>, s1) })"

definition ConditionVariable_Broadcast ::
  "bool \<Rightarrow> ConditionVariable \<times> Scheduler \<Rightarrow> (ConditionVariable \<times> Scheduler) option" where
  "ConditionVariable_Broadcast g = (\<lambda>(cv, s).
     if \<not> g then Some (cv, s)
     else do { s1 \<leftarrow> wake_all g (cv_waiting cv) s; Some (cv\<lparr>cv_waiting := 0\<rparr>, s1) })"

section \<open>Sequential behaviour\<close>

text \<open>Nothing in the code puts a thread into a waiting queue: the queues stay empty.\<close>

lemma wake_all_empty [simp]: "wake_all g 0 s = Some s"
  by (simp add: wake_all.simps)

lemma queue_empty_ops [simp]:
  "mutex_waiting mx = 0 \<Longrightarrow> Mutex_delete g (mx, s) = Some (mx, s)"
  "cv_waiting cv = 0 \<Longrightarrow> ConditionVariable_delete g (cv, s) = Some (cv, s)"
  "cv_waiting cv = 0 \<Longrightarrow> ConditionVariable_Signal g (cv, s) = Some (cv, s)"
  "cv_waiting cv = 0 \<Longrightarrow> ConditionVariable_Broadcast g (cv, s) = Some (cv, s)"
  by (simp_all add: Mutex_delete_def ConditionVariable_delete_def ConditionVariable_Signal_def
      ConditionVariable_Broadcast_def)

definition may_lock :: "Mutex \<Rightarrow> u32 \<Rightarrow> bool" where
  "may_lock mx t \<longleftrightarrow> \<not> locked mx \<or> owner_thread_id mx = t"

lemma lock_loop_stuck:
  assumes "lock_loop c mx s = Some r"
  shows "may_lock mx c"
proof (rule lock_loop.raw_induct [of "\<lambda>c mx s r. may_lock mx c", OF _ assms])
  fix f c mx s r
  assume ih: "\<And>c mx s r. f c mx s = Some r \<Longrightarrow> may_lock mx c"
    and run: "(if \<not> locked mx then Some (mx\<lparr>locked := True, owner_thread_id := c\<rparr>, s)
      else if owner_thread_id mx = c then Some (mx, s) else Yield s \<bind> f c mx) = Some r"
  then show "may_lock mx c"
    by (cases r; cases "may_lock mx c") (auto simp: may_lock_def bind_eq_Some_conv)
qed

lemma lock_loop_free: "may_lock mx c \<Longrightarrow> lock_loop c mx s = Some (mx\<lparr>locked := True, owner_thread_id := c\<rparr>, s)"
  by (cases mx) (auto simp: lock_loop.simps may_lock_def)

lemma lock_loop_iff:
  "lock_loop c mx s = (if may_lock mx c then Some (mx\<lparr>locked := True, owner_thread_id := c\<rparr>, s) else None)"
  using lock_loop_stuck [of c mx s] lock_loop_free [of mx c s] by (cases "lock_loop c mx s") auto

lemma wait_loop_stuck:
  assumes "wait_loop sm s = Some r"
  shows "0 < sem_count sm"
proof (rule wait_loop.raw_induct [of "\<lambda>sm s r. 0 < sem_count sm", OF _ assms])
  fix f sm s r
  assume ih: "\<And>sm s r. f sm s = Some r \<Longrightarrow> 0 < sem_count sm"
    and run: "(if 0 < sem_count sm then Some (sm\<lparr>sem_count := sem_count sm - 1\<rparr>, s) else Yield s \<bind> f sm) = Some r"
  then show "0 < sem_count sm" by (cases r; cases "0 < sem_count sm") (auto simp: bind_eq_Some_conv)
qed

lemma wait_loop_iff:
  "wait_loop sm s = (if 0 < sem_count sm then Some (sm\<lparr>sem_count := sem_count sm - 1\<rparr>, s) else None)"
  using wait_loop_stuck [of sm s] by (cases "wait_loop sm s") (auto simp: wait_loop.simps [of sm s] split: if_splits)


section \<open>Threads that compete for a mutex\<close>

text \<open>
  \<^verbatim>\<open>Lock\<close> and \<^verbatim>\<open>Unlock\<close> cut into their single reads and writes of the mutex, for any number of
  threads: \<open>lock_step t\<close> is the next access of thread \<open>t\<close>. The timer may preempt a thread between
  any two of them.
\<close>

datatype lock_pc = Outside | At_test | At_set | At_own | At_check | At_yield | Inside | At_unlock | At_clear | At_disown

record lock_state =
  l_locked :: bool
  l_owner :: u32
  pcs :: "u32 \<Rightarrow> lock_pc"

definition goto :: "u32 \<Rightarrow> lock_pc \<Rightarrow> lock_state \<Rightarrow> lock_state" where
  "goto t p st = st\<lparr>pcs := (pcs st)(t := p)\<rparr>"

inductive lock_step :: "u32 \<Rightarrow> lock_state \<Rightarrow> lock_state \<Rightarrow> bool" where
  call_Lock: "pcs st t = Outside \<Longrightarrow> lock_step t st (goto t At_test st)"
| test_free: "pcs st t = At_test \<Longrightarrow> \<not> l_locked st \<Longrightarrow> lock_step t st (goto t At_set st)"
| test_busy: "pcs st t = At_test \<Longrightarrow> l_locked st \<Longrightarrow> lock_step t st (goto t At_check st)"
| set_locked: "pcs st t = At_set \<Longrightarrow> lock_step t st (goto t At_own (st\<lparr>l_locked := True\<rparr>))"
| set_owner: "pcs st t = At_own \<Longrightarrow> lock_step t st (goto t Inside (st\<lparr>l_owner := t\<rparr>))"
| check_mine: "pcs st t = At_check \<Longrightarrow> l_owner st = t \<Longrightarrow> lock_step t st (goto t Inside st)"
| check_other: "pcs st t = At_check \<Longrightarrow> l_owner st \<noteq> t \<Longrightarrow> lock_step t st (goto t At_yield st)"
| do_yield: "pcs st t = At_yield \<Longrightarrow> lock_step t st (goto t At_test st)"
| call_Unlock: "pcs st t = Inside \<Longrightarrow> lock_step t st (goto t At_unlock st)"
| unlock_other: "pcs st t = At_unlock \<Longrightarrow> l_owner st \<noteq> t \<Longrightarrow> lock_step t st (goto t Outside st)"
| unlock_mine: "pcs st t = At_unlock \<Longrightarrow> l_owner st = t \<Longrightarrow> lock_step t st (goto t At_clear st)"
| clear_locked: "pcs st t = At_clear \<Longrightarrow> lock_step t st (goto t At_disown (st\<lparr>l_locked := False\<rparr>))"
| clear_owner: "pcs st t = At_disown \<Longrightarrow> lock_step t st (goto t Outside (st\<lparr>l_owner := 0\<rparr>))"

inductive_cases lock_stepE: "lock_step t st st'"

definition lock_init :: lock_state where
  "lock_init = \<lparr>l_locked = False, l_owner = 0, pcs = (\<lambda>_. Outside)\<rparr>"

text \<open>The states of runs in which threads are preempted only at the points in \<open>P\<close>. Ids are not 0.\<close>

inductive lock_reach :: "lock_pc set \<Rightarrow> lock_state \<Rightarrow> bool" for P where
  lock_start: "lock_reach P lock_init"
| lock_next: "lock_reach P st \<Longrightarrow> lock_step t st st' \<Longrightarrow> t \<noteq> 0 \<Longrightarrow> \<forall>u. u \<noteq> t \<longrightarrow> pcs st u \<in> P \<Longrightarrow> lock_reach P st'"

definition holding :: "lock_pc set" where
  "holding = {At_own, Inside, At_unlock, At_clear}"

definition owning :: "lock_pc set" where
  "owning = {Inside, At_unlock, At_clear, At_disown}"

definition window :: "lock_pc set" where
  "window = {At_set, At_disown}"

definition lock_inv :: "lock_state \<Rightarrow> bool" where
  "lock_inv st \<longleftrightarrow>
     (\<forall>t. pcs st t \<in> holding \<longrightarrow> l_locked st) \<and>
     (\<forall>t u. pcs st t \<in> holding \<longrightarrow> pcs st u \<in> holding \<longrightarrow> u = t) \<and>
     (\<forall>t. pcs st t \<in> owning \<longleftrightarrow> t \<noteq> 0 \<and> l_owner st = t) \<and>
     (\<forall>t. pcs st t \<in> window \<longrightarrow> \<not> l_locked st) \<and>
     (l_locked st \<longrightarrow> (\<exists>t. pcs st t \<in> holding)) \<and> pcs st 0 \<notin> holding"

lemma pc_sets [simp]:
  "Outside \<notin> holding" "At_test \<notin> holding" "At_set \<notin> holding" "At_own \<in> holding" "At_check \<notin> holding"
  "At_yield \<notin> holding" "Inside \<in> holding" "At_unlock \<in> holding" "At_clear \<in> holding" "At_disown \<notin> holding"
  "Outside \<notin> owning" "At_test \<notin> owning" "At_set \<notin> owning" "At_own \<notin> owning" "At_check \<notin> owning"
  "At_yield \<notin> owning" "Inside \<in> owning" "At_unlock \<in> owning" "At_clear \<in> owning" "At_disown \<in> owning"
  "Outside \<notin> window" "At_test \<notin> window" "At_set \<in> window" "At_own \<notin> window" "At_check \<notin> window"
  "At_yield \<notin> window" "Inside \<notin> window" "At_unlock \<notin> window" "At_clear \<notin> window" "At_disown \<in> window"
  by (simp_all add: holding_def owning_def window_def)

text \<open>A thread moves on: what the other threads and the new program point need.\<close>

lemma goto_inv:
  assumes "lock_inv st" "t \<noteq> 0"
    and "\<And>u. u \<noteq> t \<Longrightarrow> pcs st u \<in> holding \<Longrightarrow> l_locked st' \<and> p \<notin> holding" "p \<in> holding \<Longrightarrow> l_locked st'"
    and "p \<in> owning \<longleftrightarrow> l_owner st' = t" "\<And>u. u \<noteq> t \<Longrightarrow> pcs st u \<in> owning \<longleftrightarrow> u \<noteq> 0 \<and> l_owner st' = u"
    and "\<And>u. u \<noteq> t \<Longrightarrow> pcs st u \<in> window \<Longrightarrow> \<not> l_locked st'" "p \<in> window \<Longrightarrow> \<not> l_locked st'"
    and "l_locked st' \<Longrightarrow> p \<in> holding \<or> (\<exists>u. u \<noteq> t \<and> pcs st u \<in> holding)" and "pcs st' = pcs st"
  shows "lock_inv (goto t p st')"
proof -
  have "(\<exists>u. u \<noteq> t \<and> pcs st u \<in> holding) \<Longrightarrow> \<exists>u. (if u = t then p else pcs st u) \<in> holding" by auto
  moreover have "p \<in> holding \<Longrightarrow> \<exists>u. (if u = t then p else pcs st u) \<in> holding" by auto
  ultimately show ?thesis using assms unfolding lock_inv_def goto_def by auto
qed

lemma lock_step_inv:
  assumes inv: "lock_inv st" and step: "lock_step t st st'" and t: "t \<noteq> 0"
    and others: "\<And>u. u \<noteq> t \<Longrightarrow> pcs st u \<notin> window"
  shows "lock_inv st'"
proof -
  have i: "\<And>t. pcs st t \<in> holding \<Longrightarrow> l_locked st"
    "\<And>t u. pcs st t \<in> holding \<Longrightarrow> pcs st u \<in> holding \<Longrightarrow> u = t"
    "\<And>t. pcs st t \<in> owning \<longleftrightarrow> t \<noteq> 0 \<and> l_owner st = t"
    "\<And>t. pcs st t \<in> window \<Longrightarrow> \<not> l_locked st" "l_locked st \<Longrightarrow> \<exists>t. pcs st t \<in> holding"
    using inv unfolding lock_inv_def by blast+
  note own = i(3) [of t] and win = i(4) [of t] and hold = i(1) [of t]
  have uniq: "\<And>u. u \<noteq> t \<Longrightarrow> pcs st t \<in> holding \<Longrightarrow> pcs st u \<notin> holding" using i(2) by blast
  have ex: "l_locked st \<Longrightarrow> pcs st t \<notin> holding \<Longrightarrow> \<exists>u. u \<noteq> t \<and> pcs st u \<in> holding" using i(5) by metis
  have free: "l_owner st = 0" if "pcs st t \<in> holding" "l_owner st \<noteq> t"
  proof (rule ccontr)
    assume "l_owner st \<noteq> 0"
    with i(3) have "pcs st (l_owner st) \<in> owning" by blast
    then have "pcs st (l_owner st) \<in> holding \<union> window" by (auto simp: owning_def holding_def window_def)
    with uniq others that show False by blast
  qed
  show ?thesis
    by (rule lock_stepE [OF step]; (simp only:)?; rule goto_inv [OF inv t];
        use t i(1) hold free uniq ex own others i(3) win in auto)
qed

lemma lock_reach_inv:
  assumes "lock_reach P st" "P \<inter> window = {}"
  shows "lock_inv st"
  using assms(1)
proof (induction rule: lock_reach.induct)
  case lock_start
  show ?case by (simp add: lock_inv_def lock_init_def)
next
  case (lock_next st t st')
  have "\<And>u. u \<noteq> t \<Longrightarrow> pcs st u \<notin> window" using lock_next(4) assms(2) by blast
  with lock_step_inv lock_next show ?case by blast
qed


text \<open>The step of a thread as a function: a thread always has exactly one.\<close>

definition lock_exec :: "u32 \<Rightarrow> lock_state \<Rightarrow> lock_state" where
  "lock_exec t st = (case pcs st t of
       Outside \<Rightarrow> goto t At_test st
     | At_test \<Rightarrow> goto t (if l_locked st then At_check else At_set) st
     | At_set \<Rightarrow> goto t At_own (st\<lparr>l_locked := True\<rparr>)
     | At_own \<Rightarrow> goto t Inside (st\<lparr>l_owner := t\<rparr>)
     | At_check \<Rightarrow> goto t (if l_owner st = t then Inside else At_yield) st
     | At_yield \<Rightarrow> goto t At_test st
     | Inside \<Rightarrow> goto t At_unlock st
     | At_unlock \<Rightarrow> goto t (if l_owner st = t then At_clear else Outside) st
     | At_clear \<Rightarrow> goto t At_disown (st\<lparr>l_locked := False\<rparr>)
     | At_disown \<Rightarrow> goto t Outside (st\<lparr>l_owner := 0\<rparr>))"

lemma lock_exec_step: "lock_step t st (lock_exec t st)"
  by (cases "pcs st t") (auto simp: lock_exec_def intro: lock_step.intros)

lemma lock_exec_reach: "lock_reach UNIV st \<Longrightarrow> 0 \<notin> set ts \<Longrightarrow> lock_reach UNIV (fold lock_exec ts st)"
  by (induction ts arbitrary: st) (auto intro: lock_next [OF _ lock_exec_step])

section \<open>Properties\<close>

text \<open>
  C36. When \<^verbatim>\<open>Mutex::Lock\<close> returns: with a scheduler it returns exactly if the mutex is free or already
  owned by the caller, and then the mutex is locked, owned by the caller and nothing else
  changed; otherwise it spins until another thread runs. The lock does not count: one
  \<^verbatim>\<open>Unlock\<close> by the owner frees the mutex however often it was locked.
\<close>

theorem Mutex_Lock_returns:
  assumes "mutex_waiting mx = 0"
  shows "Mutex_Lock True (mx, s) =
      (if \<not> locked mx \<or> owner_thread_id mx = current_thread s
       then Some (mx\<lparr>locked := True, owner_thread_id := current_thread s\<rparr>, s) else None) \<and>
    (\<forall>mx' s'. Mutex_Lock True (mx, s) = Some (mx', s') \<longrightarrow>
       Mutex_Lock True (mx', s') = Some (mx', s') \<and> Mutex_Unlock True (mx', s') = Some (Mutex_new, s))"
  using assms by (simp add: Mutex_Lock_def lock_loop_iff may_lock_def Mutex_Unlock_def Mutex_new_def)

theorem Mutex_Lock_returns_witness:
  "Mutex_Lock True (Mutex_new, demo_sched) =
     Some (\<lparr>owner_thread_id = current_thread demo_sched, mutex_waiting = 0, locked = True\<rparr>, demo_sched)"
  using Mutex_Lock_returns [of Mutex_new demo_sched] by (simp add: Mutex_new_def)



text \<open>
  C37. Preemption inside \<^verbatim>\<open>Lock\<close> and \<^verbatim>\<open>Unlock\<close> breaks the mutex, since neither is atomic: two threads
  can be past \<^verbatim>\<open>Lock\<close> at once, and an unlock that is interrupted between its two writes can
  leave the mutex locked for ever, without an owner, though no thread uses it.
\<close>

theorem Mutex_races:
  "(\<exists>st. lock_reach UNIV st \<and> pcs st 1 = Inside \<and> pcs st 2 = Inside) \<and>
   (\<exists>st. lock_reach UNIV st \<and> (\<forall>t. pcs st t = Outside) \<and> l_locked st \<and> l_owner st = 0)"
proof
  let ?st = "fold lock_exec [1, 1, 2, 2, 1, 1, 2, 2] lock_init"
  have "lock_reach UNIV ?st" by (rule lock_exec_reach [OF lock_start]) simp
  moreover have "pcs ?st 1 = Inside" "pcs ?st 2 = Inside" by (simp_all add: lock_exec_def lock_init_def goto_def)
  ultimately show "\<exists>st. lock_reach UNIV st \<and> pcs st 1 = Inside \<and> pcs st 2 = Inside" by blast
next
  let ?st = "fold lock_exec [1, 1, 1, 1, 1, 1, 1, 2, 2, 2, 2, 1, 2, 2] lock_init"
  have "lock_reach UNIV ?st" by (rule lock_exec_reach [OF lock_start]) simp
  moreover have "pcs ?st t = Outside" "l_locked ?st" "l_owner ?st = 0" for t
    by (simp_all add: lock_exec_def lock_init_def goto_def)
  ultimately show "\<exists>st. lock_reach UNIV st \<and> (\<forall>t. pcs st t = Outside) \<and> l_locked st \<and> l_owner st = 0" by blast
qed

end
