(* ===== verification/KOS_Pool.thy ===== *)
theory KOS_Pool
  imports KOS_Heap KOS_String
begin

unbundle bit_operations_syntax

text \<open>
  The heap as a store of buffers. \<^verbatim>\<open>Heap::Alloc\<close> and \<^verbatim>\<open>Heap::Free\<close> change no byte below the heap and no
  byte of another live allocation, so what a client put into a buffer stays there until the
  client changes or frees it. The locale \<open>memory_pool\<close> states this contract, with the lemmas that
  the message-passing components use; its interpretation is on the heap of \<^verbatim>\<open>src/memory/heap.cpp\<close>.
\<close>


section \<open>The base of the heap never moves\<close>

lemma heapBase_steps [simp]:
  "g_heapBase (relink n b s) = g_heapBase s" "g_heapBase (absorb_next b s) = g_heapBase s"
  "g_heapBase (absorb_prev b s) = g_heapBase s" "g_heapBase (split_block b z s) = g_heapBase s"
  "g_heapBase (take_block b u z s) = g_heapBase s" "g_heapBase (unlock_heap s) = g_heapBase s"
  by (simp_all add: relink_def absorb_next_def absorb_prev_def split_block_def take_block_def unlock_heap_def Let_def)

lemma map_page_base: "map_page_at_end s = Some (s', r) \<Longrightarrow> g_heapBase s' = g_heapBase s"
  by (auto simp: map_page_at_end_def Let_def bind_eq_Some_conv split: if_splits)

lemma map_pages_base: "map_pages n s = Some (s', r) \<Longrightarrow> g_heapBase s' = g_heapBase s"
proof (induction n arbitrary: s)
  case (Suc n)
  then obtain s1 q where "map_page_at_end s = Some (s1, q)" "(if q then map_pages n s1 else Some (s1, False)) = Some (s', r)"
    by (auto simp: bind_eq_Some_conv)
  with Suc.IH [of s1] map_page_base [of s s1 q] show ?case by (cases q) simp_all
qed simp

lemma Heap_Alloc_base:
  assumes "Heap_Alloc sz align s = Some (s', u)"
  shows "g_heapBase s' = g_heapBase s"
  using assms map_pages_base
  by (auto simp: Heap_Alloc_def grow_heap_def lock_heap_def bind_eq_Some_conv split: if_splits)

lemma Heap_Free_base: "Heap_Free u s = Some s' \<Longrightarrow> g_heapBase s' = g_heapBase s"
  by (auto simp: Heap_Free_def lock_heap_def bind_eq_Some_conv Let_def split: if_splits)

section \<open>Bytes of live allocations\<close>

definition user_bytes :: "nat \<Rightarrow> blk list \<Rightarrow> u32 set" where
  "user_bytes lo bl = {x. unat x < lo \<or>
     (\<exists>b \<in> set (live bl). unat (the (buser b)) \<le> unat x \<and> unat x < bend b)}"

definition keeps :: "nat \<Rightarrow> blk list \<Rightarrow> mem \<Rightarrow> mem \<Rightarrow> bool" where
  "keeps lo bl m m' \<longleftrightarrow> (\<forall>x \<in> user_bytes lo bl. m' x = m x)"

lemma keeps_refl [simp]: "keeps lo bl m m"
  by (simp add: keeps_def)

lemma keeps_trans: "keeps lo bl m m' \<Longrightarrow> keeps lo bl m' m'' \<Longrightarrow> keeps lo bl m m''"
  by (simp add: keeps_def)

lemma keeps_live: "live bl' = live bl \<Longrightarrow> keeps lo bl' = keeps lo bl"
  by (simp add: keeps_def user_bytes_def fun_eq_iff)

lemma laid_pair:
  assumes "laid lo hi bl" "b \<in> set bl" "c \<in> set bl"
  shows "b = c \<or> bend b \<le> unat (baddr c) \<or> bend c \<le> unat (baddr b)"
proof -
  obtain xs ys where bl: "bl = xs @ b # ys" using assms(2) by (meson split_list)
  have "laid lo (unat (baddr b)) xs" "laid (bend b) hi ys" using assms(1) by (simp_all add: bl laid_append_Cons)
  with assms(3) show ?thesis unfolding bl using laid_mem by fastforce
qed

text \<open>A live byte lies above the slot of its own block and outside every other block.\<close>

lemma user_bytes_away:
  assumes "laid lo hi bl" "b \<in> set bl" "x \<in> user_bytes lo bl"
  shows "unat x < unat (baddr b) \<or> unat (baddr b) + 28 \<le> unat x \<and> buser b \<noteq> None \<or> bend b \<le> unat x"
proof (cases "unat x < lo")
  case True
  with laid_mem [OF assms(1,2)] show ?thesis by simp
next
  case False
  with assms(3) obtain c u where c: "c \<in> set bl" "buser c = Some u" "unat u \<le> unat x" "unat x < bend c"
    by (auto simp: user_bytes_def live_def)
  have "unat (baddr c) + 28 \<le> unat u" using laid_mem [OF assms(1) c(1)] c(2) by (simp add: slot_ok_def)
  with laid_pair [OF assms(1,2) c(1)] c show ?thesis by auto
qed

lemma keeps_hdr:
  assumes "keeps lo bl m m1" "laid lo hi bl" "hi \<le> 2 ^ 32" "b \<in> set bl" "unat k \<le> 20"
  shows "keeps lo bl m (wr32 (baddr b + k) v m1)"
proof -
  have be: "unat (baddr b) + 24 \<le> 2 ^ 32" "unat (baddr b) + 24 \<le> bend b"
    using laid_mem [OF assms(2,4)] assms(3) by (auto simp: bend_def)
  have k: "unat (baddr b + k) = unat (baddr b) + unat k" by (rule unat_fld [OF be(1) assms(5)])
  have "wr32 (baddr b + k) v m1 x = m1 x" if "x \<in> user_bytes lo bl" for x
    by (rule wr32_other) (use user_bytes_away [OF assms(2,4) that] k be assms(5) in auto)
  with assms(1) show ?thesis by (simp add: keeps_def)
qed

lemma keeps_free:
  assumes "keeps lo bl m m1" "laid lo hi bl" "b \<in> set bl" "buser b = None"
    "\<And>x. unat x < unat (baddr b) \<or> bend b \<le> unat x \<Longrightarrow> m2 x = m1 x"
  shows "keeps lo bl m m2"
proof -
  have "m2 x = m1 x" if "x \<in> user_bytes lo bl" for x
    by (rule assms(5)) (use user_bytes_away [OF assms(2,3) that] assms(4) in auto)
  with assms(1) show ?thesis by (simp add: keeps_def)
qed

lemma heap_rep_laid:
  "heap_rep s bl \<Longrightarrow> laid (unat (g_heapBase s)) (unat (g_heapEnd s)) bl"
  "heap_rep s bl \<Longrightarrow> unat (g_heapEnd s) \<le> 2 ^ 32"
  using u32_less_limit [of "g_heapEnd s"] by (simp_all add: heap_rep_def)

text \<open>A relink writes to the header of the block that follows.\<close>

lemma keeps_relink:
  assumes "keeps lo bl m (hmem s)" "laid lo hi bl" "hi \<le> 2 ^ 32" "set ys \<subseteq> set bl"
  shows "keeps lo bl m (hmem (relink (hd_addr ys 0) q s))"
proof (cases ys)
  case (Cons c cs)
  then have "keeps lo bl m (wr32 (baddr c + 8) q (hmem s))" using keeps_hdr [OF assms(1-3), of c 8] assms(4) by simp
  with Cons assms(1) show ?thesis by (simp add: relink_def)
qed (simp add: relink_def assms(1))

lemma split_block_keeps:
  assumes rep: "heap_rep s (xs @ b # ys)" and free: "buser b = None" and fits: "unat consumed \<le> unat (bsize b)"
  shows "keeps (unat (g_heapBase s)) (xs @ b # ys) (hmem s) (hmem (split_block (baddr b) consumed s))"
proof (cases "unat (bsize b) \<le> unat consumed + 56")
  case True
  then show ?thesis using split_test [OF rep fits] by (simp add: split_block_def)
next
  case False
  let ?bl = "xs @ b # ys"
  note L = heap_rep_laid [OF rep] and bb = heap_rep_bounds [OF rep] and st = split_test [OF rep fits]
  define na where "na = baddr b + 24 + consumed"
  let ?m1 = "put_header na (bsize b - consumed - 24) (baddr b) (hd_addr ys 0) (hmem s)"
  let ?s2 = "relink (hd_addr ys 0) na (s\<lparr>hmem := ?m1\<rparr>)"
  have na: "unat na = unat (baddr b) + 24 + unat consumed" "unat na + 24 \<le> bend b" "unat na + 24 \<le> 2 ^ 32"
    using False bb(3) by (simp_all add: na_def bend_def unat_add_nowrap)
  have "keeps (unat (g_heapBase s)) ?bl (hmem s) ?m1"
  proof (rule keeps_free [OF keeps_refl L(1) _ free])
    fix x :: u32 assume "unat x < unat (baddr b) \<or> bend b \<le> unat x"
    then show "?m1 x = hmem s x"
      using put_header_agree [OF na(3), of "bend b" "2 ^ 32" "hmem s"] put_header_agree [OF na(3), of 0 "unat (baddr b)" "hmem s"]
        na u32_less_limit [of x] by (auto simp: agree_def)
  qed simp
  then have "keeps (unat (g_heapBase s)) ?bl (hmem s) (hmem ?s2)" by (intro keeps_relink [OF _ L]) auto
  then have "keeps (unat (g_heapBase s)) ?bl (hmem s) (wr32 (baddr b + 4) consumed (wr32 (baddr b + 12) na (hmem ?s2)))"
    by (intro keeps_hdr [OF _ L]) simp_all
  moreover have "split_block (baddr b) consumed s =
      ?s2\<lparr>hmem := wr32 (baddr b + 4) consumed (wr32 (baddr b + 12) na (hmem ?s2))\<rparr>"
    using False bb(4) st by (simp add: split_block_def payload_start_def Let_def na_def)
  ultimately show ?thesis by simp
qed

lemma take_block_keeps:
  assumes rep: "heap_rep s (xs @ b # ys)" and free: "buser b = None"
    and u: "unat (baddr b) + 28 \<le> unat u" "unat u \<le> unat (baddr b) + 24 + unat consumed"
    and fits: "unat consumed \<le> unat (bsize b)"
  shows "keeps (unat (g_heapBase s)) (xs @ b # ys) (hmem s) (hmem (take_block (baddr b) u consumed s))"
proof -
  let ?bl = "xs @ b # ys"
  note L = heap_rep_laid [OF rep] and bb = heap_rep_bounds [OF rep]
  let ?m1 = "hmem (split_block (baddr b) consumed s)"
  have "keeps (unat (g_heapBase s)) ?bl (hmem s) (wr32 (baddr b + 16) 1 ?m1)"
    by (intro keeps_hdr [OF split_block_keeps [OF rep free fits] L]) simp_all
  moreover have "unat (u - 4) = unat u - 4" using u(1) by (simp add: unat_sub_nowrap)
  ultimately have "keeps (unat (g_heapBase s)) ?bl (hmem s) (wr32 (u - 4) (baddr b) (wr32 (baddr b + 16) 1 ?m1))"
    using u bb(3) fits by (elim keeps_free [OF _ L(1) _ free]) (auto simp: bend_def intro!: wr32_other)
  then show ?thesis by (simp add: take_block_def Let_def unlock_heap_def)
qed


text \<open>Growing writes to the last header and above the old end.\<close>

lemma create_block_at_keeps:
  assumes "heap_rep s bl" and room: "laid lo (unat a) bl" "unat a + 24 \<le> 2 ^ 32"
  shows "keeps lo bl (hmem s) (hmem (create_block_at a z (g_lastBlock s) s))"
proof -
  let ?m1 = "put_header a z (g_lastBlock s) 0 (hmem s)"
  have "?m1 x = hmem s x" if "x \<in> user_bytes lo bl" for x
  proof -
    have "unat x < lo \<or> (\<exists>b \<in> set bl. unat x < bend b)" using that by (auto simp: user_bytes_def live_def)
    with laid_mem [OF room(1)] laid_le [OF room(1)] have "unat x < unat a" by fastforce
    with put_header_agree [OF room(2), of 0 "unat a" "hmem s"] show ?thesis by (auto simp: agree_def)
  qed
  then have k: "keeps lo bl (hmem s) ?m1" by (simp add: keeps_def)
  show ?thesis
  proof (cases bl rule: rev_cases)
    case Nil
    then show ?thesis using k assms(1) by (simp add: create_block_at_def Let_def heap_rep_def)
  next
    case (snoc xs b)
    then have "g_lastBlock s = baddr b" using assms(1) by (simp add: heap_rep_def)
    with keeps_hdr [OF k room(1), of b 12 a] k snoc u32_less_limit [of a] show ?thesis
      by (auto simp: create_block_at_def Let_def)
  qed
qed

lemma add_bytes_keeps:
  assumes rep: "heap_rep s bl" and lay: "laid (unat (g_heapBase s)) (unat e0) bl"
    and e: "unat (g_heapEnd s) = unat e0 + n" "24 \<le> n"
  shows "keeps (unat (g_heapBase s)) bl (hmem s) (hmem (add_bytes e0 s))"
proof (cases "g_lastBlock s \<noteq> 0 \<and> rd32 (hmem s) (g_lastBlock s + 16) = 0")
  case True
  then obtain xs b where bl: "bl = xs @ [b]"
    using rep by (cases bl rule: rev_cases) (auto simp: heap_rep_def)
  then have "g_lastBlock s = baddr b" using rep by (simp add: heap_rep_def)
  with keeps_hdr [OF keeps_refl heap_rep_laid [OF rep], of b 4] True bl show ?thesis
    by (simp add: add_bytes_def Let_def)
next
  case False
  then have "add_bytes e0 s = create_block_at e0 (g_heapEnd s - e0 - hdr_size) (g_lastBlock s) s"
    by (auto simp: add_bytes_def Let_def)
  with create_block_at_keeps [OF rep lay] e u32_less_limit [of "g_heapEnd s"] show ?thesis by simp
qed

lemma grow_heap_keeps:
  assumes ok: "heap_ok s bl" and mp: "unat mp + 24 < 2 ^ 32" and g: "grow_heap mp s = Some (s', r)"
  shows "keeps (unat (g_heapBase s)) bl (hmem s) (hmem s')"
proof -
  note pg = grow_pages_spec [OF mp]
  obtain s1 q where s1: "map_pages (unat (grow_pages mp)) s = Some (s1, q)" "core s1 = core s" "heap_ok s1 bl"
    "if q then unat (g_heapEnd s1) = unat (g_heapEnd s) + 4096 * unat (grow_pages mp) else heap_frames s1 = {}"
    using map_pages_spec [OF ok] by blast
  have c: "hmem s1 = hmem s" "g_heapBase s1 = g_heapBase s" using s1(2) by (simp_all add: core_def)
  show ?thesis
  proof (cases q)
    case True
    have "heap_rep s1 bl" "laid (unat (g_heapBase s1)) (unat (g_heapEnd s)) bl"
      using s1(3) ok c by (simp_all add: heap_ok_def heap_rep_def)
    from add_bytes_keeps [OF this, of "4096 * unat (grow_pages mp)"]
    show ?thesis using g s1(1,4) True c pg by (simp add: grow_heap_def)
  qed (use g s1(1) c in \<open>simp add: grow_heap_def\<close>)
qed

lemma take_fitting_keeps:
  assumes ok: "heap_ok s bl" and fnd: "find (fits sz A) bl = Some b"
    and A: "unat A = 2 ^ k" "k \<le> 31" and nowrap: "2 ^ k + 4 + unat sz \<le> 2 ^ 32"
  shows "keeps (unat (g_heapBase s)) bl (hmem s) (hmem (take_block (baddr b) (user_of A b) (consumed_of sz A b) s))"
proof -
  obtain xs ys where bl: "bl = xs @ b # ys" and fit: "fits sz A b"
    using fnd by (metis find_Some_iff in_set_conv_decomp nth_mem)
  have rep: "heap_rep s (xs @ b # ys)" using ok unfolding heap_ok_def bl by blast
  note room = fits_room [OF A nowrap heap_rep_bounds(3) [OF rep] fit]
  have "buser b = None" using fit by (simp add: fits_def)
  from take_block_keeps [OF rep this room(1) _ room(3)] room(4) show ?thesis unfolding bl by simp
qed

lemma Heap_Alloc_keeps:
  assumes ok: "heap_ok s bl" and lock: "g_heapLock s = 0" and sz: "0 < unat sz"
    and A: "normalize_align align = Some A" "unat A = 2 ^ k" "k \<le> 31"
    and nowrap: "2 ^ k + 28 + unat sz < 2 ^ 32" and al: "Heap_Alloc sz align s = Some (s', u)"
  shows "keeps (unat (g_heapBase s)) bl (hmem s) (hmem s')"
proof -
  let ?s1 = "s\<lparr>g_heapLock := 1\<rparr>"
  have sz0: "sz \<noteq> 0" using sz by auto
  have ok1: "heap_ok ?s1 bl" using ok by simp
  have nw: "2 ^ k + 4 + unat sz \<le> 2 ^ 32" using nowrap by linarith
  note tk = take_fitting_keeps [OF _ _ A(2,3) nw]
  note run = al Heap_Alloc_def lock_heap_def sz0 lock A(1) find_block_ok [OF ok1]
  show ?thesis
  proof (cases "find (fits sz A) bl")
    case (Some b)
    with tk [OF ok1 Some] find_fits_nonzero [OF ok Some] run show ?thesis by auto
  next
    case None
    have mp: "unat (sz + A + 4) + 24 < 2 ^ 32" using nowrap A(2) by (simp add: unat_add_nowrap)
    from grow_heap_spec [OF ok1 this] obtain s2 r where s2: "grow_heap (sz + A + 4) ?s1 = Some (s2, r)"
      "if r then \<exists>bl'. heap_ok s2 bl' \<and> live bl' = live bl \<and>
          (\<exists>b \<in> set bl'. buser b = None \<and> unat (sz + A + 4) \<le> unat (bsize b))
       else heap_ok s2 bl \<and> heap_frames s2 = {}" by blast
    have b2: "g_heapBase s2 = g_heapBase s"
      using s2(1) map_pages_base by (force simp: grow_heap_def bind_eq_Some_conv split: if_splits)
    from grow_heap_keeps [OF ok1 mp s2(1)] have k2: "keeps (unat (g_heapBase s)) bl (hmem s) (hmem s2)" by simp
    show ?thesis
    proof (cases r)
      case False
      with s2(1) None run k2 show ?thesis by (auto simp: unlock_heap_def)
    next
      case True
      with s2(2) obtain bl' where bl': "heap_ok s2 bl'" "live bl' = live bl" by auto
      show ?thesis
      proof (cases "find (fits sz A) bl'")
        case None
        with \<open>find (fits sz A) bl = None\<close> s2(1) True run k2 find_block_ok [OF bl'(1)] show ?thesis
          by (auto simp: unlock_heap_def)
      next
        case (Some b)
        from tk [OF bl'(1) Some] have "keeps (unat (g_heapBase s)) bl (hmem s2)
            (hmem (take_block (baddr b) (user_of A b) (consumed_of sz A b) s2))"
          using keeps_live [OF bl'(2)] b2 by simp
        from keeps_trans [OF k2 this] \<open>find (fits sz A) bl = None\<close> s2(1) True run
          find_block_ok [OF bl'(1)] find_fits_nonzero [OF bl'(1) Some] Some show ?thesis by auto
      qed
    qed
  qed
qed

text \<open>Freeing: only headers are written.\<close>

lemma absorb_next_keeps:
  assumes rep: "heap_rep s (xs @ b # ys)"
  shows "keeps (unat (g_heapBase s)) (xs @ b # ys) (hmem s) (hmem (absorb_next (baddr b) s))"
proof -
  let ?bl = "xs @ b # ys"
  note L = heap_rep_laid [OF rep]
  have h: "rd32 (hmem s) (baddr b + 12) = hd_addr ys 0" using rep by (simp add: heap_rep_split hdr_def)
  show ?thesis
  proof (cases "ys \<noteq> [] \<and> rd32 (hmem s) (hd_addr ys 0 + 16) = 0")
    case True
    then obtain c cs where ys: "ys = c # cs" by (cases ys) auto
    have rc: "heap_rep s ((xs @ [b]) @ c # cs)" using rep ys by simp
    let ?m1 = "wr32 (baddr b + 4) (rd32 (hmem s) (baddr b + 4) + (24 + rd32 (hmem s) (baddr c + 4))) (hmem s)"
    have be: "unat (baddr b) + 24 \<le> unat (baddr c)"
      using L(1) by (simp add: ys laid_append_Cons bend_def)
    have "unat (baddr c + 12) = unat (baddr c) + 12"
      using heap_rep_bounds(3) [OF rc] by (simp add: bend_def unat_add_nowrap)
    moreover have "unat (baddr b + 4) = unat (baddr b) + 4"
      using heap_rep_bounds(3) [OF rep] by (simp add: bend_def unat_add_nowrap)
    ultimately have "rd32 ?m1 (baddr c + 12) = rd32 (hmem s) (baddr c + 12)"
      using be heap_rep_bounds(3) [OF rc] by (intro rd32_wr32_other) (simp_all add: bend_def)
    then have nn: "rd32 ?m1 (baddr c + 12) = hd_addr cs 0"
      using rc by (simp only: heap_rep_split hdr_def)
    let ?m2 = "wr32 (baddr b + 12) (hd_addr cs 0) ?m1"
    have "keeps (unat (g_heapBase s)) ?bl (hmem s) ?m2" by (intro keeps_hdr [OF _ L] keeps_refl) simp_all
    then have "keeps (unat (g_heapBase s)) ?bl (hmem s) (hmem (relink (hd_addr cs 0) (baddr b) (s\<lparr>hmem := ?m2\<rparr>)))"
      by (intro keeps_relink [OF _ L]) (auto simp: ys)
    moreover have "absorb_next (baddr b) s = relink (hd_addr cs 0) (baddr b) (s\<lparr>hmem := ?m2\<rparr>)"
      using True h nn heap_rep_bounds(4) [OF rep] heap_rep_bounds(4) [OF rc]
      by (simp add: absorb_next_def Let_def ys)
    ultimately show ?thesis by simp
  next
    case False
    then have "absorb_next (baddr b) s = s" using h by (cases ys) (auto simp: absorb_next_def Let_def)
    then show ?thesis by simp
  qed
qed

lemma absorb_prev_keeps:
  assumes rep: "heap_rep s (xs @ b # ys)"
  shows "keeps (unat (g_heapBase s)) (xs @ b # ys) (hmem s) (hmem (absorb_prev (baddr b) s))"
proof (cases xs rule: rev_cases)
  case Nil
  then have "rd32 (hmem s) (baddr b + 8) = 0"
    using rep heap_rep_split [of s "[]" b ys] by (simp add: hdr_def)
  then show ?thesis by (simp add: absorb_prev_def)
next
  case (snoc zs p)
  then have "heap_rep s (zs @ p # b # ys)" "rd32 (hmem s) (baddr b + 8) = baddr p"
    using rep by (simp_all add: heap_rep_split hdr_def)
  with absorb_next_keeps [of s zs p "b # ys"] snoc show ?thesis by (simp add: absorb_prev_def Let_def)
qed

lemma Heap_Free_keeps:
  assumes ok: "heap_ok s (xs @ b # ys)" and lock: "g_heapLock s = 0" and u: "buser b = Some u"
    and fr: "Heap_Free u s = Some s'"
  shows "keeps (unat (g_heapBase s)) (xs @ ys) (hmem s) (hmem s')"
proof -
  let ?b' = "Blk (baddr b) (bsize b) None"
  let ?used = "if bsize b \<le> g_heapUsed s then g_heapUsed s - bsize b else 0"
  let ?s2 = "s\<lparr>g_heapLock := 1, hmem := wr32 (baddr b + 16) 0 (hmem s), g_heapUsed := ?used\<rparr>"
  have rep: "heap_rep s (xs @ b # ys)" using ok by (simp add: heap_ok_def)
  have h: "hdr (hmem s) b (last_addr xs 0) (hd_addr ys 0)" "slot_ok b" using rep by (simp_all add: heap_rep_split)
  have u0: "u \<noteq> 0" using h(2) u by (auto simp: slot_ok_def)
  have rep2: "heap_rep ?s2 (xs @ ?b' # ys)" using heap_rep_mark_free [OF rep] by (simp add: heap_rep_def)
  let ?s3 = "absorb_next (baddr b) ?s2"
  obtain z cs where mn: "merge_next ?b' ys = Blk (baddr b) z None # cs"
    using merge_next_simps(2) [of ?b' ys] by auto
  have rep3: "heap_rep ?s3 (xs @ Blk (baddr b) z None # cs)" using absorb_next_merge [OF rep2] mn by simp
  have lv: "live (xs @ ?b' # ys) = live (xs @ ys)" "live (xs @ Blk (baddr b) z None # cs) = live (xs @ ys)"
    using merge_next_simps(1) [of ?b' ys] mn by simp_all
  have "keeps (unat (g_heapBase s)) (xs @ b # ys) (hmem s) (hmem ?s2)"
    using keeps_hdr [OF keeps_refl heap_rep_laid [OF rep], where b = b and k = 16 and v = 0] by simp
  then have "keeps (unat (g_heapBase s)) (xs @ ys) (hmem s) (hmem ?s2)" by (auto simp: keeps_def user_bytes_def)
  moreover have "keeps (unat (g_heapBase s)) (xs @ ys) (hmem ?s2) (hmem ?s3)"
    using absorb_next_keeps [OF rep2] keeps_live [OF lv(1)] by (simp split del: if_split)
  moreover have "keeps (unat (g_heapBase s)) (xs @ ys) (hmem ?s3) (hmem (absorb_prev (baddr b) ?s3))"
    using absorb_prev_keeps [OF rep3] keeps_live [OF lv(2)] by (simp split del: if_split)
  ultimately have "keeps (unat (g_heapBase s)) (xs @ ys) (hmem s) (hmem (absorb_prev (baddr b) ?s3))" by (blast intro: keeps_trans)
  moreover have "Heap_Free u s = Some (unlock_heap (absorb_prev (baddr b) ?s3))"
    using u0 lock h(1) u heap_rep_bounds(4) [OF rep]
    by (simp add: Heap_Free_def lock_heap_def block_from_payload_def hdr_def Let_def)
  ultimately show ?thesis using fr by (simp add: unlock_heap_def)
qed

section \<open>Buffers\<close>

definition bytes_at :: "(u32 \<Rightarrow> u8) \<Rightarrow> u32 \<Rightarrow> nat \<Rightarrow> u8 list" where
  "bytes_at m u n = map (\<lambda>i. m (u + of_nat i)) [0..<n]"

lemma length_bytes_at [simp]: "length (bytes_at m u n) = n"
  by (simp add: bytes_at_def)

lemma bytes_at_0 [simp]: "bytes_at m u 0 = []"
  by (simp add: bytes_at_def)

lemma nth_bytes_at [simp]: "i < n \<Longrightarrow> bytes_at m u n ! i = m (u + of_nat i)"
  by (simp add: bytes_at_def)

lemma bytes_at_Suc: "bytes_at m u (Suc n) = m u # bytes_at m (u + 1) n"
  by (simp add: bytes_at_def upt_conv_Cons map_Suc_upt [symmetric] add.assoc del: upt_Suc)

lemma take_bytes_at: "k \<le> n \<Longrightarrow> take k (bytes_at m u n) = bytes_at m u k"
  by (rule nth_equalityI) simp_all

lemma unat_add_index: "unat (u :: u32) + n \<le> 2 ^ 32 \<Longrightarrow> i < n \<Longrightarrow> unat (u + of_nat i) = unat u + i"
  by (subst unat_add_nowrap) (simp_all add: unat_of_nat take_bit_nat_eq_self)

lemma bytes_at_cong:
  assumes "unat u + n \<le> 2 ^ 32" "\<And>x. unat u \<le> unat x \<Longrightarrow> unat x < unat u + n \<Longrightarrow> m' x = m x"
  shows "bytes_at m' u n = bytes_at m u n"
  by (rule nth_equalityI) (simp_all add: assms(2) unat_add_index [OF assms(1)])

fun fill :: "(u32 \<Rightarrow> u8 \<Rightarrow> 's \<Rightarrow> 's) \<Rightarrow> u32 \<Rightarrow> u8 list \<Rightarrow> 's \<Rightarrow> 's" where
  "fill pk u [] s = s"
| "fill pk u (b # bs) s = fill pk (u + 1) bs (pk u b s)"


text \<open>A run of releases with a deallocator \<open>fr\<close>.\<close>

fun free_list :: "(u32 \<Rightarrow> 's \<Rightarrow> 's option) \<Rightarrow> u32 list \<Rightarrow> 's \<Rightarrow> 's option" where
  "free_list fr [] s = Some s"
| "free_list fr (u # us) s = do { s1 \<leftarrow> fr u s; free_list fr us s1 }"

text \<open>
  \<open>area g w v m\<close>: the \<open>m\<close> bytes at \<open>v\<close> belong to the allocation \<open>w\<close>, or for \<open>w = 0\<close> to memory the
  allocator does not manage. Areas of different allocations are disjoint, and neither an
  allocation nor a release changes the bytes of the other areas.
\<close>

locale memory_pool =
  fixes alloc :: "u32 \<Rightarrow> 's \<Rightarrow> ('s \<times> u32) option"
    and free :: "u32 \<Rightarrow> 's \<Rightarrow> 's option"
    and peek :: "'s \<Rightarrow> u32 \<Rightarrow> u8"
    and poke :: "u32 \<Rightarrow> u8 \<Rightarrow> 's \<Rightarrow> 's"
    and area :: "'g \<Rightarrow> u32 \<Rightarrow> u32 \<Rightarrow> nat \<Rightarrow> bool"
    and inv :: "'s \<Rightarrow> 'g \<Rightarrow> bool"
    and max_size :: nat
  assumes pool_alloc: "inv s g \<Longrightarrow> 0 < unat n \<Longrightarrow> unat n \<le> max_size \<Longrightarrow>
      \<exists>s' u g'. alloc n s = Some (s', u) \<and> inv s' g' \<and>
        (\<forall>w v m. area g w v m \<longrightarrow> area g' w v m \<and> bytes_at (peek s') v m = bytes_at (peek s) v m) \<and>
        (u \<noteq> 0 \<longrightarrow> area g' u u (unat n) \<and> (\<forall>w v m. area g w v m \<longrightarrow> w \<noteq> u))"
    and pool_free: "inv s g \<Longrightarrow> area g u u k \<Longrightarrow> u \<noteq> 0 \<Longrightarrow>
      \<exists>s' g'. free u s = Some s' \<and> inv s' g' \<and>
        (\<forall>w v m. area g w v m \<longrightarrow> w \<noteq> u \<longrightarrow> area g' w v m \<and> bytes_at (peek s') v m = bytes_at (peek s) v m)"
    and pool_poke: "inv s g \<Longrightarrow> area g w v m \<Longrightarrow> unat v \<le> unat x \<Longrightarrow> unat x < unat v + m \<Longrightarrow> inv (poke x b s) g"
    and peek_poke: "peek (poke x b s) y = (if y = x then b else peek s y)"
    and area_disjoint: "inv s g \<Longrightarrow> area g w v m \<Longrightarrow> area g w' v' m' \<Longrightarrow> w \<noteq> w' \<Longrightarrow> 0 < m \<Longrightarrow> 0 < m' \<Longrightarrow>
      disjoint_bytes v m v' m'"
    and area_bound: "inv s g \<Longrightarrow> area g w v m \<Longrightarrow> unat v + m \<le> 2 ^ 32"
begin

text \<open>Filling a part of an area.\<close>

lemma fill_spec:
  assumes "inv s g" "area g w v m" "unat v \<le> unat u" "unat u + length bs \<le> unat v + m"
  shows "inv (fill poke u bs s) g" "bytes_at (peek (fill poke u bs s)) u (length bs) = bs"
    "\<And>x. unat x < unat u \<or> unat u + length bs \<le> unat x \<Longrightarrow> peek (fill poke u bs s) x = peek s x"
proof -
  have "inv (fill poke u bs s) g \<and> bytes_at (peek (fill poke u bs s)) u (length bs) = bs \<and>
    (\<forall>x. unat x < unat u \<or> unat u + length bs \<le> unat x \<longrightarrow> peek (fill poke u bs s) x = peek s x)"
    using assms
  proof (induction bs arbitrary: u s)
    case (Cons b bs)
    let ?s = "fill poke (u + 1) bs (poke u b s)"
    have i1: "inv (poke u b s) g" by (rule pool_poke [OF Cons.prems(1,2)]) (use Cons.prems in simp_all)
    show ?case
    proof (cases "bs = []")
      case True
      with i1 show ?thesis by (auto simp: bytes_at_Suc peek_poke)
    next
      case False
      then have u1: "unat (u + 1) = unat u + 1"
        using Cons.prems(4) area_bound [OF Cons.prems(1,2)] by (subst unat_add_nowrap) (cases bs; simp)+
      have ih: "inv ?s g" "bytes_at (peek ?s) (u + 1) (length bs) = bs"
        "\<forall>x. unat x < unat (u + 1) \<or> unat (u + 1) + length bs \<le> unat x \<longrightarrow> peek ?s x = peek (poke u b s) x"
        using Cons.IH [OF i1 Cons.prems(2)] Cons.prems(3,4) u1 by simp_all
      have "peek ?s u = b" using ih(3) u1 by (simp add: peek_poke)
      moreover have "peek ?s x = peek s x" if "unat x < unat u \<or> unat u + length (b # bs) \<le> unat x" for x
        using ih(3) that u1 by (auto simp: peek_poke)
      ultimately show ?thesis using ih by (simp add: bytes_at_Suc)
    qed
  qed simp
  then show "inv (fill poke u bs s) g" "bytes_at (peek (fill poke u bs s)) u (length bs) = bs"
    "\<And>x. unat x < unat u \<or> unat u + length bs \<le> unat x \<Longrightarrow> peek (fill poke u bs s) x = peek s x"
    by blast+
qed

lemma fill_other:
  assumes "inv s g" "area g w v m" "unat v \<le> unat u" "unat u + length bs \<le> unat v + m"
    "area g w' v' m'" "w' \<noteq> w"
  shows "bytes_at (peek (fill poke u bs s)) v' m' = bytes_at (peek s) v' m'"
proof (cases "m' = 0 \<or> bs = []")
  case False
  then have "0 < m" using assms(3,4) by (cases bs) auto
  then have "disjoint_bytes v m v' m'" using area_disjoint [OF assms(1,2,5)] assms(6) False by auto
  then show ?thesis
    by (intro bytes_at_cong [OF area_bound [OF assms(1,5)]] fill_spec(3) [OF assms(1-4)])
      (use assms(3,4) in \<open>auto simp: disjoint_bytes_def\<close>)
qed auto

text \<open>Buffers that hold known bytes, one per allocation.\<close>

definition holds :: "'s \<Rightarrow> 'g \<Rightarrow> (u32 \<times> u8 list) list \<Rightarrow> bool" where
  "holds s g xs \<longleftrightarrow> distinct (map fst xs) \<and>
     (\<forall>(u, bs) \<in> set xs. u \<noteq> 0 \<and> area g u u (length bs) \<and> bytes_at (peek s) u (length bs) = bs)"

lemma holdsD: "holds s g xs \<Longrightarrow> (u, bs) \<in> set xs \<Longrightarrow>
    u \<noteq> 0 \<and> area g u u (length bs) \<and> bytes_at (peek s) u (length bs) = bs"
  by (auto simp: holds_def)

lemma holds_push:
  assumes inv: "inv s g" and h: "holds s g xs" and n: "length bs = unat n" "0 < unat n" "unat n \<le> max_size"
  shows "\<exists>s1 u g'. alloc n s = Some (s1, u) \<and> inv s1 g' \<and> holds s1 g' xs \<and>
    (\<forall>w v m. area g w v m \<longrightarrow> area g' w v m \<and> bytes_at (peek s1) v m = bytes_at (peek s) v m) \<and>
    (u \<noteq> 0 \<longrightarrow> area g' u u (unat n) \<and> (\<forall>w v m. area g w v m \<longrightarrow> w \<noteq> u) \<and>
      inv (fill poke u bs s1) g' \<and> holds (fill poke u bs s1) g' (xs @ [(u, bs)]) \<and>
      (\<forall>w v m. area g w v m \<longrightarrow> bytes_at (peek (fill poke u bs s1)) v m = bytes_at (peek s) v m))"
proof -
  obtain s1 u g' where al: "alloc n s = Some (s1, u)" "inv s1 g'"
    "\<forall>w v m. area g w v m \<longrightarrow> area g' w v m \<and> bytes_at (peek s1) v m = bytes_at (peek s) v m"
    "u \<noteq> 0 \<longrightarrow> area g' u u (unat n) \<and> (\<forall>w v m. area g w v m \<longrightarrow> w \<noteq> u)"
    using pool_alloc [OF inv n(2,3)] by (elim exE conjE)
  have h1: "holds s1 g' xs" using h al(3) by (fastforce simp: holds_def)
  have u: "inv (fill poke u bs s1) g' \<and> holds (fill poke u bs s1) g' (xs @ [(u, bs)]) \<and>
      (\<forall>w v m. area g w v m \<longrightarrow> bytes_at (peek (fill poke u bs s1)) v m = bytes_at (peek s) v m)" if "u \<noteq> 0"
  proof -
    have a: "area g' u u (unat n)" and fr: "\<forall>w v m. area g w v m \<longrightarrow> w \<noteq> u" using al(4) that by auto
    note f = fill_spec [OF al(2) a, of u bs] and fo = fill_other [OF al(2) a, of u bs]
    have keep: "bytes_at (peek (fill poke u bs s1)) v m = bytes_at (peek s) v m" if "area g w v m" for w v m
      using fo [of w v m] al(3) fr that n(1) by auto
    moreover have "u \<notin> fst ` set xs" using h fr by (fastforce simp: holds_def)
    moreover have "bytes_at (peek (fill poke u bs s1)) v (length cs) = cs" if "(v, cs) \<in> set xs" for v cs
      using keep [of v v "length cs"] h that by (auto simp: holds_def)
    ultimately show ?thesis using f(1,2) h1 a \<open>u \<noteq> 0\<close> n(1) by (auto simp: holds_def)
  qed
  show ?thesis using al h1 u by (intro exI [of _ s1] exI [of _ u] exI [of _ g']) simp
qed

lemma holds_drop:
  assumes inv: "inv s g" and h: "holds s g (xs @ (u, bs) # ys)"
  shows "\<exists>s' g'. free u s = Some s' \<and> inv s' g' \<and> holds s' g' (xs @ ys) \<and>
    (\<forall>w v m. area g w v m \<longrightarrow> w \<noteq> u \<longrightarrow> area g' w v m \<and> bytes_at (peek s') v m = bytes_at (peek s) v m)"
proof -
  have u: "u \<noteq> 0" "area g u u (length bs)" "u \<notin> fst ` set xs" "u \<notin> fst ` set ys"
    using h by (auto simp: holds_def)
  obtain s' g' where f: "free u s = Some s'" "inv s' g'"
    "\<forall>w v m. area g w v m \<longrightarrow> w \<noteq> u \<longrightarrow> area g' w v m \<and> bytes_at (peek s') v m = bytes_at (peek s) v m"
    using pool_free [OF inv u(2,1)] by (elim exE conjE)
  have "v \<noteq> 0 \<and> area g' v v (length cs) \<and> bytes_at (peek s') v (length cs) = cs" if "(v, cs) \<in> set (xs @ ys)" for v cs
  proof -
    have "v \<noteq> u" using that u(3,4) by force
    moreover have "v \<noteq> 0 \<and> area g v v (length cs) \<and> bytes_at (peek s) v (length cs) = cs"
      using holdsD [OF h, of v cs] that by auto
    ultimately show ?thesis using f(3) by metis
  qed
  then have "holds s' g' (xs @ ys)" using h unfolding holds_def by auto
  with f show ?thesis by blast
qed

text \<open>Runs of allocations and releases: every other area keeps its bytes.\<close>

lemma alloc_list_keeps:
  assumes "inv s g" "\<forall>n \<in> set ns. 0 < unat n \<and> unat n \<le> max_size"
  shows "\<exists>s' us g'. alloc_list alloc ns s = Some (s', us) \<and> inv s' g' \<and> length us = length ns \<and>
    (\<forall>w v m. area g w v m \<longrightarrow> area g' w v m \<and> bytes_at (peek s') v m = bytes_at (peek s) v m) \<and>
    distinct (filter (\<lambda>u. u \<noteq> 0) us) \<and>
    (\<forall>u \<in> set us. u \<noteq> 0 \<longrightarrow> (\<exists>k. area g' u u k) \<and> (\<forall>w v m. area g w v m \<longrightarrow> w \<noteq> u))"
  using assms
proof (induction ns arbitrary: s g)
  case (Cons n ns)
  have n: "0 < unat n" "unat n \<le> max_size" using Cons.prems(2) by simp_all
  obtain s1 u g1 where a: "alloc n s = Some (s1, u)" "inv s1 g1"
    "\<forall>w v m. area g w v m \<longrightarrow> area g1 w v m \<and> bytes_at (peek s1) v m = bytes_at (peek s) v m"
    "u \<noteq> 0 \<longrightarrow> area g1 u u (unat n) \<and> (\<forall>w v m. area g w v m \<longrightarrow> w \<noteq> u)"
    using pool_alloc [OF Cons.prems(1) n] by (elim exE conjE)
  have "\<forall>k \<in> set ns. 0 < unat k \<and> unat k \<le> max_size" using Cons.prems(2) by simp
  from Cons.IH [OF a(2) this] obtain s2 us g2 where b: "alloc_list alloc ns s1 = Some (s2, us)" "inv s2 g2" "length us = length ns"
    "\<forall>w v m. area g1 w v m \<longrightarrow> area g2 w v m \<and> bytes_at (peek s2) v m = bytes_at (peek s1) v m"
    "distinct (filter (\<lambda>u. u \<noteq> 0) us)"
    "\<forall>u \<in> set us. u \<noteq> 0 \<longrightarrow> (\<exists>k. area g2 u u k) \<and> (\<forall>w v m. area g1 w v m \<longrightarrow> w \<noteq> u)"
    by (elim exE conjE)
  have "\<forall>w v m. area g w v m \<longrightarrow> area g2 w v m \<and> bytes_at (peek s2) v m = bytes_at (peek s) v m"
    using a(3) b(4) by metis
  moreover have "u \<noteq> 0 \<longrightarrow> u \<notin> set us" using a(4) b(6) by blast
  then have "distinct (filter (\<lambda>u. u \<noteq> 0) (u # us))" using b(5) by simp
  moreover have "alloc_list alloc (n # ns) s = Some (s2, u # us)" "length (u # us) = length (n # ns)"
    using a(1) b(1,3) by simp_all
  moreover have "\<forall>v \<in> set (u # us). v \<noteq> 0 \<longrightarrow> (\<exists>k. area g2 v v k) \<and> (\<forall>w v' m. area g w v' m \<longrightarrow> w \<noteq> v)"
  proof -
    have "u \<noteq> 0 \<longrightarrow> (\<exists>k. area g2 u u k) \<and> (\<forall>w v' m. area g w v' m \<longrightarrow> w \<noteq> u)" using a(4) b(4) by blast
    moreover have "\<forall>v \<in> set us. v \<noteq> 0 \<longrightarrow> (\<exists>k. area g2 v v k) \<and> (\<forall>w v' m. area g w v' m \<longrightarrow> w \<noteq> v)"
      using a(3) b(6) by blast
    ultimately show ?thesis unfolding list.set ball_simps(7) by (rule conjI)
  qed
  ultimately show ?case using b(2) by (intro exI conjI)
qed auto

lemma free_list_keeps:
  assumes "inv s g" "distinct us" "\<forall>u \<in> set us. u \<noteq> 0 \<and> (\<exists>k. area g u u k)"
  shows "\<exists>s' g'. free_list free us s = Some s' \<and> inv s' g' \<and>
    (\<forall>w v m. area g w v m \<longrightarrow> w \<notin> set us \<longrightarrow> area g' w v m \<and> bytes_at (peek s') v m = bytes_at (peek s) v m)"
  using assms
proof (induction us arbitrary: s g)
  case (Cons u us)
  then obtain k where "area g u u k" "u \<noteq> 0" by auto
  from pool_free [OF Cons.prems(1) this] obtain s1 g1 where a: "free u s = Some s1" "inv s1 g1"
    "\<forall>w v m. area g w v m \<longrightarrow> w \<noteq> u \<longrightarrow> area g1 w v m \<and> bytes_at (peek s1) v m = bytes_at (peek s) v m"
    by (elim exE conjE)
  have "\<forall>v \<in> set us. v \<noteq> 0 \<and> (\<exists>k. area g1 v v k)" using Cons.prems(2,3) a(3) by fastforce
  from Cons.IH [OF a(2) _ this] Cons.prems(2) obtain s2 g2 where b: "free_list free us s1 = Some s2" "inv s2 g2"
    "\<forall>w v m. area g1 w v m \<longrightarrow> w \<notin> set us \<longrightarrow> area g2 w v m \<and> bytes_at (peek s2) v m = bytes_at (peek s1) v m"
    by auto
  have "\<forall>w v m. area g w v m \<longrightarrow> w \<notin> set (u # us) \<longrightarrow>
      area g2 w v m \<and> bytes_at (peek s2) v m = bytes_at (peek s) v m"
    using a(3) b(3) by (metis list.set_intros)
  then show ?case using a(1) b(1,2) by (intro exI [of _ s2] exI [of _ g2]) simp
qed auto

lemma alloc_free_keeps:
  assumes i: "inv s g" and n: "\<forall>n \<in> set ns. 0 < unat n \<and> unat n \<le> max_size" and a: "area g w v m"
  shows "\<exists>s1 us s2 g2. alloc_list alloc ns s = Some (s1, us) \<and> free_list free (filter (\<lambda>u. u \<noteq> 0) us) s1 = Some s2 \<and>
    inv s2 g2 \<and> area g2 w v m \<and> bytes_at (peek s1) v m = bytes_at (peek s) v m \<and>
    bytes_at (peek s2) v m = bytes_at (peek s) v m"
proof -
  obtain s1 us g1 where b: "alloc_list alloc ns s = Some (s1, us)" "inv s1 g1"
    "\<forall>w v m. area g w v m \<longrightarrow> area g1 w v m \<and> bytes_at (peek s1) v m = bytes_at (peek s) v m"
    "distinct (filter (\<lambda>u. u \<noteq> 0) us)"
    "\<forall>u \<in> set us. u \<noteq> 0 \<longrightarrow> (\<exists>k. area g1 u u k) \<and> (\<forall>w v m. area g w v m \<longrightarrow> w \<noteq> u)"
    using alloc_list_keeps [OF i n] by (elim exE conjE)
  have "\<forall>u \<in> set (filter (\<lambda>u. u \<noteq> 0) us). u \<noteq> 0 \<and> (\<exists>k. area g1 u u k)" using b(5) by auto
  from free_list_keeps [OF b(2,4) this] obtain s2 g2 where c: "free_list free (filter (\<lambda>u. u \<noteq> 0) us) s1 = Some s2" "inv s2 g2"
    "\<forall>w v m. area g1 w v m \<longrightarrow> w \<notin> set (filter (\<lambda>u. u \<noteq> 0) us) \<longrightarrow>
       area g2 w v m \<and> bytes_at (peek s2) v m = bytes_at (peek s1) v m"
    by (elim exE conjE)
  have w: "w \<notin> set (filter (\<lambda>u. u \<noteq> 0) us)" using b(5) a by auto
  have a1: "area g1 w v m" "bytes_at (peek s1) v m = bytes_at (peek s) v m" using b(3) a by blast+
  have "area g2 w v m" "bytes_at (peek s2) v m = bytes_at (peek s1) v m" using c(3) a1(1) w by blast+
  with b(1) c(1,2) a1 show ?thesis by metis
qed

end

sublocale memory_pool \<subseteq> pool_objects: memory_allocator alloc poke "\<lambda>g v m. 0 < m \<and> (\<exists>w. area g w v m)" inv max_size
proof
  fix s g n assume i: "inv s g" and n: "0 < unat (n :: u32)" "unat n \<le> max_size"
  obtain s' u g' where al: "alloc n s = Some (s', u)" "inv s' g'" "\<forall>w v m. area g w v m \<longrightarrow> area g' w v m"
    "u \<noteq> 0 \<longrightarrow> area g' u u (unat n) \<and> (\<forall>w v m. area g w v m \<longrightarrow> w \<noteq> u)"
    using pool_alloc [OF i n] by (elim exE conjE) blast
  moreover have "disjoint_bytes u (unat n) v m" if "u \<noteq> 0" "0 < m" "area g w v m" for w v m
    using area_disjoint [OF al(2), of u u "unat n" w v m] al(3,4) that n(1) by auto
  ultimately show "\<exists>s' u g'. alloc n s = Some (s', u) \<and> inv s' g' \<and>
      (\<forall>v m. 0 < m \<and> (\<exists>w. area g w v m) \<longrightarrow> 0 < m \<and> (\<exists>w. area g' w v m)) \<and>
      (u \<noteq> 0 \<longrightarrow> (0 < unat n \<and> (\<exists>w. area g' w u (unat n))) \<and>
        (\<forall>v m. 0 < m \<and> (\<exists>w. area g w v m) \<longrightarrow> disjoint_bytes u (unat n) v m))"
    using n(1) by (intro exI [of _ s'] exI [of _ u] exI [of _ g']) auto
next
  fix s g u k x b
  assume "inv s g" "0 < k \<and> (\<exists>w. area g w u k)" "unat u \<le> unat (x :: u32)" "unat x < unat u + k"
  then show "inv (poke x b s) g" using pool_poke by blast
qed

section \<open>The kernel heap is a memory pool\<close>

definition heap_area :: "nat \<times> blk list \<Rightarrow> u32 \<Rightarrow> u32 \<Rightarrow> nat \<Rightarrow> bool" where
  "heap_area g w v m \<longleftrightarrow> w = 0 \<and> unat v + m \<le> fst g \<or>
     (\<exists>b \<in> set (snd g). buser b = Some w \<and> unat w \<le> unat v \<and> unat v + m \<le> bend b)"

definition pool_inv :: "heap \<Rightarrow> nat \<times> blk list \<Rightarrow> bool" where
  "pool_inv s g \<longleftrightarrow> heap_inv s (snd g) \<and> fst g = unat (g_heapBase s)"

lemma pool_inv_laid:
  assumes "pool_inv s g"
  shows "laid (fst g) (unat (g_heapEnd s)) (snd g)" "unat (g_heapEnd s) < 2 ^ 32" "4096 \<le> fst g"
  using assms u32_less_limit [of "g_heapEnd s"] by (simp_all add: pool_inv_def heap_inv_def heap_ok_def heap_rep_def)

lemma area_block:
  assumes "pool_inv s g" "heap_area g w v m"
  shows "w = 0 \<and> unat v + m \<le> fst g \<or>
    (\<exists>b \<in> set (snd g). buser b = Some w \<and> w \<noteq> 0 \<and> fst g + 28 \<le> unat (baddr b) + 28 \<and> unat (baddr b) + 28 \<le> unat w \<and>
       unat w \<le> unat v \<and> unat v + m \<le> bend b \<and> bend b \<le> unat (g_heapEnd s))"
  using assms(2) laid_mem [OF pool_inv_laid(1) [OF assms(1)]]
  by (fastforce simp: heap_area_def slot_ok_def)

lemma heap_area_bound: "pool_inv s g \<Longrightarrow> heap_area g w v m \<Longrightarrow> unat v + m \<le> 2 ^ 32"
  using area_block [of s g w v m] pool_inv_laid(2) [of s g] laid_le [OF pool_inv_laid(1) [of s g]] by force

lemma heap_area_disjoint:
  assumes i: "pool_inv s g" and a: "heap_area g w v m" "heap_area g w' v' m'" "w \<noteq> w'"
  shows "disjoint_bytes v m v' m'"
proof (cases "w = 0 \<or> w' = 0")
  case True
  with area_block [OF i a(1)] area_block [OF i a(2)] a(3) show ?thesis by (auto simp: disjoint_bytes_def)
next
  case False
  then obtain b c where b: "b \<in> set (snd g)" "buser b = Some w" "unat (baddr b) + 28 \<le> unat v" "unat v + m \<le> bend b"
    and c: "c \<in> set (snd g)" "buser c = Some w'" "unat (baddr c) + 28 \<le> unat v'" "unat v' + m' \<le> bend c"
    using area_block [OF i a(1)] area_block [OF i a(2)] by (auto intro: le_trans)
  have "b \<noteq> c" using b(2) c(2) a(3) by auto
  with laid_pair [OF pool_inv_laid(1) [OF i] b(1) c(1)] b c show ?thesis by (auto simp: disjoint_bytes_def)
qed

lemma keeps_area:
  assumes i: "pool_inv s g" and a: "heap_area g w v m" and k: "keeps (fst g) (snd g) (hmem s) m'"
  shows "bytes_at m' v m = bytes_at (hmem s) v m"
proof (rule bytes_at_cong [OF heap_area_bound [OF i a]])
  fix x :: u32 assume x: "unat v \<le> unat x" "unat x < unat v + m"
  have "x \<in> user_bytes (fst g) (snd g)"
  proof (cases "w = 0")
    case True
    with area_block [OF i a] x show ?thesis by (auto simp: user_bytes_def)
  next
    case False
    with area_block [OF i a] obtain b where "b \<in> set (snd g)" "buser b = Some w" "unat w \<le> unat v" "unat v + m \<le> bend b"
      by blast
    with x have "b \<in> set (live (snd g))" "unat (the (buser b)) \<le> unat x" "unat x < bend b" by (simp_all add: mem_live)
    then show ?thesis by (auto simp: user_bytes_def)
  qed
  with k show "m' x = hmem s x" by (simp add: keeps_def)
qed

lemma heap_area_live:
  "heap_area (lo, bl) w v m \<longleftrightarrow> w = 0 \<and> unat v + m \<le> lo \<or>
     (\<exists>b \<in> set (live bl). buser b = Some w \<and> unat w \<le> unat v \<and> unat v + m \<le> bend b)"
  by (auto simp: heap_area_def live_def)

lemma live_area: "live bl' = live bl \<Longrightarrow> heap_area (lo, bl') = heap_area (lo, bl)"
  by (simp add: heap_area_live fun_eq_iff)

lemma alloc_area:
  "live bl' = xs @ c # ys \<Longrightarrow> live bl = xs @ ys \<Longrightarrow> heap_area (lo, bl) w v m \<Longrightarrow> heap_area (lo, bl') w v m"
  by (auto simp: heap_area_live)

text \<open>The block of a new allocation has a user pointer of its own.\<close>

lemma new_user_fresh:
  assumes ok: "heap_ok s bl'" and c: "c \<in> set bl'" "buser c = Some u" "unat u + n \<le> bend c" "0 < n"
    and l: "live bl' = xs @ c # ys" and b: "b \<in> set xs \<union> set ys"
  shows "buser b \<noteq> Some u"
proof
  assume u: "buser b = Some u"
  have bl': "b \<in> set bl'" using b l mem_live [of b bl'] by auto
  have "laid (unat (g_heapBase s)) (unat (g_heapEnd s)) bl'" using ok by (simp add: heap_ok_def heap_rep_def)
  then have "unat u \<le> bend b" using laid_mem bl' u by (fastforce simp: slot_ok_def)
  moreover have "unat (baddr c) + 28 \<le> unat u" "unat (baddr b) + 28 \<le> unat u"
    using user_inside [OF ok] c(1,2) bl' u by blast+
  ultimately show False using live_disjoint [OF ok l b] c(3,4) by linarith
qed

lemma operator_new_keeps:
  assumes "heap_inv s bl" "0 < unat n" "unat n \<le> 4294967259" "operator_new n s = Some (s', u)"
  shows "keeps (unat (g_heapBase s)) bl (hmem s) (hmem s')"
  by (rule Heap_Alloc_keeps [where align = 8 and A = 8 and k = 3 and sz = n and u = u])
    (use assms in \<open>simp_all add: heap_inv_def operator_new_def normalize_align_8\<close>)

lemma heap_pool_alloc:
  assumes i: "pool_inv s g" and n: "0 < unat n" "unat n \<le> 4294967259"
  shows "\<exists>s' u g'. operator_new n s = Some (s', u) \<and> pool_inv s' g' \<and>
    (\<forall>w v m. heap_area g w v m \<longrightarrow> heap_area g' w v m \<and> bytes_at (hmem s') v m = bytes_at (hmem s) v m) \<and>
    (u \<noteq> 0 \<longrightarrow> heap_area g' u u (unat n) \<and> (\<forall>w v m. heap_area g w v m \<longrightarrow> w \<noteq> u))"
proof -
  obtain lo bl where g: "g = (lo, bl)" by (cases g)
  have hi: "heap_inv s bl" and lo: "lo = unat (g_heapBase s)" using i by (simp_all add: g pool_inv_def)
  then have ok: "heap_ok s bl" "g_heapLock s = 0" by (simp_all add: heap_inv_def)
  obtain s' u where al: "operator_new n s = Some (s', u)" "g_heapLock s' = 0"
    "if u = 0 then (\<exists>bl'. heap_ok s' bl' \<and> live bl' = live bl) \<and> heap_frames s' = {}
     else \<exists>bl' c xs ys. heap_ok s' bl' \<and> 2 ^ 3 dvd unat u \<and> c \<in> set bl' \<and> buser c = Some u \<and>
       unat u + unat n \<le> bend c \<and> live bl' = xs @ c # ys \<and> live bl = xs @ ys"
    using operator_new_spec [OF ok n] by blast
  have base: "g_heapBase s' = g_heapBase s" using al(1) Heap_Alloc_base by (simp add: operator_new_def)
  have keep: "bytes_at (hmem s') v m = bytes_at (hmem s) v m" if "heap_area g w v m" for w v m
    by (rule keeps_area [OF i that]) (use operator_new_keeps [OF hi n al(1)] g lo in simp)
  show ?thesis
  proof (cases "u = 0")
    case True
    then obtain bl' where bl': "heap_ok s' bl'" "live bl' = live bl" using al(3) by auto
    then show ?thesis using True al(1,2) keep base live_area [OF bl'(2)]
      by (intro exI [of _ s'] exI [of _ u] exI [of _ "(lo, bl')"]) (simp add: g lo pool_inv_def heap_inv_def)
  next
    case False
    then obtain bl' c xs ys where c: "heap_ok s' bl'" "c \<in> set bl'" "buser c = Some u"
       "unat u + unat n \<le> bend c" "live bl' = xs @ c # ys" "live bl = xs @ ys" using al(3) by auto
    have "w \<noteq> u" if a: "heap_area g w v m" for w v m
    proof
      assume "w = u"
      with a False obtain b where b: "b \<in> set (live bl)" "buser b = Some u" by (auto simp: heap_area_live g)
      with new_user_fresh [OF c(1-4) n(1) c(5), of b] c(6) show False by simp
    qed
    moreover have "heap_area (lo, bl') u u (unat n)" using c(2-4) by (auto simp: heap_area_def)
    ultimately show ?thesis using al(1,2) keep base c(1) alloc_area [OF c(5,6)]
      by (intro exI [of _ s'] exI [of _ u] exI [of _ "(lo, bl')"]) (simp add: g lo pool_inv_def heap_inv_def)
  qed
qed

lemma heap_pool_free:
  assumes i: "pool_inv s g" and u: "heap_area g u u k" "u \<noteq> 0"
  shows "\<exists>s' g'. Heap_Free u s = Some s' \<and> pool_inv s' g' \<and>
    (\<forall>w v m. heap_area g w v m \<longrightarrow> w \<noteq> u \<longrightarrow> heap_area g' w v m \<and> bytes_at (hmem s') v m = bytes_at (hmem s) v m)"
proof -
  obtain lo bl where g: "g = (lo, bl)" by (cases g)
  obtain b where "b \<in> set bl" and b: "buser b = Some u" using u by (auto simp: heap_area_def g)
  then obtain xs ys where bl: "bl = xs @ b # ys" by (meson split_list)
  have ok: "heap_ok s (xs @ b # ys)" "g_heapLock s = 0" and lo: "lo = unat (g_heapBase s)"
    using i by (simp_all add: g bl pool_inv_def heap_inv_def)
  obtain s' bl' where s': "Heap_Free u s = Some s'" "g_heapLock s' = 0" "heap_ok s' bl'" "live bl' = live xs @ live ys"
    using Heap_Free_spec [OF ok b] by blast
  have fr: "heap_area (lo, xs @ ys) w v m" if "heap_area g w v m" "w \<noteq> u" for w v m
    using that b by (auto simp: heap_area_live g bl)
  have "bytes_at (hmem s') v m = bytes_at (hmem s) v m" if a: "heap_area g w v m" "w \<noteq> u" for w v m
  proof (rule bytes_at_cong [OF heap_area_bound [OF i a(1)]])
    fix x :: u32 assume x: "unat v \<le> unat x" "unat x < unat v + m"
    have "x \<in> user_bytes lo (xs @ ys)"
    proof (cases "unat v + m \<le> lo")
      case False
      with fr [OF a] obtain c where c: "c \<in> set (live (xs @ ys))" "buser c = Some w" "unat w \<le> unat v" "unat v + m \<le> bend c"
        by (auto simp: heap_area_live)
      then have "unat (the (buser c)) \<le> unat x" "unat x < bend c" using x by simp_all
      with c(1) show ?thesis unfolding user_bytes_def by blast
    qed (use x in \<open>simp add: user_bytes_def\<close>)
    then show "hmem s' x = hmem s x" using Heap_Free_keeps [OF ok b s'(1)] by (simp add: keeps_def lo)
  qed
  moreover have "heap_area (lo, bl') w v m" if "heap_area g w v m" "w \<noteq> u" for w v m
    using fr [OF that] live_area [of bl' "xs @ ys" lo] s'(4) by simp
  ultimately show ?thesis using s'(1-3) Heap_Free_base [OF s'(1)]
    by (intro exI [of _ s'] exI [of _ "(lo, bl')"]) (simp add: lo pool_inv_def heap_inv_def)
qed

text \<open>Memory below the heap holds none of its headers.\<close>

lemma heap_inv_low_write:
  assumes "heap_inv s bl" "unat x < unat (g_heapBase s)"
  shows "heap_inv (heap_poke x v s) bl"
proof -
  have rep: "heap_rep s bl" using assms(1) by (simp add: heap_inv_def heap_ok_def)
  have "agree (hmem s) ((hmem s)(x := v)) (unat (g_heapBase s)) (unat (g_heapEnd s))"
    using assms(2) by (auto simp: agree_def)
  from links_agree_range [OF this heap_rep_laid(1) [OF rep] heap_rep_laid(2) [OF rep]]
  have "heap_rep (s\<lparr>hmem := (hmem s)(x := v)\<rparr>) bl" using rep by (simp add: heap_rep_def)
  then show ?thesis using assms(1) by (simp add: heap_inv_def heap_ok_def heap_poke_def)
qed

lemma heap_pool_poke:
  assumes i: "pool_inv s g" and a: "heap_area g w v m" and x: "unat v \<le> unat x" "unat x < unat v + m"
  shows "pool_inv (heap_poke x b s) g"
proof (cases "w = 0")
  case True
  with area_block [OF i a] x have "unat x < fst g" by auto
  with heap_inv_low_write [of s "snd g" x b] i show ?thesis by (simp add: pool_inv_def heap_poke_def)
next
  case False
  with area_block [OF i a] obtain c where c: "c \<in> set (snd g)" "buser c = Some w" "unat w \<le> unat v" "unat v + m \<le> bend c"
    by blast
  with x have "unat w \<le> unat x" "unat x < bend c" by simp_all
  with heap_ok_user_write [OF _ c(1,2), of s x b] i show ?thesis by (simp add: pool_inv_def heap_inv_def heap_poke_def)
qed

interpretation kpool: memory_pool operator_new Heap_Free hmem heap_poke heap_area pool_inv 4294967259
proof (unfold_locales, goal_cases)
  case (1 s g n)
  then show ?case by (rule heap_pool_alloc)
next
  case (2 s g u k)
  then show ?case by (rule heap_pool_free)
next
  case (3 s g w v m x b)
  then show ?case by (rule heap_pool_poke)
next
  case (4 x b s y)
  then show ?case by (simp add: heap_poke_def)
next
  case (5 s g w v m w' v' m')
  then show ?case by (blast intro: heap_area_disjoint)
next
  case (6 s g w v m)
  then show ?case by (rule heap_area_bound)
qed

text \<open>A copy that does not overlap its source fills the destination with the source bytes.\<close>

lemma memcpy_fill:
  assumes i: "pool_inv h g" and d: "heap_area g w d n" and s: "heap_area g w' s n" "w' \<noteq> w" and n: "n = unat k"
  shows "h\<lparr>hmem := memcpy (hmem h) d s k\<rparr> = fill heap_poke d (bytes_at (hmem h) s n) h"
proof -
  let ?f = "fill heap_poke d (bytes_at (hmem h) s n) h"
  have fh: "fill heap_poke d bs h = h\<lparr>hmem := hmem (fill heap_poke d bs h)\<rparr>" for d bs h
  proof (induction bs arbitrary: d h)
    case (Cons b bs)
    show ?case using Cons.IH [of "d + 1" "heap_poke d b h"] by (simp add: heap_poke_def)
  qed simp
  note bd = heap_area_bound [OF i d] and bs = heap_area_bound [OF i s(1)]
  have dis: "unat d \<le> unat s \<or> unat s + unat k \<le> unat d"
    using heap_area_disjoint [OF i d s(1)] s(2) n by (auto simp: disjoint_bytes_def)
  note cp = copy_fwd_spec [OF bd [unfolded n] bs [unfolded n] dis, of "hmem h"]
  note fs = kpool.fill_spec [OF i d, of d "bytes_at (hmem h) s n"]
  have "hmem ?f x = memcpy (hmem h) d s k x" for x
  proof (cases "unat d \<le> unat x \<and> unat x < unat d + n")
    case True
    let ?i = "unat x - unat d"
    have xd: "of_nat ?i = x - d" "d + (x - d) = x" using True by (simp_all add: of_nat_diff)
    have "bytes_at (hmem ?f) d n = bytes_at (hmem h) s n" using fs(2) by simp
    moreover have "?i < n" using True by linarith
    ultimately have "hmem ?f (d + of_nat ?i) = hmem h (s + of_nat ?i)" by (metis nth_bytes_at)
    then have "hmem ?f x = hmem h (s + (x - d))" by (simp only: xd)
    then show ?thesis using True cp [of x] n by (simp add: memcpy_def)
  next
    case False
    then have "hmem ?f x = hmem h x" using fs(3) [of x] by auto
    then show ?thesis using False cp [of x] n by (auto simp: memcpy_def)
  qed
  then show ?thesis using fh [of d "bytes_at (hmem h) s n" h] by (metis ext)
qed

lemma kpool_holds_keep:
  assumes "kpool.holds h g xs" "\<And>u bs. (u, bs) \<in> set xs \<Longrightarrow> heap_area g u u (length bs) \<Longrightarrow>
    heap_area g' u u (length bs) \<and> bytes_at (hmem h') u (length bs) = bytes_at (hmem h) u (length bs)"
  shows "kpool.holds h' g' xs"
proof -
  have "u \<noteq> 0 \<and> heap_area g' u u (length bs) \<and> bytes_at (hmem h') u (length bs) = bs" if "(u, bs) \<in> set xs" for u bs
    using kpool.holdsD [OF assms(1) that] assms(2) [OF that] by simp
  then show ?thesis using assms(1) unfolding kpool.holds_def by blast
qed

text \<open>Every area is still there, with its bytes.\<close>

abbreviation (input) areas_kept :: "heap \<Rightarrow> nat \<times> blk list \<Rightarrow> heap \<Rightarrow> nat \<times> blk list \<Rightarrow> bool" where
  "areas_kept h g h' g' \<equiv>
     (\<forall>w v m. heap_area g w v m \<longrightarrow> heap_area g' w v m \<and> bytes_at (hmem h') v m = bytes_at (hmem h) v m)"

section \<open>Copies of client data\<close>

text \<open>\<^verbatim>\<open>data = Heap::Alloc(size); if (data) memcpy(data, src, size);\<close> as the message constructors have it.\<close>

definition copy_in :: "u32 \<Rightarrow> u32 \<Rightarrow> heap \<Rightarrow> (heap \<times> u32) option" where
  "copy_in sz src h =
     do { (h1, d) \<leftarrow> Heap_Alloc sz 8 h; Some (if d \<noteq> 0 then h1\<lparr>hmem := memcpy (hmem h1) d src sz\<rparr> else h1, d) }"

lemma copy_in_spec:
  assumes i: "pool_inv h g" and hold: "kpool.holds h g xs" and src: "heap_area g sw src (unat sz)"
    and sz: "0 < unat sz" "unat sz \<le> 4294967259"
  shows "\<exists>h' d g'. copy_in sz src h = Some (h', d) \<and> pool_inv h' g' \<and>
    (\<forall>w v m. heap_area g w v m \<longrightarrow> heap_area g' w v m \<and> bytes_at (hmem h') v m = bytes_at (hmem h) v m) \<and>
    (if d = 0 then kpool.holds h' g' xs
     else kpool.holds h' g' (xs @ [(d, bytes_at (hmem h) src (unat sz))]) \<and> (\<forall>w v m. heap_area g w v m \<longrightarrow> w \<noteq> d))"
proof -
  let ?bs = "bytes_at (hmem h) src (unat sz)"
  obtain h1 d g' where al: "operator_new sz h = Some (h1, d)" "pool_inv h1 g'" "kpool.holds h1 g' xs"
    "\<forall>w v m. heap_area g w v m \<longrightarrow> heap_area g' w v m \<and> bytes_at (hmem h1) v m = bytes_at (hmem h) v m"
    "d \<noteq> 0 \<longrightarrow> heap_area g' d d (unat sz) \<and> (\<forall>w v m. heap_area g w v m \<longrightarrow> w \<noteq> d) \<and>
      pool_inv (fill heap_poke d ?bs h1) g' \<and> kpool.holds (fill heap_poke d ?bs h1) g' (xs @ [(d, ?bs)]) \<and>
      (\<forall>w v m. heap_area g w v m \<longrightarrow> bytes_at (hmem (fill heap_poke d ?bs h1)) v m = bytes_at (hmem h) v m)"
    using kpool.holds_push [OF i hold _ sz, of ?bs] by auto
  show ?thesis
  proof (cases "d = 0")
    case True
    with al show ?thesis
      by (intro exI [of _ h1] exI [of _ "0 :: u32"] exI [of _ g']) (simp add: copy_in_def operator_new_def)
  next
    case False
    have "sw \<noteq> d" "heap_area g' sw src (unat sz)" "bytes_at (hmem h1) src (unat sz) = ?bs" using al(4,5) src False by blast+
    then have "h1\<lparr>hmem := memcpy (hmem h1) d src sz\<rparr> = fill heap_poke d ?bs h1"
      using memcpy_fill [OF al(2) _ _ _ refl, of d d sz sw src] al(5) False by simp
    then have "copy_in sz src h = Some (fill heap_poke d ?bs h1, d)"
      using al(1) False by (simp add: copy_in_def operator_new_def)
    with al(4,5) False show ?thesis
      by (intro exI [of _ "fill heap_poke d ?bs h1"] exI [of _ d] exI [of _ g']) simp
  qed
qed

text \<open>A copy from a held buffer to a buffer of the caller.\<close>

lemma copy_out_spec:
  assumes i: "pool_inv h g" and hold: "kpool.holds h g xs" and d: "(d, bs) \<in> set xs"
    and buf: "heap_area g bw buf (unat k)" "bw \<notin> fst ` set xs" and k: "unat k \<le> length bs"
  defines "h' \<equiv> h\<lparr>hmem := memcpy (hmem h) buf d k\<rparr>"
  shows "pool_inv h' g" "kpool.holds h' g xs" "bytes_at (hmem h') buf (unat k) = take (unat k) bs"
    "\<And>w v m. heap_area g w v m \<Longrightarrow> w \<noteq> bw \<Longrightarrow> bytes_at (hmem h') v m = bytes_at (hmem h) v m"
proof -
  have dd: "d \<noteq> 0" "heap_area g d d (length bs)" "bytes_at (hmem h) d (length bs) = bs"
    using kpool.holdsD [OF hold d] by auto
  have ne: "d \<noteq> bw" using d buf(2) by force
  have da: "heap_area g d d (unat k)" using dd(2) k by (auto simp: heap_area_def)
  have f: "h' = fill heap_poke buf (bytes_at (hmem h) d (unat k)) h"
    unfolding h'_def by (rule memcpy_fill [OF i buf(1) da ne refl])
  have tk: "bytes_at (hmem h) d (unat k) = take (unat k) bs" using dd(3) take_bytes_at [OF k, of "hmem h" d] by simp
  note fs = kpool.fill_spec [OF i buf(1), of buf "bytes_at (hmem h) d (unat k)", folded f]
  show "pool_inv h' g" "bytes_at (hmem h') buf (unat k) = take (unat k) bs"
    using fs(1) fs(2) [simplified] by (simp_all add: tk [symmetric] del: length_take)
  show keep: "bytes_at (hmem h') v m = bytes_at (hmem h) v m" if "heap_area g w v m" "w \<noteq> bw" for w v m
    using kpool.fill_other [OF i buf(1) _ _ that, of buf "bytes_at (hmem h) d (unat k)"] f by simp
  have "bytes_at (hmem h') u (length cs) = cs" if "(u, cs) \<in> set xs" for u cs
  proof -
    have "u \<noteq> bw" using that buf(2) by force
    then show ?thesis using keep [of u u "length cs"] kpool.holdsD [OF hold that] by simp
  qed
  then show "kpool.holds h' g xs" using hold by (auto simp: kpool.holds_def)
qed

section \<open>Singly linked queues\<close>

text \<open>The objects that a null-terminated chain of links visits.\<close>

fun chain :: "(u32 \<Rightarrow> u32) \<Rightarrow> u32 \<Rightarrow> u32 list \<Rightarrow> bool" where
  "chain nx p [] \<longleftrightarrow> p = 0"
| "chain nx p (x # xs) \<longleftrightarrow> p = x \<and> x \<noteq> 0 \<and> chain nx (nx x) xs"

lemma chain_cong: "(\<And>x. x \<in> set xs \<Longrightarrow> nx' x = nx x) \<Longrightarrow> chain nx' p xs = chain nx p xs"
  by (induction xs arbitrary: p) simp_all

lemma chain_head: "chain nx p xs \<Longrightarrow> p = (if xs = [] then 0 else hd xs)"
  by (cases xs) simp_all

lemma chain_nonzero: "chain nx p xs \<Longrightarrow> 0 \<notin> set xs"
  by (induction xs arbitrary: p) auto

lemma chain_snoc:
  assumes "chain nx p xs" "distinct xs" "x \<notin> set xs" "x \<noteq> 0" "nx' x = 0" "xs \<noteq> [] \<Longrightarrow> nx' (last xs) = x"
    "\<And>y. y \<in> set (butlast xs) \<Longrightarrow> nx' y = nx y"
  shows "chain nx' (if xs = [] then x else p) (xs @ [x])"
  using assms
proof (induction xs arbitrary: p)
  case (Cons y ys)
  show ?case
  proof (cases "ys = []")
    case False
    then have "y \<noteq> last ys" "nx' y = nx y" using Cons.prems by auto
    moreover have "chain nx' (nx y) (ys @ [x])" using Cons.IH [of "nx y"] Cons.prems False by simp
    ultimately show ?thesis using Cons.prems(1) by simp
  qed (use Cons.prems in simp)
qed simp

text \<open>Taking an object out of the middle: its predecessor, or the head, links to its successor.\<close>

lemma chain_remove:
  assumes "chain nx p (xs @ x # ys)" "distinct (xs @ x # ys)"
    and "\<And>y. y \<in> set (butlast xs) \<union> set ys \<Longrightarrow> nx' y = nx y" "xs \<noteq> [] \<Longrightarrow> nx' (last xs) = nx x"
  shows "chain nx' (if xs = [] then nx x else p) (xs @ ys)"
  using assms
proof (induction xs arbitrary: p)
  case Nil
  then show ?case using chain_cong [of ys nx' nx] by simp
next
  case (Cons y xs)
  show ?case
  proof (cases "xs = []")
    case True
    then show ?thesis using Cons.prems chain_cong [of ys nx' nx] by simp
  next
    case False
    moreover have "chain nx' (nx y) (xs @ ys)" using Cons.IH [of "nx y"] Cons.prems False by simp
    ultimately show ?thesis using Cons.prems by simp
  qed
qed

text \<open>The boot heap with two allocations of 32 bytes, for concrete instances.\<close>

definition demo_pool :: heap where
  "demo_pool = take_block 0x2000040 0x2000060 40 (take_block 0x2000000 0x2000020 40 boot_heap)"

definition demo_blks :: "blk list" where
  "demo_blks = [Blk 0x2000000 40 (Some 0x2000020), Blk 0x2000040 40 (Some 0x2000060), Blk 0x2000080 0x1F68 None]"

lemma demo_pool_inv [simp]: "pool_inv demo_pool (0x2000000, demo_blks)"
proof -
  let ?s = "take_block 0x2000000 0x2000020 40 boot_heap"
  have ok: "heap_ok boot_heap [Blk 0x2000000 0x1FE8 None]" using boot_heap_inv by (simp add: heap_inv_def)
  note 1 = take_block_rep [of boot_heap "[]" "Blk 0x2000000 0x1FE8 None" "[]" "0x2000020" 40]
  have r: "heap_rep ?s ([Blk 0x2000000 40 (Some 0x2000020)] @ Blk 0x2000040 0x1FA8 None # [])"
    "unat (g_heapUsed ?s) = used_sum ([Blk 0x2000000 40 (Some 0x2000020)] @ Blk 0x2000040 0x1FA8 None # [])"
    "hp_paging ?s = hp_paging boot_heap" "g_heapEnd ?s = g_heapEnd boot_heap" "g_heapBase ?s = g_heapBase boot_heap"
    using 1 ok by (simp_all add: heap_ok_def split_blks_def)
  note 2 = take_block_rep [OF r(1) _ _ _ _ r(2), of "0x2000060" 40]
  have "heap_rep demo_pool demo_blks" "unat (g_heapUsed demo_pool) = used_sum demo_blks"
    "hp_paging demo_pool = hp_paging boot_heap" "g_heapEnd demo_pool = g_heapEnd boot_heap"
    "g_heapBase demo_pool = g_heapBase boot_heap" "g_heapLock demo_pool = 0"
    using 2 r(3-5) by (simp_all add: split_blks_def demo_pool_def demo_blks_def)
  with ok show ?thesis
    by (simp add: pool_inv_def heap_inv_def heap_ok_def demo_blks_def coalesced_def boot_heap_def)
qed

section \<open>Properties\<close>

text \<open>
  C16. Buffers are stable: when some objects are allocated and all of them are released again, in
  any number and of any sizes, both runs return and leave the heap intact, and a buffer that
  lies in another live allocation or below the heap holds the same bytes after each of them.
\<close>

theorem heap_contents_preserved:
  assumes "pool_inv s g" and "\<forall>n \<in> set ns. 0 < unat n \<and> unat n \<le> 4294967259" and "heap_area g w v m"
  shows "\<exists>s1 us s2 g2. alloc_list operator_new ns s = Some (s1, us) \<and>
    free_list Heap_Free (filter (\<lambda>u. u \<noteq> 0) us) s1 = Some s2 \<and> pool_inv s2 g2 \<and> heap_area g2 w v m \<and>
    bytes_at (hmem s1) v m = bytes_at (hmem s) v m \<and> bytes_at (hmem s2) v m = bytes_at (hmem s) v m"
  by (rule kpool.alloc_free_keeps [OF assms])

lemma boot_pool_inv: "pool_inv boot_heap_used (0x2000000, [Blk 0x2000000 0x1FE8 (Some 0x2000020)])"
  using boot_heap_used_inv by (simp add: pool_inv_def boot_heap_used_def boot_heap_def)

theorem heap_contents_preserved_witness:
  "\<exists>s1 us s2. alloc_list operator_new [16, 4000, 108] boot_heap_used = Some (s1, us) \<and>
    free_list Heap_Free (filter (\<lambda>u. u \<noteq> 0) us) s1 = Some s2 \<and>
    bytes_at (hmem s2) 0x2000020 64 = bytes_at (hmem boot_heap_used) 0x2000020 64"
  using heap_contents_preserved [OF boot_pool_inv, of "[16, 4000, 108]" "0x2000020" "0x2000020" 64]
  by (auto simp: heap_area_def bend_def)

end
