(* ===== verification/KOS_Pipe.thy ===== *)
theory KOS_Pipe
  imports KOS_Sync KOS_Pool
begin

text \<open>
  Pipes, \<^verbatim>\<open>src/process/pipe.cpp\<close> with \<^verbatim>\<open>include/process/pipe.hpp\<close>: messages, the pipe operations, the
  pipe manager and the \<^verbatim>\<open>PipeAPI\<close> calls. Message and pipe objects are kept by address, as the
  threads are; payloads are bytes of the heap's memory. A failed \<^verbatim>\<open>new\<close> gives the null pointer.
  Operations follow one thread: a blocking call that only another thread can release has no
  result. Log lines are not modelled.
\<close>

section \<open>Data\<close>

record PipeMessage =
  pm_sender_id :: u32
  pm_data_size :: u32
  pm_data :: u32
  pm_next :: u32

record Pipe =
  pipe_id :: u32
  pipe_name :: string
  buffer_size :: u32
  current_size :: u32
  max_messages :: u32
  message_count :: u32
  message_queue :: u32
  queue_tail :: u32
  pipe_mutex :: Mutex
  read_cv :: ConditionVariable
  write_cv :: ConditionVariable
  readers :: "u32 list"
  writers :: "u32 list"
  reader_count :: u32
  writer_count :: u32
  is_closed :: bool
  blocking_mode :: bool

record PipeManager =
  pipes :: "u32 list"
  pipe_count :: u32
  next_pipe_id :: u32
  manager_mutex :: Mutex

text \<open>
  The rest of the kernel that the pipes touch: whether \<^verbatim>\<open>g_scheduler\<close> is set, the scheduler with its
  threads and the heap, and the message and pipe objects by address.
\<close>

record ipc =
  g_scheduler :: bool
  sched :: Scheduler
  pmsgs :: "u32 \<Rightarrow> PipeMessage"
  pobjs :: "u32 \<Rightarrow> Pipe"

abbreviation (input) iheap :: "ipc \<Rightarrow> heap" where "iheap w \<equiv> sched_heap (sched w)"

definition set_heap :: "heap \<Rightarrow> ipc \<Rightarrow> ipc" where
  "set_heap h w = w\<lparr>sched := (sched w)\<lparr>sched_heap := h\<rparr>\<rparr>"

abbreviation (input) sizeof_PipeMessage :: u32 where "sizeof_PipeMessage \<equiv> 16"
abbreviation (input) sizeof_Pipe :: u32 where "sizeof_Pipe \<equiv> 148"
abbreviation (input) sizeof_Mutex :: u32 where "sizeof_Mutex \<equiv> 12"
abbreviation (input) sizeof_ConditionVariable :: u32 where "sizeof_ConditionVariable \<equiv> 4"

section \<open>Messages\<close>

text \<open>The constructor: the fields, and the heap with the payload.\<close>

definition PipeMessage_init :: "u32 \<Rightarrow> u32 \<Rightarrow> u32 \<Rightarrow> heap \<Rightarrow> (PipeMessage \<times> heap) option" where
  "PipeMessage_init sender sz msg_data h =
     (let msg = \<lparr>pm_sender_id = sender, pm_data_size = sz, pm_data = 0, pm_next = 0\<rparr>
      in if 0 < sz \<and> msg_data \<noteq> 0
         then do {
           (h1, d) \<leftarrow> copy_in sz msg_data h;
           Some (if d \<noteq> 0 then msg\<lparr>pm_data := d\<rparr> else msg\<lparr>pm_data_size := 0\<rparr>, h1)
         }
         else Some (msg, h))"

definition new_PipeMessage :: "u32 \<Rightarrow> u32 \<Rightarrow> u32 \<Rightarrow> ipc \<Rightarrow> (ipc \<times> u32) option" where
  "new_PipeMessage sender sz msg_data w =
     do {
       (h1, p) \<leftarrow> operator_new sizeof_PipeMessage (iheap w);
       if p = 0 then Some (set_heap h1 w, 0)
       else do {
         (msg, h2) \<leftarrow> PipeMessage_init sender sz msg_data h1;
         Some ((set_heap h2 w)\<lparr>pmsgs := (pmsgs w)(p := msg)\<rparr>, p)
       }
     }"

definition delete_PipeMessage :: "u32 \<Rightarrow> ipc \<Rightarrow> ipc option" where
  "delete_PipeMessage p w =
     (if p = 0 then Some w
      else if pm_data (pmsgs w p) \<noteq> 0
      then do {
        h1 \<leftarrow> Heap_Free (pm_data (pmsgs w p)) (iheap w);
        Some ((set_heap (operator_delete p h1) w)\<lparr>pmsgs := (pmsgs w)(p := (pmsgs w p)\<lparr>pm_data := 0\<rparr>)\<rparr>)
      }
      else Some (set_heap (operator_delete p (iheap w)) w))"

section \<open>Pipes\<close>

text \<open>
  The name loses what does not fit in 31 characters. The constructor does not check the three
  allocations; if one fails the next operation uses the null pointer, and here it has no result.
\<close>

definition Pipe_init :: "u32 \<Rightarrow> string \<Rightarrow> u32 \<Rightarrow> u32 \<Rightarrow> heap \<Rightarrow> (Pipe \<times> heap) option" where
  "Pipe_init pid nm buffer_sz max_msgs h =
     do {
       (h1, m) \<leftarrow> operator_new sizeof_Mutex h;
       (h2, r) \<leftarrow> operator_new sizeof_ConditionVariable h1;
       (h3, c) \<leftarrow> operator_new sizeof_ConditionVariable h2;
       if m = 0 \<or> r = 0 \<or> c = 0 then None
       else Some (\<lparr>pipe_id = pid, pipe_name = take 31 nm, buffer_size = buffer_sz, current_size = 0,
           max_messages = max_msgs, message_count = 0, message_queue = 0, queue_tail = 0,
           pipe_mutex = Mutex_new, read_cv = ConditionVariable_new, write_cv = ConditionVariable_new,
           readers = replicate 8 0, writers = replicate 8 0, reader_count = 0, writer_count = 0,
           is_closed = False, blocking_mode = True\<rparr>, h3)
     }"

definition GetAvailableSpace :: "Pipe \<Rightarrow> u32" where "GetAvailableSpace P = buffer_size P - current_size P"
definition Pipe_IsEmpty :: "Pipe \<Rightarrow> bool" where "Pipe_IsEmpty P = (message_count P = 0)"
definition Pipe_IsFull :: "Pipe \<Rightarrow> bool" where
  "Pipe_IsFull P = (buffer_size P \<le> current_size P \<or> max_messages P \<le> message_count P)"
definition Pipe_SetBlockingMode :: "bool \<Rightarrow> Pipe \<Rightarrow> Pipe" where "Pipe_SetBlockingMode b P = P\<lparr>blocking_mode := b\<rparr>"

text \<open>The index of the registered thread with this id, as in the loops over \<^verbatim>\<open>readers\<close> and \<^verbatim>\<open>writers\<close>.\<close>

definition find_thread :: "tstore \<Rightarrow> u32 list \<Rightarrow> u32 \<Rightarrow> u32 \<Rightarrow> nat option" where
  "find_thread ts xs n tid = find (\<lambda>i. xs ! i \<noteq> 0 \<and> task_id (ts (xs ! i)) = tid) [0..<unat n]"

definition Pipe_CanRead :: "u32 \<Rightarrow> Pipe \<Rightarrow> ipc \<Rightarrow> bool" where
  "Pipe_CanRead tid P w = (reader_count P = 0 \<or> find_thread (threads (sched w)) (readers P) (reader_count P) tid \<noteq> None)"

definition Pipe_CanWrite :: "u32 \<Rightarrow> Pipe \<Rightarrow> ipc \<Rightarrow> bool" where
  "Pipe_CanWrite tid P w = (writer_count P = 0 \<or> find_thread (threads (sched w)) (writers P) (writer_count P) tid \<noteq> None)"

subsection \<open>Locking\<close>

definition pipe_lock :: "Pipe \<times> ipc \<Rightarrow> (Pipe \<times> ipc) option" where
  "pipe_lock = (\<lambda>(P, w). do { (m, s) \<leftarrow> LockGuard_new (g_scheduler w) (pipe_mutex P, sched w);
     Some (P\<lparr>pipe_mutex := m\<rparr>, w\<lparr>sched := s\<rparr>) })"

definition pipe_unlock :: "Pipe \<times> ipc \<Rightarrow> (Pipe \<times> ipc) option" where
  "pipe_unlock = (\<lambda>(P, w). do { (m, s) \<leftarrow> LockGuard_delete (g_scheduler w) (pipe_mutex P, sched w);
     Some (P\<lparr>pipe_mutex := m\<rparr>, w\<lparr>sched := s\<rparr>) })"

text \<open>A method body in the scope of its lock guard.\<close>

definition guarded :: "(Pipe \<times> ipc \<Rightarrow> ((Pipe \<times> ipc) \<times> 'r) option) \<Rightarrow> Pipe \<times> ipc \<Rightarrow> ((Pipe \<times> ipc) \<times> 'r) option" where
  "guarded body pw = do { pw1 \<leftarrow> pipe_lock pw; (pw2, r) \<leftarrow> body pw1; pw3 \<leftarrow> pipe_unlock pw2; Some (pw3, r) }"

text \<open>\<^verbatim>\<open>cv->Wait(*pipe_mutex)\<close>; the condition variables themselves do not change in a wait.\<close>

definition pipe_wait :: "Pipe \<times> ipc \<Rightarrow> (Pipe \<times> ipc) option" where
  "pipe_wait = (\<lambda>(P, w). do { (m, s) \<leftarrow> ConditionVariable_Wait (g_scheduler w) (pipe_mutex P, sched w);
     Some (P\<lparr>pipe_mutex := m\<rparr>, w\<lparr>sched := s\<rparr>) })"

definition signal_read :: "Pipe \<times> ipc \<Rightarrow> (Pipe \<times> ipc) option" where
  "signal_read = (\<lambda>(P, w). do { (c, s) \<leftarrow> ConditionVariable_Signal (g_scheduler w) (read_cv P, sched w);
     Some (P\<lparr>read_cv := c\<rparr>, w\<lparr>sched := s\<rparr>) })"

definition signal_write :: "Pipe \<times> ipc \<Rightarrow> (Pipe \<times> ipc) option" where
  "signal_write = (\<lambda>(P, w). do { (c, s) \<leftarrow> ConditionVariable_Signal (g_scheduler w) (write_cv P, sched w);
     Some (P\<lparr>write_cv := c\<rparr>, w\<lparr>sched := s\<rparr>) })"

definition broadcast_read :: "Pipe \<times> ipc \<Rightarrow> (Pipe \<times> ipc) option" where
  "broadcast_read = (\<lambda>(P, w). do { (c, s) \<leftarrow> ConditionVariable_Broadcast (g_scheduler w) (read_cv P, sched w);
     Some (P\<lparr>read_cv := c\<rparr>, w\<lparr>sched := s\<rparr>) })"

definition broadcast_write :: "Pipe \<times> ipc \<Rightarrow> (Pipe \<times> ipc) option" where
  "broadcast_write = (\<lambda>(P, w). do { (c, s) \<leftarrow> ConditionVariable_Broadcast (g_scheduler w) (write_cv P, sched w);
     Some (P\<lparr>write_cv := c\<rparr>, w\<lparr>sched := s\<rparr>) })"

subsection \<open>Writing\<close>

text \<open>
  The waiting loops of \<^verbatim>\<open>Write\<close> (while the pipe is full) and \<^verbatim>\<open>Read\<close> (while it is empty): \<open>False\<close> when
  the operation gives up.
\<close>

partial_function (option) wait_while :: "(Pipe \<Rightarrow> bool) \<Rightarrow> bool \<Rightarrow> Pipe \<times> ipc \<Rightarrow> ((Pipe \<times> ipc) \<times> bool) option" where
  "wait_while cond block pw =
     (if cond (fst pw)
      then if \<not> block \<or> is_closed (fst pw) then Some (pw, False)
           else do { pw1 \<leftarrow> pipe_wait pw; wait_while cond block pw1 }
      else Some (pw, True))"

text \<open>Link a message behind the last one.\<close>

definition enqueue :: "u32 \<Rightarrow> Pipe \<times> ipc \<Rightarrow> Pipe \<times> ipc" where
  "enqueue msg = (\<lambda>(P, w).
     if message_queue P = 0 then (P\<lparr>message_queue := msg, queue_tail := msg\<rparr>, w)
     else (P\<lparr>queue_tail := msg\<rparr>,
           w\<lparr>pmsgs := (pmsgs w)(queue_tail P := (pmsgs w (queue_tail P))\<lparr>pm_next := msg\<rparr>)\<rparr>))"

definition write_message :: "u32 \<Rightarrow> u32 \<Rightarrow> u32 \<Rightarrow> Pipe \<times> ipc \<Rightarrow> ((Pipe \<times> ipc) \<times> bool) option" where
  "write_message sender data sz = (\<lambda>(P, w).
     do {
       (w1, msg) \<leftarrow> new_PipeMessage sender sz data w;
       if msg = 0 \<or> pm_data (pmsgs w1 msg) = 0
       then do { w2 \<leftarrow> delete_PipeMessage msg w1; Some ((P, w2), False) }
       else do {
         let (P2, w2) = enqueue msg (P, w1);
         pw3 \<leftarrow> signal_read (P2\<lparr>message_count := message_count P2 + 1, current_size := current_size P2 + sz\<rparr>, w2);
         Some (pw3, True)
       }
     })"

definition Pipe_Write :: "u32 \<Rightarrow> u32 \<Rightarrow> u32 \<Rightarrow> bool \<Rightarrow> Pipe \<times> ipc \<Rightarrow> ((Pipe \<times> ipc) \<times> bool) option" where
  "Pipe_Write sender data sz block = (\<lambda>(P, w).
     if data = 0 \<or> sz = 0 \<or> is_closed P then Some ((P, w), False)
     else if \<not> Pipe_CanWrite sender P w then Some ((P, w), False)
     else guarded (\<lambda>pw. do {
       (pw1, ok) \<leftarrow> wait_while Pipe_IsFull block pw;
       if ok then write_message sender data sz pw1 else Some (pw1, False)
     }) (P, w))"

subsection \<open>Reading\<close>

text \<open>What a read stores through \<^verbatim>\<open>bytes_read\<close> and \<^verbatim>\<open>sender_id\<close>, if it stores anything.\<close>

type_synonym read_result = "bool \<times> u32 option \<times> u32 option"

definition copy_out :: "PipeMessage \<Rightarrow> u32 \<Rightarrow> u32 \<Rightarrow> ipc \<Rightarrow> ipc \<times> u32" where
  "copy_out msg buffer buf_sz w =
     (let copy_size = (if pm_data_size msg < buf_sz then pm_data_size msg else buf_sz);
          h = iheap w
      in (set_heap (h\<lparr>hmem := memcpy (hmem h) buffer (pm_data msg) copy_size\<rparr>) w, copy_size))"

definition read_message :: "u32 \<Rightarrow> u32 \<Rightarrow> Pipe \<times> ipc \<Rightarrow> ((Pipe \<times> ipc) \<times> read_result) option" where
  "read_message buffer buf_sz = (\<lambda>(P, w).
     let p = message_queue P; msg = pmsgs w p
     in if p = 0 then Some ((P, w), False, Some 0, None)
        else do {
          let (w1, copy_size) = copy_out msg buffer buf_sz w;
          let P1 = P\<lparr>message_queue := pm_next msg,
                     queue_tail := (if pm_next msg = 0 then 0 else queue_tail P),
                     message_count := message_count P - 1,
                     current_size := current_size P - pm_data_size msg\<rparr>;
          w2 \<leftarrow> delete_PipeMessage p w1;
          pw3 \<leftarrow> signal_write (P1, w2);
          Some (pw3, True, Some copy_size, Some (pm_sender_id msg))
        })"

definition Pipe_Read :: "u32 \<Rightarrow> u32 \<Rightarrow> u32 \<Rightarrow> bool \<Rightarrow> Pipe \<times> ipc \<Rightarrow> ((Pipe \<times> ipc) \<times> read_result) option" where
  "Pipe_Read reader buffer buf_sz block = (\<lambda>(P, w).
     if buffer = 0 \<or> buf_sz = 0 \<or> is_closed P then Some ((P, w), False, None, None)
     else if \<not> Pipe_CanRead reader P w then Some ((P, w), False, None, None)
     else guarded (\<lambda>pw. do {
       (pw1, ok) \<leftarrow> wait_while Pipe_IsEmpty block pw;
       if ok then read_message buffer buf_sz pw1 else Some (pw1, False, Some 0, None)
     }) (P, w))"

definition Pipe_Peek :: "u32 \<Rightarrow> u32 \<Rightarrow> Pipe \<times> ipc \<Rightarrow> ((Pipe \<times> ipc) \<times> read_result) option" where
  "Pipe_Peek buffer buf_sz = (\<lambda>(P, w).
     if buffer = 0 \<or> buf_sz = 0 \<or> is_closed P then Some ((P, w), False, None, None)
     else guarded (\<lambda>(P, w).
       if Pipe_IsEmpty P \<or> message_queue P = 0 then Some ((P, w), False, Some 0, None)
       else let msg = pmsgs w (message_queue P); (w1, copy_size) = copy_out msg buffer buf_sz w
            in Some ((P, w1), True, Some copy_size, Some (pm_sender_id msg))) (P, w))"


subsection \<open>Permissions\<close>

text \<open>The registration loops work on either list: list, count and result.\<close>

definition add_thread :: "tstore \<Rightarrow> u32 \<Rightarrow> u32 list \<Rightarrow> u32 \<Rightarrow> u32 list \<times> u32" where
  "add_thread ts thread xs n =
     (if find_thread ts xs n (task_id (ts thread)) \<noteq> None then (xs, n) else (xs[unat n := thread], n + 1))"

definition remove_thread :: "tstore \<Rightarrow> u32 \<Rightarrow> u32 list \<Rightarrow> u32 \<Rightarrow> (u32 list \<times> u32) option" where
  "remove_thread ts tid xs n =
     (case find_thread ts xs n tid of None \<Rightarrow> None
      | Some i \<Rightarrow> Some ((fold (\<lambda>j xs. xs[j := xs ! (j + 1)]) [i..<unat (n - 1)] xs)[unat (n - 1) := 0], n - 1))"

definition Pipe_AddReader :: "u32 \<Rightarrow> Pipe \<times> ipc \<Rightarrow> ((Pipe \<times> ipc) \<times> bool) option" where
  "Pipe_AddReader thread = (\<lambda>(P, w).
     if thread = 0 \<or> 8 \<le> reader_count P then Some ((P, w), False)
     else guarded (\<lambda>(P, w).
       let (xs, n) = add_thread (threads (sched w)) thread (readers P) (reader_count P)
       in Some ((P\<lparr>readers := xs, reader_count := n\<rparr>, w), True)) (P, w))"

definition Pipe_AddWriter :: "u32 \<Rightarrow> Pipe \<times> ipc \<Rightarrow> ((Pipe \<times> ipc) \<times> bool) option" where
  "Pipe_AddWriter thread = (\<lambda>(P, w).
     if thread = 0 \<or> 8 \<le> writer_count P then Some ((P, w), False)
     else guarded (\<lambda>(P, w).
       let (xs, n) = add_thread (threads (sched w)) thread (writers P) (writer_count P)
       in Some ((P\<lparr>writers := xs, writer_count := n\<rparr>, w), True)) (P, w))"

definition Pipe_RemoveReader :: "u32 \<Rightarrow> Pipe \<times> ipc \<Rightarrow> ((Pipe \<times> ipc) \<times> bool) option" where
  "Pipe_RemoveReader tid = guarded (\<lambda>(P, w).
     case remove_thread (threads (sched w)) tid (readers P) (reader_count P) of None \<Rightarrow> Some ((P, w), False)
     | Some (xs, n) \<Rightarrow> Some ((P\<lparr>readers := xs, reader_count := n\<rparr>, w), True))"

definition Pipe_RemoveWriter :: "u32 \<Rightarrow> Pipe \<times> ipc \<Rightarrow> ((Pipe \<times> ipc) \<times> bool) option" where
  "Pipe_RemoveWriter tid = guarded (\<lambda>(P, w).
     case remove_thread (threads (sched w)) tid (writers P) (writer_count P) of None \<Rightarrow> Some ((P, w), False)
     | Some (xs, n) \<Rightarrow> Some ((P\<lparr>writers := xs, writer_count := n\<rparr>, w), True))"

subsection \<open>Closing\<close>

definition Pipe_Close :: "Pipe \<times> ipc \<Rightarrow> (Pipe \<times> ipc) option" where
  "Pipe_Close pw = do {
     (pw1, _) \<leftarrow> guarded (\<lambda>(P, w). do {
       pw1 \<leftarrow> broadcast_read (P\<lparr>is_closed := True\<rparr>, w);
       pw2 \<leftarrow> broadcast_write pw1;
       Some (pw2, ())
     }) pw;
     Some pw1
   }"

partial_function (option) flush_loop :: "Pipe \<times> ipc \<Rightarrow> (Pipe \<times> ipc) option" where
  "flush_loop pw =
     (let msg = message_queue (fst pw)
      in if msg = 0 then Some pw
         else do {
           w1 \<leftarrow> delete_PipeMessage msg (snd pw);
           flush_loop ((fst pw)\<lparr>message_queue := pm_next (pmsgs (snd pw) msg)\<rparr>, w1)
         })"

definition Pipe_Flush :: "Pipe \<times> ipc \<Rightarrow> (Pipe \<times> ipc) option" where
  "Pipe_Flush pw = do {
     (pw1, _) \<leftarrow> guarded (\<lambda>pw. do {
       (P, w) \<leftarrow> flush_loop pw;
       pw2 \<leftarrow> broadcast_write (P\<lparr>queue_tail := 0, message_count := 0, current_size := 0\<rparr>, w);
       Some (pw2, ())
     }) pw;
     Some pw1
   }"

text \<open>The destructor; \<^verbatim>\<open>delete\<close> runs the destructors of the three objects and frees nothing.\<close>

definition Pipe_delete :: "Pipe \<times> ipc \<Rightarrow> (Pipe \<times> ipc) option" where
  "Pipe_delete pw = do {
     pw1 \<leftarrow> Pipe_Close pw;
     (P, w) \<leftarrow> Pipe_Flush pw1;
     (m, s1) \<leftarrow> Mutex_delete (g_scheduler w) (pipe_mutex P, sched w);
     (r, s2) \<leftarrow> ConditionVariable_delete (g_scheduler w) (read_cv P, s1);
     (c, s3) \<leftarrow> ConditionVariable_delete (g_scheduler w) (write_cv P, s2);
     Some (P\<lparr>pipe_mutex := m, read_cv := r, write_cv := c\<rparr>, w\<lparr>sched := s3\<rparr>)
   }"

text \<open>\<^verbatim>\<open>TTY::WriteHex\<close> prints the low byte of its argument.\<close>

definition Pipe_PrintInfo :: "Pipe \<Rightarrow> tty_write list" where
  "Pipe_PrintInfo P =
     [TTY_Write ''Pipe ID: '', TTY_WriteHex (ucast (pipe_id P)),
      TTY_Write '' Name: '', TTY_Write (pipe_name P),
      TTY_Write '' Messages: '', TTY_WriteHex (ucast (message_count P)),
      TTY_Write ''/'', TTY_WriteHex (ucast (max_messages P)),
      TTY_Write '' Size: '', TTY_WriteHex (ucast (current_size P)),
      TTY_Write ''/'', TTY_WriteHex (ucast (buffer_size P)),
      TTY_Write '' Readers: '', TTY_WriteHex (ucast (reader_count P)),
      TTY_Write '' Writers: '', TTY_WriteHex (ucast (writer_count P)),
      TTY_Write (if is_closed P then '' [CLOSED]'' else '' [OPEN]''),
      TTY_Write (if blocking_mode P then '' [BLOCKING]'' else '' [NON-BLOCKING]''),
      TTY_Write ''\<newline>'']"

section \<open>The pipe manager\<close>

text \<open>A method of the pipe object at an address.\<close>

definition on_pipe :: "u32 \<Rightarrow> (Pipe \<times> ipc \<Rightarrow> ((Pipe \<times> ipc) \<times> 'r) option) \<Rightarrow> ipc \<Rightarrow> (ipc \<times> 'r) option" where
  "on_pipe p f w = do { ((P, w1), r) \<leftarrow> f (pobjs w p, w); Some (w1\<lparr>pobjs := (pobjs w1)(p := P)\<rparr>, r) }"

definition PipeManager_init :: "heap \<Rightarrow> (PipeManager \<times> heap) option" where
  "PipeManager_init h =
     do {
       (h1, m) \<leftarrow> operator_new sizeof_Mutex h;
       if m = 0 then None
       else Some (\<lparr>pipes = replicate 64 0, pipe_count = 0, next_pipe_id = 1, manager_mutex = Mutex_new\<rparr>, h1)
     }"

definition mgr_guarded ::
  "(PipeManager \<times> ipc \<Rightarrow> ((PipeManager \<times> ipc) \<times> 'r) option) \<Rightarrow> PipeManager \<times> ipc \<Rightarrow> ((PipeManager \<times> ipc) \<times> 'r) option" where
  "mgr_guarded body = (\<lambda>(M, w). do {
     (m, s) \<leftarrow> LockGuard_new (g_scheduler w) (manager_mutex M, sched w);
     ((M1, w1), r) \<leftarrow> body (M\<lparr>manager_mutex := m\<rparr>, w\<lparr>sched := s\<rparr>);
     (m1, s1) \<leftarrow> LockGuard_delete (g_scheduler w1) (manager_mutex M1, sched w1);
     Some ((M1\<lparr>manager_mutex := m1\<rparr>, w1\<lparr>sched := s1\<rparr>), r)
   })"

text \<open>\<^verbatim>\<open>String::strcmp\<close> with a length, on names as lists.\<close>

definition char_at :: "string \<Rightarrow> u8" where
  "char_at s = (case s of [] \<Rightarrow> 0 | c # _ \<Rightarrow> of_char c)"

fun name_cmp :: "string \<Rightarrow> string \<Rightarrow> nat \<Rightarrow> int" where
  "name_cmp a b 0 = 0"
| "name_cmp a b (Suc n) =
     (if char_at a \<noteq> char_at b \<or> char_at a = 0 \<or> char_at b = 0 then uint (char_at a) - uint (char_at b)
      else name_cmp (tl a) (tl b) n)"

definition FindPipeIndex :: "u32 \<Rightarrow> PipeManager \<Rightarrow> ipc \<Rightarrow> nat option" where
  "FindPipeIndex pid M w = find (\<lambda>i. pipes M ! i \<noteq> 0 \<and> pipe_id (pobjs w (pipes M ! i)) = pid) [0..<64]"

definition FindPipeIndex_name :: "string option \<Rightarrow> PipeManager \<Rightarrow> ipc \<Rightarrow> nat option" where
  "FindPipeIndex_name name M w =
     (case name of None \<Rightarrow> None
      | Some nm \<Rightarrow> find (\<lambda>i. pipes M ! i \<noteq> 0 \<and> name_cmp (pipe_name (pobjs w (pipes M ! i))) nm (length nm) = 0) [0..<64])"

definition FindPipe :: "u32 \<Rightarrow> PipeManager \<Rightarrow> ipc \<Rightarrow> u32" where
  "FindPipe pid M w = (case FindPipeIndex pid M w of None \<Rightarrow> 0 | Some i \<Rightarrow> pipes M ! i)"

definition FindPipe_name :: "string option \<Rightarrow> PipeManager \<Rightarrow> ipc \<Rightarrow> u32" where
  "FindPipe_name name M w = (case FindPipeIndex_name name M w of None \<Rightarrow> 0 | Some i \<Rightarrow> pipes M ! i)"

text \<open>The part of \<^verbatim>\<open>CreatePipe\<close> after an empty slot has been found.\<close>

definition fill_slot :: "nat \<Rightarrow> string \<Rightarrow> u32 \<Rightarrow> u32 \<Rightarrow> PipeManager \<times> ipc \<Rightarrow> ((PipeManager \<times> ipc) \<times> u32) option" where
  "fill_slot slot nm buffer_sz max_msgs = (\<lambda>(M, w). do {
     (h1, p) \<leftarrow> operator_new sizeof_Pipe (iheap w);
     let M1 = M\<lparr>next_pipe_id := next_pipe_id M + 1\<rparr>;
     if p = 0 then Some ((M1, set_heap h1 w), 0)
     else do {
       (P, h2) \<leftarrow> Pipe_init (next_pipe_id M) nm buffer_sz max_msgs h1;
       Some ((M1\<lparr>pipes := (pipes M)[slot := p], pipe_count := pipe_count M + 1\<rparr>,
              (set_heap h2 w)\<lparr>pobjs := (pobjs w)(p := P)\<rparr>), p)
     }
   })"

definition CreatePipe :: "string option \<Rightarrow> u32 \<Rightarrow> u32 \<Rightarrow> PipeManager \<times> ipc \<Rightarrow> ((PipeManager \<times> ipc) \<times> u32) option" where
  "CreatePipe name buffer_sz max_msgs = (\<lambda>(M, w).
     case name of None \<Rightarrow> Some ((M, w), 0)
     | Some nm \<Rightarrow>
       if 64 \<le> pipe_count M then Some ((M, w), 0)
       else mgr_guarded (\<lambda>(M, w).
         if FindPipeIndex_name name M w \<noteq> None then Some ((M, w), 0)
         else case find (\<lambda>i. pipes M ! i = 0) [0..<64] of None \<Rightarrow> Some ((M, w), 0)
         | Some slot \<Rightarrow> fill_slot slot nm buffer_sz max_msgs (M, w)) (M, w))"

text \<open>\<^verbatim>\<open>delete pipes[index]; pipes[index] = nullptr;\<close>\<close>

definition delete_slot :: "nat \<Rightarrow> PipeManager \<times> ipc \<Rightarrow> (PipeManager \<times> ipc) option" where
  "delete_slot i = (\<lambda>(M, w). do {
     (w1, _) \<leftarrow> on_pipe (pipes M ! i) (\<lambda>pw. do { pw1 \<leftarrow> Pipe_delete pw; Some (pw1, ()) }) w;
     Some (M\<lparr>pipes := (pipes M)[i := 0]\<rparr>, w1)
   })"

definition destroy_found :: "nat option \<Rightarrow> PipeManager \<times> ipc \<Rightarrow> ((PipeManager \<times> ipc) \<times> bool) option" where
  "destroy_found index = (\<lambda>(M, w).
     case index of None \<Rightarrow> Some ((M, w), False)
     | Some i \<Rightarrow> do { (M1, w1) \<leftarrow> delete_slot i (M, w); Some ((M1\<lparr>pipe_count := pipe_count M1 - 1\<rparr>, w1), True) })"

definition DestroyPipe :: "u32 \<Rightarrow> PipeManager \<times> ipc \<Rightarrow> ((PipeManager \<times> ipc) \<times> bool) option" where
  "DestroyPipe pid = mgr_guarded (\<lambda>(M, w). destroy_found (FindPipeIndex pid M w) (M, w))"

definition DestroyPipe_name :: "string option \<Rightarrow> PipeManager \<times> ipc \<Rightarrow> ((PipeManager \<times> ipc) \<times> bool) option" where
  "DestroyPipe_name name = (\<lambda>(M, w).
     if name = None then Some ((M, w), False)
     else mgr_guarded (\<lambda>(M, w). destroy_found (FindPipeIndex_name name M w) (M, w)) (M, w))"

fun close_slots :: "nat list \<Rightarrow> PipeManager \<times> ipc \<Rightarrow> (PipeManager \<times> ipc) option" where
  "close_slots [] mw = Some mw"
| "close_slots (i # is) mw =
     do { mw1 \<leftarrow> (if pipes (fst mw) ! i \<noteq> 0 then delete_slot i mw else Some mw); close_slots is mw1 }"

definition CloseAllPipes :: "PipeManager \<times> ipc \<Rightarrow> (PipeManager \<times> ipc) option" where
  "CloseAllPipes mw = do {
     (mw1, _) \<leftarrow> mgr_guarded (\<lambda>mw. do {
       (M, w) \<leftarrow> close_slots [0..<64] mw;
       Some ((M\<lparr>pipe_count := 0\<rparr>, w), ())
     }) mw;
     Some mw1
   }"

definition PipeManager_delete :: "PipeManager \<times> ipc \<Rightarrow> (PipeManager \<times> ipc) option" where
  "PipeManager_delete mw = do {
     (M, w) \<leftarrow> CloseAllPipes mw;
     (m, s) \<leftarrow> Mutex_delete (g_scheduler w) (manager_mutex M, sched w);
     Some (M\<lparr>manager_mutex := m\<rparr>, w\<lparr>sched := s\<rparr>)
   }"

definition PrintAllPipes :: "PipeManager \<times> ipc \<Rightarrow> ((PipeManager \<times> ipc) \<times> tty_write list) option" where
  "PrintAllPipes = mgr_guarded (\<lambda>(M, w). Some ((M, w),
     [TTY_Write ''=== Pipe Manager ===\<newline>'', TTY_Write ''Active pipes: '', TTY_WriteHex (ucast (pipe_count M)),
      TTY_Write ''/64\<newline>''] @
     concat (map (\<lambda>i. if pipes M ! i \<noteq> 0 then Pipe_PrintInfo (pobjs w (pipes M ! i)) else []) [0..<64])))"

section \<open>The pipe calls of applications\<close>

text \<open>\<^verbatim>\<open>g_pipe_manager\<close> is null (\<open>None\<close>) until the manager has been created.\<close>

type_synonym pipe_api = "PipeManager option \<times> ipc"

definition with_mgr ::
  "'r \<Rightarrow> (PipeManager \<times> ipc \<Rightarrow> ((PipeManager \<times> ipc) \<times> 'r) option) \<Rightarrow> pipe_api \<Rightarrow> (pipe_api \<times> 'r) option" where
  "with_mgr dflt f = (\<lambda>(g, w).
     case g of None \<Rightarrow> Some ((g, w), dflt)
     | Some M \<Rightarrow> do { ((M1, w1), r) \<leftarrow> f (M, w); Some ((Some M1, w1), r) })"

definition PipeAPI_CreatePipe :: "string option \<Rightarrow> u32 \<Rightarrow> u32 \<Rightarrow> pipe_api \<Rightarrow> (pipe_api \<times> u32) option" where
  "PipeAPI_CreatePipe name buffer_sz max_msgs = with_mgr 0 (\<lambda>mw. do {
     ((M1, w1), p) \<leftarrow> CreatePipe name buffer_sz max_msgs mw;
     Some ((M1, w1), if p \<noteq> 0 then pipe_id (pobjs w1 p) else 0)
   })"

definition PipeAPI_DestroyPipe :: "u32 \<Rightarrow> pipe_api \<Rightarrow> (pipe_api \<times> bool) option" where
  "PipeAPI_DestroyPipe pid = with_mgr False (DestroyPipe pid)"

definition PipeAPI_DestroyPipe_name :: "string option \<Rightarrow> pipe_api \<Rightarrow> (pipe_api \<times> bool) option" where
  "PipeAPI_DestroyPipe_name name = with_mgr False (DestroyPipe_name name)"

text \<open>The calls that need the manager, the scheduler and an existing pipe.\<close>

definition on_found :: "'r \<Rightarrow> (PipeManager \<Rightarrow> ipc \<Rightarrow> u32) \<Rightarrow> (ipc \<Rightarrow> Pipe \<times> ipc \<Rightarrow> ((Pipe \<times> ipc) \<times> 'r) option) \<Rightarrow>
    pipe_api \<Rightarrow> (pipe_api \<times> 'r) option" where
  "on_found dflt look f = with_mgr dflt (\<lambda>(M, w).
     let p = look M w
     in if p = 0 then Some ((M, w), dflt) else do { (w1, r) \<leftarrow> on_pipe p (f w) w; Some ((M, w1), r) })"

definition need_sched :: "'r \<Rightarrow> (pipe_api \<Rightarrow> (pipe_api \<times> 'r) option) \<Rightarrow> pipe_api \<Rightarrow> (pipe_api \<times> 'r) option" where
  "need_sched dflt f = (\<lambda>gw. if \<not> g_scheduler (snd gw) then Some (gw, dflt) else f gw)"

definition PipeAPI_WritePipe :: "u32 \<Rightarrow> u32 \<Rightarrow> u32 \<Rightarrow> bool \<Rightarrow> pipe_api \<Rightarrow> (pipe_api \<times> bool) option" where
  "PipeAPI_WritePipe pid data sz block =
     need_sched False (on_found False (FindPipe pid) (\<lambda>w. Pipe_Write (current_thread (sched w)) data sz block))"

definition PipeAPI_WritePipe_name :: "string option \<Rightarrow> u32 \<Rightarrow> u32 \<Rightarrow> bool \<Rightarrow> pipe_api \<Rightarrow> (pipe_api \<times> bool) option" where
  "PipeAPI_WritePipe_name name data sz block =
     need_sched False (on_found False (FindPipe_name name) (\<lambda>w. Pipe_Write (current_thread (sched w)) data sz block))"

definition PipeAPI_ReadPipe :: "u32 \<Rightarrow> u32 \<Rightarrow> u32 \<Rightarrow> bool \<Rightarrow> pipe_api \<Rightarrow> (pipe_api \<times> read_result) option" where
  "PipeAPI_ReadPipe pid buffer buf_sz block =
     need_sched (False, None, None) (on_found (False, None, None) (FindPipe pid)
       (\<lambda>w. Pipe_Read (current_thread (sched w)) buffer buf_sz block))"

definition PipeAPI_ReadPipe_name :: "string option \<Rightarrow> u32 \<Rightarrow> u32 \<Rightarrow> bool \<Rightarrow> pipe_api \<Rightarrow> (pipe_api \<times> read_result) option" where
  "PipeAPI_ReadPipe_name name buffer buf_sz block =
     need_sched (False, None, None) (on_found (False, None, None) (FindPipe_name name)
       (\<lambda>w. Pipe_Read (current_thread (sched w)) buffer buf_sz block))"

text \<open>Registration looks the thread up even when there is no pipe.\<close>

definition api_add :: "(u32 \<Rightarrow> Pipe \<times> ipc \<Rightarrow> ((Pipe \<times> ipc) \<times> bool) option) \<Rightarrow> u32 \<Rightarrow> u32 \<Rightarrow> pipe_api \<Rightarrow> (pipe_api \<times> bool) option" where
  "api_add add pid tid = need_sched False (with_mgr False (\<lambda>(M, w). do {
     let p = FindPipe pid M w;
     thread \<leftarrow> FindTask tid (sched w);
     if p = 0 \<or> thread = 0 then Some ((M, w), False)
     else do { (w1, r) \<leftarrow> on_pipe p (add thread) w; Some ((M, w1), r) }
   }))"

definition PipeAPI_AddPipeReader :: "u32 \<Rightarrow> u32 \<Rightarrow> pipe_api \<Rightarrow> (pipe_api \<times> bool) option" where
  "PipeAPI_AddPipeReader = api_add Pipe_AddReader"

definition PipeAPI_AddPipeWriter :: "u32 \<Rightarrow> u32 \<Rightarrow> pipe_api \<Rightarrow> (pipe_api \<times> bool) option" where
  "PipeAPI_AddPipeWriter = api_add Pipe_AddWriter"

definition PipeAPI_RemovePipeReader :: "u32 \<Rightarrow> u32 \<Rightarrow> pipe_api \<Rightarrow> (pipe_api \<times> bool) option" where
  "PipeAPI_RemovePipeReader pid tid = on_found False (FindPipe pid) (\<lambda>_. Pipe_RemoveReader tid)"

definition PipeAPI_RemovePipeWriter :: "u32 \<Rightarrow> u32 \<Rightarrow> pipe_api \<Rightarrow> (pipe_api \<times> bool) option" where
  "PipeAPI_RemovePipeWriter pid tid = on_found False (FindPipe pid) (\<lambda>_. Pipe_RemoveWriter tid)"

definition PipeAPI_FindPipe :: "string option \<Rightarrow> pipe_api \<Rightarrow> u32" where
  "PipeAPI_FindPipe name = (\<lambda>(g, w). case g of None \<Rightarrow> 0
     | Some M \<Rightarrow> (let p = FindPipe_name name M w in if p \<noteq> 0 then pipe_id (pobjs w p) else 0))"

text \<open>Message count, size and free space; \<open>None\<close> stands for the result false.\<close>

definition PipeAPI_GetPipeInfo :: "u32 \<Rightarrow> pipe_api \<Rightarrow> (u32 \<times> u32 \<times> u32) option" where
  "PipeAPI_GetPipeInfo pid = (\<lambda>(g, w). case g of None \<Rightarrow> None
     | Some M \<Rightarrow> (let p = FindPipe pid M w; P = pobjs w p
         in if p = 0 then None else Some (message_count P, current_size P, GetAvailableSpace P)))"

section \<open>Locks and waiting\<close>

definition pipe_idle :: "Pipe \<Rightarrow> bool" where
  "pipe_idle P \<longleftrightarrow> pipe_mutex P = Mutex_new \<and> read_cv P = ConditionVariable_new \<and> write_cv P = ConditionVariable_new"

definition lock_of :: "ipc \<Rightarrow> Mutex" where
  "lock_of w = (if g_scheduler w then \<lparr>owner_thread_id = current_thread (sched w), mutex_waiting = 0, locked = True\<rparr> else Mutex_new)"

lemma cv_new [simp]: "cv_waiting ConditionVariable_new = 0"
  by (simp add: ConditionVariable_new_def)

lemma lock_new: "LockGuard_new (g_scheduler w) (Mutex_new, sched w) = Some (lock_of w, sched w)"
  by (simp add: LockGuard_new_def Mutex_Lock_def lock_loop_iff may_lock_def lock_of_def Mutex_new_def)

lemma unlock_new:
  "g_scheduler w' = g_scheduler w \<Longrightarrow> current_thread (sched w') = current_thread (sched w) \<Longrightarrow>
   LockGuard_delete (g_scheduler w') (lock_of w, sched w') = Some (Mutex_new, sched w')"
  by (simp add: LockGuard_delete_def Mutex_Unlock_def lock_of_def Mutex_new_def)

lemma guarded_idle:
  assumes "pipe_idle P" "body (P\<lparr>pipe_mutex := lock_of w\<rparr>, w) = Some ((P2, w2), r)" "pipe_mutex P2 = lock_of w"
    "g_scheduler w2 = g_scheduler w" "current_thread (sched w2) = current_thread (sched w)"
  shows "guarded body (P, w) = Some ((P2\<lparr>pipe_mutex := Mutex_new\<rparr>, w2), r)"
  using assms lock_new [of w] unlock_new [of w2 w]
  by (simp add: guarded_def pipe_lock_def pipe_unlock_def pipe_idle_def)

lemma guarded_none: "pipe_idle P \<Longrightarrow> body (P\<lparr>pipe_mutex := lock_of w\<rparr>, w) = None \<Longrightarrow> guarded body (P, w) = None"
  using lock_new [of w] by (simp add: guarded_def pipe_lock_def pipe_idle_def)

lemma signals_new [simp]:
  "read_cv P = ConditionVariable_new \<Longrightarrow> signal_read (P, w) = Some (P, w)"
  "write_cv P = ConditionVariable_new \<Longrightarrow> signal_write (P, w) = Some (P, w)"
  "read_cv P = ConditionVariable_new \<Longrightarrow> broadcast_read (P, w) = Some (P, w)"
  "write_cv P = ConditionVariable_new \<Longrightarrow> broadcast_write (P, w) = Some (P, w)"
  by (cases P; simp add: signal_read_def signal_write_def broadcast_read_def broadcast_write_def)+

lemma pipe_wait_same:
  assumes "pipe_wait pw = Some pw1"
  shows "\<exists>m. fst pw1 = (fst pw)\<lparr>pipe_mutex := m\<rparr>"
  using assms by (cases pw) (auto simp: pipe_wait_def bind_eq_Some_conv)

text \<open>Waiting ends only if there is nothing to wait for, since no other thread runs.\<close>

lemma wait_while_stuck:
  assumes "wait_while cond block pw = Some r" and lock: "\<And>P m. cond (P\<lparr>pipe_mutex := m\<rparr>) = cond P"
  shows "\<not> (cond (fst pw) \<and> block \<and> \<not> is_closed (fst pw))"
proof -
  let ?stuck = "\<lambda>cond block pw. (\<forall>P m. cond (P\<lparr>pipe_mutex := m\<rparr>) = cond P) \<and> cond (fst pw) \<and> block \<and> \<not> is_closed (fst pw)"
  have "\<not> ?stuck cond block pw"
  proof (rule wait_while.raw_induct [of "\<lambda>cond block pw r. \<not> ?stuck cond block pw", OF _ assms(1)])
    fix f cond block pw r
    assume ih: "\<And>cond block pw r. f cond block pw = Some r \<Longrightarrow> \<not> ?stuck cond block pw"
      and run: "(if cond (fst pw)
        then if \<not> block \<or> is_closed (fst pw) then Some (pw, False) else pipe_wait pw \<bind> f cond block
        else Some (pw, True)) = Some r"
    show "\<not> ?stuck cond block pw"
    proof
      assume a: "?stuck cond block pw"
      with run obtain pw1 where pw1: "pipe_wait pw = Some pw1" "f cond block pw1 = Some r"
        by (auto simp: bind_eq_Some_conv)
      with pipe_wait_same [OF pw1(1)] ih [OF pw1(2)] a show False by auto
    qed
  qed
  with lock show ?thesis by blast
qed

lemma wait_while_eq:
  assumes "\<And>P m. cond (P\<lparr>pipe_mutex := m\<rparr>) = cond P"
  shows "wait_while cond block pw =
    (if \<not> cond (fst pw) then Some (pw, True) else if \<not> block \<or> is_closed (fst pw) then Some (pw, False) else None)"
proof (cases "cond (fst pw) \<and> block \<and> \<not> is_closed (fst pw)")
  case True
  then have "wait_while cond block pw = None" using wait_while_stuck [OF _ assms] by (cases "wait_while cond block pw") auto
  with True show ?thesis by simp
qed (auto simp: wait_while.simps [of cond block pw])

lemma wait_eqs:
  "wait_while Pipe_IsFull block pw =
    (if \<not> Pipe_IsFull (fst pw) then Some (pw, True) else if \<not> block \<or> is_closed (fst pw) then Some (pw, False) else None)"
  "wait_while Pipe_IsEmpty block pw =
    (if \<not> Pipe_IsEmpty (fst pw) then Some (pw, True) else if \<not> block \<or> is_closed (fst pw) then Some (pw, False) else None)"
  by (rule wait_while_eq; simp add: Pipe_IsFull_def Pipe_IsEmpty_def)+

section \<open>The queue of messages\<close>

text \<open>A message of the abstract queue: its object, its buffer, the sender and the payload.\<close>

record amsg =
  a_obj :: u32
  a_buf :: u32
  a_sender :: u32
  a_bytes :: "u8 list"

definition held :: "amsg list \<Rightarrow> (u32 \<times> u8 list) list" where
  "held ms = map (\<lambda>a. (a_buf a, a_bytes a)) ms"

definition msg_rep :: "(u32 \<Rightarrow> PipeMessage) \<Rightarrow> nat \<times> blk list \<Rightarrow> amsg \<Rightarrow> bool" where
  "msg_rep st g a \<longleftrightarrow> pm_sender_id (st (a_obj a)) = a_sender a \<and> pm_data (st (a_obj a)) = a_buf a \<and>
     unat (pm_data_size (st (a_obj a))) = length (a_bytes a) \<and> a_bytes a \<noteq> [] \<and> heap_area g (a_obj a) (a_obj a) 16"

definition total :: "amsg list \<Rightarrow> nat" where
  "total ms = sum_list (map (length \<circ> a_bytes) ms)"

definition pipe_rep :: "Pipe \<Rightarrow> ipc \<Rightarrow> nat \<times> blk list \<Rightarrow> amsg list \<Rightarrow> bool" where
  "pipe_rep P w g ms \<longleftrightarrow> pool_inv (iheap w) g \<and> kpool.holds (iheap w) g (held ms) \<and>
     chain (\<lambda>p. pm_next (pmsgs w p)) (message_queue P) (map a_obj ms) \<and>
     queue_tail P = (if ms = [] then 0 else a_obj (last ms)) \<and> distinct (map a_obj ms) \<and>
     (\<forall>a \<in> set ms. msg_rep (pmsgs w) g a) \<and> set (map a_obj ms) \<inter> set (map a_buf ms) = {} \<and>
     unat (message_count P) = length ms \<and> current_size P = of_nat (total ms)"

lemma held_simps [simp]:
  "held [] = []" "held (a # ms) = (a_buf a, a_bytes a) # held ms" "held (ms @ ns) = held ms @ held ns"
  "fst ` set (held ms) = a_buf ` set ms"
  by (simp_all add: held_def image_image)

lemma total_simps [simp]: "total [] = 0" "total (a # ms) = length (a_bytes a) + total ms" "total (ms @ ns) = total ms + total ns"
  by (simp_all add: total_def)

lemma set_heap_simps [simp]:
  "sched_heap (sched (set_heap h w)) = h" "threads (sched (set_heap h w)) = threads (sched w)"
  "current_task (sched (set_heap h w)) = current_task (sched w)" "g_scheduler (set_heap h w) = g_scheduler w"
  "pmsgs (set_heap h w) = pmsgs w" "pobjs (set_heap h w) = pobjs w"
  "current_thread (sched (set_heap h w)) = current_thread (sched w)"
  by (simp_all add: set_heap_def current_thread_def)

lemma pipe_rep_areas:
  assumes "pipe_rep P w g ms" "a \<in> set ms"
  shows "heap_area g (a_obj a) (a_obj a) 16" "heap_area g (a_buf a) (a_buf a) (length (a_bytes a))"
    "a_buf a \<noteq> 0" "bytes_at (hmem (iheap w)) (a_buf a) (length (a_bytes a)) = a_bytes a"
proof -
  have "(a_buf a, a_bytes a) \<in> set (held ms)" using assms(2) by (auto simp: held_def)
  with assms kpool.holdsD [of "iheap w" g "held ms"]
  show "heap_area g (a_obj a) (a_obj a) 16" "heap_area g (a_buf a) (a_buf a) (length (a_bytes a))"
    "a_buf a \<noteq> 0" "bytes_at (hmem (iheap w)) (a_buf a) (length (a_bytes a)) = a_bytes a"
    by (auto simp: pipe_rep_def msg_rep_def)
qed

lemma new_PipeMessage_spec:
  assumes rep: "pipe_rep P w g ms" and src: "heap_area g sw data (unat sz)" "data \<noteq> 0"
    and sz: "0 < unat sz" "unat sz \<le> 4294967259"
  shows "\<exists>h st p g1. new_PipeMessage sender sz data w = Some ((set_heap h w)\<lparr>pmsgs := st\<rparr>, p) \<and> pool_inv h g1 \<and>
    areas_kept (iheap w) g h g1 \<and> (\<forall>q. q \<noteq> p \<longrightarrow> st q = pmsgs w q) \<and>
    (if p = 0 \<or> pm_data (st p) = 0 then kpool.holds h g1 (held ms) \<and> p \<notin> a_obj ` set ms
     else st p = \<lparr>pm_sender_id = sender, pm_data_size = sz, pm_data = pm_data (st p), pm_next = 0\<rparr> \<and>
       kpool.holds h g1 (held ms @ [(pm_data (st p), bytes_at (hmem (iheap w)) data (unat sz))]) \<and>
       heap_area g1 p p 16 \<and> p \<noteq> pm_data (st p) \<and> (\<forall>w v m. heap_area g w v m \<longrightarrow> w \<noteq> p \<and> w \<noteq> pm_data (st p)))"
proof -
  have inv: "pool_inv (iheap w) g" and hold: "kpool.holds (iheap w) g (held ms)" using rep by (simp_all add: pipe_rep_def)
  obtain h1 p g1 where al: "operator_new 16 (iheap w) = Some (h1, p)" "pool_inv h1 g1" "areas_kept (iheap w) g h1 g1"
    "p \<noteq> 0 \<longrightarrow> heap_area g1 p p 16 \<and> (\<forall>w v m. heap_area g w v m \<longrightarrow> w \<noteq> p)"
    using kpool.pool_alloc [OF inv, of 16] by auto
  have hold1: "kpool.holds h1 g1 (held ms)"
    by (rule kpool_holds_keep [OF hold]) (use al(3) in blast)
  show ?thesis
  proof (cases "p = 0")
    case True
    have "0 \<notin> a_obj ` set ms"
      using rep chain_nonzero [of "\<lambda>p. pm_next (pmsgs w p)" "message_queue P" "map a_obj ms"] by (simp add: pipe_rep_def)
    with True al hold1 show ?thesis
      by (intro exI [of _ h1] exI [of _ "pmsgs w"] exI [of _ "0 :: u32"] exI [of _ g1])
        (simp add: new_PipeMessage_def)
  next
    case False
    have src1: "heap_area g1 sw data (unat sz)" "bytes_at (hmem h1) data (unat sz) = bytes_at (hmem (iheap w)) data (unat sz)"
      using al(3) src(1) by blast+
    have fresh: "p \<notin> a_obj ` set ms" using al(4) False pipe_rep_areas(1) [OF rep] by blast
    obtain h2 d g2 where ci: "copy_in sz data h1 = Some (h2, d)" "pool_inv h2 g2" "areas_kept h1 g1 h2 g2"
      "if d = 0 then kpool.holds h2 g2 (held ms)
       else kpool.holds h2 g2 (held ms @ [(d, bytes_at (hmem h1) data (unat sz))]) \<and> (\<forall>w v m. heap_area g1 w v m \<longrightarrow> w \<noteq> d)"
      using copy_in_spec [OF al(2) hold1 src1(1) sz] by (elim exE conjE)
    let ?msg = "\<lparr>pm_sender_id = sender, pm_data_size = if d = 0 then 0 else sz, pm_data = d, pm_next = 0\<rparr>"
    let ?st = "(pmsgs w)(p := ?msg)"
    have "0 < sz" using sz(1) by (simp add: word_less_nat_alt)
    then have "new_PipeMessage sender sz data w = Some ((set_heap h2 w)\<lparr>pmsgs := ?st\<rparr>, p)"
      using al(1) False ci(1) src(2) by (simp add: new_PipeMessage_def PipeMessage_init_def Let_def)
    moreover have "areas_kept (iheap w) g h2 g2" using al(3) ci(3) by metis
    moreover have "heap_area g2 p p 16" using al(4) ci(3) False by blast
    moreover have "d \<noteq> 0 \<Longrightarrow> p \<noteq> d \<and> (\<forall>w v m. heap_area g w v m \<longrightarrow> w \<noteq> p \<and> w \<noteq> d)"
      using al(3,4) ci(4) False by (metis (full_types))
    ultimately show ?thesis using ci(2,4) False fresh src1(2)
      by (intro exI [of _ h2] exI [of _ ?st] exI [of _ p] exI [of _ g2]) (cases "d = 0"; simp)
  qed
qed


lemma msg_rep_keep:
  "msg_rep st g a \<Longrightarrow> st' (a_obj a) = (st (a_obj a))\<lparr>pm_next := x\<rparr> \<or> st' (a_obj a) = st (a_obj a) \<Longrightarrow>
   (\<And>w v m. heap_area g w v m \<Longrightarrow> w = a_obj a \<Longrightarrow> heap_area g' w v m) \<Longrightarrow> msg_rep st' g' a"
  unfolding msg_rep_def by auto

lemma pipe_rep_frame:
  assumes rep: "pipe_rep P w g ms" and "pool_inv h g1" "kpool.holds h g1 (held ms)"
    and area: "\<And>w v m. heap_area g w v m \<Longrightarrow> w \<in> a_obj ` set ms \<Longrightarrow> heap_area g1 w v m"
    and st: "\<And>q. q \<in> a_obj ` set ms \<Longrightarrow> st q = pmsgs w q"
  shows "pipe_rep P ((set_heap h w)\<lparr>pmsgs := st\<rparr>) g1 ms"
proof -
  have "chain (\<lambda>p. pm_next (st p)) (message_queue P) (map a_obj ms)"
    using rep chain_cong [of "map a_obj ms" "\<lambda>p. pm_next (st p)" "\<lambda>p. pm_next (pmsgs w p)"] st
    by (simp add: pipe_rep_def)
  moreover have "\<forall>a \<in> set ms. msg_rep st g1 a"
  proof
    fix a assume a: "a \<in> set ms"
    have "msg_rep (pmsgs w) g a" using rep a by (simp add: pipe_rep_def)
    then show "msg_rep st g1 a" by (rule msg_rep_keep) (use st area a in auto)
  qed
  ultimately show ?thesis using assms(1-3) by (simp add: pipe_rep_def)
qed

lemma pipe_rep_enqueue:
  assumes rep: "pipe_rep P w g ms" and inv: "pool_inv h g1" and kept: "areas_kept (iheap w) g h g1"
    and p: "p \<noteq> 0" "\<And>q. q \<noteq> p \<Longrightarrow> st q = pmsgs w q" "heap_area g1 p p 16"
      "st p = \<lparr>pm_sender_id = sender, pm_data_size = sz, pm_data = d, pm_next = 0\<rparr>"
    and bs: "length bs = unat sz" "bs \<noteq> []" "kpool.holds h g1 (held ms @ [(d, bs)])" "p \<noteq> d"
    and fresh: "\<And>w v m. heap_area g w v m \<Longrightarrow> w \<noteq> p \<and> w \<noteq> d" and room: "Suc (length ms) < 2 ^ 32"
  defines "pw \<equiv> enqueue p (P, (set_heap h w)\<lparr>pmsgs := st\<rparr>)"
  shows "pipe_rep ((fst pw)\<lparr>message_count := message_count (fst pw) + 1, current_size := current_size (fst pw) + sz\<rparr>)
      (snd pw) g1 (ms @ [\<lparr>a_obj = p, a_buf = d, a_sender = sender, a_bytes = bs\<rparr>])"
proof -
  let ?l = "a_obj (last ms)"
  define st' where "st' = (if ms = [] then st else st(?l := (st ?l)\<lparr>pm_next := p\<rparr>))"
  have rp: "chain (\<lambda>p. pm_next (pmsgs w p)) (message_queue P) (map a_obj ms)" "distinct (map a_obj ms)"
    "queue_tail P = (if ms = [] then 0 else ?l)" "set (map a_obj ms) \<inter> set (map a_buf ms) = {}"
    "unat (message_count P) = length ms" "current_size P = of_nat (total ms)" "\<forall>a \<in> set ms. msg_rep (pmsgs w) g a"
    using rep by (simp_all add: pipe_rep_def)
  have new: "p \<notin> a_obj ` set ms" "d \<notin> a_obj ` set ms" "p \<notin> a_buf ` set ms"
    using fresh pipe_rep_areas(1,2) [OF rep] by blast+
  have last: "ms \<noteq> [] \<Longrightarrow> ?l \<in> a_obj ` set ms" by simp
  have mq: "message_queue P = 0 \<longleftrightarrow> ms = []"
    using chain_head [OF rp(1)] chain_nonzero [OF rp(1)] by (cases ms) auto
  have pw: "fst pw = P\<lparr>message_queue := (if ms = [] then p else message_queue P), queue_tail := p\<rparr>"
    "snd pw = (set_heap h w)\<lparr>pmsgs := st'\<rparr>"
    using rp(3) mq by (auto simp: pw_def enqueue_def st'_def)
  have "chain (\<lambda>q. pm_next (st' q)) (if map a_obj ms = [] then p else message_queue P) (map a_obj ms @ [p])"
  proof (rule chain_snoc [OF rp(1,2)])
    show "pm_next (st' p) = 0" using new(1) last p(4) by (auto simp: st'_def)
    show "pm_next (st' (last (map a_obj ms))) = p" if "map a_obj ms \<noteq> []" using that by (simp add: st'_def last_map)
    fix q assume q: "q \<in> set (butlast (map a_obj ms))"
    then have "q \<in> a_obj ` set ms" "ms \<noteq> []" using in_set_butlastD by fastforce+
    moreover have "q \<noteq> ?l" using q rp(2) \<open>ms \<noteq> []\<close> by (cases ms rule: rev_cases) (auto simp: map_butlast [symmetric] image_iff)
    moreover have "q \<noteq> p" using new(1) \<open>q \<in> a_obj ` set ms\<close> by blast
    ultimately show "pm_next (st' q) = pm_next (pmsgs w q)" using p(2) [of q] by (simp add: st'_def)
  qed (use new p in auto)
  moreover have "msg_rep st' g1 a" if a: "a \<in> set ms" for a
  proof (rule msg_rep_keep)
    show "msg_rep (pmsgs w) g a" using rp(7) a by blast
    have "a_obj a \<noteq> p" using new(1) a by auto
    then show "st' (a_obj a) = (pmsgs w (a_obj a))\<lparr>pm_next := p\<rparr> \<or> st' (a_obj a) = pmsgs w (a_obj a)"
      using p(2) by (auto simp: st'_def)
  qed (use kept in blast)
  moreover have "st' p = st p" using new(1) last by (auto simp: st'_def)
  then have "msg_rep st' g1 \<lparr>a_obj = p, a_buf = d, a_sender = sender, a_bytes = bs\<rparr>"
    using p(3,4) bs(1,2) by (simp add: msg_rep_def)
  moreover have "unat (message_count P + 1) = Suc (length ms)"
    using rp(5) room by (simp add: unat_add_nowrap)
  moreover have "of_nat (unat sz) = sz" by simp
  ultimately show ?thesis using inv bs new rp(2,4,6)
    by (auto simp: pipe_rep_def pw simp del: of_nat_unat ucast_id)
qed


lemma pipe_rep_mutex [simp]: "pipe_rep (P\<lparr>pipe_mutex := m\<rparr>) w g ms = pipe_rep P w g ms"
  by (simp add: pipe_rep_def)

lemma enqueue_fields:
  "pipe_mutex (fst (enqueue p (P, w))) = pipe_mutex P" "read_cv (fst (enqueue p (P, w))) = read_cv P"
  "write_cv (fst (enqueue p (P, w))) = write_cv P" "sched (snd (enqueue p (P, w))) = sched w"
  "g_scheduler (snd (enqueue p (P, w))) = g_scheduler w"
  by (simp_all add: enqueue_def)

text \<open>Only the heap of the scheduler's world changed.\<close>

definition only_heap :: "ipc \<Rightarrow> ipc \<Rightarrow> bool" where
  "only_heap w w1 \<longleftrightarrow> g_scheduler w1 = g_scheduler w \<and> sched w1 = (sched w)\<lparr>sched_heap := iheap w1\<rparr>"

declare current_thread_heap [simp]

lemma only_heap_thread: "only_heap w w1 \<Longrightarrow> current_thread (sched w1) = current_thread (sched w)"
  unfolding only_heap_def by (elim conjE) (erule ssubst, simp)

lemma write_message_spec:
  assumes rep: "pipe_rep P w g ms" and cv: "read_cv P = ConditionVariable_new"
    and src: "heap_area g sw data (unat sz)" "data \<noteq> 0" and sz: "0 < unat sz" "unat sz \<le> 4294967259"
    and room: "Suc (length ms) < 2 ^ 32"
  shows "\<exists>P1 w1 r g1. write_message sender data sz (P, w) = Some ((P1, w1), r) \<and> only_heap w w1 \<and>
    areas_kept (iheap w) g (iheap w1) g1 \<and> pipe_mutex P1 = pipe_mutex P \<and> read_cv P1 = read_cv P \<and> write_cv P1 = write_cv P \<and>
    (if r then \<exists>p d. pipe_rep P1 w1 g1 (ms @ [\<lparr>a_obj = p, a_buf = d, a_sender = sender,
         a_bytes = bytes_at (hmem (iheap w)) data (unat sz)\<rparr>])
     else P1 = P \<and> pipe_rep P1 w1 g1 ms)"
proof -
  obtain h st p g1 where n: "new_PipeMessage sender sz data w = Some ((set_heap h w)\<lparr>pmsgs := st\<rparr>, p)" "pool_inv h g1"
    "areas_kept (iheap w) g h g1" "\<forall>q. q \<noteq> p \<longrightarrow> st q = pmsgs w q"
    "if p = 0 \<or> pm_data (st p) = 0 then kpool.holds h g1 (held ms) \<and> p \<notin> a_obj ` set ms
     else st p = \<lparr>pm_sender_id = sender, pm_data_size = sz, pm_data = pm_data (st p), pm_next = 0\<rparr> \<and>
       kpool.holds h g1 (held ms @ [(pm_data (st p), bytes_at (hmem (iheap w)) data (unat sz))]) \<and>
       heap_area g1 p p 16 \<and> p \<noteq> pm_data (st p) \<and> (\<forall>w v m. heap_area g w v m \<longrightarrow> w \<noteq> p \<and> w \<noteq> pm_data (st p))"
    using new_PipeMessage_spec [OF rep src sz, of sender] by (elim exE conjE) (rule that)
  let ?w1 = "(set_heap h w)\<lparr>pmsgs := st\<rparr>"
  have sch: "only_heap w ?w1" by (simp add: only_heap_def set_heap_def)
  show ?thesis
  proof (cases "p = 0 \<or> pm_data (st p) = 0")
    case True
    then have f: "kpool.holds h g1 (held ms)" "p \<notin> a_obj ` set ms" using n(5) by auto
    have "pipe_rep P ?w1 g1 ms"
      by (rule pipe_rep_frame [OF rep n(2) f(1)]) (use n(3,4) f(2) in auto)
    moreover have "delete_PipeMessage p ?w1 = Some ?w1"
      using True by (auto simp: delete_PipeMessage_def operator_delete_def set_heap_def)
    ultimately show ?thesis using True n(1,3) sch
      by (intro exI [of _ P] exI [of _ ?w1] exI [of _ False] exI [of _ g1]) (simp add: write_message_def)
  next
    case False
    let ?bs = "bytes_at (hmem (iheap w)) data (unat sz)"
    have new: "st p = \<lparr>pm_sender_id = sender, pm_data_size = sz, pm_data = pm_data (st p), pm_next = 0\<rparr>"
      "kpool.holds h g1 (held ms @ [(pm_data (st p), ?bs)])" "heap_area g1 p p 16" "p \<noteq> pm_data (st p)"
      "\<And>w v m. heap_area g w v m \<Longrightarrow> w \<noteq> p \<and> w \<noteq> pm_data (st p)" using False n(5) by auto
    have ne: "?bs \<noteq> []" using sz(1) length_bytes_at by (metis length_0_conv less_numeral_extra(3))
    define pw where "pw = enqueue p (P, ?w1)"
    let ?P1 = "(fst pw)\<lparr>message_count := message_count (fst pw) + 1, current_size := current_size (fst pw) + sz\<rparr>"
    have r1: "pipe_rep ?P1 (snd pw) g1 (ms @ [\<lparr>a_obj = p, a_buf = pm_data (st p), a_sender = sender, a_bytes = ?bs\<rparr>])"
      unfolding pw_def
      by (rule pipe_rep_enqueue [where st = st, OF rep n(2,3) _ _ new(3,1) _ ne new(2,4,5) room]) (use False n(4) in auto)
    have same: "pipe_mutex ?P1 = pipe_mutex P" "read_cv ?P1 = read_cv P" "write_cv ?P1 = write_cv P"
      "only_heap w (snd pw)" "iheap (snd pw) = h"
      using sch by (simp_all add: pw_def enqueue_fields only_heap_def)
    then have "write_message sender data sz (P, w) = Some ((?P1, snd pw), True)"
      using False n(1) cv by (simp add: write_message_def pw_def [symmetric] case_prod_unfold)
    with r1 same n(3) show ?thesis
      by (intro exI [of _ ?P1] exI [of _ "snd pw"] exI [of _ True] exI [of _ g1]) auto
  qed
qed

lemma pipe_rep_not_full:
  assumes "pipe_rep P w g ms" "\<not> Pipe_IsFull P"
  shows "Suc (length ms) < 2 ^ 32" "Suc (length ms) \<le> unat (max_messages P)"
proof -
  have "length ms < unat (max_messages P)"
    using assms by (auto simp: Pipe_IsFull_def pipe_rep_def word_less_nat_alt not_le)
  with u32_less_limit [of "max_messages P"]
  show "Suc (length ms) < 2 ^ 32" "Suc (length ms) \<le> unat (max_messages P)" by simp_all
qed

lemma Pipe_Write_runs:
  assumes rep: "pipe_rep P w g ms" and idle: "pipe_idle P"
    and ok: "\<not> is_closed P" "Pipe_CanWrite sender P w" "\<not> Pipe_IsFull P"
    and src: "heap_area g sw data (unat sz)" "data \<noteq> 0" and sz: "0 < unat sz" "unat sz \<le> 4294967259"
  shows "\<exists>P1 w1 r g1. Pipe_Write sender data sz block (P, w) = Some ((P1, w1), r) \<and> only_heap w w1 \<and> pipe_idle P1 \<and>
    areas_kept (iheap w) g (iheap w1) g1 \<and>
    (if r then \<exists>p d. pipe_rep P1 w1 g1 (ms @ [\<lparr>a_obj = p, a_buf = d, a_sender = sender,
         a_bytes = bytes_at (hmem (iheap w)) data (unat sz)\<rparr>])
     else P1 = P \<and> pipe_rep P1 w1 g1 ms)"
proof -
  let ?L = "P\<lparr>pipe_mutex := lock_of w\<rparr>"
  have L: "pipe_rep ?L w g ms" "read_cv ?L = ConditionVariable_new" using rep idle by (simp_all add: pipe_idle_def)
  obtain P1 w1 r g1 where m: "write_message sender data sz (?L, w) = Some ((P1, w1), r)" "only_heap w w1"
    "areas_kept (iheap w) g (iheap w1) g1" "pipe_mutex P1 = lock_of w" "read_cv P1 = read_cv P" "write_cv P1 = write_cv P"
    "if r then \<exists>p d. pipe_rep P1 w1 g1 (ms @ [\<lparr>a_obj = p, a_buf = d, a_sender = sender,
         a_bytes = bytes_at (hmem (iheap w)) data (unat sz)\<rparr>])
     else P1 = ?L \<and> pipe_rep P1 w1 g1 ms"
    using write_message_spec [OF L src sz pipe_rep_not_full(1) [OF rep ok(3)], of sender]
    by (elim exE conjE) (rule that, simp_all)
  have f: "\<not> Pipe_IsFull ?L" using ok(3) by (simp add: Pipe_IsFull_def)
  have "guarded (\<lambda>pw. wait_while Pipe_IsFull block pw \<bind>
      (\<lambda>(pw1, ok). if ok then write_message sender data sz pw1 else Some (pw1, False))) (P, w) =
      Some ((P1\<lparr>pipe_mutex := Mutex_new\<rparr>, w1), r)"
    by (rule guarded_idle [OF idle]) (use m(1,2,4) f only_heap_thread [OF m(2)] in \<open>simp_all add: wait_eqs only_heap_def\<close>)
  moreover have "sz \<noteq> 0" using sz(1) by auto
  ultimately have "Pipe_Write sender data sz block (P, w) = Some ((P1\<lparr>pipe_mutex := Mutex_new\<rparr>, w1), r)"
    using ok(1,2) src(2) by (simp add: Pipe_Write_def)
  moreover have "pipe_idle (P1\<lparr>pipe_mutex := Mutex_new\<rparr>)" using m(5,6) idle by (simp add: pipe_idle_def)
  moreover have "\<not> r \<Longrightarrow> P1\<lparr>pipe_mutex := Mutex_new\<rparr> = P" using m(7) idle by (simp add: pipe_idle_def)
  moreover have "\<not> r \<Longrightarrow> pipe_rep P w1 g1 ms" using m(7) by auto
  ultimately show ?thesis using m(2,3,7)
    by (intro exI [of _ "P1\<lparr>pipe_mutex := Mutex_new\<rparr>"] exI [of _ w1] exI [of _ r] exI [of _ g1]) (cases r; simp)
qed

lemma guarded_id:
  assumes "pipe_idle P" "body (P\<lparr>pipe_mutex := lock_of w\<rparr>, w) = Some ((P\<lparr>pipe_mutex := lock_of w\<rparr>, w), r)"
  shows "guarded body (P, w) = Some ((P, w), r)"
  using guarded_idle [OF assms(1), of body w "P\<lparr>pipe_mutex := lock_of w\<rparr>" w r] assms by (simp add: pipe_idle_def)

text \<open>All the other calls of \<^verbatim>\<open>Write\<close> change nothing, or wait for ever.\<close>

lemma Pipe_Write_refused:
  assumes idle: "pipe_idle P"
  shows "data = 0 \<or> sz = 0 \<or> is_closed P \<or> \<not> Pipe_CanWrite sender P w \<Longrightarrow>
      Pipe_Write sender data sz block (P, w) = Some ((P, w), False)"
    "Pipe_IsFull P \<Longrightarrow> \<not> block \<Longrightarrow> Pipe_Write sender data sz block (P, w) = Some ((P, w), False)"
    "Pipe_IsFull P \<Longrightarrow> block \<Longrightarrow> data \<noteq> 0 \<Longrightarrow> sz \<noteq> 0 \<Longrightarrow> \<not> is_closed P \<Longrightarrow> Pipe_CanWrite sender P w \<Longrightarrow>
      Pipe_Write sender data sz block (P, w) = None"
proof -
  have f: "Pipe_IsFull (P\<lparr>pipe_mutex := m\<rparr>) = Pipe_IsFull P" for m by (simp add: Pipe_IsFull_def)
  show "data = 0 \<or> sz = 0 \<or> is_closed P \<or> \<not> Pipe_CanWrite sender P w \<Longrightarrow>
      Pipe_Write sender data sz block (P, w) = Some ((P, w), False)"
    by (auto simp: Pipe_Write_def)
  show "Pipe_IsFull P \<Longrightarrow> \<not> block \<Longrightarrow> Pipe_Write sender data sz block (P, w) = Some ((P, w), False)"
    by (auto simp: Pipe_Write_def wait_eqs f intro!: guarded_id [OF idle])
  show "Pipe_IsFull P \<Longrightarrow> block \<Longrightarrow> data \<noteq> 0 \<Longrightarrow> sz \<noteq> 0 \<Longrightarrow> \<not> is_closed P \<Longrightarrow> Pipe_CanWrite sender P w \<Longrightarrow>
      Pipe_Write sender data sz block (P, w) = None"
    by (auto simp: Pipe_Write_def wait_eqs f intro!: guarded_none [OF idle])
qed

lemma only_heap_trans:
  assumes "only_heap w w1" "only_heap w1 w2"
  shows "only_heap w w2"
proof -
  have s: "sched w1 = (sched w)\<lparr>sched_heap := iheap w1\<rparr>" "sched w2 = (sched w1)\<lparr>sched_heap := iheap w2\<rparr>"
    using assms by (simp_all add: only_heap_def)
  have "sched w2 = (sched w)\<lparr>sched_heap := iheap w2\<rparr>" by (subst s(2), subst s(1)) simp
  with assms show ?thesis by (simp add: only_heap_def)
qed

lemma heap_area_less: "heap_area g w v n \<Longrightarrow> k \<le> n \<Longrightarrow> heap_area g w v k"
  by (auto simp: heap_area_def)

text \<open>Deleting the first message.\<close>

lemma pipe_rep_dequeue:
  assumes rep: "pipe_rep P w g (a # ms)"
  defines "msg \<equiv> pmsgs w (a_obj a)"
  defines "P1 \<equiv> P\<lparr>message_queue := pm_next msg, queue_tail := (if pm_next msg = 0 then 0 else queue_tail P),
      message_count := message_count P - 1, current_size := current_size P - pm_data_size msg\<rparr>"
  shows "\<exists>w1 g1. delete_PipeMessage (a_obj a) w = Some w1 \<and> only_heap w w1 \<and> pipe_rep P1 w1 g1 ms \<and>
    (\<forall>w' v m. heap_area g w' v m \<longrightarrow> w' \<noteq> a_buf a \<longrightarrow>
       heap_area g1 w' v m \<and> bytes_at (hmem (iheap w1)) v m = bytes_at (hmem (iheap w)) v m)"
proof -
  have rp: "pool_inv (iheap w) g" "kpool.holds (iheap w) g ((a_buf a, a_bytes a) # held ms)"
    "chain (\<lambda>p. pm_next (pmsgs w p)) (pm_next msg) (map a_obj ms)" "a_obj a \<noteq> 0" "a_obj a \<notin> a_obj ` set ms" "distinct (map a_obj ms)"
    "queue_tail P = a_obj (last (a # ms))" "\<forall>b \<in> set ms. msg_rep (pmsgs w) g b"
    "set (map a_obj ms) \<inter> set (map a_buf ms) = {}" "a_buf a \<notin> a_obj ` set ms"
    "unat (message_count P) = Suc (length ms)" "current_size P = of_nat (length (a_bytes a) + total ms)"
    "pm_data msg = a_buf a" "unat (pm_data_size msg) = length (a_bytes a)" "a_buf a \<noteq> 0"
    using rep pipe_rep_areas(3) [OF rep, of a] by (auto simp: pipe_rep_def msg_def msg_rep_def)
  obtain h1 g1 where f: "Heap_Free (a_buf a) (iheap w) = Some h1" "pool_inv h1 g1" "kpool.holds h1 g1 (held ms)"
    "\<forall>w' v m. heap_area g w' v m \<longrightarrow> w' \<noteq> a_buf a \<longrightarrow>
       heap_area g1 w' v m \<and> bytes_at (hmem h1) v m = bytes_at (hmem (iheap w)) v m"
    using kpool.holds_drop [OF rp(1), of "[]" "a_buf a" "a_bytes a" "held ms"] rp(2) by auto
  let ?st = "(pmsgs w)(a_obj a := msg\<lparr>pm_data := 0\<rparr>)"
  let ?w1 = "(set_heap h1 w)\<lparr>pmsgs := ?st\<rparr>"
  have del: "delete_PipeMessage (a_obj a) w = Some ?w1"
    using rp(4,13,15) f(1) by (simp add: delete_PipeMessage_def operator_delete_def msg_def)
  have "pm_next (?st p) = pm_next (pmsgs w p)" for p by (simp add: msg_def)
  then have "chain (\<lambda>p. pm_next (?st p)) (pm_next msg) (map a_obj ms)" using rp(3) by (simp only:)
  moreover have "msg_rep ?st g1 b" if b: "b \<in> set ms" for b
  proof (rule msg_rep_keep)
    show "msg_rep (pmsgs w) g b" using rp(8) b by blast
    have ne: "a_obj b \<noteq> a_obj a" "a_obj b \<noteq> a_buf a" using b rp(5,10) by (metis imageI)+
    then show "?st (a_obj b) = (pmsgs w (a_obj b))\<lparr>pm_next := 0\<rparr> \<or> ?st (a_obj b) = pmsgs w (a_obj b)" by simp
    fix w' v m assume "heap_area g w' v m" "w' = a_obj b"
    with f(4) ne(2) show "heap_area g1 w' v m" by blast
  qed
  moreover have "pm_next msg = 0 \<longleftrightarrow> ms = []"
    using chain_head [OF rp(3)] chain_nonzero [OF rp(3)] by (cases ms) auto
  moreover have "unat (message_count P - 1) = length ms" using rp(11) by (simp add: unat_sub_nowrap)
  moreover have "current_size P - pm_data_size msg = of_nat (total ms)"
  proof -
    have "pm_data_size msg = of_nat (unat (pm_data_size msg))" by simp
    then have "pm_data_size msg = of_nat (length (a_bytes a))" unfolding rp(14) .
    then show ?thesis using rp(12) by simp
  qed
  ultimately have "pipe_rep P1 ?w1 g1 ms" using f(2,3) rp(6,7,9) by (auto simp: pipe_rep_def P1_def)
  with del f(4) show ?thesis
    by (intro exI [of _ ?w1] exI [of _ g1]) (simp add: only_heap_def set_heap_def)
qed

lemma pipe_rep_heap:
  assumes "pipe_rep P w g ms" "pool_inv h g" "kpool.holds h g (held ms)"
  shows "pipe_rep P (set_heap h w) g ms"
  using assms by (simp add: pipe_rep_def)

lemma copy_out_rep:
  assumes rep: "pipe_rep P w g ms" and a: "a \<in> set ms"
    and buf: "heap_area g bw buffer (unat n)" "bw \<notin> a_buf ` set ms"
  shows "\<exists>w1 k. copy_out (pmsgs w (a_obj a)) buffer n w = (w1, k) \<and> only_heap w w1 \<and> pmsgs w1 = pmsgs w \<and>
    unat k = min (length (a_bytes a)) (unat n) \<and>
    pipe_rep P w1 g ms \<and> bytes_at (hmem (iheap w1)) buffer (unat k) = take (unat n) (a_bytes a) \<and>
    (\<forall>w' v m. heap_area g w' v m \<longrightarrow> w' \<noteq> bw \<longrightarrow> bytes_at (hmem (iheap w1)) v m = bytes_at (hmem (iheap w)) v m)"
proof -
  let ?msg = "pmsgs w (a_obj a)"
  let ?k = "if pm_data_size ?msg < n then pm_data_size ?msg else n"
  have m: "pm_data ?msg = a_buf a" "unat (pm_data_size ?msg) = length (a_bytes a)"
    using rep a by (auto simp: pipe_rep_def msg_rep_def)
  have k: "unat ?k = min (length (a_bytes a)) (unat n)" using m(2) by (auto simp: word_less_nat_alt min_def)
  have i: "pool_inv (iheap w) g" "kpool.holds (iheap w) g (held ms)" using rep by (simp_all add: pipe_rep_def)
  have d: "(a_buf a, a_bytes a) \<in> set (held ms)" using a by (auto simp: held_def)
  have ar: "heap_area g bw buffer (unat ?k)" by (rule heap_area_less [OF buf(1)]) (simp add: k del: if_split)
  note co = copy_out_spec [OF i d ar]
  let ?h = "(iheap w)\<lparr>hmem := memcpy (hmem (iheap w)) buffer (a_buf a) ?k\<rparr>"
  have "take (unat ?k) (a_bytes a) = take (unat n) (a_bytes a)" unfolding k by (simp add: min_def)
  then have "pool_inv ?h g" "kpool.holds ?h g (held ms)" "bytes_at (hmem ?h) buffer (unat ?k) = take (unat n) (a_bytes a)"
    "\<forall>w' v m. heap_area g w' v m \<longrightarrow> w' \<noteq> bw \<longrightarrow> bytes_at (hmem ?h) v m = bytes_at (hmem (iheap w)) v m"
    using co buf(2) k by (simp_all del: if_split)
  then show ?thesis using pipe_rep_heap [OF rep] k m(1)
    by (intro exI [of _ "set_heap ?h w"] exI [of _ ?k]) (simp add: copy_out_def Let_def only_heap_def set_heap_def del: if_split)
qed


lemma read_message_spec:
  assumes rep: "pipe_rep P w g (a # ms)" and cv: "write_cv P = ConditionVariable_new"
    and buf: "heap_area g bw buffer (unat n)" "bw \<notin> a_buf ` set (a # ms)"
  shows "\<exists>P1 w1 g1 k. read_message buffer n (P, w) = Some ((P1, w1), True, Some k, Some (a_sender a)) \<and>
    only_heap w w1 \<and> pipe_rep P1 w1 g1 ms \<and> pipe_mutex P1 = pipe_mutex P \<and> read_cv P1 = read_cv P \<and> write_cv P1 = write_cv P \<and>
    unat k = min (length (a_bytes a)) (unat n) \<and> bytes_at (hmem (iheap w1)) buffer (unat k) = take (unat n) (a_bytes a) \<and>
    (\<forall>w' v m. heap_area g w' v m \<longrightarrow> w' \<noteq> a_buf a \<longrightarrow> heap_area g1 w' v m \<and>
       (w' \<noteq> bw \<longrightarrow> bytes_at (hmem (iheap w1)) v m = bytes_at (hmem (iheap w)) v m))"
proof -
  have p: "message_queue P = a_obj a" "a_obj a \<noteq> 0" using rep by (simp_all add: pipe_rep_def)
  have a: "a \<in> set (a # ms)" by simp
  obtain w1 k where c: "copy_out (pmsgs w (a_obj a)) buffer n w = (w1, k)" "only_heap w w1" "pmsgs w1 = pmsgs w"
    "unat k = min (length (a_bytes a)) (unat n)" "pipe_rep P w1 g (a # ms)"
    "bytes_at (hmem (iheap w1)) buffer (unat k) = take (unat n) (a_bytes a)"
    "\<forall>w' v m. heap_area g w' v m \<longrightarrow> w' \<noteq> bw \<longrightarrow> bytes_at (hmem (iheap w1)) v m = bytes_at (hmem (iheap w)) v m"
    using copy_out_rep [OF rep a buf] by (elim exE conjE) (rule that)
  let ?msg = "pmsgs w (a_obj a)"
  let ?P1 = "P\<lparr>message_queue := pm_next ?msg, queue_tail := (if pm_next ?msg = 0 then 0 else queue_tail P),
      message_count := message_count P - 1, current_size := current_size P - pm_data_size ?msg\<rparr>"
  obtain w2 g2 where d: "delete_PipeMessage (a_obj a) w1 = Some w2" "only_heap w1 w2" "pipe_rep ?P1 w2 g2 ms"
    "\<forall>w' v m. heap_area g w' v m \<longrightarrow> w' \<noteq> a_buf a \<longrightarrow>
       heap_area g2 w' v m \<and> bytes_at (hmem (iheap w2)) v m = bytes_at (hmem (iheap w1)) v m"
    using pipe_rep_dequeue [OF c(5)] unfolding c(3) by (elim exE conjE) (rule that)
  have "read_message buffer n (P, w) = Some ((?P1, w2), True, Some k, Some (a_sender a))"
    using p c(1) d(1) cv rep by (simp add: read_message_def Let_def pipe_rep_def msg_rep_def)
  moreover have "only_heap w w2" using c(2) d(2) by (rule only_heap_trans)
  moreover have "heap_area g bw buffer (unat k)" by (rule heap_area_less [OF buf(1)]) (simp add: c(4))
  then have "bytes_at (hmem (iheap w2)) buffer (unat k) = take (unat n) (a_bytes a)" using d(4) c(6) buf(2) by auto
  moreover have "\<forall>w' v m. heap_area g w' v m \<longrightarrow> w' \<noteq> a_buf a \<longrightarrow> heap_area g2 w' v m \<and>
       (w' \<noteq> bw \<longrightarrow> bytes_at (hmem (iheap w2)) v m = bytes_at (hmem (iheap w)) v m)"
    using d(4) c(7) by metis
  ultimately show ?thesis using d(3) c(4)
    by (intro exI [of _ ?P1] exI [of _ w2] exI [of _ g2] exI [of _ k]) simp
qed

lemma Pipe_Read_runs:
  assumes rep: "pipe_rep P w g (a # ms)" and idle: "pipe_idle P"
    and ok: "\<not> is_closed P" "Pipe_CanRead reader P w" "buffer \<noteq> 0" "0 < unat n"
    and buf: "heap_area g bw buffer (unat n)" "bw \<notin> a_buf ` set (a # ms)"
  shows "\<exists>P1 w1 g1 k. Pipe_Read reader buffer n block (P, w) = Some ((P1, w1), True, Some k, Some (a_sender a)) \<and>
    only_heap w w1 \<and> pipe_rep P1 w1 g1 ms \<and> pipe_idle P1 \<and>
    unat k = min (length (a_bytes a)) (unat n) \<and> bytes_at (hmem (iheap w1)) buffer (unat k) = take (unat n) (a_bytes a) \<and>
    (\<forall>w' v m. heap_area g w' v m \<longrightarrow> w' \<noteq> a_buf a \<longrightarrow> heap_area g1 w' v m \<and>
       (w' \<noteq> bw \<longrightarrow> bytes_at (hmem (iheap w1)) v m = bytes_at (hmem (iheap w)) v m))"
proof -
  let ?L = "P\<lparr>pipe_mutex := lock_of w\<rparr>"
  have L: "pipe_rep ?L w g (a # ms)" "write_cv ?L = ConditionVariable_new" using rep idle by (simp_all add: pipe_idle_def)
  obtain P1 w1 g1 k where m: "read_message buffer n (?L, w) = Some ((P1, w1), True, Some k, Some (a_sender a))"
    "only_heap w w1" "pipe_rep P1 w1 g1 ms" "pipe_mutex P1 = lock_of w" "read_cv P1 = read_cv P" "write_cv P1 = write_cv P"
    "unat k = min (length (a_bytes a)) (unat n)" "bytes_at (hmem (iheap w1)) buffer (unat k) = take (unat n) (a_bytes a)"
    "\<forall>w' v m. heap_area g w' v m \<longrightarrow> w' \<noteq> a_buf a \<longrightarrow> heap_area g1 w' v m \<and>
       (w' \<noteq> bw \<longrightarrow> bytes_at (hmem (iheap w1)) v m = bytes_at (hmem (iheap w)) v m)"
    using read_message_spec [OF L buf] by (elim exE conjE) (rule that, assumption+, simp_all)
  have f: "\<not> Pipe_IsEmpty ?L" using rep by (auto simp: Pipe_IsEmpty_def pipe_rep_def)
  have "guarded (\<lambda>pw. wait_while Pipe_IsEmpty block pw \<bind>
      (\<lambda>(pw1, ok). if ok then read_message buffer n pw1 else Some (pw1, False, Some 0, None))) (P, w) =
      Some ((P1\<lparr>pipe_mutex := Mutex_new\<rparr>, w1), True, Some k, Some (a_sender a))"
    by (rule guarded_idle [OF idle]) (use m(1,2,4) f only_heap_thread [OF m(2)] in \<open>simp_all add: wait_eqs only_heap_def\<close>)
  moreover have "n \<noteq> 0" using ok(4) by auto
  ultimately have "Pipe_Read reader buffer n block (P, w) =
      Some ((P1\<lparr>pipe_mutex := Mutex_new\<rparr>, w1), True, Some k, Some (a_sender a))"
    using ok(1-3) by (simp add: Pipe_Read_def)
  moreover have "pipe_idle (P1\<lparr>pipe_mutex := Mutex_new\<rparr>)" using m(5,6) idle by (simp add: pipe_idle_def)
  ultimately show ?thesis using m(2,3,7-9)
    by (intro exI [of _ "P1\<lparr>pipe_mutex := Mutex_new\<rparr>"] exI [of _ w1] exI [of _ g1] exI [of _ k]) simp
qed

lemma Pipe_Read_refused:
  assumes idle: "pipe_idle P"
  shows "buffer = 0 \<or> n = 0 \<or> is_closed P \<or> \<not> Pipe_CanRead reader P w \<Longrightarrow>
      Pipe_Read reader buffer n block (P, w) = Some ((P, w), False, None, None)"
    "Pipe_IsEmpty P \<Longrightarrow> \<not> block \<Longrightarrow> buffer \<noteq> 0 \<Longrightarrow> n \<noteq> 0 \<Longrightarrow> \<not> is_closed P \<Longrightarrow> Pipe_CanRead reader P w \<Longrightarrow>
      Pipe_Read reader buffer n block (P, w) = Some ((P, w), False, Some 0, None)"
    "Pipe_IsEmpty P \<Longrightarrow> block \<Longrightarrow> buffer \<noteq> 0 \<Longrightarrow> n \<noteq> 0 \<Longrightarrow> \<not> is_closed P \<Longrightarrow> Pipe_CanRead reader P w \<Longrightarrow>
      Pipe_Read reader buffer n block (P, w) = None"
proof -
  have f: "Pipe_IsEmpty (P\<lparr>pipe_mutex := m\<rparr>) = Pipe_IsEmpty P" for m by (simp add: Pipe_IsEmpty_def)
  show "buffer = 0 \<or> n = 0 \<or> is_closed P \<or> \<not> Pipe_CanRead reader P w \<Longrightarrow>
      Pipe_Read reader buffer n block (P, w) = Some ((P, w), False, None, None)"
    by (auto simp: Pipe_Read_def)
  show "Pipe_IsEmpty P \<Longrightarrow> \<not> block \<Longrightarrow> buffer \<noteq> 0 \<Longrightarrow> n \<noteq> 0 \<Longrightarrow> \<not> is_closed P \<Longrightarrow> Pipe_CanRead reader P w \<Longrightarrow>
      Pipe_Read reader buffer n block (P, w) = Some ((P, w), False, Some 0, None)"
    by (auto simp: Pipe_Read_def wait_eqs f intro!: guarded_id [OF idle])
  show "Pipe_IsEmpty P \<Longrightarrow> block \<Longrightarrow> buffer \<noteq> 0 \<Longrightarrow> n \<noteq> 0 \<Longrightarrow> \<not> is_closed P \<Longrightarrow> Pipe_CanRead reader P w \<Longrightarrow>
      Pipe_Read reader buffer n block (P, w) = None"
    by (auto simp: Pipe_Read_def wait_eqs f intro!: guarded_none [OF idle])
qed

section \<open>Closing and flushing\<close>

abbreviation (input) areas_kept_but :: "u32 set \<Rightarrow> heap \<Rightarrow> nat \<times> blk list \<Rightarrow> heap \<Rightarrow> nat \<times> blk list \<Rightarrow> bool" where
  "areas_kept_but X h g h' g' \<equiv> (\<forall>w v m. heap_area g w v m \<longrightarrow> w \<notin> X \<longrightarrow>
     heap_area g' w v m \<and> bytes_at (hmem h') v m = bytes_at (hmem h) v m)"

lemma only_heap_refl [simp]: "only_heap w w"
  by (simp add: only_heap_def)

lemma flush_loop_spec:
  assumes "pipe_rep P0 w g ms" "message_queue P = message_queue P0"
  shows "\<exists>w1 g1. flush_loop (P, w) = Some (P\<lparr>message_queue := 0\<rparr>, w1) \<and> only_heap w w1 \<and> pool_inv (iheap w1) g1 \<and>
    areas_kept_but (a_buf ` set ms) (iheap w) g (iheap w1) g1"
  using assms
proof (induction ms arbitrary: P0 P w g)
  case Nil
  then have "message_queue P = 0" by (simp add: pipe_rep_def)
  then have "flush_loop (P, w) = Some (P\<lparr>message_queue := 0\<rparr>, w)" by (subst flush_loop.simps) (cases P, simp)
  with Nil show ?case by (intro exI [of _ w] exI [of _ g]) (simp add: pipe_rep_def)
next
  case (Cons a ms)
  have p: "message_queue P = a_obj a" "a_obj a \<noteq> 0" using Cons.prems by (simp_all add: pipe_rep_def)
  let ?msg = "pmsgs w (a_obj a)"
  let ?P1 = "P0\<lparr>message_queue := pm_next ?msg, queue_tail := (if pm_next ?msg = 0 then 0 else queue_tail P0),
      message_count := message_count P0 - 1, current_size := current_size P0 - pm_data_size ?msg\<rparr>"
  let ?P' = "P\<lparr>message_queue := pm_next ?msg\<rparr>"
  obtain w1 g1 where d: "delete_PipeMessage (a_obj a) w = Some w1" "only_heap w w1" "pipe_rep ?P1 w1 g1 ms"
    "\<forall>w' v m. heap_area g w' v m \<longrightarrow> w' \<noteq> a_buf a \<longrightarrow>
       heap_area g1 w' v m \<and> bytes_at (hmem (iheap w1)) v m = bytes_at (hmem (iheap w)) v m"
    using pipe_rep_dequeue [OF Cons.prems(1)] by (elim exE conjE) (rule that)
  have "message_queue ?P' = message_queue ?P1" by simp
  from Cons.IH [OF d(3) this] obtain w2 g2 where f: "flush_loop (?P', w1) = Some (?P'\<lparr>message_queue := 0\<rparr>, w2)"
    "only_heap w1 w2" "pool_inv (iheap w2) g2" "areas_kept_but (a_buf ` set ms) (iheap w1) g1 (iheap w2) g2"
    by (elim exE conjE) (rule that)
  have "flush_loop (P, w) = Some (P\<lparr>message_queue := 0\<rparr>, w2)"
    using p d(1) f(1) by (subst flush_loop.simps) (simp add: Let_def)
  moreover have "areas_kept_but (a_buf ` set (a # ms)) (iheap w) g (iheap w2) g2"
    using d(4) f(4) by (metis image_insert insert_iff list.set(2))
  ultimately show ?case using only_heap_trans [OF d(2) f(2)] f(3) by blast
qed

lemma Pipe_Close_spec:
  assumes "pipe_idle P"
  shows "Pipe_Close (P, w) = Some (P\<lparr>is_closed := True\<rparr>, w)"
proof -
  let ?L = "P\<lparr>pipe_mutex := lock_of w, is_closed := True\<rparr>"
  have "guarded (\<lambda>(P, w). broadcast_read (P\<lparr>is_closed := True\<rparr>, w) \<bind>
      (\<lambda>pw1. broadcast_write pw1 \<bind> (\<lambda>pw2. Some (pw2, ())))) (P, w) = Some ((?L\<lparr>pipe_mutex := Mutex_new\<rparr>, w), ())"
    by (rule guarded_idle [OF assms]) (use assms in \<open>simp_all add: pipe_idle_def\<close>)
  moreover have "?L\<lparr>pipe_mutex := Mutex_new\<rparr> = P\<lparr>is_closed := True\<rparr>" using assms by (cases P) (simp add: pipe_idle_def)
  ultimately show ?thesis by (simp add: Pipe_Close_def)
qed

lemma Pipe_Flush_spec:
  assumes rep: "pipe_rep P w g ms" and idle: "pipe_idle P"
  defines "P1 \<equiv> P\<lparr>message_queue := 0, queue_tail := 0, message_count := 0, current_size := 0\<rparr>"
  shows "\<exists>w1 g1. Pipe_Flush (P, w) = Some (P1, w1) \<and> only_heap w w1 \<and> pipe_rep P1 w1 g1 [] \<and> pipe_idle P1 \<and>
    areas_kept_but (a_buf ` set ms) (iheap w) g (iheap w1) g1"
proof -
  let ?L = "P\<lparr>pipe_mutex := lock_of w\<rparr>"
  let ?L1 = "?L\<lparr>message_queue := 0, queue_tail := 0, message_count := 0, current_size := 0\<rparr>"
  have "message_queue ?L = message_queue P" by simp
  from flush_loop_spec [OF rep this] obtain w1 g1 where f: "flush_loop (?L, w) = Some (?L\<lparr>message_queue := 0\<rparr>, w1)"
    "only_heap w w1" "pool_inv (iheap w1) g1" "areas_kept_but (a_buf ` set ms) (iheap w) g (iheap w1) g1"
    by (elim exE conjE) (rule that)
  have "guarded (\<lambda>pw. flush_loop pw \<bind> (\<lambda>(P, w).
      broadcast_write (P\<lparr>queue_tail := 0, message_count := 0, current_size := 0\<rparr>, w) \<bind> (\<lambda>pw2. Some (pw2, ())))) (P, w) =
      Some ((?L1\<lparr>pipe_mutex := Mutex_new\<rparr>, w1), ())"
    by (rule guarded_idle [OF idle])
      (use f idle only_heap_thread [OF f(2)] in \<open>simp_all add: pipe_idle_def only_heap_def\<close>)
  moreover have "?L1\<lparr>pipe_mutex := Mutex_new\<rparr> = P1" using idle by (cases P) (simp add: pipe_idle_def P1_def)
  ultimately have "Pipe_Flush (P, w) = Some (P1, w1)" by (simp add: Pipe_Flush_def)
  moreover have "pipe_rep P1 w1 g1 []" using f(3) by (simp add: pipe_rep_def P1_def kpool.holds_def)
  moreover have "pipe_idle P1" using idle by (simp add: pipe_idle_def P1_def)
  ultimately show ?thesis using f(2,4) by blast
qed


lemma pipe_rep_closed: "pipe_rep P w g ms \<Longrightarrow> pipe_rep (P\<lparr>is_closed := b\<rparr>) w g ms"
  by (simp add: pipe_rep_def)

lemma Pipe_delete_spec:
  assumes rep: "pipe_rep P w g ms" and idle: "pipe_idle P"
  defines "P1 \<equiv> P\<lparr>is_closed := True, message_queue := 0, queue_tail := 0, message_count := 0, current_size := 0\<rparr>"
  shows "\<exists>w1 g1. Pipe_delete (P, w) = Some (P1, w1) \<and> only_heap w w1 \<and> pipe_rep P1 w1 g1 [] \<and>
    areas_kept_but (a_buf ` set ms) (iheap w) g (iheap w1) g1"
proof -
  have idle': "pipe_idle (P\<lparr>is_closed := True\<rparr>)" using idle by (simp add: pipe_idle_def)
  obtain w1 g1 where f: "Pipe_Flush (P\<lparr>is_closed := True\<rparr>, w) = Some (P1, w1)" "only_heap w w1" "pipe_rep P1 w1 g1 []"
    "pipe_idle P1" "areas_kept_but (a_buf ` set ms) (iheap w) g (iheap w1) g1"
    using Pipe_Flush_spec [OF pipe_rep_closed [OF rep, of True] idle', folded P1_def] by (elim exE conjE) (rule that)
  have "P1\<lparr>pipe_mutex := Mutex_new, read_cv := ConditionVariable_new, write_cv := ConditionVariable_new\<rparr> = P1"
    using f(4) by (cases P1) (simp add: pipe_idle_def)
  moreover have "mutex_waiting Mutex_new = 0" by (simp add: Mutex_new_def)
  ultimately have "Pipe_delete (P, w) = Some (P1, w1)"
    using Pipe_Close_spec [OF idle, of w] f(1,4) by (simp add: Pipe_delete_def pipe_idle_def)
  with f(2,3,5) show ?thesis by blast
qed

section \<open>The table of pipes\<close>

definition used_slots :: "PipeManager \<Rightarrow> nat set" where
  "used_slots M = {i. i < 64 \<and> pipes M ! i \<noteq> 0}"

definition mgr_ok :: "PipeManager \<Rightarrow> ipc \<Rightarrow> nat \<times> blk list \<Rightarrow> bool" where
  "mgr_ok M w g \<longleftrightarrow> pool_inv (iheap w) g \<and> length (pipes M) = 64 \<and> manager_mutex M = Mutex_new \<and>
     unat (pipe_count M) = card (used_slots M) \<and>
     inj_on (\<lambda>i. pipes M ! i) (used_slots M) \<and> inj_on (\<lambda>i. pipe_id (pobjs w (pipes M ! i))) (used_slots M) \<and>
     (\<forall>i \<in> used_slots M. heap_area g (pipes M ! i) (pipes M ! i) 148 \<and>
        0 < unat (pipe_id (pobjs w (pipes M ! i))) \<and> unat (pipe_id (pobjs w (pipes M ! i))) < unat (next_pipe_id M)) \<and>
     0 < unat (next_pipe_id M)"

lemma finite_used_slots [simp]: "finite (used_slots M)"
  by (rule finite_subset [of _ "{..<64}"]) (auto simp: used_slots_def)

lemma find_upt_Some: "find P [0..<n] = Some i \<Longrightarrow> i < n \<and> P i \<and> (\<forall>j < i. \<not> P j)"
  by (auto simp: find_Some_iff)

lemma find_upt_None: "find P [0..<n] = None \<longleftrightarrow> (\<forall>i < n. \<not> P i)"
  by (auto simp: find_None_iff)

text \<open>Lookup by id is exact.\<close>

lemma FindPipe_spec:
  assumes "mgr_ok M w g"
  shows "i \<in> used_slots M \<Longrightarrow> FindPipe (pipe_id (pobjs w (pipes M ! i))) M w = pipes M ! i"
    "FindPipe pid M w = 0 \<longleftrightarrow> (\<forall>i \<in> used_slots M. pipe_id (pobjs w (pipes M ! i)) \<noteq> pid)"
proof -
  show "FindPipe (pipe_id (pobjs w (pipes M ! i))) M w = pipes M ! i" if i: "i \<in> used_slots M"
  proof (cases "FindPipeIndex (pipe_id (pobjs w (pipes M ! i))) M w")
    case None
    with i show ?thesis by (auto simp: FindPipeIndex_def find_upt_None used_slots_def)
  next
    case (Some j)
    have "j \<in> used_slots M" "pipe_id (pobjs w (pipes M ! j)) = pipe_id (pobjs w (pipes M ! i))"
      using find_upt_Some [OF Some [unfolded FindPipeIndex_def]] by (simp_all add: used_slots_def)
    moreover have "inj_on (\<lambda>i. pipe_id (pobjs w (pipes M ! i))) (used_slots M)" using assms by (simp add: mgr_ok_def)
    ultimately have "j = i" using i by (simp add: inj_on_def)
    with Some show ?thesis by (simp add: FindPipe_def)
  qed
  show "FindPipe pid M w = 0 \<longleftrightarrow> (\<forall>i \<in> used_slots M. pipe_id (pobjs w (pipes M ! i)) \<noteq> pid)"
  proof (cases "FindPipeIndex pid M w")
    case None
    then have "\<forall>i \<in> used_slots M. pipe_id (pobjs w (pipes M ! i)) \<noteq> pid"
      by (auto simp: FindPipeIndex_def find_upt_None used_slots_def)
    with None show ?thesis by (simp add: FindPipe_def)
  next
    case (Some i)
    have "i \<in> used_slots M" "pipe_id (pobjs w (pipes M ! i)) = pid"
      using find_upt_Some [OF Some [unfolded FindPipeIndex_def]] by (simp_all add: used_slots_def)
    with Some show ?thesis by (auto simp: FindPipe_def used_slots_def)
  qed
qed

text \<open>Lookup by name compares as many characters as the given name has.\<close>

lemma unat_of_char [simp]: "unat (of_char c :: u8) = of_char c"
proof -
  have "unat (of_nat (of_char c) :: u8) = of_char c"
    using nat_of_char_less_256 [of c] by (simp add: unat_of_nat take_bit_nat_eq_self del: of_nat_of_char)
  then show ?thesis by (simp only: of_nat_of_char)
qed

lemma of_char_u8_eq [simp]: "(of_char c :: u8) = of_char d \<longleftrightarrow> c = d"
  by (simp add: word_unat_eq_iff)

lemma of_char_u8_zero: "(of_char c :: u8) = 0 \<longleftrightarrow> c = CHR 0x00"
  using of_char_u8_eq [of c "CHR 0x00"] by simp

lemma name_cmp_prefix:
  assumes "CHR 0x00 \<notin> set a" "CHR 0x00 \<notin> set b"
  shows "name_cmp a b (length b) = 0 \<longleftrightarrow> take (length b) a = b"
  using assms
proof (induction b arbitrary: a)
  case (Cons c b)
  then show ?case
    by (cases a) (auto simp: char_at_def of_char_u8_zero word_uint_eq_iff [symmetric] unsigned_eq_0_iff)
qed simp

lemma mgr_guarded_idle:
  assumes "manager_mutex M = Mutex_new" "body (M\<lparr>manager_mutex := lock_of w\<rparr>, w) = Some ((M2, w2), r)"
    "manager_mutex M2 = lock_of w" "g_scheduler w2 = g_scheduler w" "current_thread (sched w2) = current_thread (sched w)"
  shows "mgr_guarded body (M, w) = Some ((M2\<lparr>manager_mutex := Mutex_new\<rparr>, w2), r)"
  using assms lock_new [of w] unlock_new [of w2 w] by (simp add: mgr_guarded_def)

lemma mgr_guarded_none:
  "manager_mutex M = Mutex_new \<Longrightarrow> body (M\<lparr>manager_mutex := lock_of w\<rparr>, w) = None \<Longrightarrow> mgr_guarded body (M, w) = None"
  using lock_new [of w] by (simp add: mgr_guarded_def)

definition fresh_pipe :: "u32 \<Rightarrow> string \<Rightarrow> u32 \<Rightarrow> u32 \<Rightarrow> Pipe" where
  "fresh_pipe pid nm buffer_sz max_msgs = \<lparr>pipe_id = pid, pipe_name = take 31 nm, buffer_size = buffer_sz, current_size = 0,
     max_messages = max_msgs, message_count = 0, message_queue = 0, queue_tail = 0,
     pipe_mutex = Mutex_new, read_cv = ConditionVariable_new, write_cv = ConditionVariable_new,
     readers = replicate 8 0, writers = replicate 8 0, reader_count = 0, writer_count = 0,
     is_closed = False, blocking_mode = True\<rparr>"

lemma fresh_pipe_id [simp]: "pipe_id (fresh_pipe pid nm bsz mx) = pid"
  by (simp add: fresh_pipe_def)

lemma Pipe_init_spec:
  assumes "pool_inv h g"
  shows "Pipe_init pid nm bsz mx h = None \<or>
    (\<exists>h' g'. Pipe_init pid nm bsz mx h = Some (fresh_pipe pid nm bsz mx, h') \<and> pool_inv h' g' \<and> areas_kept h g h' g')"
proof -
  obtain h1 m g1 where 1: "operator_new 12 h = Some (h1, m)" "pool_inv h1 g1" "areas_kept h g h1 g1"
    using kpool.pool_alloc [OF assms, of 12] by auto
  obtain h2 r g2 where 2: "operator_new 4 h1 = Some (h2, r)" "pool_inv h2 g2" "areas_kept h1 g1 h2 g2"
    using kpool.pool_alloc [OF 1(2), of 4] by auto
  obtain h3 c g3 where 3: "operator_new 4 h2 = Some (h3, c)" "pool_inv h3 g3" "areas_kept h2 g2 h3 g3"
    using kpool.pool_alloc [OF 2(2), of 4] by auto
  have "areas_kept h g h3 g3" using 1(3) 2(3) 3(3) by metis
  moreover have "Pipe_init pid nm bsz mx h = (if m = 0 \<or> r = 0 \<or> c = 0 then None else Some (fresh_pipe pid nm bsz mx, h3))"
    using 1(1) 2(1) 3(1) by (simp add: Pipe_init_def fresh_pipe_def)
  ultimately show ?thesis using 3(2) by metis
qed

lemma mgr_ok_add:
  assumes ok: "mgr_ok M w g" and slot: "slot < 64" "pipes M ! slot = 0" and p: "p \<noteq> 0" "heap_area g1 p p 148"
    and fresh: "\<And>w v m. heap_area g w v m \<Longrightarrow> w \<noteq> p" and kept: "areas_kept (iheap w) g h g1" and inv: "pool_inv h g1"
    and more: "unat (next_pipe_id M) < 2 ^ 32 - 1" and P: "pipe_id P = next_pipe_id M"
  shows "mgr_ok (M\<lparr>next_pipe_id := next_pipe_id M + 1, pipes := (pipes M)[slot := p], pipe_count := pipe_count M + 1\<rparr>)
    ((set_heap h w)\<lparr>pobjs := (pobjs w)(p := P)\<rparr>) g1"
proof -
  let ?M1 = "M\<lparr>next_pipe_id := next_pipe_id M + 1, pipes := (pipes M)[slot := p], pipe_count := pipe_count M + 1\<rparr>"
  have m: "length (pipes M) = 64" "unat (pipe_count M) = card (used_slots M)"
    "inj_on (\<lambda>i. pipes M ! i) (used_slots M)" "inj_on (\<lambda>i. pipe_id (pobjs w (pipes M ! i))) (used_slots M)"
    "\<forall>i \<in> used_slots M. heap_area g (pipes M ! i) (pipes M ! i) 148 \<and>
        0 < unat (pipe_id (pobjs w (pipes M ! i))) \<and> unat (pipe_id (pobjs w (pipes M ! i))) < unat (next_pipe_id M)"
    "0 < unat (next_pipe_id M)" "manager_mutex M = Mutex_new"
    using ok by (simp_all add: mgr_ok_def)
  have us: "used_slots ?M1 = insert slot (used_slots M)" "slot \<notin> used_slots M"
    using slot m(1) p(1) by (auto simp: used_slots_def nth_list_update)
  have at: "(pipes M)[slot := p] ! slot = p" "\<And>i. i \<in> used_slots M \<Longrightarrow> (pipes M)[slot := p] ! i = pipes M ! i"
    using slot(1) m(1) us(2) by (simp, metis nth_list_update_neq)
  have ne: "pipes M ! i \<noteq> p" if "i \<in> used_slots M" for i using m(5) fresh that by blast
  have nx: "unat (next_pipe_id M + 1) = unat (next_pipe_id M) + 1" using more by (simp add: unat_add_nowrap)
  have "card (used_slots M) \<le> 64" using card_mono [of "{..<64}" "used_slots M"] by (auto simp: used_slots_def)
  then have "unat (pipe_count M + 1) = card (insert slot (used_slots M))" using m(2) us(2) by (simp add: unat_add_nowrap)
  moreover have "inj_on (\<lambda>i. pipes ?M1 ! i) (insert slot (used_slots M))"
    using m(3) ne us(2) at by (auto simp: inj_on_def)
  moreover have "inj_on (\<lambda>i. pipe_id (((pobjs w)(p := P)) (pipes ?M1 ! i))) (insert slot (used_slots M))"
  proof (subst inj_on_insert, intro conjI)
    show "inj_on (\<lambda>i. pipe_id (((pobjs w)(p := P)) (pipes ?M1 ! i))) (used_slots M)"
      using m(4) us(2) at ne by (auto simp: inj_on_def)
    have "pipe_id (pobjs w (pipes M ! i)) \<noteq> next_pipe_id M" if "i \<in> used_slots M" for i using m(5) that by auto
    then show "pipe_id (((pobjs w)(p := P)) (pipes ?M1 ! slot)) \<notin>
        (\<lambda>i. pipe_id (((pobjs w)(p := P)) (pipes ?M1 ! i))) ` (used_slots M - {slot})"
      using at P ne by (auto, blast)
  qed
  moreover have "\<forall>i \<in> insert slot (used_slots M). heap_area g1 (pipes ?M1 ! i) (pipes ?M1 ! i) 148 \<and>
      0 < unat (pipe_id (((pobjs w)(p := P)) (pipes ?M1 ! i))) \<and>
      unat (pipe_id (((pobjs w)(p := P)) (pipes ?M1 ! i))) < unat (next_pipe_id M + 1)"
  proof
    fix i assume "i \<in> insert slot (used_slots M)"
    then consider "i = slot" | "i \<noteq> slot" "i \<in> used_slots M" by blast
    then show "heap_area g1 (pipes ?M1 ! i) (pipes ?M1 ! i) 148 \<and>
      0 < unat (pipe_id (((pobjs w)(p := P)) (pipes ?M1 ! i))) \<and>
      unat (pipe_id (((pobjs w)(p := P)) (pipes ?M1 ! i))) < unat (next_pipe_id M + 1)"
    proof cases
      case 1
      then show ?thesis using at(1) p(2) P m(6) nx by simp
    next
      case 2
      then have "heap_area g1 (pipes M ! i) (pipes M ! i) 148" using m(5) kept by blast
      with 2 show ?thesis using at(2) [OF 2(2)] m(5) ne [OF 2(2)] nx by auto
    qed
  qed
  ultimately show ?thesis using inv m(1,7) us(1) nx by (simp add: mgr_ok_def)
qed


lemma mgr_ok_next:
  assumes "mgr_ok M w g" "pool_inv h g1" "areas_kept (iheap w) g h g1" "unat (next_pipe_id M) < 2 ^ 32 - 1"
  shows "mgr_ok (M\<lparr>next_pipe_id := next_pipe_id M + 1\<rparr>) (set_heap h w) g1"
proof -
  have "unat (next_pipe_id M + 1) = unat (next_pipe_id M) + 1" using assms(4) by (simp add: unat_add_nowrap)
  moreover have "used_slots (M\<lparr>next_pipe_id := next_pipe_id M + 1\<rparr>) = used_slots M" by (simp add: used_slots_def)
  ultimately show ?thesis using assms(1-3) unfolding mgr_ok_def by auto
qed

lemma mgr_ok_lock [simp]: "used_slots (M\<lparr>manager_mutex := m\<rparr>) = used_slots M"
  "FindPipeIndex_name nm (M\<lparr>manager_mutex := m\<rparr>) w = FindPipeIndex_name nm M w"
  "FindPipeIndex pid (M\<lparr>manager_mutex := m\<rparr>) w = FindPipeIndex pid M w"
  by (simp_all add: used_slots_def FindPipeIndex_name_def FindPipeIndex_def split: option.split)

abbreviation (input) created :: "string \<Rightarrow> u32 \<Rightarrow> u32 \<Rightarrow> PipeManager \<Rightarrow> ipc \<Rightarrow> nat \<times> blk list \<Rightarrow>
    PipeManager \<Rightarrow> ipc \<Rightarrow> nat \<times> blk list \<Rightarrow> u32 \<Rightarrow> bool" where
  "created nm bsz mx M w g M1 w1 g1 p \<equiv> only_heap w w1 \<and>
     mgr_ok M1 w1 g1 \<and> areas_kept (iheap w) g (iheap w1) g1 \<and> pmsgs w1 = pmsgs w \<and>
     (if p = 0 then pipes M1 = pipes M \<and> pobjs w1 = pobjs w
      else (\<exists>i \<in> used_slots M1 - used_slots M. pipes M1 = (pipes M)[i := p]) \<and>
        pobjs w1 = (pobjs w)(p := fresh_pipe (next_pipe_id M) nm bsz mx) \<and> (\<forall>w v m. heap_area g w v m \<longrightarrow> w \<noteq> p))"

lemma fill_slot_spec:
  assumes ok: "mgr_ok M w g" and more: "unat (next_pipe_id M) < 2 ^ 32 - 1" and slot: "slot < 64" "pipes M ! slot = 0"
  shows "fill_slot slot nm bsz mx (M\<lparr>manager_mutex := m\<rparr>, w) = None \<or>
    (\<exists>M1 w1 p g1. fill_slot slot nm bsz mx (M\<lparr>manager_mutex := m\<rparr>, w) = Some ((M1\<lparr>manager_mutex := m\<rparr>, w1), p) \<and>
       created nm bsz mx M w g M1 w1 g1 p)"
proof -
  have inv: "pool_inv (iheap w) g" and len: "length (pipes M) = 64" using ok by (simp_all add: mgr_ok_def)
  obtain h1 p g1 where a: "operator_new 148 (iheap w) = Some (h1, p)" "pool_inv h1 g1" "areas_kept (iheap w) g h1 g1"
    "p \<noteq> 0 \<Longrightarrow> heap_area g1 p p 148 \<and> (\<forall>w v m. heap_area g w v m \<longrightarrow> w \<noteq> p)"
    using kpool.pool_alloc [OF inv, of 148] by auto
  show ?thesis
  proof (cases "p = 0")
    case True
    let ?M1 = "M\<lparr>next_pipe_id := next_pipe_id M + 1\<rparr>"
    have "fill_slot slot nm bsz mx (M\<lparr>manager_mutex := m\<rparr>, w) = Some ((?M1\<lparr>manager_mutex := m\<rparr>, set_heap h1 w), 0)"
      using a(1) True by (simp add: fill_slot_def)
    moreover have "mgr_ok ?M1 (set_heap h1 w) g1" by (rule mgr_ok_next [OF ok a(2,3) more])
    ultimately show ?thesis using a(3)
      by (intro disjI2 exI [of _ ?M1] exI [of _ "set_heap h1 w"] exI [of _ "0 :: u32"] exI [of _ g1])
        (simp add: only_heap_def set_heap_def)
  next
    case False
    note new = a(4) [OF False]
    show ?thesis
    proof (cases "Pipe_init (next_pipe_id M) nm bsz mx h1")
      case None
      then show ?thesis using a(1) False by (simp add: fill_slot_def)
    next
      case (Some Ph)
      let ?P = "fresh_pipe (next_pipe_id M) nm bsz mx"
      from Some Pipe_init_spec [OF a(2), of "next_pipe_id M" nm bsz mx]
      obtain h2 g2 where i: "Pipe_init (next_pipe_id M) nm bsz mx h1 = Some (?P, h2)" "pool_inv h2 g2" "areas_kept h1 g1 h2 g2"
        by auto
      let ?M1 = "M\<lparr>next_pipe_id := next_pipe_id M + 1, pipes := (pipes M)[slot := p], pipe_count := pipe_count M + 1\<rparr>"
      let ?w1 = "(set_heap h2 w)\<lparr>pobjs := (pobjs w)(p := ?P)\<rparr>"
      have kept: "areas_kept (iheap w) g h2 g2" using a(3) i(3) by metis
      have "fill_slot slot nm bsz mx (M\<lparr>manager_mutex := m\<rparr>, w) = Some ((?M1\<lparr>manager_mutex := m\<rparr>, ?w1), p)"
        using a(1) False i(1) by (simp add: fill_slot_def)
      moreover have "heap_area g2 p p 148" "\<And>w v m. heap_area g w v m \<Longrightarrow> w \<noteq> p" using new i(3) by blast+
      then have "mgr_ok ?M1 ?w1 g2" by (rule mgr_ok_add [OF ok slot False _ _ kept i(2) more fresh_pipe_id])
      moreover have "slot \<in> used_slots ?M1 - used_slots M" using slot len False by (simp add: used_slots_def)
      then have "\<exists>i \<in> used_slots ?M1 - used_slots M. pipes ?M1 = (pipes M)[i := p]" by (rule rev_bexI) simp
      ultimately show ?thesis using kept new False
        by (intro disjI2 exI [of _ ?M1] exI [of _ ?w1] exI [of _ p] exI [of _ g2]) (simp add: only_heap_def set_heap_def)
    qed
  qed
qed

lemma CreatePipe_spec:
  assumes ok: "mgr_ok M w g" and more: "unat (next_pipe_id M) < 2 ^ 32 - 1"
  shows "CreatePipe (Some nm) bsz mx (M, w) = None \<or>
    (\<exists>M1 w1 p g1. CreatePipe (Some nm) bsz mx (M, w) = Some ((M1, w1), p) \<and> created nm bsz mx M w g M1 w1 g1 p \<and>
       (p \<noteq> 0 \<longrightarrow> FindPipeIndex_name (Some nm) M w = None))"
proof -
  have mm: "manager_mutex M = Mutex_new" using ok by (simp add: mgr_ok_def)
  have same: "?thesis" if "CreatePipe (Some nm) bsz mx (M, w) = Some ((M, w), 0)"
    using that ok by (intro disjI2 exI [of _ M] exI [of _ w] exI [of _ "0 :: u32"] exI [of _ g]) simp
  let ?body = "\<lambda>(M, w). if FindPipeIndex_name (Some nm) M w \<noteq> None then Some ((M, w), 0)
         else case find (\<lambda>i. pipes M ! i = 0) [0..<64] of None \<Rightarrow> Some ((M, w), 0)
         | Some slot \<Rightarrow> fill_slot slot nm bsz mx (M, w)"
  let ?L = "M\<lparr>manager_mutex := lock_of w\<rparr>"
  have run: "CreatePipe (Some nm) bsz mx (M, w) = (if 64 \<le> pipe_count M then Some ((M, w), 0) else mgr_guarded ?body (M, w))"
    by (simp add: CreatePipe_def)
  show ?thesis
  proof (cases "64 \<le> pipe_count M \<or> FindPipeIndex_name (Some nm) M w \<noteq> None \<or> find (\<lambda>i. pipes M ! i = 0) [0..<64] = None")
    case True
    then have "\<not> 64 \<le> pipe_count M \<Longrightarrow> mgr_guarded ?body (M, w) = Some ((?L\<lparr>manager_mutex := Mutex_new\<rparr>, w), 0)"
      by (intro mgr_guarded_idle [OF mm]) auto
    then show ?thesis using mm run by (intro same) simp
  next
    case False
    then obtain slot where s: "\<not> 64 \<le> pipe_count M" "FindPipeIndex_name (Some nm) M w = None"
      "find (\<lambda>i. pipes M ! i = 0) [0..<64] = Some slot" by auto
    from find_upt_Some [OF s(3)] have slot: "slot < 64" "pipes M ! slot = 0" by auto
    have body: "?body (?L, w) = fill_slot slot nm bsz mx (?L, w)" using s(2,3) by simp
    from fill_slot_spec [OF ok more slot, of nm bsz mx "lock_of w"] show ?thesis
    proof (elim disjE exE conjE)
      assume "fill_slot slot nm bsz mx (?L, w) = None"
      then show ?thesis using mgr_guarded_none [OF mm, of ?body w] body run s(1) by simp
    next
      fix M1 w1 p g1
      assume f: "fill_slot slot nm bsz mx (?L, w) = Some ((M1\<lparr>manager_mutex := lock_of w\<rparr>, w1), p)"
        and c: "only_heap w w1" "mgr_ok M1 w1 g1" "areas_kept (iheap w) g (iheap w1) g1" "pmsgs w1 = pmsgs w"
        "if p = 0 then pipes M1 = pipes M \<and> pobjs w1 = pobjs w
         else (\<exists>i \<in> used_slots M1 - used_slots M. pipes M1 = (pipes M)[i := p]) \<and>
           pobjs w1 = (pobjs w)(p := fresh_pipe (next_pipe_id M) nm bsz mx) \<and> (\<forall>w v m. heap_area g w v m \<longrightarrow> w \<noteq> p)"
      have "mgr_guarded ?body (M, w) = Some ((M1\<lparr>manager_mutex := lock_of w, manager_mutex := Mutex_new\<rparr>, w1), p)"
        by (rule mgr_guarded_idle [OF mm]) (use body f c(1) only_heap_thread [OF c(1)] in \<open>simp_all add: only_heap_def\<close>)
      moreover have "M1\<lparr>manager_mutex := Mutex_new\<rparr> = M1" using c(2) by (simp add: mgr_ok_def)
      ultimately have "CreatePipe (Some nm) bsz mx (M, w) = Some ((M1, w1), p)" using run s(1) by simp
      with c s(2) show ?thesis by blast
    qed
  qed
qed

section \<open>Properties\<close>

text \<open>A pipe with one message, and a world for it.\<close>

definition demo_msg :: amsg where
  "demo_msg = \<lparr>a_obj = 0x2000020, a_buf = 0x2000060, a_sender = 7, a_bytes = bytes_at (hmem demo_pool) 0x2000060 5\<rparr>"

definition demo_ipc :: ipc where
  "demo_ipc = \<lparr>g_scheduler = True, sched = demo_sched\<lparr>sched_heap := demo_pool\<rparr>,
     pmsgs = (\<lambda>_. \<lparr>pm_sender_id = 7, pm_data_size = 5, pm_data = 0x2000060, pm_next = 0\<rparr>),
     pobjs = (\<lambda>_. fresh_pipe 1 ''log'' 64 4)\<rparr>"

definition demo_pipe :: Pipe where
  "demo_pipe = (fresh_pipe 1 ''log'' 64 4)\<lparr>message_queue := 0x2000020, queue_tail := 0x2000020,
     message_count := 1, current_size := 5\<rparr>"

lemma demo_pipe_rep: "pipe_rep demo_pipe demo_ipc (0x2000000, demo_blks) [demo_msg]" "pipe_idle demo_pipe"
proof -
  have a: "heap_area (0x2000000, demo_blks) 0x2000020 0x2000020 16" "heap_area (0x2000000, demo_blks) 0x2000060 0x2000060 5"
    by (simp_all add: heap_area_def demo_blks_def bend_def)
  have h: "iheap demo_ipc = demo_pool" by (simp add: demo_ipc_def)
  have "kpool.holds demo_pool (0x2000000, demo_blks) (held [demo_msg])"
    using a by (simp add: kpool.holds_def demo_msg_def)
  moreover have "msg_rep (pmsgs demo_ipc) (0x2000000, demo_blks) demo_msg"
    using a by (simp add: msg_rep_def demo_msg_def demo_ipc_def flip: length_0_conv)
  moreover have "chain (\<lambda>p. pm_next (pmsgs demo_ipc p)) (message_queue demo_pipe) (map a_obj [demo_msg])"
    by (simp add: demo_pipe_def demo_msg_def demo_ipc_def)
  ultimately show "pipe_rep demo_pipe demo_ipc (0x2000000, demo_blks) [demo_msg]"
    unfolding pipe_rep_def h by (simp add: demo_pipe_def demo_msg_def fresh_pipe_def)
  show "pipe_idle demo_pipe" by (simp add: pipe_idle_def demo_pipe_def fresh_pipe_def)
qed

lemma demo_pipe_fields:
  "\<not> is_closed demo_pipe" "Pipe_CanWrite t demo_pipe w" "Pipe_CanRead t demo_pipe w" "\<not> Pipe_IsFull demo_pipe"
  by (simp_all add: demo_pipe_def fresh_pipe_def Pipe_CanWrite_def Pipe_CanRead_def Pipe_IsFull_def word_le_nat_alt)



text \<open>
  C7. \<^verbatim>\<open>Pipe::Read\<close> of an allowed reader from an open pipe with messages returns the oldest one:
  it fills the caller's buffer with the payload, cut to the size of the buffer, reports that
  length and the sender, and removes the message, so messages are read in the order of
  the writes. Its buffer is released; the other messages and live buffers stay as they were.
\<close>

theorem Pipe_Read_correct:
  assumes "pipe_rep P w g (a # ms)" and "pipe_idle P" and "\<not> is_closed P" and "Pipe_CanRead reader P w"
    and "buffer \<noteq> 0" and "0 < unat n" and "heap_area g bw buffer (unat n)" and "bw \<notin> a_buf ` set (a # ms)"
  shows "\<exists>P1 w1 g1 k. Pipe_Read reader buffer n block (P, w) = Some ((P1, w1), True, Some k, Some (a_sender a)) \<and>
    pipe_rep P1 w1 g1 ms \<and> pipe_idle P1 \<and>
    unat k = min (length (a_bytes a)) (unat n) \<and> bytes_at (hmem (iheap w1)) buffer (unat k) = take (unat n) (a_bytes a) \<and>
    (\<forall>w' v m. heap_area g w' v m \<longrightarrow> w' \<noteq> a_buf a \<longrightarrow> heap_area g1 w' v m \<and>
       (w' \<noteq> bw \<longrightarrow> bytes_at (hmem (iheap w1)) v m = bytes_at (hmem (iheap w)) v m))"
  using Pipe_Read_runs [OF assms, of block] by (elim exE conjE) (intro exI conjI; assumption)

theorem Pipe_Read_correct_witness:
  "\<exists>P1 w1 g1 k. Pipe_Read 9 0x1000 3 True (demo_pipe, demo_ipc) = Some ((P1, w1), True, Some k, Some 7) \<and>
     pipe_rep P1 w1 g1 [] \<and> k = 3 \<and> bytes_at (hmem (iheap w1)) 0x1000 3 = bytes_at (hmem demo_pool) 0x2000060 3"
proof -
  have "heap_area (0x2000000, demo_blks) 0 0x1000 (unat (3 :: u32))" by (simp add: heap_area_def)
  from Pipe_Read_correct [where block = True and reader = 9, OF demo_pipe_rep demo_pipe_fields(1,3) _ _ this]
  obtain P1 w1 g1 k where "Pipe_Read 9 0x1000 3 True (demo_pipe, demo_ipc) = Some ((P1, w1), True, Some k, Some 7)"
    "pipe_rep P1 w1 g1 []" "unat k = 3" "bytes_at (hmem (iheap w1)) 0x1000 (unat k) = take 3 (bytes_at (hmem demo_pool) 0x2000060 5)"
    by (auto simp: demo_msg_def)
  then show ?thesis by (intro exI [of _ P1] exI [of _ w1] exI [of _ g1] exI [of _ k]) (simp add: word_unat_eq_iff take_bytes_at)
qed

text \<open>
  C34. When the calls return: as long as no other thread acts on the pipe, a blocking write to a full open pipe that it
  may write and a blocking read from an empty open pipe that it may read do not return; without
  blocking these cases return false. Calls with a null pointer or size 0, by a thread that is not
  registered, or on a closed pipe return false. A refused call changes nothing.
\<close>

theorem pipe_calls_return:
  assumes "pipe_idle P"
  shows "(data \<noteq> 0 \<and> sz \<noteq> 0 \<and> \<not> is_closed P \<and> Pipe_CanWrite tid P w \<and> \<not> (Pipe_IsFull P \<and> \<not> block) \<or>
       Pipe_Write tid data sz block (P, w) = Some ((P, w), False)) \<and>
    (data \<noteq> 0 \<and> sz \<noteq> 0 \<and> \<not> is_closed P \<and> Pipe_CanWrite tid P w \<and> Pipe_IsFull P \<and> block \<longrightarrow>
       Pipe_Write tid data sz block (P, w) = None) \<and>
    (data \<noteq> 0 \<and> sz \<noteq> 0 \<and> \<not> is_closed P \<and> Pipe_CanRead tid P w \<and> \<not> (Pipe_IsEmpty P \<and> \<not> block) \<or>
       (\<exists>k. Pipe_Read tid data sz block (P, w) = Some ((P, w), False, k, None))) \<and>
    (data \<noteq> 0 \<and> sz \<noteq> 0 \<and> \<not> is_closed P \<and> Pipe_CanRead tid P w \<and> Pipe_IsEmpty P \<and> block \<longrightarrow>
       Pipe_Read tid data sz block (P, w) = None)"
  using Pipe_Write_refused [where data = data and sz = sz and sender = tid and w = w and block = block, OF assms]
    Pipe_Read_refused [where buffer = data and n = sz and reader = tid and w = w and block = block, OF assms]
  by (cases block) auto

theorem pipe_calls_return_witness:
  "Pipe_Write 9 0x1000 12 True (demo_pipe\<lparr>is_closed := True\<rparr>, demo_ipc) = Some ((demo_pipe\<lparr>is_closed := True\<rparr>, demo_ipc), False)"
proof -
  have "pipe_idle (demo_pipe\<lparr>is_closed := True\<rparr>)" using demo_pipe_rep(2) by (simp add: pipe_idle_def)
  from pipe_calls_return [where data = "0x1000" and sz = 12 and tid = 9 and w = demo_ipc and block = True, OF this] show ?thesis by simp
qed



lemma created_FindPipe:
  assumes ok: "mgr_ok M w g" and ok1: "mgr_ok M1 w1 g1" and i: "i \<in> used_slots M1 - used_slots M"
    and M1: "pipes M1 = (pipes M)[i := p]"
    and w1: "pobjs w1 = (pobjs w)(p := fresh_pipe (next_pipe_id M) nm bsz mx)" and fresh: "\<forall>w v m. heap_area g w v m \<longrightarrow> w \<noteq> p"
  shows "FindPipe (next_pipe_id M) M w = 0" "FindPipe (next_pipe_id M) M1 w1 = p"
    "q \<noteq> next_pipe_id M \<Longrightarrow> FindPipe q M1 w1 = FindPipe q M w"
proof -
  show "FindPipe (next_pipe_id M) M w = 0" using ok by (simp add: FindPipe_spec(2) [OF ok]) (auto simp: mgr_ok_def)
  have len: "i < 64" "length (pipes M) = 64" using i ok by (simp_all add: used_slots_def mgr_ok_def)
  show "FindPipe (next_pipe_id M) M1 w1 = p" using FindPipe_spec(1) [OF ok1, of i] i len by (simp add: M1 w1)
  have old: "pobjs w1 (pipes M ! j) = pobjs w (pipes M ! j)" if "j < 64" "pipes M ! j \<noteq> 0" for j
  proof -
    have "heap_area g (pipes M ! j) (pipes M ! j) 148" using ok that by (simp add: mgr_ok_def used_slots_def)
    with fresh show ?thesis by (auto simp: w1)
  qed
  assume q: "q \<noteq> next_pipe_id M"
  have free: "pipes M ! i = 0" using i len by (simp add: used_slots_def)
  have "FindPipeIndex q M1 w1 = FindPipeIndex q M w"
    unfolding FindPipeIndex_def
  proof (rule find_cong [OF refl])
    fix j assume "j \<in> set [0..<64]"
    then show "(pipes M1 ! j \<noteq> 0 \<and> pipe_id (pobjs w1 (pipes M1 ! j)) = q) \<longleftrightarrow> (pipes M ! j \<noteq> 0 \<and> pipe_id (pobjs w (pipes M ! j)) = q)"
      using old [of j] q len free by (cases "j = i") (auto simp: M1, simp add: w1)
  qed
  moreover have "FindPipeIndex q M w = Some j \<Longrightarrow> j \<noteq> i" for j
    using find_upt_Some [of _ 64 j] free unfolding FindPipeIndex_def by blast
  ultimately show "FindPipe q M1 w1 = FindPipe q M w" by (auto simp: FindPipe_def M1 split: option.split)
qed


text \<open>A manager without pipes.\<close>

definition demo_manager :: PipeManager where
  "demo_manager = \<lparr>pipes = replicate 64 0, pipe_count = 0, next_pipe_id = 1, manager_mutex = Mutex_new\<rparr>"

lemma demo_manager_ok: "mgr_ok demo_manager demo_ipc (0x2000000, demo_blks)"
  by (simp add: mgr_ok_def demo_manager_def used_slots_def demo_ipc_def cong: conj_cong)


lemma find_hd_filter: "find P xs = (if filter P xs = [] then None else Some (hd (filter P xs)))"
  by (induction xs) simp_all

text \<open>
  Lookup by name finds the pipe in the first used slot whose name begins with the given name, and returns null exactly if there is none.
  Hence a name that is a prefix of another pipe's name finds that other pipe, and the empty name finds any pipe.
\<close>

theorem FindPipe_name_prefix:
  assumes "CHR 0x00 \<notin> set nm" and "\<forall>i \<in> used_slots M. CHR 0x00 \<notin> set (pipe_name (pobjs w (pipes M ! i)))"
  shows "FindPipe_name (Some nm) M w =
    (let hits = filter (\<lambda>i. i \<in> used_slots M \<and> take (length nm) (pipe_name (pobjs w (pipes M ! i))) = nm) [0..<64]
     in if hits = [] then 0 else pipes M ! hd hits)"
proof -
  have "FindPipeIndex_name (Some nm) M w =
      find (\<lambda>i. i \<in> used_slots M \<and> take (length nm) (pipe_name (pobjs w (pipes M ! i))) = nm) [0..<64]"
    unfolding FindPipeIndex_name_def option.case
    by (rule find_cong [OF refl]) (use assms in \<open>auto simp: used_slots_def name_cmp_prefix\<close>)
  then show ?thesis by (simp add: FindPipe_name_def find_hd_filter Let_def)
qed

theorem FindPipe_name_prefix_witness:
  "FindPipe_name (Some ''lo'') (demo_manager\<lparr>pipes := 0x2000020 # replicate 63 0\<rparr>) demo_ipc = 0x2000020"
proof -
  let ?M = "demo_manager\<lparr>pipes := 0x2000020 # replicate 63 0\<rparr>"
  have u: "used_slots ?M = {0}" by (auto simp: used_slots_def nth_Cons' split: if_splits)
  have "CHR 0x00 \<notin> set ''lo''" "\<forall>i \<in> used_slots ?M. CHR 0x00 \<notin> set (pipe_name (pobjs demo_ipc (pipes ?M ! i)))"
    by (simp_all add: demo_ipc_def fresh_pipe_def)
  note FindPipe_name_prefix [OF this]
  moreover have "[0..<64 :: nat] = 0 # [1..<64]" by (simp add: upt_conv_Cons)
  ultimately show ?thesis unfolding u by (simp add: demo_ipc_def fresh_pipe_def Let_def)
qed

end
