(* ===== verification/KOS_Monitor.thy ===== *)
theory KOS_Monitor
  imports KOS_Sync
begin

text \<open>
  Methods under a lock guard. Most methods of the thread manager and of the message queues begin with
  \<^verbatim>\<open>LockGuard lock(*mutex)\<close> on a mutex of their object, so that the mutex is locked before the rest of the
  body and unlocked after it. \<open>locked_run\<close> is this scope for an object with a mutex in a world with a
  scheduler. The locale \<open>monitor\<close> has the laws of the two record fields and shows what a body that
  keeps the running thread does to an object whose lock is free.
\<close>

definition locked_run ::
  "('o \<Rightarrow> Mutex) \<Rightarrow> (Mutex \<Rightarrow> 'o \<Rightarrow> 'o) \<Rightarrow> ('w \<Rightarrow> bool) \<Rightarrow> ('w \<Rightarrow> Scheduler) \<Rightarrow> (Scheduler \<Rightarrow> 'w \<Rightarrow> 'w) \<Rightarrow>
   ('o \<times> 'w \<Rightarrow> (('o \<times> 'w) \<times> 'r) option) \<Rightarrow> 'o \<times> 'w \<Rightarrow> (('o \<times> 'w) \<times> 'r) option" where
  "locked_run lk set_lk gs sc set_sc body = (\<lambda>(ob, w). do {
     (m, s) \<leftarrow> LockGuard_new (gs w) (lk ob, sc w);
     ((ob1, w1), r) \<leftarrow> body (set_lk m ob, set_sc s w);
     (m1, s1) \<leftarrow> LockGuard_delete (gs w1) (lk ob1, sc w1);
     Some ((set_lk m1 ob1, set_sc s1 w1), r)
   })"

text \<open>A fresh mutex once the running thread has locked it.\<close>

definition lock_held :: "bool \<Rightarrow> Scheduler \<Rightarrow> Mutex" where
  "lock_held g s = (if g then \<lparr>owner_thread_id = current_thread s, mutex_waiting = 0, locked = True\<rparr> else Mutex_new)"

lemma lock_held_new: "LockGuard_new g (Mutex_new, s) = Some (lock_held g s, s)"
  by (simp add: LockGuard_new_def Mutex_Lock_def lock_loop_iff may_lock_def lock_held_def Mutex_new_def)

lemma lock_held_delete:
  "current_thread s' = current_thread s \<Longrightarrow> LockGuard_delete g (lock_held g s, s') = Some (Mutex_new, s')"
  by (simp add: LockGuard_delete_def Mutex_Unlock_def lock_held_def Mutex_new_def)

locale monitor =
  fixes lk :: "'o \<Rightarrow> Mutex" and set_lk :: "Mutex \<Rightarrow> 'o \<Rightarrow> 'o"
    and gs :: "'w \<Rightarrow> bool" and sc :: "'w \<Rightarrow> Scheduler" and set_sc :: "Scheduler \<Rightarrow> 'w \<Rightarrow> 'w"
  assumes lk_set: "lk (set_lk m ob) = m" and set_set: "set_lk m (set_lk m' ob) = set_lk m ob"
    and set_same: "set_lk (lk ob) ob = ob" and sc_same: "set_sc (sc w) w = w"
begin

lemma run_idle:
  assumes "lk ob = Mutex_new" "body (set_lk (lock_held (gs w) (sc w)) ob, w) = Some ((ob2, w2), r)"
    "lk ob2 = lock_held (gs w) (sc w)" "gs w2 = gs w" "current_thread (sc w2) = current_thread (sc w)"
  shows "locked_run lk set_lk gs sc set_sc body (ob, w) = Some ((set_lk Mutex_new ob2, w2), r)"
  using assms lock_held_new [of "gs w" "sc w"] lock_held_delete [of "sc w2" "sc w" "gs w"]
  by (simp add: locked_run_def sc_same)

lemma run_none:
  assumes "lk ob = Mutex_new" "body (set_lk (lock_held (gs w) (sc w)) ob, w) = None"
  shows "locked_run lk set_lk gs sc set_sc body (ob, w) = None"
  using assms lock_held_new [of "gs w" "sc w"] by (simp add: locked_run_def sc_same)

lemma run_id:
  assumes "lk ob = Mutex_new" "body (set_lk (lock_held (gs w) (sc w)) ob, w) = Some ((set_lk (lock_held (gs w) (sc w)) ob, w), r)"
  shows "locked_run lk set_lk gs sc set_sc body (ob, w) = Some ((ob, w), r)"
  using run_idle [where body = body, OF assms] assms(1) set_same [of ob] by (simp add: lk_set set_set)

text \<open>A lock that another thread holds is never acquired.\<close>

lemma run_blocked:
  assumes "gs w" "locked (lk ob)" "owner_thread_id (lk ob) \<noteq> current_thread (sc w)"
  shows "locked_run lk set_lk gs sc set_sc body (ob, w) = None"
  using assms by (simp add: locked_run_def LockGuard_new_def Mutex_Lock_def lock_loop_iff may_lock_def)

end

end
