(* ===== verification/KOS_ThreadManager.thy ===== *)
theory KOS_ThreadManager
  imports KOS_Monitor KOS_Pool
begin

text \<open>
  The thread manager (\<^verbatim>\<open>src/kernel/src/process/thread_manager.cpp\<close>): a registry of the threads it has
  created, as a linked list of heap records, with the process ids of the threads that
  run programs. Registry records and launch contexts are kept by address next to the
  bytes of the heap; their memory is allocated and released in the heap as in the code. Log
  messages are not modelled.
\<close>

section \<open>Data\<close>

datatype SystemThreadType = THREAD_KERNEL_MAIN | THREAD_SHELL | THREAD_KEYBOARD | THREAD_TIMER | THREAD_IDLE
  | THREAD_USER_PROCESS | THREAD_SYSTEM_SERVICE | THREAD_DEMO

record ThreadEntry =
  te_thread :: u32
  te_type :: SystemThreadType
  te_description :: string
  te_parent_id :: u32
  te_is_system :: bool
  te_pid :: u32
  te_next :: u32

record CommandContext =
  cc_command :: string
  cc_caller_thread_id :: u32

record ProcLaunchCtx =
  pl_path :: string
  pl_name :: string

record ThreadManager =
  thread_registry :: u32
  thread_count :: u32
  system_thread_count :: u32
  user_thread_count :: u32
  tm_mutex :: Mutex
  main_thread :: u32
  shell_thread :: u32
  idle_thread :: u32
  threading_initialized :: bool

text \<open>Addresses of the functions that threads start in; the linker chooses them.\<close>

record entry_points =
  kernel_main_entry :: u32
  keyboard_entry :: u32
  command_executor_entry :: u32
  elf_trampoline_entry :: u32

record procs =
  p_scheduler :: bool
  p_sched :: Scheduler
  entries :: "u32 \<Rightarrow> ThreadEntry"
  commands :: "u32 \<Rightarrow> CommandContext"
  launches :: "u32 \<Rightarrow> ProcLaunchCtx"
  g_pl_ctx_slot :: u32
  s_next_pid :: u32
  code :: entry_points

abbreviation (input) pheap :: "procs \<Rightarrow> heap" where "pheap w \<equiv> sched_heap (p_sched w)"

definition set_sched :: "Scheduler \<Rightarrow> procs \<Rightarrow> procs" where "set_sched s w = w\<lparr>p_sched := s\<rparr>"

definition set_pheap :: "heap \<Rightarrow> procs \<Rightarrow> procs" where
  "set_pheap h w = w\<lparr>p_sched := (p_sched w)\<lparr>sched_heap := h\<rparr>\<rparr>"

definition set_tm_mutex :: "Mutex \<Rightarrow> ThreadManager \<Rightarrow> ThreadManager" where "set_tm_mutex m M = M\<lparr>tm_mutex := m\<rparr>"

abbreviation (input) sizeof_ThreadEntry :: u32 where "sizeof_ThreadEntry \<equiv> 28"
abbreviation (input) sizeof_CommandContext :: u32 where "sizeof_CommandContext \<equiv> 260"
abbreviation (input) sizeof_ProcLaunchCtx :: u32 where "sizeof_ProcLaunchCtx \<equiv> 192"
abbreviation (input) sizeof_ThreadManager :: u32 where "sizeof_ThreadManager \<equiv> 36"

type_synonym tm_state = "ThreadManager \<times> procs"

definition tm_guarded :: "(tm_state \<Rightarrow> (tm_state \<times> 'r) option) \<Rightarrow> tm_state \<Rightarrow> (tm_state \<times> 'r) option" where
  "tm_guarded = locked_run tm_mutex set_tm_mutex p_scheduler p_sched set_sched"

interpretation tm_lock: monitor tm_mutex set_tm_mutex p_scheduler p_sched set_sched
  by unfold_locales (simp_all add: set_tm_mutex_def set_sched_def)

section \<open>The registry\<close>

partial_function (option) find_entry :: "(u32 \<Rightarrow> ThreadEntry) \<Rightarrow> tstore \<Rightarrow> u32 \<Rightarrow> u32 \<Rightarrow> u32 option" where
  "find_entry es ts tid entry =
     (if entry = 0 then Some 0
      else if te_thread (es entry) \<noteq> 0 \<and> task_id (ts (te_thread (es entry))) = tid then Some entry
      else find_entry es ts tid (te_next (es entry)))"

definition FindThreadEntry :: "u32 \<Rightarrow> tm_state \<Rightarrow> u32 option" where
  "FindThreadEntry tid = (\<lambda>(M, w). find_entry (entries w) (threads (p_sched w)) tid (thread_registry M))"

definition AddThreadEntry :: "u32 \<Rightarrow> SystemThreadType \<Rightarrow> string \<Rightarrow> u32 \<Rightarrow> bool \<Rightarrow> tm_state \<Rightarrow> tm_state option" where
  "AddThreadEntry thread ty description parent_id is_system = (\<lambda>(M, w).
     do {
       (h1, entry) \<leftarrow> Heap_Alloc sizeof_ThreadEntry 8 (pheap w);
       let w1 = set_pheap h1 w;
       if entry = 0 then Some (M, w1)
       else
         let e = \<lparr>te_thread = thread, te_type = ty, te_description = description, te_parent_id = parent_id,
                  te_is_system = is_system, te_pid = 0, te_next = thread_registry M\<rparr>;
             M1 = M\<lparr>thread_registry := entry, thread_count := thread_count M + 1\<rparr>
         in Some (if is_system then M1\<lparr>system_thread_count := system_thread_count M + 1\<rparr>
                  else M1\<lparr>user_thread_count := user_thread_count M + 1\<rparr>,
                  w1\<lparr>entries := (entries w1)(entry := e)\<rparr>)
     })"

text \<open>
  The pointer \<^verbatim>\<open>current\<close> of the removal loop is the cell that points to the visited entry:
  the head of the registry (\<open>None\<close>) or the field \<^verbatim>\<open>next\<close> of an entry.
\<close>

definition reg_cell :: "u32 option \<Rightarrow> tm_state \<Rightarrow> u32" where
  "reg_cell c = (\<lambda>(M, w). case c of None \<Rightarrow> thread_registry M | Some e \<Rightarrow> te_next (entries w e))"

definition set_reg_cell :: "u32 option \<Rightarrow> u32 \<Rightarrow> tm_state \<Rightarrow> tm_state" where
  "set_reg_cell c v = (\<lambda>(M, w). case c of None \<Rightarrow> (M\<lparr>thread_registry := v\<rparr>, w)
     | Some e \<Rightarrow> (M, w\<lparr>entries := (entries w)(e := (entries w e)\<lparr>te_next := v\<rparr>)\<rparr>))"

definition unlink_entry :: "u32 option \<Rightarrow> tm_state \<Rightarrow> tm_state option" where
  "unlink_entry c mw =
     (let to_remove = reg_cell c mw; e = entries (snd mw) to_remove; (M, w) = set_reg_cell c (te_next e) mw;
          M1 = (if te_is_system e then M\<lparr>system_thread_count := system_thread_count M - 1\<rparr>
                else M\<lparr>user_thread_count := user_thread_count M - 1\<rparr>);
          M2 = M1\<lparr>thread_count := thread_count M1 - 1\<rparr>
      in do { h1 \<leftarrow> Heap_Free to_remove (pheap w); Some (M2, set_pheap h1 w) })"

partial_function (option) remove_loop :: "u32 \<Rightarrow> u32 option \<Rightarrow> tm_state \<Rightarrow> tm_state option" where
  "remove_loop tid c mw =
     (let e = reg_cell c mw; t = te_thread (entries (snd mw) e)
      in if e = 0 then Some mw
         else if t \<noteq> 0 \<and> task_id (tsk (p_sched (snd mw)) t) = tid then unlink_entry c mw
         else remove_loop tid (Some e) mw)"

definition RemoveThreadEntry :: "u32 \<Rightarrow> tm_state \<Rightarrow> tm_state option" where
  "RemoveThreadEntry tid = remove_loop tid None"

definition GetThreadEntry :: "u32 \<Rightarrow> tm_state \<Rightarrow> (tm_state \<times> u32) option" where
  "GetThreadEntry tid = tm_guarded (\<lambda>mw. do { e \<leftarrow> FindThreadEntry tid mw; Some (mw, e) })"

definition GetPid :: "u32 \<Rightarrow> tm_state \<Rightarrow> (tm_state \<times> u32) option" where
  "GetPid tid = tm_guarded (\<lambda>mw. do {
     e \<leftarrow> FindThreadEntry tid mw; Some (mw, if e \<noteq> 0 then te_pid (entries (snd mw) e) else 0) })"

section \<open>Creating threads\<close>

definition create_registered ::
  "u32 \<Rightarrow> u32 \<Rightarrow> ThreadPriority \<Rightarrow> SystemThreadType \<Rightarrow> string \<Rightarrow> u32 \<Rightarrow> bool \<Rightarrow> tm_state \<Rightarrow> (tm_state \<times> u32) option" where
  "create_registered entry_point stack_sz pri ty description parent_id is_system = (\<lambda>(M, w).
     if \<not> p_scheduler w then Some ((M, w), 0)
     else do {
       (s1, thread) \<leftarrow> CreateTask entry_point stack_sz pri description (p_sched w);
       let w1 = set_sched s1 w;
       if thread = 0 then Some ((M, w1), 0)
       else tm_guarded (\<lambda>mw. do {
         (M2, w2) \<leftarrow> AddThreadEntry thread ty description parent_id is_system mw;
         Some ((M2, w2), task_id (tsk (p_sched w2) thread))
       }) (M, w1)
     })"

definition CreateSystemThread ::
  "u32 \<Rightarrow> u32 \<Rightarrow> ThreadPriority \<Rightarrow> SystemThreadType \<Rightarrow> string \<Rightarrow> u32 \<Rightarrow> tm_state \<Rightarrow> (tm_state \<times> u32) option" where
  "CreateSystemThread entry_point stack_sz pri ty description parent_id =
     create_registered entry_point stack_sz pri ty description parent_id True"

definition CreateUserThread ::
  "u32 \<Rightarrow> u32 \<Rightarrow> ThreadPriority \<Rightarrow> string \<Rightarrow> u32 \<Rightarrow> tm_state \<Rightarrow> (tm_state \<times> u32) option" where
  "CreateUserThread entry_point stack_sz pri description parent_id =
     create_registered entry_point stack_sz pri THREAD_USER_PROCESS description parent_id False"

text \<open>
  The first argument of the idle thread is \<^verbatim>\<open>(void*)idle_thread\<close>. Inside the class this names the
  member, which is null, and not the function of this name.
\<close>

definition CreateSystemThreads :: "tm_state \<Rightarrow> tm_state option" where
  "CreateSystemThreads mw = do {
     let main_id = task_id (tsk (p_sched (snd mw)) (main_thread (fst mw)));
     ((M1, w1), idle_id) \<leftarrow> CreateSystemThread (idle_thread (fst mw)) 4096 PRIORITY_IDLE THREAD_IDLE ''idle-thread'' main_id mw;
     M2 \<leftarrow> (if idle_id \<noteq> 0 then do { t \<leftarrow> FindTask idle_id (p_sched w1); Some (M1\<lparr>idle_thread := t\<rparr>) } else Some M1);
     (mw3, keyboard_id) \<leftarrow> CreateSystemThread (keyboard_entry (code w1)) 4096 PRIORITY_HIGH THREAD_KEYBOARD ''keyboard-thread''
       (task_id (tsk (p_sched w1) (main_thread M2))) (M2, w1);
     Some mw3
   }"

definition ThreadManager_init :: "heap \<Rightarrow> (ThreadManager \<times> heap) option" where
  "ThreadManager_init h = do {
     (h1, m) \<leftarrow> operator_new 12 h;
     if m = 0 then None
     else Some (\<lparr>thread_registry = 0, thread_count = 0, system_thread_count = 0, user_thread_count = 0, tm_mutex = Mutex_new,
       main_thread = 0, shell_thread = 0, idle_thread = 0, threading_initialized = False\<rparr>, h1)
   }"

definition Initialize :: "tm_state \<Rightarrow> (tm_state \<times> bool) option" where
  "Initialize = (\<lambda>(M, w).
     if threading_initialized M then Some ((M, w), True)
     else tm_guarded (\<lambda>(M, w).
       if \<not> p_scheduler w then Some ((M, w), False)
       else do {
         ((ts, h), t) \<leftarrow> CreateThread 1 (kernel_main_entry (code w)) 8192 PRIORITY_CRITICAL ''kernel-main''
           (threads (p_sched w), pheap w);
         let w1 = set_sched ((p_sched w)\<lparr>threads := ts, sched_heap := h\<rparr>) w;
         let M1 = M\<lparr>main_thread := t\<rparr>;
         if t = 0 then Some ((M1, w1), False)
         else do {
           (M2, w2) \<leftarrow> AddThreadEntry t THREAD_KERNEL_MAIN ''Main kernel thread'' 0 True (M1, w1);
           Some ((M2\<lparr>threading_initialized := True\<rparr>, w2), True)
         }
       }) (M, w))"

definition StartMultitasking :: "tm_state \<Rightarrow> tm_state option" where
  "StartMultitasking = (\<lambda>(M, w).
     if \<not> threading_initialized M then Some (M, w)
     else do {
       (M1, w1) \<leftarrow> CreateSystemThreads (M, w);
       Some (M1, if p_scheduler w1 then set_sched (EnablePreemption (p_sched w1)) w1 else w1)
     })"

section \<open>Ending and suspending threads\<close>

definition TerminateThread :: "u32 \<Rightarrow> tm_state \<Rightarrow> (tm_state \<times> bool) option" where
  "TerminateThread tid = (\<lambda>(M, w).
     if \<not> p_scheduler w then Some ((M, w), False)
     else tm_guarded (\<lambda>mw. do {
       (M1, w1) \<leftarrow> RemoveThreadEntry tid mw;
       (s1, ok) \<leftarrow> KillTask tid (p_sched w1);
       Some ((M1, set_sched s1 w1), ok)
     }) (M, w))"

definition SuspendThread :: "u32 \<Rightarrow> tm_state \<Rightarrow> (tm_state \<times> bool) option" where
  "SuspendThread tid = (\<lambda>(M, w).
     if \<not> p_scheduler w then Some ((M, w), False)
     else do { (s1, ok) \<leftarrow> SuspendTask tid (p_sched w); Some ((M, set_sched s1 w), ok) })"

definition ResumeThread :: "u32 \<Rightarrow> tm_state \<Rightarrow> (tm_state \<times> bool) option" where
  "ResumeThread tid = (\<lambda>(M, w).
     if \<not> p_scheduler w then Some ((M, w), False)
     else do { (s1, ok) \<leftarrow> ResumeTask tid (p_sched w); Some ((M, set_sched s1 w), ok) })"

text \<open>\<^verbatim>\<open>g_scheduler->KillTask(...)\<close> without a test of the pointer.\<close>

definition kill :: "u32 \<Rightarrow> procs \<Rightarrow> procs option" where
  "kill thread w =
     (if \<not> p_scheduler w then None
      else do { (s1, _) \<leftarrow> KillTask (task_id (tsk (p_sched w) thread)) (p_sched w); Some (set_sched s1 w) })"

partial_function (option) kill_user_loop :: "u32 \<Rightarrow> procs \<Rightarrow> procs option" where
  "kill_user_loop entry w =
     (if entry = 0 then Some w
      else do {
        let e = entries w entry;
        w1 \<leftarrow> (if te_thread e \<noteq> 0 \<and> \<not> te_is_system e then kill (te_thread e) w else Some w);
        kill_user_loop (te_next (entries w1 entry)) w1
      })"

definition TerminateAllUserThreads :: "tm_state \<Rightarrow> tm_state option" where
  "TerminateAllUserThreads mw = do {
     (mw1, _) \<leftarrow> tm_guarded (\<lambda>(M, w). do { w1 \<leftarrow> kill_user_loop (thread_registry M) w; Some ((M, w1), ()) }) mw;
     Some mw1
   }"

partial_function (option) kill_all_loop :: "tm_state \<Rightarrow> tm_state option" where
  "kill_all_loop mw =
     (let entry = thread_registry (fst mw); e = entries (snd mw) entry
      in if entry = 0 then Some mw
         else do {
           w1 \<leftarrow> (if te_thread e \<noteq> 0 then kill (te_thread e) (snd mw) else Some (snd mw));
           h1 \<leftarrow> Heap_Free entry (pheap w1);
           kill_all_loop ((fst mw)\<lparr>thread_registry := te_next e\<rparr>, set_pheap h1 w1)
         })"

definition TerminateAllThreads :: "tm_state \<Rightarrow> tm_state option" where
  "TerminateAllThreads mw = do {
     (mw1, _) \<leftarrow> tm_guarded (\<lambda>mw. do {
       (M, w) \<leftarrow> kill_all_loop mw;
       Some ((M\<lparr>thread_count := 0, system_thread_count := 0, user_thread_count := 0\<rparr>, w), ())
     }) mw;
     Some mw1
   }"

definition ThreadManager_delete :: "tm_state \<Rightarrow> tm_state option" where
  "ThreadManager_delete mw = do {
     (M, w) \<leftarrow> TerminateAllThreads mw;
     (m, s1) \<leftarrow> Mutex_delete (p_scheduler w) (tm_mutex M, p_sched w);
     Some (set_tm_mutex m M, set_sched s1 w)
   }"

section \<open>Commands and programs\<close>

definition ExecuteCommand :: "string option \<Rightarrow> tm_state \<Rightarrow> (tm_state \<times> u32) option" where
  "ExecuteCommand command = (\<lambda>(M, w).
     case command of None \<Rightarrow> Some ((M, w), 0)
     | Some cmd \<Rightarrow>
       if \<not> p_scheduler w then Some ((M, w), 0)
       else do {
         (h1, ctx) \<leftarrow> Heap_Alloc sizeof_CommandContext 8 (pheap w);
         if ctx = 0 then Some ((M, set_pheap h1 w), 0)
         else do {
           let caller = current_thread (p_sched w);
           let w1 = (set_pheap h1 w)\<lparr>commands := (commands w)(ctx := \<lparr>cc_command = take 255 cmd, cc_caller_thread_id = caller\<rparr>)\<rparr>;
           ((M2, w2), tid) \<leftarrow> CreateUserThread (command_executor_entry (code w1)) 4096 PRIORITY_NORMAL ''command-executor'' caller (M, w1);
           if tid \<noteq> 0 then Some ((M2, w2), tid)
           else do { h3 \<leftarrow> Heap_Free ctx (pheap w2); Some ((M2, set_pheap h3 w2), 0) }
         }
       })"

definition set_pid :: "u32 \<Rightarrow> u32 \<Rightarrow> procs \<Rightarrow> procs" where
  "set_pid entry pid w = w\<lparr>entries := (entries w)(entry := (entries w entry)\<lparr>te_pid := pid\<rparr>)\<rparr>"

definition proc_name :: "string option \<Rightarrow> string" where
  "proc_name nm = (case nm of None \<Rightarrow> ''proc'' | Some n \<Rightarrow> if n = [] then ''proc'' else n)"

text \<open>The part of \<^verbatim>\<open>SpawnProcess\<close> under the lock; the result has the thread id and the pid.\<close>

definition register_entry ::
  "u32 \<Rightarrow> string \<Rightarrow> u32 \<Rightarrow> tm_state \<Rightarrow> (tm_state \<times> u32 \<times> u32 option) option" where
  "register_entry thread description parent_id = (\<lambda>(M, w). do {
     let pid = s_next_pid w;
     (M1, w1) \<leftarrow> AddThreadEntry thread THREAD_USER_PROCESS description parent_id False (M, w\<lparr>s_next_pid := pid + 1\<rparr>);
     w2 \<leftarrow> (if thread_registry M1 \<noteq> 0 \<and> te_thread (entries w1 (thread_registry M1)) = thread
            then Some (set_pid (thread_registry M1) pid w1)
            else do {
              e \<leftarrow> FindThreadEntry (task_id (tsk (p_sched w1) thread)) (M1, w1);
              Some (if e \<noteq> 0 then set_pid e pid w1 else w1)
            });
     Some ((M1, w2), task_id (tsk (p_sched w2) thread), Some pid)
   })"

definition register_process ::
  "u32 \<Rightarrow> string \<Rightarrow> u32 \<Rightarrow> tm_state \<Rightarrow> (tm_state \<times> u32 \<times> u32 option) option" where
  "register_process thread description parent_id = tm_guarded (register_entry thread description parent_id)"

definition SpawnProcess ::
  "string option \<Rightarrow> string option \<Rightarrow> u32 \<Rightarrow> ThreadPriority \<Rightarrow> u32 \<Rightarrow> tm_state \<Rightarrow> (tm_state \<times> u32 \<times> u32 option) option" where
  "SpawnProcess elf_path nm stack_sz pri parent_id = (\<lambda>(M, w).
     case elf_path of None \<Rightarrow> Some ((M, w), 0, None)
     | Some pth \<Rightarrow>
       if \<not> p_scheduler w \<or> pth = [] then Some ((M, w), 0, None)
       else do {
         (h1, ctx) \<leftarrow> Heap_Alloc sizeof_ProcLaunchCtx 8 (pheap w);
         if ctx = 0 then Some ((M, set_pheap h1 w), 0, None)
         else do {
           let c = \<lparr>pl_path = take 159 pth, pl_name = (case nm of None \<Rightarrow> [] | Some n \<Rightarrow> take 31 n)\<rparr>;
           let w1 = (set_pheap h1 w)\<lparr>launches := (launches w)(ctx := c), g_pl_ctx_slot := ctx\<rparr>;
           (s2, thread) \<leftarrow> CreateTask (elf_trampoline_entry (code w1)) stack_sz pri (proc_name nm) (p_sched w1);
           let w2 = set_sched s2 w1;
           if thread = 0
           then do { h3 \<leftarrow> Heap_Free ctx (pheap w2); Some ((M, (set_pheap h3 w2)\<lparr>g_pl_ctx_slot := 0\<rparr>), 0, None) }
           else register_process thread (proc_name nm) parent_id (M, w2)
         }
       })"

section \<open>Output\<close>

definition print_entry :: "tstore \<Rightarrow> ThreadEntry \<Rightarrow> tty_write list" where
  "print_entry ts e =
     (if te_thread e = 0 then []
      else let t = ts (te_thread e)
        in [TTY_Write ''Thread '', TTY_WriteHex (ucast (task_id t)), TTY_Write '': '', TTY_Write (te_description e),
            TTY_Write '' ['', TTY_Write (if te_is_system e then ''SYSTEM'' else ''USER''),
            TTY_Write ''] State: '', TTY_Write (StateToString (task_state t)),
            TTY_Write '' Priority: '', TTY_Write (PriorityToString (priority t))] @
           (if te_parent_id e \<noteq> 0 then [TTY_Write '' Parent: '', TTY_WriteHex (ucast (te_parent_id e))] else []) @
           [TTY_Write ''\<newline>''])"

partial_function (option) print_entries :: "procs \<Rightarrow> tty_write list \<Rightarrow> u32 \<Rightarrow> tty_write list option" where
  "print_entries w out entry =
     (if entry = 0 then Some out
      else print_entries w (out @ print_entry (threads (p_sched w)) (entries w entry)) (te_next (entries w entry)))"

definition PrintAllThreads :: "tm_state \<Rightarrow> (tm_state \<times> tty_write list) option" where
  "PrintAllThreads = tm_guarded (\<lambda>(M, w). do {
     out \<leftarrow> print_entries w
       [TTY_Write ''=== Thread Manager Status ===\<newline>'', TTY_Write ''Total threads: '', TTY_WriteHex (ucast (thread_count M)),
        TTY_Write '' (System: '', TTY_WriteHex (ucast (system_thread_count M)),
        TTY_Write '', User: '', TTY_WriteHex (ucast (user_thread_count M)), TTY_Write '')\<newline>''] (thread_registry M);
     Some ((M, w), out)
   })"

section \<open>The calls for the rest of the kernel\<close>

type_synonym tm_api = "ThreadManager option \<times> procs"

definition with_tm :: "'r \<Rightarrow> (tm_state \<Rightarrow> (tm_state \<times> 'r) option) \<Rightarrow> tm_api \<Rightarrow> (tm_api \<times> 'r) option" where
  "with_tm dflt f = (\<lambda>(g, w). case g of None \<Rightarrow> Some ((g, w), dflt)
     | Some M \<Rightarrow> do { ((M1, w1), r) \<leftarrow> f (M, w); Some ((Some M1, w1), r) })"

definition TM_InitializeThreading :: "tm_api \<Rightarrow> (tm_api \<times> bool) option" where
  "TM_InitializeThreading = (\<lambda>(g, w). do {
     (M, w1) \<leftarrow> (case g of Some M \<Rightarrow> Some (M, w)
       | None \<Rightarrow> do {
           (h1, p) \<leftarrow> operator_new sizeof_ThreadManager (pheap w);
           if p = 0 then None else do { (M, h2) \<leftarrow> ThreadManager_init h1; Some (M, set_pheap h2 w) }
         });
     ((M2, w2), ok) \<leftarrow> Initialize (M, w1);
     Some ((Some M2, w2), ok)
   })"

definition TM_StartMultitasking :: "tm_api \<Rightarrow> (tm_api \<times> unit) option" where
  "TM_StartMultitasking = with_tm () (\<lambda>mw. do { mw1 \<leftarrow> StartMultitasking mw; Some (mw1, ()) })"

definition TM_CreateThread :: "u32 \<Rightarrow> u32 \<Rightarrow> ThreadPriority \<Rightarrow> string \<Rightarrow> tm_api \<Rightarrow> (tm_api \<times> u32) option" where
  "TM_CreateThread entry_point stack_sz pri description = with_tm 0 (CreateUserThread entry_point stack_sz pri description 0)"

definition TM_CreateSystemThread ::
  "u32 \<Rightarrow> SystemThreadType \<Rightarrow> u32 \<Rightarrow> ThreadPriority \<Rightarrow> string \<Rightarrow> tm_api \<Rightarrow> (tm_api \<times> u32) option" where
  "TM_CreateSystemThread entry_point ty stack_sz pri description =
     with_tm 0 (CreateSystemThread entry_point stack_sz pri ty description 0)"

definition TM_SpawnProcess ::
  "string option \<Rightarrow> string option \<Rightarrow> u32 \<Rightarrow> ThreadPriority \<Rightarrow> u32 \<Rightarrow> tm_api \<Rightarrow> (tm_api \<times> u32 \<times> u32 option) option" where
  "TM_SpawnProcess elf_path nm stack_sz pri parent_id = with_tm (0, None) (SpawnProcess elf_path nm stack_sz pri parent_id)"

definition TM_TerminateThread :: "u32 \<Rightarrow> tm_api \<Rightarrow> (tm_api \<times> bool) option" where
  "TM_TerminateThread tid = with_tm False (TerminateThread tid)"

definition TM_ExecuteCommand :: "string option \<Rightarrow> tm_api \<Rightarrow> (tm_api \<times> u32) option" where
  "TM_ExecuteCommand command = with_tm 0 (ExecuteCommand command)"

definition TM_GetCurrentThreadId :: "procs \<Rightarrow> u32" where
  "TM_GetCurrentThreadId w = (if p_scheduler w then current_thread (p_sched w) else 0)"

definition TM_PrintThreadStatus :: "tm_api \<Rightarrow> (tm_api \<times> tty_write list) option" where
  "TM_PrintThreadStatus = with_tm [TTY_Write ''Thread manager not initialized\<newline>''] PrintAllThreads"

section \<open>New threads in the memory pool\<close>

lemma pool_memset:
  assumes i: "pool_inv h g" and a: "heap_area g u u (unat n)"
  shows "pool_inv (h\<lparr>hmem := libc_memset (hmem h) u c n\<rparr>) g"
    "heap_area g w v m \<Longrightarrow> w \<noteq> u \<Longrightarrow> bytes_at (libc_memset (hmem h) u c n) v m = bytes_at (hmem h) v m"
proof -
  note b = heap_area_bound [OF i a]
  have "pool_inv (h\<lparr>hmem := for_range 0 n (\<lambda>i m. m(u + i := ucast (c AND 0xFF))) (hmem h)\<rparr>) g"
  proof (rule for_range_rule_any [where P = "\<lambda>m. pool_inv (h\<lparr>hmem := m\<rparr>) g"])
    fix j m assume j: "j < n" and m: "pool_inv (h\<lparr>hmem := m\<rparr>) g"
    have "unat (u + j) = unat u + unat j" using j b by (simp add: unat_add_nowrap word_less_nat_alt)
    then show "pool_inv (h\<lparr>hmem := m(u + j := ucast (c AND 0xFF))\<rparr>) g"
      using kpool.pool_poke [OF m a, of "u + j" "ucast (c AND 0xFF)"] j by (simp add: heap_poke_def word_less_nat_alt)
  qed (use i in simp)
  then show "pool_inv (h\<lparr>hmem := libc_memset (hmem h) u c n\<rparr>) g" by (simp add: libc_memset_def)
  assume v: "heap_area g w v m" "w \<noteq> u"
  show "bytes_at (libc_memset (hmem h) u c n) v m = bytes_at (hmem h) v m"
  proof (rule bytes_at_cong [OF heap_area_bound [OF i v(1)]])
    fix x :: u32 assume "unat v \<le> unat x" "unat x < unat v + m"
    then have "\<not> (unat u \<le> unat x \<and> unat x < unat u + unat n)"
      using heap_area_disjoint [OF i v(1) a v(2)] by (auto simp: disjoint_bytes_def)
    then show "libc_memset (hmem h) u c n x = hmem h x"
      using memset_spec [OF b, of "hmem h" c x] by (auto simp: libc_memset_def String_memset_def)
  qed
qed

lemma AllocateStack_pool:
  assumes i: "pool_inv h g" and n: "0 < unat n" "unat n \<le> 4294967259" and t: "stack_base t = 0"
  shows "\<exists>h' u g'. pool_inv h' g' \<and> areas_kept h g h' g' \<and>
    AllocateStack n (t, h) = Some ((t\<lparr>stack_base := u, stack_size := if u = 0 then 0 else n\<rparr>, h'), u \<noteq> 0)"
proof -
  obtain h1 u g1 where al: "operator_new n h = Some (h1, u)" "pool_inv h1 g1" "areas_kept h g h1 g1"
    "u \<noteq> 0 \<longrightarrow> heap_area g1 u u (unat n) \<and> (\<forall>w v m. heap_area g w v m \<longrightarrow> w \<noteq> u)"
    using kpool.pool_alloc [OF i n] by (elim exE conjE)
  show ?thesis
  proof (cases "u = 0")
    case True
    with al(1-3) t show ?thesis
      by (intro exI [of _ h1] exI [of _ "0 :: u32"] exI [of _ g1]) (simp add: AllocateStack_def operator_new_def)
  next
    case False
    with al(4) have a: "heap_area g1 u u (unat n)" "\<forall>w v m. heap_area g w v m \<longrightarrow> w \<noteq> u" by blast+
    let ?h = "h1\<lparr>hmem := libc_memset (hmem h1) u 0 n\<rparr>"
    have "areas_kept h g ?h g1"
    proof (intro allI impI)
      fix w v m assume w: "heap_area g w v m"
      then have "heap_area g1 w v m" "bytes_at (hmem h1) v m = bytes_at (hmem h) v m" "w \<noteq> u" using al(3) a(2) by blast+
      with pool_memset(2) [OF al(2) a(1), of w v m 0] show "heap_area g1 w v m \<and> bytes_at (hmem ?h) v m = bytes_at (hmem h) v m" by simp
    qed
    with pool_memset(1) [OF al(2) a(1), of 0] False al(1) t show ?thesis
      by (intro exI [of _ ?h] exI [of _ u] exI [of _ g1]) (simp add: AllocateStack_def operator_new_def)
  qed
qed

lemma CreateThread_pool:
  assumes i: "pool_inv h g" and n: "0 < unat n" "unat n \<le> 4294967259"
  shows "\<exists>ts' h' p g'. CreateThread tid entry n pr nm (ts, h) = Some ((ts', h'), p) \<and> pool_inv h' g' \<and> areas_kept h g h' g' \<and>
    (\<forall>w v m. heap_area g w v m \<longrightarrow> ts' w = ts w) \<and>
    (p \<noteq> 0 \<longrightarrow> heap_area g' p p 108 \<and> (\<forall>w v m. heap_area g w v m \<longrightarrow> w \<noteq> p) \<and> task_id (ts' p) = tid \<and> r_eip (ctxt (ts' p)) = entry)"
proof -
  obtain h1 p g1 where al: "operator_new 108 h = Some (h1, p)" "pool_inv h1 g1" "areas_kept h g h1 g1"
    "p \<noteq> 0 \<longrightarrow> heap_area g1 p p 108 \<and> (\<forall>w v m. heap_area g w v m \<longrightarrow> w \<noteq> p)"
    using kpool.pool_alloc [OF i, of 108] by auto
  show ?thesis
  proof (cases "p = 0")
    case True
    with al(1-3) show ?thesis by (intro exI [of _ ts] exI [of _ h1] exI [of _ "0 :: u32"] exI [of _ g1]) (simp add: CreateThread_def)
  next
    case False
    let ?t = "Thread_new\<lparr>task_id := tid, priority := pr, stack_size := n, task_name := nm, task_state := TASK_READY,
      time_slice := CalculateTimeSlice pr\<rparr>"
    have "stack_base ?t = 0" by (simp add: Thread_new_def)
    from AllocateStack_pool [OF al(2) n this] obtain h2 u g2 where st: "pool_inv h2 g2" "areas_kept h1 g1 h2 g2"
      "AllocateStack n (?t, h1) = Some ((?t\<lparr>stack_base := u, stack_size := if u = 0 then 0 else n\<rparr>, h2), u \<noteq> 0)"
      by (elim exE conjE)
    have k: "areas_kept h g h2 g2" using al(3) st(2) by metis
    have fr: "\<forall>w v m. heap_area g w v m \<longrightarrow> w \<noteq> p" "heap_area g2 p p 108" using al(4) st(2) False by blast+
    show ?thesis
    proof (cases "u = 0")
      case True
      obtain ts' where "CreateThread tid entry n pr nm (ts, h) = Some ((ts', h2), 0)" "\<forall>q. q \<noteq> p \<longrightarrow> ts' q = ts q"
        using al(1) st(3) True False
        by (simp add: CreateThread_def Thread_Initialize_def delete_Thread_def Thread_Cleanup_def FreeStack_def operator_delete_def)
      with st(1) k fr(1) show ?thesis by (intro exI [of _ ts'] exI [of _ h2] exI [of _ "0 :: u32"] exI [of _ g2]) auto
    next
      case u: False
      obtain t where "CreateThread tid entry n pr nm (ts, h) = Some ((ts(p := t), h2), p)" "task_id t = tid" "r_eip (ctxt t) = entry"
        using al(1) st(3) False u by (simp add: CreateThread_def Thread_Initialize_def SetupInitialStack_def)
      with st(1) k fr show ?thesis
        by (intro exI [of _ "ts(p := t)"] exI [of _ h2] exI [of _ p] exI [of _ g2]) auto
    qed
  qed
qed

lemma CreateTask_pool:
  assumes i: "pool_inv (sched_heap s) g" and n: "0 < unat n" "unat n \<le> 4294967259"
  shows "\<exists>s' p g'. CreateTask entry n pr nm s = Some (s', p) \<and> pool_inv (sched_heap s') g' \<and>
    areas_kept (sched_heap s) g (sched_heap s') g' \<and> current_task s' = current_task s \<and> next_task_id s' = next_task_id s + 1 \<and>
    (\<forall>w v m. heap_area g w v m \<longrightarrow> task_id (tsk s' w) = task_id (tsk s w)) \<and>
    (p \<noteq> 0 \<longrightarrow> heap_area g' p p 108 \<and> (\<forall>w v m. heap_area g w v m \<longrightarrow> w \<noteq> p) \<and> task_id (tsk s' p) = next_task_id s)"
proof -
  obtain ts h p g' where c: "CreateThread (next_task_id s) entry n pr nm (threads s, sched_heap s) = Some ((ts, h), p)"
    "pool_inv h g'" "areas_kept (sched_heap s) g h g'" "\<forall>w v m. heap_area g w v m \<longrightarrow> ts w = threads s w"
    "p \<noteq> 0 \<longrightarrow> heap_area g' p p 108 \<and> (\<forall>w v m. heap_area g w v m \<longrightarrow> w \<noteq> p) \<and> task_id (ts p) = next_task_id s \<and> r_eip (ctxt (ts p)) = entry"
    using CreateThread_pool [OF i n, of "next_task_id s" entry pr nm "threads s"] by (elim exE conjE)
  let ?s = "s\<lparr>next_task_id := next_task_id s + 1, threads := ts, sched_heap := h\<rparr>"
  let ?r = "if p = 0 then ?s else AddToReadyQueue p ?s"
  have r: "sched_heap ?r = h" "current_task ?r = current_task s" "next_task_id ?r = next_task_id s + 1"
    "task_id (tsk ?r q) = task_id (ts q)" for q
    by (auto simp: AddToReadyQueue_def upd_task_def Let_def)
  have "CreateTask entry n pr nm s = Some (?r, p)" using c(1) by (simp add: CreateTask_def)
  with c(2-5) r show ?thesis by (intro exI [of _ ?r] exI [of _ p] exI [of _ g']) auto
qed

section \<open>The registry as a list\<close>

text \<open>
  The entries \<open>es\<close> of the registry in order. Thread objects are never returned to the heap, so
  the threads of the entries stay allocated.
\<close>

definition entry_ok :: "nat \<times> blk list \<Rightarrow> procs \<Rightarrow> u32 \<Rightarrow> bool" where
  "entry_ok g w e \<longleftrightarrow> heap_area g e e 28 \<and> te_thread (entries w e) \<noteq> 0 \<and>
     heap_area g (te_thread (entries w e)) (te_thread (entries w e)) 108"

definition tm_ok :: "ThreadManager \<Rightarrow> procs \<Rightarrow> nat \<times> blk list \<Rightarrow> u32 list \<Rightarrow> bool" where
  "tm_ok M w g es \<longleftrightarrow> pool_inv (pheap w) g \<and> tm_mutex M = Mutex_new \<and>
     chain (\<lambda>e. te_next (entries w e)) (thread_registry M) es \<and> distinct es \<and> (\<forall>e \<in> set es. entry_ok g w e) \<and>
     (current_task (p_sched w) = 0 \<or> heap_area g (current_task (p_sched w)) (current_task (p_sched w)) 108) \<and>
     thread_count M = of_nat (length es) \<and>
     system_thread_count M = of_nat (length (filter (\<lambda>e. te_is_system (entries w e)) es)) \<and>
     user_thread_count M = of_nat (length (filter (\<lambda>e. \<not> te_is_system (entries w e)) es))"

text \<open>Thread ids and process ids of the entries.\<close>

definition reg :: "procs \<Rightarrow> u32 list \<Rightarrow> (u32 \<times> u32) list" where
  "reg w es = map (\<lambda>e. (task_id (tsk (p_sched w) (te_thread (entries w e))), te_pid (entries w e))) es"

definition pid_of :: "u32 \<Rightarrow> (u32 \<times> u32) list \<Rightarrow> u32" where
  "pid_of tid r = (case map_of r tid of None \<Rightarrow> 0 | Some pid \<Rightarrow> pid)"

lemma find_entry_chain:
  assumes "chain (\<lambda>e. te_next (st e)) p es" "\<forall>e \<in> set es. te_thread (st e) \<noteq> 0"
  shows "find_entry st ts tid p =
    Some (case filter (\<lambda>e. task_id (ts (te_thread (st e))) = tid) es of [] \<Rightarrow> 0 | e # _ \<Rightarrow> e)"
  using assms
proof (induction es arbitrary: p)
  case (Cons e es)
  then show ?case by (subst find_entry.simps) simp
qed (simp add: find_entry.simps)

lemma set_tm_mutex_simps [simp]:
  "thread_registry (set_tm_mutex m M) = thread_registry M" "tm_mutex (set_tm_mutex m M) = m"
  "thread_count (set_tm_mutex m M) = thread_count M" "system_thread_count (set_tm_mutex m M) = system_thread_count M"
  "user_thread_count (set_tm_mutex m M) = user_thread_count M" "set_tm_mutex m (set_tm_mutex m' M) = set_tm_mutex m M"
  by (simp_all add: set_tm_mutex_def)

lemma set_pheap_simps [simp]:
  "sched_heap (p_sched (set_pheap h w)) = h" "threads (p_sched (set_pheap h w)) = threads (p_sched w)"
  "current_task (p_sched (set_pheap h w)) = current_task (p_sched w)" "p_scheduler (set_pheap h w) = p_scheduler w"
  "entries (set_pheap h w) = entries w" "launches (set_pheap h w) = launches w" "s_next_pid (set_pheap h w) = s_next_pid w"
  "g_pl_ctx_slot (set_pheap h w) = g_pl_ctx_slot w" "next_task_id (p_sched (set_pheap h w)) = next_task_id (p_sched w)"
  "code (set_pheap h w) = code w"
  "current_thread (p_sched (set_pheap h w)) = current_thread (p_sched w)"
  by (simp_all add: set_pheap_def current_thread_def)

lemma FindThreadEntry_ok:
  assumes "tm_ok M w g es"
  shows "FindThreadEntry tid (set_tm_mutex m M, w) =
    Some (case filter (\<lambda>e. task_id (tsk (p_sched w) (te_thread (entries w e))) = tid) es of [] \<Rightarrow> 0 | e # _ \<Rightarrow> e)"
  using assms by (simp add: FindThreadEntry_def tm_ok_def find_entry_chain entry_ok_def)

lemma pid_of_filter:
  "pid_of tid (reg w es) = (case filter (\<lambda>e. task_id (tsk (p_sched w) (te_thread (entries w e))) = tid) es of [] \<Rightarrow> 0
     | e # _ \<Rightarrow> te_pid (entries w e))"
  by (induction es) (simp_all add: pid_of_def reg_def)

lemma GetPid_ok:
  assumes ok: "tm_ok M w g es"
  shows "GetPid tid (M, w) = Some ((M, w), pid_of tid (reg w es))"
proof -
  have nz: "e \<noteq> 0" if "filter P es = e # ys" for P e ys
  proof -
    have "e \<in> set (filter P es)" using that by simp
    with ok chain_nonzero [of _ _ es] show ?thesis by (auto simp: tm_ok_def)
  qed
  show ?thesis unfolding GetPid_def tm_guarded_def
    by (rule tm_lock.run_id)
      (use ok nz in \<open>auto simp: FindThreadEntry_ok [OF ok] pid_of_filter tm_ok_def split: list.split\<close>)
qed

text \<open>An entry is added in front; nothing changes when there is no memory for it.\<close>

lemma AddThreadEntry_ok:
  assumes ok: "tm_ok M w g es" and t: "t \<noteq> 0" "heap_area g t t 108"
  shows "\<exists>M1 w1 g1 e. AddThreadEntry t ty d parent sys (set_tm_mutex m M, w) = Some (set_tm_mutex m M1, w1) \<and>
    areas_kept (pheap w) g (pheap w1) g1 \<and> w1 = (set_pheap (pheap w1) w)\<lparr>entries := entries w1\<rparr> \<and> (\<forall>x \<in> set es. entries w1 x = entries w x) \<and>
    (if e = 0 then M1 = M \<and> entries w1 = entries w \<and> tm_ok M1 w1 g1 es
     else e \<notin> set es \<and> tm_ok M1 w1 g1 (e # es) \<and> thread_registry M1 = e \<and> te_thread (entries w1 e) = t \<and> te_pid (entries w1 e) = 0)"
proof -
  have i: "pool_inv (pheap w) g" using ok by (simp add: tm_ok_def)
  obtain h1 e g1 where al: "operator_new 28 (pheap w) = Some (h1, e)" "pool_inv h1 g1" "areas_kept (pheap w) g h1 g1"
    "e \<noteq> 0 \<longrightarrow> heap_area g1 e e 28 \<and> (\<forall>w v m. heap_area g w v m \<longrightarrow> w \<noteq> e)"
    using kpool.pool_alloc [OF i, of 28] by auto
  have al1: "Heap_Alloc 28 8 (pheap w) = Some (h1, e)" using al(1) by (simp add: operator_new_def)
  have eo: "entry_ok g1 (set_pheap h1 w) x" if "entry_ok g w x" for x using that al(3) unfolding entry_ok_def set_pheap_simps by blast
  show ?thesis
  proof (cases "e = 0")
    case True
    have "tm_ok M (set_pheap h1 w) g1 es" using ok al(2,3) eo unfolding tm_ok_def set_pheap_simps by blast
    with True al1 al(3) show ?thesis
      by (intro exI [of _ M] exI [of _ "set_pheap h1 w"] exI [of _ g1] exI [of _ 0]) (simp add: AddThreadEntry_def)
  next
    case False
    with al(4) have e: "heap_area g1 e e 28" "\<forall>w v m. heap_area g w v m \<longrightarrow> w \<noteq> e" by blast+
    have ne: "e \<notin> set es" using ok e(2) unfolding tm_ok_def entry_ok_def by blast
    let ?E = "\<lparr>te_thread = t, te_type = ty, te_description = d, te_parent_id = parent,
                  te_is_system = sys, te_pid = 0, te_next = thread_registry M\<rparr>"
    let ?w = "(set_pheap h1 w)\<lparr>entries := (entries w)(e := ?E)\<rparr>"
    let ?M = "(if sys then M\<lparr>thread_registry := e, thread_count := thread_count M + 1, system_thread_count := system_thread_count M + 1\<rparr>
                  else M\<lparr>thread_registry := e, thread_count := thread_count M + 1, user_thread_count := user_thread_count M + 1\<rparr>)"
    have run: "AddThreadEntry t ty d parent sys (set_tm_mutex m M, w) = Some (set_tm_mutex m ?M, ?w)"
      using al1 False by (simp add: AddThreadEntry_def set_tm_mutex_def)
    have "chain (\<lambda>x. te_next (entries ?w x)) (thread_registry M) es"
      using ok ne by (subst chain_cong [of es _ "\<lambda>x. te_next (entries w x)"]) (auto simp: tm_ok_def)
    then have "chain (\<lambda>x. te_next (entries ?w x)) e (e # es)" using False by simp
    moreover have "entry_ok g1 ?w x" if "x \<in> set (e # es)" for x
    proof (cases "x = e")
      case True
      with e(1) t al(3) show ?thesis by (simp add: entry_ok_def)
    next
      case False
      with that ok eo [of x] show ?thesis by (simp add: entry_ok_def tm_ok_def)
    qed
    moreover have "current_task (p_sched ?w) = 0 \<or> heap_area g1 (current_task (p_sched ?w)) (current_task (p_sched ?w)) 108"
      using ok al(3) unfolding tm_ok_def by auto
    moreover have "filter (\<lambda>x. te_is_system (entries ?w x)) es = filter (\<lambda>x. te_is_system (entries w x)) es"
      "filter (\<lambda>x. \<not> te_is_system (entries ?w x)) es = filter (\<lambda>x. \<not> te_is_system (entries w x)) es"
      using ne by (auto intro!: filter_cong)
    ultimately have "tm_ok ?M ?w g1 (e # es)" using ok al(2) ne by (simp add: tm_ok_def)
    with run al(3) ne False show ?thesis
      by (intro exI [of _ ?M] exI [of _ ?w] exI [of _ g1] exI [of _ e]) auto
  qed
qed

lemma current_thread_task:
  "current_task s' = current_task s \<Longrightarrow> current_task s = 0 \<or> task_id (tsk s' (current_task s)) = task_id (tsk s (current_task s)) \<Longrightarrow>
   current_thread s' = current_thread s"
  by (auto simp: current_thread_def)

text \<open>Storing a process id in the first entry of a thread id.\<close>

lemma set_pid_simps [simp]:
  "p_sched (set_pid e k w) = p_sched w" "p_scheduler (set_pid e k w) = p_scheduler w"
  "launches (set_pid e k w) = launches w" "g_pl_ctx_slot (set_pid e k w) = g_pl_ctx_slot w" "s_next_pid (set_pid e k w) = s_next_pid w"
  by (simp_all add: set_pid_def)

lemma set_pid_ok: "tm_ok M w g es \<Longrightarrow> tm_ok M (set_pid e k w) g es"
proof -
  have f: "te_next (entries (set_pid e k w) x) = te_next (entries w x)" "te_thread (entries (set_pid e k w) x) = te_thread (entries w x)"
    "te_is_system (entries (set_pid e k w) x) = te_is_system (entries w x)" for x
    by (simp_all add: set_pid_def)
  show "tm_ok M w g es \<Longrightarrow> tm_ok M (set_pid e k w) g es" by (simp add: tm_ok_def entry_ok_def f)
qed

lemma reg_Cons: "reg w (e # es) = (task_id (tsk (p_sched w) (te_thread (entries w e))), te_pid (entries w e)) # reg w es"
  by (simp add: reg_def)

lemma map_of_set_pid:
  assumes "distinct es" "filter (\<lambda>e. task_id (tsk (p_sched w) (te_thread (entries w e))) = tid) es = e # ys"
  shows "map_of (reg (set_pid e k w) es) = (map_of (reg w es))(tid \<mapsto> k)"
  using assms
proof (induction es)
  case (Cons x xs)
  show ?case
  proof (cases "x = e")
    case True
    with Cons.prems(1) have "reg (set_pid e k w) xs = reg w xs" by (auto simp: reg_def set_pid_def)
    moreover have "task_id (tsk (p_sched w) (te_thread (entries w e))) = tid"
    proof -
      have "e \<in> set (filter (\<lambda>e. task_id (tsk (p_sched w) (te_thread (entries w e))) = tid) (x # xs))" unfolding Cons.prems(2) by simp
      then show ?thesis unfolding set_filter by blast
    qed
    ultimately show ?thesis using True by (simp add: reg_Cons fun_eq_iff) (simp add: set_pid_def)
  next
    case False
    then have n: "task_id (tsk (p_sched w) (te_thread (entries w x))) \<noteq> tid" using Cons.prems(2) by (auto split: if_splits)
    with Cons.prems have "map_of (reg (set_pid e k w) xs) = (map_of (reg w xs))(tid \<mapsto> k)" by (intro Cons.IH) simp_all
    moreover have "entries (set_pid e k w) x = entries w x" using False by (simp add: set_pid_def)
    ultimately show ?thesis using n by (auto simp: reg_Cons)
  qed
qed simp

lemma reg_cong:
  "(\<And>e. e \<in> set es \<Longrightarrow> entries w' e = entries w e) \<Longrightarrow> threads (p_sched w') = threads (p_sched w) \<Longrightarrow> reg w' es = reg w es"
  by (simp add: reg_def)

text \<open>What registering a process does to the ids: the new pid belongs to the thread's id if the registry knows this id.\<close>

definition assigned :: "u32 \<Rightarrow> u32 \<Rightarrow> (u32 \<times> u32) list \<Rightarrow> (u32 \<times> u32) list \<Rightarrow> bool" where
  "assigned tid k r r1 \<longleftrightarrow> map_of r1 = (if tid \<in> fst ` set r1 then (map_of r)(tid \<mapsto> k) else map_of r)"

lemma register_body:
  assumes ok: "tm_ok M w g es" and t: "t \<noteq> 0" "heap_area g t t 108" "\<forall>e \<in> set es. te_thread (entries w e) \<noteq> t"
  defines "tid \<equiv> task_id (tsk (p_sched w) t)" and "k \<equiv> s_next_pid w"
  shows "\<exists>M1 w1 g1 es1. register_entry t d parent (set_tm_mutex m M, w) = Some ((set_tm_mutex m M1, w1), tid, Some k) \<and>
    tm_ok M1 w1 g1 es1 \<and> areas_kept (pheap w) g (pheap w1) g1 \<and> s_next_pid w1 = k + 1 \<and> launches w1 = launches w \<and>
    g_pl_ctx_slot w1 = g_pl_ctx_slot w \<and> p_scheduler w1 = p_scheduler w \<and> p_sched w1 = (p_sched w)\<lparr>sched_heap := pheap w1\<rparr> \<and>
    (es1 = es \<or> (\<exists>e. es1 = e # es)) \<and> assigned tid k (reg w es) (reg w1 es1)"
proof -
  let ?w = "w\<lparr>s_next_pid := k + 1\<rparr>"
  have ok0: "tm_ok M ?w g es" using ok by (simp add: tm_ok_def entry_ok_def)
  obtain M1 w1 g1 e where a: "AddThreadEntry t THREAD_USER_PROCESS d parent False (set_tm_mutex m M, ?w) = Some (set_tm_mutex m M1, w1)"
    "areas_kept (pheap ?w) g (pheap w1) g1" "w1 = (set_pheap (pheap w1) ?w)\<lparr>entries := entries w1\<rparr>"
    "\<forall>x \<in> set es. entries w1 x = entries ?w x"
    "if e = 0 then M1 = M \<and> entries w1 = entries ?w \<and> tm_ok M1 w1 g1 es
     else e \<notin> set es \<and> tm_ok M1 w1 g1 (e # es) \<and> thread_registry M1 = e \<and> te_thread (entries w1 e) = t \<and> te_pid (entries w1 e) = 0"
    using AddThreadEntry_ok [OF ok0 t(1,2), of THREAD_USER_PROCESS d parent False m] by (elim exE conjE) (rule that)
  have f: "threads (p_sched w1) = threads (p_sched w)" "s_next_pid w1 = k + 1" "launches w1 = launches w" "g_pl_ctx_slot w1 = g_pl_ctx_slot w"
    "p_scheduler w1 = p_scheduler w" "p_sched w1 = (p_sched w)\<lparr>sched_heap := pheap w1\<rparr>"
    by (subst a(3); simp add: set_pheap_def)+
  have r: "reg w1 es = reg w es" using a(4) f(1) by (intro reg_cong) simp_all
  show ?thesis
  proof (cases "e = 0")
    case False
    with a(5) have e: "e \<notin> set es" "tm_ok M1 w1 g1 (e # es)" "thread_registry M1 = e" "te_thread (entries w1 e) = t" by simp_all
    have "reg (set_pid e k w1) es = reg w es" using e(1) a(4) f(1) by (intro reg_cong) (auto simp: set_pid_def)
    moreover have "reg (set_pid e k w1) (e # es) = (tid, k) # reg (set_pid e k w1) es"
      using e(4) f(1) by (simp add: reg_def set_pid_def tid_def)
    ultimately have "assigned tid k (reg w es) (reg (set_pid e k w1) (e # es))" by (simp add: assigned_def)
    with a(1,2) e f False set_pid_ok [OF e(2), of e k] show ?thesis
      by (intro exI [of _ M1] exI [of _ "set_pid e k w1"] exI [of _ g1] exI [of _ "e # es"]) (simp add: tid_def register_entry_def k_def [symmetric])
  next
    case True
    with a(5) have e: "M1 = M" "entries w1 = entries w" "tm_ok M w1 g1 es" by auto
    have h: "\<not> (thread_registry M \<noteq> 0 \<and> te_thread (entries w1 (thread_registry M)) = t)"
      using ok t(3) e(2) chain_head [of _ "thread_registry M" es] by (cases es) (auto simp: tm_ok_def)
    let ?hits = "filter (\<lambda>e. task_id (tsk (p_sched w1) (te_thread (entries w1 e))) = tid) es"
    note fe = FindThreadEntry_ok [OF e(3), of tid m]
    show ?thesis
    proof (cases ?hits)
      case Nil
      then have "tid \<notin> fst ` set (reg w1 es)" by (auto simp: reg_def filter_empty_conv)
      then have "assigned tid k (reg w es) (reg w1 es)" using r by (simp add: assigned_def)
      with a(1,2) e f h fe Nil show ?thesis
        by (intro exI [of _ M] exI [of _ w1] exI [of _ g1] exI [of _ es]) (auto simp: tid_def register_entry_def k_def [symmetric])
    next
      case (Cons x ys)
      then have "x \<in> set ?hits" by simp
      then have x: "x \<in> set es" "task_id (tsk (p_sched w1) (te_thread (entries w1 x))) = tid" unfolding set_filter by blast+
      then have "x \<noteq> 0" using e(3) chain_nonzero [of _ _ es] by (auto simp: tm_ok_def)
      have "distinct es" using ok by (simp add: tm_ok_def)
      then have "map_of (reg (set_pid x k w1) es) = (map_of (reg w es))(tid \<mapsto> k)" using map_of_set_pid [OF _ Cons, of k] r by simp
      moreover have "tid \<in> fst ` set (reg (set_pid x k w1) es)"
      proof -
        have "fst ` set (reg (set_pid x k w1) es) = fst ` set (reg w1 es)"
          unfolding reg_def set_map image_image fst_conv by (rule image_cong [OF refl]) (simp add: set_pid_def)
        moreover have "tid \<in> fst ` set (reg w1 es)" using x by (force simp: reg_def)
        ultimately show ?thesis by simp
      qed
      ultimately have "assigned tid k (reg w es) (reg (set_pid x k w1) es)" by (simp add: assigned_def)
      with a(1,2) e f h fe Cons \<open>x \<noteq> 0\<close> set_pid_ok [OF e(3), of x k] show ?thesis
        by (intro exI [of _ M] exI [of _ "set_pid x k w1"] exI [of _ g1] exI [of _ es]) (auto simp: tid_def register_entry_def k_def [symmetric])
    qed
  qed
qed

lemma register_process_ok:
  assumes "tm_ok M w g es" "t \<noteq> 0" "heap_area g t t 108" "\<forall>e \<in> set es. te_thread (entries w e) \<noteq> t"
  shows "\<exists>M1 w1 g1 es1. register_process t d parent (M, w) = Some ((M1, w1), task_id (tsk (p_sched w) t), Some (s_next_pid w)) \<and>
    tm_ok M1 w1 g1 es1 \<and> areas_kept (pheap w) g (pheap w1) g1 \<and> s_next_pid w1 = s_next_pid w + 1 \<and> launches w1 = launches w \<and>
    g_pl_ctx_slot w1 = g_pl_ctx_slot w \<and> (es1 = es \<or> (\<exists>e. es1 = e # es)) \<and>
    assigned (task_id (tsk (p_sched w) t)) (s_next_pid w) (reg w es) (reg w1 es1)"
proof -
  let ?m = "lock_held (p_scheduler w) (p_sched w)"
  have lk: "tm_mutex M = Mutex_new" using assms(1) by (simp add: tm_ok_def)
  note rb = register_body [OF assms, of d parent ?m]
  from rb obtain M1 w1 g1 es1 where r: "tm_ok M1 w1 g1 es1" "areas_kept (pheap w) g (pheap w1) g1"
    "s_next_pid w1 = s_next_pid w + 1" "launches w1 = launches w" "g_pl_ctx_slot w1 = g_pl_ctx_slot w" "p_scheduler w1 = p_scheduler w"
    "p_sched w1 = (p_sched w)\<lparr>sched_heap := pheap w1\<rparr>" "es1 = es \<or> (\<exists>e. es1 = e # es)"
    "assigned (task_id (tsk (p_sched w) t)) (s_next_pid w) (reg w es) (reg w1 es1)"
    and body: "register_entry t d parent (set_tm_mutex ?m M, w) =
      Some ((set_tm_mutex ?m M1, w1), task_id (tsk (p_sched w) t), Some (s_next_pid w))"
    by (elim exE conjE) (rule that)
  have "current_thread (p_sched w1) = current_thread (p_sched w)" using r(7) by (metis current_thread_heap)
  from tm_lock.run_idle [where body = "register_entry t d parent", OF lk body _ r(6) this] have "register_process t d parent (M, w) =
      Some ((set_tm_mutex Mutex_new M1, w1), task_id (tsk (p_sched w) t), Some (s_next_pid w))"
    by (simp add: register_process_def tm_guarded_def)
  moreover have "set_tm_mutex Mutex_new M1 = M1" using r(1) by (simp add: tm_ok_def set_tm_mutex_def)
  ultimately show ?thesis using r by (intro exI [of _ M1] exI [of _ w1] exI [of _ g1] exI [of _ es1]) simp
qed

lemma tm_ok_frame:
  assumes "tm_ok M w g es" "pool_inv (pheap w') g'" "\<forall>x v m. heap_area g x v m \<longrightarrow> heap_area g' x v m"
    "entries w' = entries w" "current_task (p_sched w') = current_task (p_sched w)"
  shows "tm_ok M w' g' es"
  using assms unfolding tm_ok_def entry_ok_def by simp blast

lemma reg_frame:
  assumes "tm_ok M w g es" "entries w' = entries w" "\<forall>x v m. heap_area g x v m \<longrightarrow> task_id (tsk (p_sched w') x) = task_id (tsk (p_sched w) x)"
  shows "reg w' es = reg w es"
  using assms unfolding reg_def tm_ok_def entry_ok_def by auto

lemma set_sched_simps [simp]:
  "p_sched (set_sched s w) = s" "p_scheduler (set_sched s w) = p_scheduler w" "entries (set_sched s w) = entries w"
  "launches (set_sched s w) = launches w" "g_pl_ctx_slot (set_sched s w) = g_pl_ctx_slot w" "s_next_pid (set_sched s w) = s_next_pid w"
  by (simp_all add: set_sched_def)

lemma CreateTask_current: "CreateTask entry n pr nm s = Some (s', t) \<Longrightarrow> current_task s' = current_task s"
  by (auto simp: CreateTask_def AddToReadyQueue_def upd_task_def Let_def bind_eq_Some_conv split: if_splits)

text \<open>Creating a task leaves the registry alone.\<close>

lemma CreateTask_tm:
  assumes ok: "tm_ok M w g es" and n: "0 < unat n" "unat n \<le> 4294967259"
  shows "\<exists>s' t g'. CreateTask entry n pr nm (p_sched w) = Some (s', t) \<and> tm_ok M (set_sched s' w) g' es \<and>
    reg (set_sched s' w) es = reg w es \<and> areas_kept (pheap w) g (sched_heap s') g' \<and>
    (t \<noteq> 0 \<longrightarrow> heap_area g' t t 108 \<and> task_id (tsk s' t) = next_task_id (p_sched w) \<and> (\<forall>e \<in> set es. te_thread (entries w e) \<noteq> t))"
proof -
  have i: "pool_inv (pheap w) g" using ok by (simp add: tm_ok_def)
  obtain s' t g' where c: "CreateTask entry n pr nm (p_sched w) = Some (s', t)" "pool_inv (sched_heap s') g'"
    "areas_kept (pheap w) g (sched_heap s') g'" "current_task s' = current_task (p_sched w)"
    "\<forall>w' v m. heap_area g w' v m \<longrightarrow> task_id (tsk s' w') = task_id (tsk (p_sched w) w')"
    "t \<noteq> 0 \<longrightarrow> heap_area g' t t 108 \<and> (\<forall>w v m. heap_area g w v m \<longrightarrow> w \<noteq> t) \<and> task_id (tsk s' t) = next_task_id (p_sched w)"
    using CreateTask_pool [OF i n, of entry pr nm] by (elim exE conjE) (rule that)
  have "tm_ok M (set_sched s' w) g' es" by (rule tm_ok_frame [OF ok]) (use c(2-4) in auto)
  moreover have "reg (set_sched s' w) es = reg w es" by (rule reg_frame [OF ok]) (use c(5) in simp_all)
  moreover have "t \<noteq> 0 \<longrightarrow> (\<forall>e \<in> set es. te_thread (entries w e) \<noteq> t)" using ok c(6) unfolding tm_ok_def entry_ok_def by blast
  ultimately show ?thesis using c(1,3,6) by blast
qed

text \<open>A spawn fails without a trace in the registry, or registers the new thread under the next pid.\<close>

abbreviation (input) spawned :: "string \<Rightarrow> procs \<Rightarrow> u32 list \<Rightarrow> procs \<Rightarrow> u32 list \<Rightarrow> u32 \<Rightarrow> u32 option \<Rightarrow> bool" where
  "spawned pth w es w1 es1 tid pid \<equiv>
     (case pid of None \<Rightarrow> tid = 0 \<and> es1 = es \<and> s_next_pid w1 = s_next_pid w \<and> reg w1 es = reg w es
      | Some k \<Rightarrow> k = s_next_pid w \<and> s_next_pid w1 = k + 1 \<and> tid = next_task_id (p_sched w) \<and> (es1 = es \<or> (\<exists>e. es1 = e # es)) \<and>
         pl_path (launches w1 (g_pl_ctx_slot w1)) = take 159 pth \<and> assigned tid k (reg w es) (reg w1 es1))"

lemma SpawnProcess_ok:
  assumes ok: "tm_ok M w g es" and g: "p_scheduler w" "pth \<noteq> []" and n: "0 < unat n" "unat n \<le> 4294967259"
  shows "\<exists>M1 w1 g1 es1 tid pid. SpawnProcess (Some pth) nm n pr parent (M, w) = Some ((M1, w1), tid, pid) \<and> tm_ok M1 w1 g1 es1 \<and>
    areas_kept (pheap w) g (pheap w1) g1 \<and> spawned pth w es w1 es1 tid pid"
proof -
  have i: "pool_inv (pheap w) g" using ok by (simp add: tm_ok_def)
  obtain h1 ctx g1 where al: "operator_new 192 (pheap w) = Some (h1, ctx)" "pool_inv h1 g1" "areas_kept (pheap w) g h1 g1"
    "ctx \<noteq> 0 \<longrightarrow> heap_area g1 ctx ctx 192 \<and> (\<forall>w v m. heap_area g w v m \<longrightarrow> w \<noteq> ctx)"
    using kpool.pool_alloc [OF i, of 192] by auto
  have al1: "Heap_Alloc 192 8 (pheap w) = Some (h1, ctx)" using al(1) by (simp add: operator_new_def)
  show ?thesis
  proof (cases "ctx = 0")
    case True
    have "tm_ok M (set_pheap h1 w) g1 es" by (rule tm_ok_frame [OF ok]) (use al in auto)
    moreover have "reg (set_pheap h1 w) es = reg w es" by (simp add: reg_def)
    ultimately show ?thesis using True al1 al(3) g
      by (intro exI [of _ M] exI [of _ "set_pheap h1 w"] exI [of _ g1] exI [of _ es] exI [of _ "0 :: u32"] exI [of _ None])
        (simp add: SpawnProcess_def)
  next
    case False
    let ?c = "\<lparr>pl_path = take 159 pth, pl_name = (case nm of None \<Rightarrow> [] | Some n \<Rightarrow> take 31 n)\<rparr>"
    let ?w1 = "(set_pheap h1 w)\<lparr>launches := (launches w)(ctx := ?c), g_pl_ctx_slot := ctx\<rparr>"
    have ok1: "tm_ok M ?w1 g1 es" by (rule tm_ok_frame [OF ok]) (use al in auto)
    from CreateTask_tm [OF this n, of "elf_trampoline_entry (code ?w1)" pr "proc_name nm"]
    obtain s2 t g2 where ct: "CreateTask (elf_trampoline_entry (code ?w1)) n pr (proc_name nm) (p_sched ?w1) = Some (s2, t)"
      "tm_ok M (set_sched s2 ?w1) g2 es" "reg (set_sched s2 ?w1) es = reg ?w1 es" "areas_kept (pheap ?w1) g1 (sched_heap s2) g2"
      "t \<noteq> 0 \<longrightarrow> heap_area g2 t t 108 \<and> task_id (tsk s2 t) = next_task_id (p_sched ?w1) \<and> (\<forall>e \<in> set es. te_thread (entries ?w1 e) \<noteq> t)"
      by (elim exE conjE) (rule that)
    let ?w2 = "set_sched s2 ?w1"
    have r2: "reg ?w2 es = reg w es" using ct(3) by (simp add: reg_def)
    have k2: "areas_kept h1 g1 (sched_heap s2) g2" using ct(4) by simp
    have k: "areas_kept (pheap w) g (sched_heap s2) g2" using al(3) k2 by metis
    have run: "SpawnProcess (Some pth) nm n pr parent (M, w) =
      (if t = 0 then do { h3 \<leftarrow> Heap_Free ctx (pheap ?w2); Some ((M, (set_pheap h3 ?w2)\<lparr>g_pl_ctx_slot := 0\<rparr>), 0, None) }
       else register_process t (proc_name nm) parent (M, ?w2))"
      using al1 False g ct(1) by (simp add: SpawnProcess_def Let_def)
    show ?thesis
    proof (cases "t = 0")
      case True
      have i2: "pool_inv (sched_heap s2) g2" using ct(2) by (simp add: tm_ok_def)
      have c: "heap_area g2 ctx ctx 192" "\<forall>x v m. heap_area g x v m \<longrightarrow> x \<noteq> ctx" using al(4) k2 False by blast+
      obtain h3 g3 where f: "Heap_Free ctx (sched_heap s2) = Some h3" "pool_inv h3 g3"
        "\<forall>x v m. heap_area g2 x v m \<longrightarrow> x \<noteq> ctx \<longrightarrow> heap_area g3 x v m \<and> bytes_at (hmem h3) v m = bytes_at (hmem (sched_heap s2)) v m"
        using kpool.pool_free [OF i2 c(1) False] by (elim exE conjE) (rule that)
      let ?w3 = "(set_pheap h3 ?w2)\<lparr>g_pl_ctx_slot := 0\<rparr>"
      have k3: "areas_kept (pheap w) g h3 g3" using k f(3) c(2) by metis
      have "tm_ok M ?w3 g3 es" by (rule tm_ok_frame [OF ok]) (use f(2) k3 ct(2) CreateTask_current [OF ct(1)] in auto)
      moreover have "reg ?w3 es = reg w es" using r2 by (simp add: reg_def)
      ultimately show ?thesis using True run f(1) k3
        by (intro exI [of _ M] exI [of _ ?w3] exI [of _ g3] exI [of _ es] exI [of _ "0 :: u32"] exI [of _ None]) simp
    next
      case t: False
      with ct(5) have tt: "heap_area g2 t t 108" "task_id (tsk s2 t) = next_task_id (p_sched w)" "\<forall>e \<in> set es. te_thread (entries ?w2 e) \<noteq> t"
        by auto
      from register_process_ok [OF ct(2) t tt(1,3), of "proc_name nm" parent]
      obtain M3 w3 g3 es3 where q: "register_process t (proc_name nm) parent (M, ?w2) =
          Some ((M3, w3), task_id (tsk (p_sched ?w2) t), Some (s_next_pid ?w2))"
        "tm_ok M3 w3 g3 es3" "areas_kept (pheap ?w2) g2 (pheap w3) g3" "s_next_pid w3 = s_next_pid ?w2 + 1"
        "launches w3 = launches ?w2" "g_pl_ctx_slot w3 = g_pl_ctx_slot ?w2" "es3 = es \<or> (\<exists>e. es3 = e # es)"
        "assigned (task_id (tsk (p_sched ?w2) t)) (s_next_pid ?w2) (reg ?w2 es) (reg w3 es3)"
        by (elim exE conjE) (rule that)
      have r: "register_process t (proc_name nm) parent (M, ?w2) = Some ((M3, w3), next_task_id (p_sched w), Some (s_next_pid w))"
        "s_next_pid w3 = s_next_pid w + 1" "pl_path (launches w3 (g_pl_ctx_slot w3)) = take 159 pth"
        "assigned (next_task_id (p_sched w)) (s_next_pid w) (reg w es) (reg w3 es3)"
        using q tt(2) r2 by simp_all
      have "areas_kept (pheap w) g (pheap w3) g3" using k q(3) unfolding set_sched_simps by metis
      with r q(2,7) t run show ?thesis
        by (intro exI [of _ M3] exI [of _ w3] exI [of _ g3] exI [of _ es3] exI [of _ "next_task_id (p_sched w)"] exI [of _ "Some (s_next_pid w)"]) simp
    qed
  qed
qed

section \<open>A thread that ends itself\<close>

text \<open>
  A lock that its owner does not release: a thread that terminates itself removes its entry while it
  holds the lock of the manager, and \<^verbatim>\<open>Unlock\<close> then runs with another thread as the current one.
\<close>

lemma remove_loop_same:
  assumes "remove_loop tid c mw = Some mw1"
  shows "tm_mutex (fst mw1) = tm_mutex (fst mw) \<and> p_scheduler (snd mw1) = p_scheduler (snd mw)"
proof (rule remove_loop.raw_induct [of "\<lambda>tid c mw mw1. tm_mutex (fst mw1) = tm_mutex (fst mw) \<and> p_scheduler (snd mw1) = p_scheduler (snd mw)", OF _ assms])
  fix f :: "u32 \<Rightarrow> u32 option \<Rightarrow> tm_state \<Rightarrow> tm_state option" and tid c mw mw1
  assume "\<And>tid c mw mw1. f tid c mw = Some mw1 \<Longrightarrow> tm_mutex (fst mw1) = tm_mutex (fst mw) \<and> p_scheduler (snd mw1) = p_scheduler (snd mw)"
    "(let e = reg_cell c mw; t = te_thread (entries (snd mw) e)
      in if e = 0 then Some mw
         else if t \<noteq> 0 \<and> task_id (tsk (p_sched (snd mw)) t) = tid then unlink_entry c mw
         else f tid (Some e) mw) = Some mw1"
  then show "tm_mutex (fst mw1) = tm_mutex (fst mw) \<and> p_scheduler (snd mw1) = p_scheduler (snd mw)"
    by (cases mw) (auto simp: Let_def unlink_entry_def set_reg_cell_def bind_eq_Some_conv split: if_splits option.splits prod.splits)
qed

lemma TerminateThread_keeps_lock:
  assumes "tm_mutex M = Mutex_new" "p_scheduler w" "TerminateThread tid (M, w) = Some ((M1, w1), ok)"
    and other: "current_thread (p_sched w1) \<noteq> current_thread (p_sched w)"
  shows "locked (tm_mutex M1)" "owner_thread_id (tm_mutex M1) = current_thread (p_sched w)" "p_scheduler w1"
    "GetPid t (M1, w1) = None"
proof -
  let ?m = "lock_held True (p_sched w)"
  from assms(1-3) lock_held_new [of True "p_sched w"] obtain M2 w2 s2 m1 s3 where
    r: "RemoveThreadEntry tid (set_tm_mutex ?m M, w) = Some (M2, w2)" "KillTask tid (p_sched w2) = Some (s2, ok)"
    and u: "LockGuard_delete (p_scheduler w2) (tm_mutex M2, s2) = Some (m1, s3)" "M1 = set_tm_mutex m1 M2" "w1 = set_sched s3 (set_sched s2 w2)"
    by (auto simp: TerminateThread_def tm_guarded_def locked_run_def bind_eq_Some_conv tm_lock.sc_same)
  have l: "tm_mutex M2 = ?m" "p_scheduler w2"
    using remove_loop_same [of tid None "(set_tm_mutex ?m M, w)" "(M2, w2)"] r(1) assms(2) by (simp_all add: RemoveThreadEntry_def)
  have "s3 = s2" using u(1) l by (auto simp: LockGuard_delete_def Mutex_Unlock_def lock_held_def split: if_splits)
  with other u(3) have "current_thread s2 \<noteq> current_thread (p_sched w)" by simp
  with u(1) l have m1: "m1 = ?m" by (auto simp: LockGuard_delete_def Mutex_Unlock_def lock_held_def)
  then show l1: "locked (tm_mutex M1)" "owner_thread_id (tm_mutex M1) = current_thread (p_sched w)" "p_scheduler w1"
    using u(2,3) l(2) by (simp_all add: lock_held_def)
  show "GetPid t (M1, w1) = None"
    unfolding GetPid_def tm_guarded_def by (rule tm_lock.run_blocked) (use l1 other in simp_all)
qed

section \<open>Properties\<close>


text \<open>A manager whose registry is empty, on the heap after boot.\<close>

definition demo_procs :: procs where
  "demo_procs = \<lparr>p_scheduler = True, p_sched = demo_sched\<lparr>sched_heap := boot_heap, current_task := 0\<rparr>,
     entries = (\<lambda>_. \<lparr>te_thread = 0, te_type = THREAD_SHELL, te_description = ''shell'', te_parent_id = 0, te_is_system = True, te_pid = 0, te_next = 0\<rparr>),
     commands = (\<lambda>_. \<lparr>cc_command = [], cc_caller_thread_id = 0\<rparr>), launches = (\<lambda>_. \<lparr>pl_path = [], pl_name = []\<rparr>),
     g_pl_ctx_slot = 0, s_next_pid = 1,
     code = \<lparr>kernel_main_entry = 0x100000, keyboard_entry = 0x100100, command_executor_entry = 0x100200, elf_trampoline_entry = 0x100300\<rparr>\<rparr>"

definition demo_tm :: ThreadManager where
  "demo_tm = \<lparr>thread_registry = 0, thread_count = 0, system_thread_count = 0, user_thread_count = 0, tm_mutex = Mutex_new,
     main_thread = 0, shell_thread = 0, idle_thread = 0, threading_initialized = True\<rparr>"

lemma demo_tm_ok: "tm_ok demo_tm demo_procs (0x2000000, [Blk 0x2000000 0x1FE8 None]) []"
  using boot_heap_inv by (simp add: tm_ok_def demo_tm_def demo_procs_def pool_inv_def boot_heap_def)


end
