(* ===== verification/KOS_MsgQueue.thy ===== *)
theory KOS_MsgQueue
  imports KOS_Pipe KOS_ThreadManager
begin

text \<open>
  Message queues (\<^verbatim>\<open>src/kernel/src/process/message_queue.cpp\<close>). Every message has a receiver, 0 for any, and
  \<^verbatim>\<open>Receive\<close> takes the first message for the caller, which may be in the middle of the queue. The
  calls for applications name the caller by its process id, which the thread manager knows.
  Messages and queues are kept by address; payloads are bytes of the kernel heap. What an
  operation stores through its result pointers is a value of the result. Log messages are not modelled.
\<close>

section \<open>Data\<close>

datatype MessageType = MSG_TYPE_GENERIC | MSG_TYPE_COMMAND | MSG_TYPE_EVENT | MSG_TYPE_RESPONSE | MSG_TYPE_SYSTEM

record QueueMessage =
  qm_message_id :: u32
  qm_sender_id :: u32
  qm_receiver_id :: u32
  qm_type :: MessageType
  qm_data_size :: u32
  qm_data :: u32
  qm_next :: u32

record MessageQueue =
  queue_id :: u32
  mq_name :: string
  mq_max_messages :: u32
  max_message_size :: u32
  mq_message_count :: u32
  message_head :: u32
  message_tail :: u32
  next_message_id :: u32
  queue_mutex :: Mutex
  mq_read_cv :: ConditionVariable
  mq_write_cv :: ConditionVariable
  mq_closed :: bool
  mq_blocking :: bool

record MessageQueueManager =
  queues :: "u32 list"
  queue_count :: u32
  next_queue_id :: u32
  mqm_mutex :: Mutex

text \<open>The thread manager if there is one, the scheduler with threads and heap, and the objects by address.\<close>

record mq_world =
  g_thread_manager :: "ThreadManager option"
  mq_procs :: procs
  qmsgs :: "u32 \<Rightarrow> QueueMessage"
  qobjs :: "u32 \<Rightarrow> MessageQueue"

abbreviation (input) qheap :: "mq_world \<Rightarrow> heap" where "qheap w \<equiv> pheap (mq_procs w)"

definition set_qheap :: "heap \<Rightarrow> mq_world \<Rightarrow> mq_world" where
  "set_qheap h w = w\<lparr>mq_procs := set_pheap h (mq_procs w)\<rparr>"

definition q_gs :: "mq_world \<Rightarrow> bool" where "q_gs w = p_scheduler (mq_procs w)"
definition q_sched :: "mq_world \<Rightarrow> Scheduler" where "q_sched w = p_sched (mq_procs w)"
definition set_q_sched :: "Scheduler \<Rightarrow> mq_world \<Rightarrow> mq_world" where
  "set_q_sched s w = w\<lparr>mq_procs := set_sched s (mq_procs w)\<rparr>"
definition set_queue_mutex :: "Mutex \<Rightarrow> MessageQueue \<Rightarrow> MessageQueue" where "set_queue_mutex m Q = Q\<lparr>queue_mutex := m\<rparr>"
definition set_mqm_mutex :: "Mutex \<Rightarrow> MessageQueueManager \<Rightarrow> MessageQueueManager" where "set_mqm_mutex m M = M\<lparr>mqm_mutex := m\<rparr>"

abbreviation (input) sizeof_QueueMessage :: u32 where "sizeof_QueueMessage \<equiv> 28"
abbreviation (input) sizeof_MessageQueue :: u32 where "sizeof_MessageQueue \<equiv> 76"

type_synonym q_state = "MessageQueue \<times> mq_world"
type_synonym qm_state = "MessageQueueManager \<times> mq_world"

definition q_guarded :: "(q_state \<Rightarrow> (q_state \<times> 'r) option) \<Rightarrow> q_state \<Rightarrow> (q_state \<times> 'r) option" where
  "q_guarded = locked_run queue_mutex set_queue_mutex q_gs q_sched set_q_sched"

definition qm_guarded :: "(qm_state \<Rightarrow> (qm_state \<times> 'r) option) \<Rightarrow> qm_state \<Rightarrow> (qm_state \<times> 'r) option" where
  "qm_guarded = locked_run mqm_mutex set_mqm_mutex q_gs q_sched set_q_sched"

interpretation q_lock: monitor queue_mutex set_queue_mutex q_gs q_sched set_q_sched
  by unfold_locales (simp_all add: set_queue_mutex_def set_q_sched_def q_sched_def set_sched_def)

interpretation qm_lock: monitor mqm_mutex set_mqm_mutex q_gs q_sched set_q_sched
  by unfold_locales (simp_all add: set_mqm_mutex_def set_q_sched_def q_sched_def set_sched_def)

text \<open>Names of equal length that agree on that length; a null name equals nothing.\<close>

definition NamesEqual :: "string option \<Rightarrow> string option \<Rightarrow> bool" where
  "NamesEqual a b = (case (a, b) of (Some x, Some y) \<Rightarrow> length x = length y \<and> name_cmp x y (length x) = 0 | _ \<Rightarrow> False)"

definition CurrentEndpointId :: "mq_world \<Rightarrow> (mq_world \<times> u32) option" where
  "CurrentEndpointId w =
     (let s = q_sched w; current = current_task s; tid = task_id (tsk s current)
      in if \<not> q_gs w \<or> current = 0 then Some (w, 0)
         else case g_thread_manager w of None \<Rightarrow> Some (w, tid)
         | Some M \<Rightarrow> do {
             ((M1, p1), pid) \<leftarrow> GetPid tid (M, mq_procs w);
             let w1 = w\<lparr>g_thread_manager := Some M1, mq_procs := p1\<rparr>;
             Some (w1, if pid \<noteq> 0 then pid else task_id (tsk (q_sched w1) current))
           })"

section \<open>Messages\<close>

definition QueueMessage_init ::
  "u32 \<Rightarrow> u32 \<Rightarrow> u32 \<Rightarrow> MessageType \<Rightarrow> u32 \<Rightarrow> u32 \<Rightarrow> heap \<Rightarrow> (QueueMessage \<times> heap) option" where
  "QueueMessage_init mid sender receiver ty sz payload h =
     (let msg = \<lparr>qm_message_id = mid, qm_sender_id = sender, qm_receiver_id = receiver, qm_type = ty,
                 qm_data_size = sz, qm_data = 0, qm_next = 0\<rparr>
      in if 0 < sz \<and> payload \<noteq> 0
         then do {
           (h1, d) \<leftarrow> copy_in sz payload h;
           Some (if d \<noteq> 0 then msg\<lparr>qm_data := d\<rparr> else msg\<lparr>qm_data_size := 0\<rparr>, h1)
         }
         else Some (msg, h))"

definition new_QueueMessage ::
  "u32 \<Rightarrow> u32 \<Rightarrow> u32 \<Rightarrow> MessageType \<Rightarrow> u32 \<Rightarrow> u32 \<Rightarrow> mq_world \<Rightarrow> (mq_world \<times> u32) option" where
  "new_QueueMessage mid sender receiver ty sz payload w =
     do {
       (h1, p) \<leftarrow> operator_new sizeof_QueueMessage (qheap w);
       if p = 0 then Some (set_qheap h1 w, 0)
       else do {
         (msg, h2) \<leftarrow> QueueMessage_init mid sender receiver ty sz payload h1;
         Some ((set_qheap h2 w)\<lparr>qmsgs := (qmsgs w)(p := msg)\<rparr>, p)
       }
     }"

definition delete_QueueMessage :: "u32 \<Rightarrow> mq_world \<Rightarrow> mq_world option" where
  "delete_QueueMessage p w =
     (if p = 0 then Some w
      else if qm_data (qmsgs w p) \<noteq> 0
      then do {
        h1 \<leftarrow> Heap_Free (qm_data (qmsgs w p)) (qheap w);
        Some ((set_qheap (operator_delete p h1) w)\<lparr>qmsgs := (qmsgs w)(p := (qmsgs w p)\<lparr>qm_data := 0\<rparr>)\<rparr>)
      }
      else Some (set_qheap (operator_delete p (qheap w)) w))"

section \<open>Queues\<close>

text \<open>As for pipes, the three allocations of the constructor are not checked.\<close>

definition MessageQueue_init :: "u32 \<Rightarrow> string option \<Rightarrow> u32 \<Rightarrow> u32 \<Rightarrow> heap \<Rightarrow> (MessageQueue \<times> heap) option" where
  "MessageQueue_init qid nm max_msgs max_msg_size h =
     do {
       (h1, m) \<leftarrow> operator_new sizeof_Mutex h;
       (h2, r) \<leftarrow> operator_new sizeof_ConditionVariable h1;
       (h3, c) \<leftarrow> operator_new sizeof_ConditionVariable h2;
       if m = 0 \<or> r = 0 \<or> c = 0 then None
       else Some (\<lparr>queue_id = qid, mq_name = take 31 (case nm of None \<Rightarrow> [] | Some x \<Rightarrow> x), mq_max_messages = max_msgs,
           max_message_size = max_msg_size, mq_message_count = 0, message_head = 0, message_tail = 0, next_message_id = 1,
           queue_mutex = Mutex_new, mq_read_cv = ConditionVariable_new, mq_write_cv = ConditionVariable_new,
           mq_closed = False, mq_blocking = True\<rparr>, h3)
     }"

definition MQ_IsEmpty :: "MessageQueue \<Rightarrow> bool" where "MQ_IsEmpty Q = (mq_message_count Q = 0)"
definition MQ_IsFull :: "MessageQueue \<Rightarrow> bool" where "MQ_IsFull Q = (mq_max_messages Q \<le> mq_message_count Q)"
definition MQ_SetBlockingMode :: "bool \<Rightarrow> MessageQueue \<Rightarrow> MessageQueue" where "MQ_SetBlockingMode b Q = Q\<lparr>mq_blocking := b\<rparr>"

text \<open>The first message for a receiver and its predecessor; both 0 when there is none.\<close>

definition accepts :: "u32 \<Rightarrow> QueueMessage \<Rightarrow> bool" where
  "accepts receiver msg = (receiver = 0 \<or> qm_receiver_id msg = 0 \<or> qm_receiver_id msg = receiver)"

partial_function (option) match_loop :: "(u32 \<Rightarrow> QueueMessage) \<Rightarrow> u32 \<Rightarrow> u32 \<Rightarrow> u32 \<Rightarrow> (u32 \<times> u32) option" where
  "match_loop st receiver prev msg =
     (if msg = 0 then Some (0, 0)
      else if accepts receiver (st msg) then Some (msg, prev)
      else match_loop st receiver msg (qm_next (st msg)))"

definition FindMatchingMessage :: "u32 \<Rightarrow> q_state \<Rightarrow> (u32 \<times> u32) option" where
  "FindMatchingMessage receiver = (\<lambda>(Q, w). match_loop (qmsgs w) receiver 0 (message_head Q))"

definition q_wait :: "q_state \<Rightarrow> q_state option" where
  "q_wait = (\<lambda>(Q, w). do { (m, s) \<leftarrow> ConditionVariable_Wait (q_gs w) (queue_mutex Q, q_sched w);
     Some (set_queue_mutex m Q, set_q_sched s w) })"

definition q_read_broadcast :: "q_state \<Rightarrow> q_state option" where
  "q_read_broadcast = (\<lambda>(Q, w). do { (c, s) \<leftarrow> ConditionVariable_Broadcast (q_gs w) (mq_read_cv Q, q_sched w);
     Some (Q\<lparr>mq_read_cv := c\<rparr>, set_q_sched s w) })"

definition q_write_broadcast :: "q_state \<Rightarrow> q_state option" where
  "q_write_broadcast = (\<lambda>(Q, w). do { (c, s) \<leftarrow> ConditionVariable_Broadcast (q_gs w) (mq_write_cv Q, q_sched w);
     Some (Q\<lparr>mq_write_cv := c\<rparr>, set_q_sched s w) })"

definition q_write_signal :: "q_state \<Rightarrow> q_state option" where
  "q_write_signal = (\<lambda>(Q, w). do { (c, s) \<leftarrow> ConditionVariable_Signal (q_gs w) (mq_write_cv Q, q_sched w);
     Some (Q\<lparr>mq_write_cv := c\<rparr>, set_q_sched s w) })"

subsection \<open>Sending\<close>

partial_function (option) wait_room :: "bool \<Rightarrow> q_state \<Rightarrow> (q_state \<times> bool) option" where
  "wait_room block qw =
     (if MQ_IsFull (fst qw)
      then if \<not> block \<or> mq_closed (fst qw) then Some (qw, False)
           else do { qw1 \<leftarrow> q_wait qw; wait_room block qw1 }
      else Some (qw, True))"

definition append_message :: "u32 \<Rightarrow> q_state \<Rightarrow> q_state" where
  "append_message msg = (\<lambda>(Q, w).
     let w1 = (if message_head Q = 0 then w
               else w\<lparr>qmsgs := (qmsgs w)(message_tail Q := (qmsgs w (message_tail Q))\<lparr>qm_next := msg\<rparr>)\<rparr>);
         Q1 = Q\<lparr>message_head := (if message_head Q = 0 then msg else message_head Q), message_tail := msg\<rparr>
     in (Q1\<lparr>mq_message_count := mq_message_count Q + 1\<rparr>, w1))"

definition send_message :: "u32 \<Rightarrow> u32 \<Rightarrow> MessageType \<Rightarrow> u32 \<Rightarrow> u32 \<Rightarrow> q_state \<Rightarrow> (q_state \<times> bool) option" where
  "send_message sender receiver ty data sz = (\<lambda>(Q, w). do {
     (w1, msg) \<leftarrow> new_QueueMessage (next_message_id Q) sender receiver ty sz data w;
     let Q1 = Q\<lparr>next_message_id := next_message_id Q + 1\<rparr>;
     if msg = 0 \<or> 0 < sz \<and> qm_data (qmsgs w1 msg) = 0
     then do { w2 \<leftarrow> delete_QueueMessage msg w1; Some ((Q1, w2), False) }
     else do { qw3 \<leftarrow> q_read_broadcast (append_message msg (Q1, w1)); Some (qw3, True) }
   })"

definition MQ_Send :: "u32 \<Rightarrow> u32 \<Rightarrow> MessageType \<Rightarrow> u32 \<Rightarrow> u32 \<Rightarrow> bool \<Rightarrow> q_state \<Rightarrow> (q_state \<times> bool) option" where
  "MQ_Send sender receiver ty data sz block = (\<lambda>(Q, w).
     if mq_closed Q then Some ((Q, w), False)
     else if 0 < sz \<and> data = 0 then Some ((Q, w), False)
     else if max_message_size Q < sz then Some ((Q, w), False)
     else q_guarded (\<lambda>qw. do {
       (qw1, ok) \<leftarrow> wait_room block qw;
       if ok then send_message sender receiver ty data sz qw1 else Some (qw1, False)
     }) (Q, w))"

subsection \<open>Receiving\<close>

text \<open>Success, the number of bytes if it is stored, and type, sender and id of the message if they are stored.\<close>

type_synonym recv_result = "bool \<times> u32 option \<times> (MessageType \<times> u32 \<times> u32) option"

partial_function (option) wait_message :: "u32 \<Rightarrow> bool \<Rightarrow> q_state \<Rightarrow> (q_state \<times> u32 \<times> u32) option" where
  "wait_message receiver block qw =
     do {
       (msg, prev) \<leftarrow> FindMatchingMessage receiver qw;
       if msg \<noteq> 0 then Some (qw, msg, prev)
       else if \<not> block \<or> mq_closed (fst qw) then Some (qw, 0, 0)
       else do { qw1 \<leftarrow> q_wait qw; wait_message receiver block qw1 }
     }"

definition copy_message :: "QueueMessage \<Rightarrow> u32 \<Rightarrow> u32 \<Rightarrow> mq_world \<Rightarrow> mq_world \<times> u32" where
  "copy_message msg buffer buf_sz w =
     (let copy_size = (if qm_data_size msg < buf_sz then qm_data_size msg else buf_sz); h = qheap w
      in (if 0 < copy_size \<and> qm_data msg \<noteq> 0
          then set_qheap (h\<lparr>hmem := memcpy (hmem h) buffer (qm_data msg) copy_size\<rparr>) w else w, copy_size))"

definition unlink_message :: "u32 \<Rightarrow> u32 \<Rightarrow> q_state \<Rightarrow> q_state" where
  "unlink_message msg prev = (\<lambda>(Q, w).
     let nx = qm_next (qmsgs w msg);
         w1 = (if prev \<noteq> 0 then w\<lparr>qmsgs := (qmsgs w)(prev := (qmsgs w prev)\<lparr>qm_next := nx\<rparr>)\<rparr> else w);
         Q1 = (if prev \<noteq> 0 then Q else Q\<lparr>message_head := nx\<rparr>);
         Q2 = (if message_tail Q1 = msg then Q1\<lparr>message_tail := prev\<rparr> else Q1)
     in (Q2\<lparr>mq_message_count := mq_message_count Q2 - 1\<rparr>, w1))"

definition take_message :: "u32 \<Rightarrow> u32 \<Rightarrow> u32 \<Rightarrow> u32 \<Rightarrow> q_state \<Rightarrow> (q_state \<times> recv_result) option" where
  "take_message msg prev buffer buf_sz = (\<lambda>(Q, w). do {
     let m = qmsgs w msg;
     let (w1, copy_size) = copy_message m buffer buf_sz w;
     let (Q2, w2) = unlink_message msg prev (Q, w1);
     w3 \<leftarrow> delete_QueueMessage msg w2;
     qw4 \<leftarrow> q_write_signal (Q2, w3);
     Some (qw4, True, Some copy_size, Some (qm_type m, qm_sender_id m, qm_message_id m))
   })"

definition MQ_Receive :: "u32 \<Rightarrow> u32 \<Rightarrow> u32 \<Rightarrow> bool \<Rightarrow> q_state \<Rightarrow> (q_state \<times> recv_result) option" where
  "MQ_Receive receiver buffer buf_sz block = (\<lambda>(Q, w).
     if mq_closed Q then Some ((Q, w), False, None, None)
     else if buffer = 0 \<or> buf_sz = 0 then Some ((Q, w), False, None, None)
     else q_guarded (\<lambda>qw. do {
       (qw1, msg, prev) \<leftarrow> wait_message receiver block qw;
       if msg = 0 then Some (qw1, False, Some 0, None) else take_message msg prev buffer buf_sz qw1
     }) (Q, w))"

definition MQ_Peek :: "u32 \<Rightarrow> u32 \<Rightarrow> u32 \<Rightarrow> q_state \<Rightarrow> (q_state \<times> recv_result) option" where
  "MQ_Peek receiver buffer buf_sz = (\<lambda>(Q, w).
     if mq_closed Q then Some ((Q, w), False, None, None)
     else if buffer = 0 \<or> buf_sz = 0 then Some ((Q, w), False, None, None)
     else q_guarded (\<lambda>(Q, w). do {
       (msg, _) \<leftarrow> FindMatchingMessage receiver (Q, w);
       let m = qmsgs w msg;
       if msg = 0 then Some ((Q, w), False, Some 0, None)
       else let (w1, copy_size) = copy_message m buffer buf_sz w
            in Some ((Q, w1), True, Some copy_size, Some (qm_type m, qm_sender_id m, qm_message_id m))
     }) (Q, w))"

subsection \<open>Closing\<close>

definition MQ_Close :: "q_state \<Rightarrow> q_state option" where
  "MQ_Close qw = do {
     (qw1, _) \<leftarrow> q_guarded (\<lambda>(Q, w). do {
       qw1 \<leftarrow> q_read_broadcast (Q\<lparr>mq_closed := True\<rparr>, w);
       qw2 \<leftarrow> q_write_broadcast qw1;
       Some (qw2, ())
     }) qw;
     Some qw1
   }"

partial_function (option) q_flush_loop :: "q_state \<Rightarrow> q_state option" where
  "q_flush_loop qw =
     (let msg = message_head (fst qw)
      in if msg = 0 then Some qw
         else do {
           w1 \<leftarrow> delete_QueueMessage msg (snd qw);
           q_flush_loop ((fst qw)\<lparr>message_head := qm_next (qmsgs (snd qw) msg)\<rparr>, w1)
         })"

definition MQ_Flush :: "q_state \<Rightarrow> q_state option" where
  "MQ_Flush qw = do {
     (qw1, _) \<leftarrow> q_guarded (\<lambda>qw. do {
       (Q, w) \<leftarrow> q_flush_loop qw;
       qw2 \<leftarrow> q_write_broadcast (Q\<lparr>message_tail := 0, mq_message_count := 0\<rparr>, w);
       Some (qw2, ())
     }) qw;
     Some qw1
   }"

definition MessageQueue_delete :: "q_state \<Rightarrow> q_state option" where
  "MessageQueue_delete qw = do {
     qw1 \<leftarrow> MQ_Close qw;
     (Q, w) \<leftarrow> MQ_Flush qw1;
     (m, s1) \<leftarrow> Mutex_delete (q_gs w) (queue_mutex Q, q_sched w);
     (r, s2) \<leftarrow> ConditionVariable_delete (q_gs w) (mq_read_cv Q, s1);
     (c, s3) \<leftarrow> ConditionVariable_delete (q_gs w) (mq_write_cv Q, s2);
     Some (Q\<lparr>queue_mutex := m, mq_read_cv := r, mq_write_cv := c\<rparr>, set_q_sched s3 w)
   }"

definition MQ_PrintInfo :: "MessageQueue \<Rightarrow> tty_write list" where
  "MQ_PrintInfo Q =
     [TTY_Write ''MQ ID: '', TTY_WriteHex (ucast (queue_id Q)),
      TTY_Write '' Name: '', TTY_Write (mq_name Q),
      TTY_Write '' Msgs: '', TTY_WriteHex (ucast (mq_message_count Q)),
      TTY_Write ''/'', TTY_WriteHex (ucast (mq_max_messages Q)),
      TTY_Write '' MaxMsgSize: '', TTY_WriteHex (ucast (max_message_size Q)),
      TTY_Write (if mq_closed Q then '' [CLOSED]'' else '' [OPEN]''),
      TTY_Write (if mq_blocking Q then '' [BLOCKING]'' else '' [NON-BLOCKING]''),
      TTY_Write ''\<newline>'']"

section \<open>The queue manager\<close>

definition on_queue :: "u32 \<Rightarrow> (q_state \<Rightarrow> (q_state \<times> 'r) option) \<Rightarrow> mq_world \<Rightarrow> (mq_world \<times> 'r) option" where
  "on_queue p f w = do { ((Q, w1), r) \<leftarrow> f (qobjs w p, w); Some (w1\<lparr>qobjs := (qobjs w1)(p := Q)\<rparr>, r) }"

definition MessageQueueManager_init :: "heap \<Rightarrow> (MessageQueueManager \<times> heap) option" where
  "MessageQueueManager_init h =
     do {
       (h1, m) \<leftarrow> operator_new sizeof_Mutex h;
       if m = 0 then None
       else Some (\<lparr>queues = replicate 64 0, queue_count = 0, next_queue_id = 1, mqm_mutex = Mutex_new\<rparr>, h1)
     }"

definition FindQueueIndex :: "u32 \<Rightarrow> qm_state \<Rightarrow> nat option" where
  "FindQueueIndex qid = (\<lambda>(M, w). find (\<lambda>i. queues M ! i \<noteq> 0 \<and> queue_id (qobjs w (queues M ! i)) = qid) [0..<64])"

definition FindQueueIndex_name :: "string option \<Rightarrow> qm_state \<Rightarrow> nat option" where
  "FindQueueIndex_name name = (\<lambda>(M, w).
     if name = None then None
     else find (\<lambda>i. queues M ! i \<noteq> 0 \<and> NamesEqual (Some (mq_name (qobjs w (queues M ! i)))) name) [0..<64])"

definition FindQueue :: "u32 \<Rightarrow> qm_state \<Rightarrow> u32" where
  "FindQueue qid mw = (case FindQueueIndex qid mw of None \<Rightarrow> 0 | Some i \<Rightarrow> queues (fst mw) ! i)"

definition FindQueue_name :: "string option \<Rightarrow> qm_state \<Rightarrow> u32" where
  "FindQueue_name name mw = (case FindQueueIndex_name name mw of None \<Rightarrow> 0 | Some i \<Rightarrow> queues (fst mw) ! i)"

definition fill_queue_slot :: "nat \<Rightarrow> string option \<Rightarrow> u32 \<Rightarrow> u32 \<Rightarrow> qm_state \<Rightarrow> (qm_state \<times> u32) option" where
  "fill_queue_slot slot nm max_msgs max_msg_size = (\<lambda>(M, w). do {
     (h1, p) \<leftarrow> operator_new sizeof_MessageQueue (qheap w);
     let M1 = M\<lparr>next_queue_id := next_queue_id M + 1\<rparr>;
     if p = 0 then Some ((M1, set_qheap h1 w), 0)
     else do {
       (Q, h2) \<leftarrow> MessageQueue_init (next_queue_id M) nm max_msgs max_msg_size h1;
       Some ((M1\<lparr>queues := (queues M)[slot := p], queue_count := queue_count M + 1\<rparr>,
              (set_qheap h2 w)\<lparr>qobjs := (qobjs w)(p := Q)\<rparr>), p)
     }
   })"

definition CreateQueue :: "string option \<Rightarrow> u32 \<Rightarrow> u32 \<Rightarrow> qm_state \<Rightarrow> (qm_state \<times> u32) option" where
  "CreateQueue name max_msgs max_msg_size = (\<lambda>(M, w).
     if name = None \<or> 64 \<le> queue_count M \<or> max_msgs = 0 \<or> max_msg_size = 0 then Some ((M, w), 0)
     else qm_guarded (\<lambda>(M, w).
       if FindQueueIndex_name name (M, w) \<noteq> None then Some ((M, w), 0)
       else case find (\<lambda>i. queues M ! i = 0) [0..<64] of None \<Rightarrow> Some ((M, w), 0)
       | Some slot \<Rightarrow> fill_queue_slot slot name max_msgs max_msg_size (M, w)) (M, w))"

definition delete_queue_slot :: "nat \<Rightarrow> qm_state \<Rightarrow> qm_state option" where
  "delete_queue_slot i = (\<lambda>(M, w). do {
     (w1, _) \<leftarrow> on_queue (queues M ! i) (\<lambda>qw. do { qw1 \<leftarrow> MessageQueue_delete qw; Some (qw1, ()) }) w;
     Some (M\<lparr>queues := (queues M)[i := 0]\<rparr>, w1)
   })"

definition destroy_found_queue :: "nat option \<Rightarrow> qm_state \<Rightarrow> (qm_state \<times> bool) option" where
  "destroy_found_queue index mw =
     (case index of None \<Rightarrow> Some (mw, False)
      | Some i \<Rightarrow> do { (M1, w1) \<leftarrow> delete_queue_slot i mw; Some ((M1\<lparr>queue_count := queue_count M1 - 1\<rparr>, w1), True) })"

definition DestroyQueue :: "u32 \<Rightarrow> qm_state \<Rightarrow> (qm_state \<times> bool) option" where
  "DestroyQueue qid = qm_guarded (\<lambda>mw. destroy_found_queue (FindQueueIndex qid mw) mw)"

definition DestroyQueue_name :: "string option \<Rightarrow> qm_state \<Rightarrow> (qm_state \<times> bool) option" where
  "DestroyQueue_name name mw =
     (if name = None then Some (mw, False)
      else qm_guarded (\<lambda>mw. destroy_found_queue (FindQueueIndex_name name mw) mw) mw)"

fun close_queue_slots :: "nat list \<Rightarrow> qm_state \<Rightarrow> qm_state option" where
  "close_queue_slots [] mw = Some mw"
| "close_queue_slots (i # is) mw =
     do { mw1 \<leftarrow> (if queues (fst mw) ! i \<noteq> 0 then delete_queue_slot i mw else Some mw); close_queue_slots is mw1 }"

definition CloseAllQueues :: "qm_state \<Rightarrow> qm_state option" where
  "CloseAllQueues mw = do {
     (mw1, _) \<leftarrow> qm_guarded (\<lambda>mw. do {
       (M, w) \<leftarrow> close_queue_slots [0..<64] mw;
       Some ((M\<lparr>queue_count := 0\<rparr>, w), ())
     }) mw;
     Some mw1
   }"

definition MessageQueueManager_delete :: "qm_state \<Rightarrow> qm_state option" where
  "MessageQueueManager_delete mw = do {
     (M, w) \<leftarrow> CloseAllQueues mw;
     (m, s) \<leftarrow> Mutex_delete (q_gs w) (mqm_mutex M, q_sched w);
     Some (set_mqm_mutex m M, set_q_sched s w)
   }"

definition PrintAllQueues :: "qm_state \<Rightarrow> (qm_state \<times> tty_write list) option" where
  "PrintAllQueues = qm_guarded (\<lambda>(M, w). Some ((M, w),
     [TTY_Write ''=== Message Queue Manager ===\<newline>'', TTY_Write ''Active queues: '', TTY_WriteHex (ucast (queue_count M)),
      TTY_Write ''/64\<newline>''] @
     concat (map (\<lambda>i. if queues M ! i \<noteq> 0 then MQ_PrintInfo (qobjs w (queues M ! i)) else []) [0..<64])))"

section \<open>The message calls of applications\<close>

type_synonym mq_api = "MessageQueueManager option \<times> mq_world"

definition with_qm :: "'r \<Rightarrow> (qm_state \<Rightarrow> (qm_state \<times> 'r) option) \<Rightarrow> mq_api \<Rightarrow> (mq_api \<times> 'r) option" where
  "with_qm dflt f = (\<lambda>(g, w). case g of None \<Rightarrow> Some ((g, w), dflt)
     | Some M \<Rightarrow> do { ((M1, w1), r) \<leftarrow> f (M, w); Some ((Some M1, w1), r) })"

definition MQAPI_CreateQueue :: "string option \<Rightarrow> u32 \<Rightarrow> u32 \<Rightarrow> mq_api \<Rightarrow> (mq_api \<times> u32) option" where
  "MQAPI_CreateQueue name max_msgs max_msg_size = with_qm 0 (\<lambda>mw. do {
     ((M1, w1), p) \<leftarrow> CreateQueue name max_msgs max_msg_size mw;
     Some ((M1, w1), if p \<noteq> 0 then queue_id (qobjs w1 p) else 0)
   })"

definition MQAPI_DestroyQueue :: "u32 \<Rightarrow> mq_api \<Rightarrow> (mq_api \<times> bool) option" where
  "MQAPI_DestroyQueue qid = with_qm False (DestroyQueue qid)"

definition MQAPI_DestroyQueue_name :: "string option \<Rightarrow> mq_api \<Rightarrow> (mq_api \<times> bool) option" where
  "MQAPI_DestroyQueue_name name = with_qm False (DestroyQueue_name name)"

text \<open>A call on the queue that a lookup finds, with the id of the caller.\<close>

definition on_found_queue :: "'r \<Rightarrow> (qm_state \<Rightarrow> u32) \<Rightarrow> (u32 \<Rightarrow> q_state \<Rightarrow> (q_state \<times> 'r) option) \<Rightarrow> mq_api \<Rightarrow> (mq_api \<times> 'r) option" where
  "on_found_queue dflt look f = with_qm dflt (\<lambda>(M, w).
     let p = look (M, w)
     in if p = 0 then Some ((M, w), dflt)
        else do { (w1, me) \<leftarrow> CurrentEndpointId w; (w2, r) \<leftarrow> on_queue p (f me) w1; Some ((M, w2), r) })"

definition MQAPI_Send :: "u32 \<Rightarrow> u32 \<Rightarrow> MessageType \<Rightarrow> u32 \<Rightarrow> u32 \<Rightarrow> bool \<Rightarrow> mq_api \<Rightarrow> (mq_api \<times> bool) option" where
  "MQAPI_Send qid receiver ty data sz block =
     on_found_queue False (FindQueue qid) (\<lambda>me. MQ_Send me receiver ty data sz block)"

definition MQAPI_Send_name :: "string option \<Rightarrow> u32 \<Rightarrow> MessageType \<Rightarrow> u32 \<Rightarrow> u32 \<Rightarrow> bool \<Rightarrow> mq_api \<Rightarrow> (mq_api \<times> bool) option" where
  "MQAPI_Send_name name receiver ty data sz block =
     on_found_queue False (FindQueue_name name) (\<lambda>me. MQ_Send me receiver ty data sz block)"

definition MQAPI_Receive :: "u32 \<Rightarrow> u32 \<Rightarrow> u32 \<Rightarrow> bool \<Rightarrow> mq_api \<Rightarrow> (mq_api \<times> recv_result) option" where
  "MQAPI_Receive qid buffer buf_sz block =
     on_found_queue (False, None, None) (FindQueue qid) (\<lambda>me. MQ_Receive me buffer buf_sz block)"

definition MQAPI_Receive_name :: "string option \<Rightarrow> u32 \<Rightarrow> u32 \<Rightarrow> bool \<Rightarrow> mq_api \<Rightarrow> (mq_api \<times> recv_result) option" where
  "MQAPI_Receive_name name buffer buf_sz block =
     on_found_queue (False, None, None) (FindQueue_name name) (\<lambda>me. MQ_Receive me buffer buf_sz block)"

definition MQAPI_FindQueue :: "string option \<Rightarrow> mq_api \<Rightarrow> u32" where
  "MQAPI_FindQueue name = (\<lambda>(g, w). case g of None \<Rightarrow> 0
     | Some M \<Rightarrow> (let p = FindQueue_name name (M, w) in if p \<noteq> 0 then queue_id (qobjs w p) else 0))"

definition MQAPI_GetQueueInfo :: "u32 \<Rightarrow> mq_api \<Rightarrow> (u32 \<times> u32 \<times> u32) option" where
  "MQAPI_GetQueueInfo qid = (\<lambda>(g, w). case g of None \<Rightarrow> None
     | Some M \<Rightarrow> (let p = FindQueue qid (M, w); Q = qobjs w p
         in if p = 0 then None else Some (mq_message_count Q, mq_max_messages Q, max_message_size Q)))"

section \<open>The queue of messages\<close>

text \<open>A message of the abstract queue. A message without data has no buffer (\<open>q_buf = 0\<close>).\<close>

record qmsg =
  q_obj :: u32
  q_buf :: u32
  q_mid :: u32
  q_from :: u32
  q_to :: u32
  q_ty :: MessageType
  q_bytes :: "u8 list"

definition q_held :: "qmsg list \<Rightarrow> (u32 \<times> u8 list) list" where
  "q_held ms = map (\<lambda>a. (q_buf a, q_bytes a)) (filter (\<lambda>a. q_bytes a \<noteq> []) ms)"

definition qmsg_rep :: "(u32 \<Rightarrow> QueueMessage) \<Rightarrow> nat \<times> blk list \<Rightarrow> qmsg \<Rightarrow> bool" where
  "qmsg_rep st g a \<longleftrightarrow> (\<exists>sz nx. st (q_obj a) = \<lparr>qm_message_id = q_mid a, qm_sender_id = q_from a, qm_receiver_id = q_to a, qm_type = q_ty a,
       qm_data_size = sz, qm_data = q_buf a, qm_next = nx\<rparr> \<and> unat sz = length (q_bytes a)) \<and>
     (q_bytes a = [] \<longleftrightarrow> q_buf a = 0) \<and> heap_area g (q_obj a) (q_obj a) 28"

definition q_rep :: "MessageQueue \<Rightarrow> mq_world \<Rightarrow> nat \<times> blk list \<Rightarrow> qmsg list \<Rightarrow> bool" where
  "q_rep Q w g ms \<longleftrightarrow> pool_inv (qheap w) g \<and> kpool.holds (qheap w) g (q_held ms) \<and>
     chain (\<lambda>p. qm_next (qmsgs w p)) (message_head Q) (map q_obj ms) \<and>
     message_tail Q = (if ms = [] then 0 else q_obj (last ms)) \<and> distinct (map q_obj ms) \<and>
     (\<forall>a \<in> set ms. qmsg_rep (qmsgs w) g a) \<and> set (map q_obj ms) \<inter> set (map q_buf ms) = {} \<and>
     unat (mq_message_count Q) = length ms"

definition q_idle :: "MessageQueue \<Rightarrow> bool" where
  "q_idle Q \<longleftrightarrow> queue_mutex Q = Mutex_new \<and> mq_read_cv Q = ConditionVariable_new \<and> mq_write_cv Q = ConditionVariable_new"

text \<open>Only the heap changed, besides the messages.\<close>

definition only_qheap :: "mq_world \<Rightarrow> mq_world \<Rightarrow> bool" where
  "only_qheap w w1 \<longleftrightarrow> g_thread_manager w1 = g_thread_manager w \<and> qobjs w1 = qobjs w \<and> mq_procs w1 = set_pheap (qheap w1) (mq_procs w)"

lemma q_held_simps [simp]:
  "q_held [] = []" "q_held (a # ms) = (if q_bytes a = [] then [] else [(q_buf a, q_bytes a)]) @ q_held ms"
  "q_held (ms @ ns) = q_held ms @ q_held ns"
  by (simp_all add: q_held_def)

lemma q_held_bufs: "fst ` set (q_held ms) \<subseteq> q_buf ` set ms"
  by (auto simp: q_held_def)

lemma set_qheap_simps [simp]:
  "sched_heap (p_sched (mq_procs (set_qheap h w))) = h" "qmsgs (set_qheap h w) = qmsgs w" "qobjs (set_qheap h w) = qobjs w"
  "g_thread_manager (set_qheap h w) = g_thread_manager w" "q_gs (set_qheap h w) = q_gs w"
  by (simp_all add: set_qheap_def q_gs_def)

lemma only_qheapI [simp]: "only_qheap w ((set_qheap h w)\<lparr>qmsgs := st\<rparr>)" "only_qheap w (set_qheap h w)"
  by (simp_all add: only_qheap_def set_qheap_def)

lemma only_qheap_refl [simp]: "only_qheap w w"
  by (simp add: only_qheap_def set_pheap_def)

lemma set_pheap_twice [simp]: "set_pheap h (set_pheap h' p) = set_pheap h p"
  by (simp add: set_pheap_def)

lemma only_qheap_trans: "only_qheap w w1 \<Longrightarrow> only_qheap w1 w2 \<Longrightarrow> only_qheap w w2"
  unfolding only_qheap_def by (metis set_pheap_twice)

lemma only_qheap_same:
  assumes "only_qheap w w1"
  shows "q_gs w1 = q_gs w" "current_thread (q_sched w1) = current_thread (q_sched w)"
proof -
  have "mq_procs w1 = set_pheap (qheap w1) (mq_procs w)" using assms by (simp add: only_qheap_def)
  then show "q_gs w1 = q_gs w" "current_thread (q_sched w1) = current_thread (q_sched w)"
    unfolding q_gs_def q_sched_def by (metis set_pheap_simps(4), metis set_pheap_simps(11))
qed

lemma q_rep_areas:
  assumes "q_rep Q w g ms" "a \<in> set ms"
  shows "heap_area g (q_obj a) (q_obj a) 28" "q_obj a \<noteq> 0" "qmsg_rep (qmsgs w) g a"
    "q_buf a \<noteq> 0 \<Longrightarrow> heap_area g (q_buf a) (q_buf a) (length (q_bytes a))"
proof -
  show m: "qmsg_rep (qmsgs w) g a" using assms by (simp add: q_rep_def)
  then show "heap_area g (q_obj a) (q_obj a) 28" by (simp add: qmsg_rep_def)
  show "q_obj a \<noteq> 0" using assms chain_nonzero [of _ _ "map q_obj ms"] by (auto simp: q_rep_def)
  assume "q_buf a \<noteq> 0"
  then have "(q_buf a, q_bytes a) \<in> set (q_held ms)" using m assms(2) by (auto simp: q_held_def qmsg_rep_def)
  moreover have "kpool.holds (qheap w) g (q_held ms)" using assms(1) by (simp add: q_rep_def)
  ultimately show "heap_area g (q_buf a) (q_buf a) (length (q_bytes a))" using kpool.holdsD by blast
qed

text \<open>A new message: no memory, no memory for its data, or an object of its own with a copy of the data.\<close>

lemma new_QueueMessage_spec:
  assumes rep: "q_rep Q w g ms" and src: "sz = 0 \<or> heap_area g sw data (unat sz) \<and> data \<noteq> 0" and sz: "unat sz \<le> 4294967259"
  defines "bs \<equiv> bytes_at (hmem (qheap w)) data (unat sz)"
  shows "\<exists>h st p d g1. new_QueueMessage mid sender receiver ty sz data w = Some ((set_qheap h w)\<lparr>qmsgs := st\<rparr>, p) \<and> pool_inv h g1 \<and>
    areas_kept (qheap w) g h g1 \<and> (\<forall>q. q \<noteq> p \<longrightarrow> st q = qmsgs w q) \<and>
    (if p = 0 \<or> 0 < sz \<and> d = 0 then kpool.holds h g1 (q_held ms) \<and> p \<notin> q_obj ` set ms \<and> (p \<noteq> 0 \<longrightarrow> qm_data (st p) = 0)
     else st p = \<lparr>qm_message_id = mid, qm_sender_id = sender, qm_receiver_id = receiver, qm_type = ty, qm_data_size = sz, qm_data = d, qm_next = 0\<rparr> \<and>
       kpool.holds h g1 (q_held ms @ (if sz = 0 then [] else [(d, bs)])) \<and> (sz = 0 \<longleftrightarrow> d = 0) \<and>
       heap_area g1 p p 28 \<and> p \<noteq> d \<and> (\<forall>w v m. heap_area g w v m \<longrightarrow> w \<noteq> p \<and> (d = 0 \<or> w \<noteq> d)))"
proof -
  have inv: "pool_inv (qheap w) g" and hold: "kpool.holds (qheap w) g (q_held ms)" using rep by (simp_all add: q_rep_def)
  obtain h1 p g1 where al: "operator_new 28 (qheap w) = Some (h1, p)" "pool_inv h1 g1" "areas_kept (qheap w) g h1 g1"
    "p \<noteq> 0 \<longrightarrow> heap_area g1 p p 28 \<and> (\<forall>w v m. heap_area g w v m \<longrightarrow> w \<noteq> p)"
    using kpool.pool_alloc [OF inv, of 28] by auto
  have hold1: "kpool.holds h1 g1 (q_held ms)" by (rule kpool_holds_keep [OF hold]) (use al(3) in blast)
  have obj: "q_obj ` set ms \<subseteq> {x. x \<noteq> 0 \<and> heap_area g x x 28}" using q_rep_areas(1,2) [OF rep] by auto
  let ?msg = "\<lparr>qm_message_id = mid, qm_sender_id = sender, qm_receiver_id = receiver, qm_type = ty, qm_data_size = sz, qm_data = 0, qm_next = 0\<rparr>"
  consider "p = 0" | "p \<noteq> 0" "sz = 0" | "p \<noteq> 0" "sz \<noteq> 0" by blast
  then show ?thesis
  proof cases
    case 1
    with al hold1 obj show ?thesis
      by (intro exI [of _ h1] exI [of _ "qmsgs w"] exI [of _ "0 :: u32"] exI [of _ "0 :: u32"] exI [of _ g1]) (auto simp: new_QueueMessage_def)
  next
    case 2
    with al have a: "heap_area g1 p p 28" "\<forall>w v m. heap_area g w v m \<longrightarrow> w \<noteq> p" by blast+
    with 2 al(1-3) hold1 show ?thesis
      by (intro exI [of _ h1] exI [of _ "(qmsgs w)(p := ?msg)"] exI [of _ p] exI [of _ "0 :: u32"] exI [of _ g1])
        (simp add: new_QueueMessage_def QueueMessage_init_def)
  next
    case 3
    with al have a: "heap_area g1 p p 28" "\<forall>w v m. heap_area g w v m \<longrightarrow> w \<noteq> p" by blast+
    have src1: "heap_area g1 sw data (unat sz)" "bytes_at (hmem h1) data (unat sz) = bs" "data \<noteq> 0"
      using al(3) src 3(2) unfolding bs_def by blast+
    have z: "0 < sz" "0 < unat sz" using 3(2) by (simp_all add: word_less_nat_alt unat_gt_0)
    obtain h2 d g2 where ci: "copy_in sz data h1 = Some (h2, d)" "pool_inv h2 g2" "areas_kept h1 g1 h2 g2"
      "if d = 0 then kpool.holds h2 g2 (q_held ms)
       else kpool.holds h2 g2 (q_held ms @ [(d, bytes_at (hmem h1) data (unat sz))]) \<and> (\<forall>w v m. heap_area g1 w v m \<longrightarrow> w \<noteq> d)"
      using copy_in_spec [OF al(2) hold1 src1(1) z(2) sz] by (elim exE conjE)
    let ?st = "(qmsgs w)(p := ?msg\<lparr>qm_data_size := if d = 0 then 0 else sz, qm_data := d\<rparr>)"
    have "new_QueueMessage mid sender receiver ty sz data w = Some ((set_qheap h2 w)\<lparr>qmsgs := ?st\<rparr>, p)"
      using al(1) 3 ci(1) src1(3) z(1) by (simp add: new_QueueMessage_def QueueMessage_init_def Let_def)
    moreover have "areas_kept (qheap w) g h2 g2" using al(3) ci(3) by metis
    moreover have "heap_area g2 p p 28" using a(1) ci(3) by blast
    moreover have "p \<notin> q_obj ` set ms" using a(2) obj by blast
    moreover have "d \<noteq> 0 \<Longrightarrow> p \<noteq> d \<and> (\<forall>w v m. heap_area g w v m \<longrightarrow> w \<noteq> p \<and> w \<noteq> d)"
      using al(3) a ci(4) by (metis (full_types))
    ultimately show ?thesis using ci(2,4) 3 src1(2) z(1)
      by (intro exI [of _ h2] exI [of _ ?st] exI [of _ p] exI [of _ d] exI [of _ g2]) (cases "d = 0"; simp)
  qed
qed

lemma qmsg_rep_keep:
  "qmsg_rep st g a \<Longrightarrow> st' (q_obj a) = (st (q_obj a))\<lparr>qm_next := x\<rparr> \<or> st' (q_obj a) = st (q_obj a) \<Longrightarrow>
   (\<And>w v m. heap_area g w v m \<Longrightarrow> w = q_obj a \<Longrightarrow> heap_area g' w v m) \<Longrightarrow> qmsg_rep st' g' a"
  unfolding qmsg_rep_def by auto

lemma q_rep_frame:
  assumes rep: "q_rep Q w g ms" and "pool_inv h g1" "kpool.holds h g1 (q_held ms)"
    and area: "\<And>w v m. heap_area g w v m \<Longrightarrow> w \<in> q_obj ` set ms \<Longrightarrow> heap_area g1 w v m"
    and st: "\<And>q. q \<in> q_obj ` set ms \<Longrightarrow> st q = qmsgs w q"
  shows "q_rep Q ((set_qheap h w)\<lparr>qmsgs := st\<rparr>) g1 ms"
proof -
  have "chain (\<lambda>p. qm_next (st p)) (message_head Q) (map q_obj ms)"
    using rep chain_cong [of "map q_obj ms" "\<lambda>p. qm_next (st p)" "\<lambda>p. qm_next (qmsgs w p)"] st by (simp add: q_rep_def)
  moreover have "\<forall>a \<in> set ms. qmsg_rep st g1 a"
  proof
    fix a assume a: "a \<in> set ms"
    have "qmsg_rep (qmsgs w) g a" using rep a by (simp add: q_rep_def)
    then show "qmsg_rep st g1 a" by (rule qmsg_rep_keep) (use st area a in auto)
  qed
  ultimately show ?thesis using assms(1-3) by (simp add: q_rep_def)
qed

lemma q_rep_append:
  assumes rep: "q_rep Q w g ms" and inv: "pool_inv h g1" and kept: "areas_kept (qheap w) g h g1"
    and p: "p \<noteq> 0" "\<And>q. q \<noteq> p \<Longrightarrow> st q = qmsgs w q" "heap_area g1 p p 28"
      "st p = \<lparr>qm_message_id = mid, qm_sender_id = sender, qm_receiver_id = receiver, qm_type = ty, qm_data_size = sz, qm_data = d, qm_next = 0\<rparr>"
    and bs: "length bs = unat sz" "kpool.holds h g1 (q_held ms @ (if bs = [] then [] else [(d, bs)]))" "bs = [] \<longleftrightarrow> d = 0" "p \<noteq> d"
    and fresh: "\<And>w v m. heap_area g w v m \<Longrightarrow> w \<noteq> p \<and> (d = 0 \<or> w \<noteq> d)" and room: "Suc (length ms) < 2 ^ 32"
  defines "qw \<equiv> append_message p (Q, (set_qheap h w)\<lparr>qmsgs := st\<rparr>)"
  shows "q_rep (fst qw) (snd qw) g1 (ms @ [\<lparr>q_obj = p, q_buf = d, q_mid = mid, q_from = sender, q_to = receiver, q_ty = ty, q_bytes = bs\<rparr>])"
proof -
  let ?l = "q_obj (last ms)"
  define st' where "st' = (if ms = [] then st else st(?l := (st ?l)\<lparr>qm_next := p\<rparr>))"
  have rp: "chain (\<lambda>p. qm_next (qmsgs w p)) (message_head Q) (map q_obj ms)" "distinct (map q_obj ms)"
    "message_tail Q = (if ms = [] then 0 else ?l)" "set (map q_obj ms) \<inter> set (map q_buf ms) = {}"
    "unat (mq_message_count Q) = length ms" "\<forall>a \<in> set ms. qmsg_rep (qmsgs w) g a"
    using rep by (simp_all add: q_rep_def)
  have new: "p \<notin> q_obj ` set ms" "d \<notin> q_obj ` set ms"
    using fresh q_rep_areas(1,2) [OF rep] by blast+
  have nb: "p \<notin> q_buf ` set ms"
  proof
    assume "p \<in> q_buf ` set ms"
    then obtain a where "a \<in> set ms" "q_buf a = p" by auto
    then show False using q_rep_areas(4) [OF rep, of a] p(1) fresh by blast
  qed
  have last: "ms \<noteq> [] \<Longrightarrow> ?l \<in> q_obj ` set ms" by simp
  have mq: "message_head Q = 0 \<longleftrightarrow> ms = []" using chain_head [OF rp(1)] chain_nonzero [OF rp(1)] by (cases ms) auto
  have qw: "fst qw = Q\<lparr>message_head := (if ms = [] then p else message_head Q), message_tail := p, mq_message_count := mq_message_count Q + 1\<rparr>"
    "snd qw = (set_qheap h w)\<lparr>qmsgs := st'\<rparr>"
    using rp(3) mq by (auto simp: qw_def append_message_def st'_def)
  have "chain (\<lambda>q. qm_next (st' q)) (if map q_obj ms = [] then p else message_head Q) (map q_obj ms @ [p])"
  proof (rule chain_snoc [OF rp(1,2)])
    show "qm_next (st' p) = 0" using new(1) last p(4) by (auto simp: st'_def)
    show "qm_next (st' (last (map q_obj ms))) = p" if "map q_obj ms \<noteq> []" using that by (simp add: st'_def last_map)
    fix q assume q: "q \<in> set (butlast (map q_obj ms))"
    then have "q \<in> q_obj ` set ms" "ms \<noteq> []" using in_set_butlastD by fastforce+
    moreover have "q \<noteq> ?l" using q rp(2) \<open>ms \<noteq> []\<close> by (cases ms rule: rev_cases) (auto simp: map_butlast [symmetric] image_iff)
    moreover have "q \<noteq> p" using new(1) \<open>q \<in> q_obj ` set ms\<close> by blast
    ultimately show "qm_next (st' q) = qm_next (qmsgs w q)" using p(2) [of q] by (simp add: st'_def)
  qed (use new p in auto)
  moreover have "qmsg_rep st' g1 a" if a: "a \<in> set ms" for a
  proof (rule qmsg_rep_keep)
    show "qmsg_rep (qmsgs w) g a" using rp(6) a by blast
    have "q_obj a \<noteq> p" using new(1) a by auto
    then show "st' (q_obj a) = (qmsgs w (q_obj a))\<lparr>qm_next := p\<rparr> \<or> st' (q_obj a) = qmsgs w (q_obj a)"
      using p(2) by (auto simp: st'_def)
  qed (use kept in blast)
  moreover have "st' p = st p" using new(1) last by (auto simp: st'_def)
  then have "qmsg_rep st' g1 \<lparr>q_obj = p, q_buf = d, q_mid = mid, q_from = sender, q_to = receiver, q_ty = ty, q_bytes = bs\<rparr>"
    using p(3,4) bs(1,3) by (simp add: qmsg_rep_def)
  moreover have "unat (mq_message_count Q + 1) = Suc (length ms)" using rp(5) room by (simp add: unat_add_nowrap)
  ultimately show ?thesis using inv bs new nb rp(2,4) by (auto simp: q_rep_def qw split: if_splits)
qed

lemma append_fields:
  "queue_mutex (fst (append_message p (Q, w))) = queue_mutex Q" "mq_read_cv (fst (append_message p (Q, w))) = mq_read_cv Q"
  "mq_write_cv (fst (append_message p (Q, w))) = mq_write_cv Q" "mq_procs (snd (append_message p (Q, w))) = mq_procs w"
  "next_message_id (fst (append_message p (Q, w))) = next_message_id Q"
  "g_thread_manager (snd (append_message p (Q, w))) = g_thread_manager w" "qobjs (snd (append_message p (Q, w))) = qobjs w"
  by (simp_all add: append_message_def)

lemma cv_ops_new [simp]:
  "mq_read_cv Q = ConditionVariable_new \<Longrightarrow> q_read_broadcast (Q, w) = Some (Q, w)"
  "mq_write_cv Q = ConditionVariable_new \<Longrightarrow> q_write_broadcast (Q, w) = Some (Q, w)"
  "mq_write_cv Q = ConditionVariable_new \<Longrightarrow> q_write_signal (Q, w) = Some (Q, w)"
  by (cases Q; simp add: q_read_broadcast_def q_write_broadcast_def q_write_signal_def q_lock.sc_same)+

lemma send_message_spec:
  assumes rep: "q_rep Q w g ms" and cv: "mq_read_cv Q = ConditionVariable_new"
    and src: "sz = 0 \<or> heap_area g sw data (unat sz) \<and> data \<noteq> 0" and sz: "unat sz \<le> 4294967259"
    and room: "Suc (length ms) < 2 ^ 32"
  shows "\<exists>Q1 w1 r g1. send_message sender receiver ty data sz (Q, w) = Some ((Q1, w1), r) \<and> only_qheap w w1 \<and>
    areas_kept (qheap w) g (qheap w1) g1 \<and> queue_mutex Q1 = queue_mutex Q \<and> mq_read_cv Q1 = mq_read_cv Q \<and> mq_write_cv Q1 = mq_write_cv Q \<and>
    next_message_id Q1 = next_message_id Q + 1 \<and>
    (if r then \<exists>p d. q_rep Q1 w1 g1 (ms @ [\<lparr>q_obj = p, q_buf = d, q_mid = next_message_id Q, q_from = sender, q_to = receiver, q_ty = ty,
         q_bytes = bytes_at (hmem (qheap w)) data (unat sz)\<rparr>])
     else Q1 = Q\<lparr>next_message_id := next_message_id Q + 1\<rparr> \<and> q_rep Q1 w1 g1 ms)"
proof -
  let ?bs = "bytes_at (hmem (qheap w)) data (unat sz)" and ?mid = "next_message_id Q"
  let ?Q = "Q\<lparr>next_message_id := ?mid + 1\<rparr>"
  have repQ: "q_rep ?Q w g ms" using rep by (simp add: q_rep_def)
  obtain h st p d g1 where n: "new_QueueMessage ?mid sender receiver ty sz data w = Some ((set_qheap h w)\<lparr>qmsgs := st\<rparr>, p)" "pool_inv h g1"
    "areas_kept (qheap w) g h g1" "\<forall>q. q \<noteq> p \<longrightarrow> st q = qmsgs w q"
    "if p = 0 \<or> 0 < sz \<and> d = 0 then kpool.holds h g1 (q_held ms) \<and> p \<notin> q_obj ` set ms \<and> (p \<noteq> 0 \<longrightarrow> qm_data (st p) = 0)
     else st p = \<lparr>qm_message_id = ?mid, qm_sender_id = sender, qm_receiver_id = receiver, qm_type = ty, qm_data_size = sz, qm_data = d, qm_next = 0\<rparr> \<and>
       kpool.holds h g1 (q_held ms @ (if sz = 0 then [] else [(d, ?bs)])) \<and> (sz = 0 \<longleftrightarrow> d = 0) \<and>
       heap_area g1 p p 28 \<and> p \<noteq> d \<and> (\<forall>w v m. heap_area g w v m \<longrightarrow> w \<noteq> p \<and> (d = 0 \<or> w \<noteq> d))"
    using new_QueueMessage_spec [OF rep src sz, of ?mid sender receiver ty] by (elim exE conjE) (rule that)
  let ?w1 = "(set_qheap h w)\<lparr>qmsgs := st\<rparr>"
  show ?thesis
  proof (cases "p = 0 \<or> 0 < sz \<and> d = 0")
    case True
    then have f: "kpool.holds h g1 (q_held ms)" "p \<notin> q_obj ` set ms" "p \<noteq> 0 \<longrightarrow> qm_data (st p) = 0" using n(5) by auto
    have "q_rep ?Q ?w1 g1 ms" by (rule q_rep_frame [OF repQ n(2) f(1)]) (use n(3,4) f(2) in auto)
    moreover have "delete_QueueMessage p ?w1 = Some ?w1"
      using f(3) by (auto simp: delete_QueueMessage_def operator_delete_def set_qheap_def set_pheap_def)
    moreover have "p = 0 \<or> 0 < sz \<and> qm_data (st p) = 0" using True f(3) by auto
    ultimately show ?thesis using n(1,3)
      by (intro exI [of _ ?Q] exI [of _ ?w1] exI [of _ False] exI [of _ g1]) (simp add: send_message_def)
  next
    case False
    have new: "st p = \<lparr>qm_message_id = ?mid, qm_sender_id = sender, qm_receiver_id = receiver, qm_type = ty, qm_data_size = sz, qm_data = d, qm_next = 0\<rparr>"
      "kpool.holds h g1 (q_held ms @ (if sz = 0 then [] else [(d, ?bs)]))" "sz = 0 \<longleftrightarrow> d = 0" "heap_area g1 p p 28" "p \<noteq> d"
      "\<And>w v m. heap_area g w v m \<Longrightarrow> w \<noteq> p \<and> (d = 0 \<or> w \<noteq> d)" using False n(5) by auto
    have bs: "?bs = [] \<longleftrightarrow> sz = 0" by (metis length_bytes_at length_0_conv unat_eq_zero)
    define qw where "qw = append_message p (?Q, ?w1)"
    have r1: "q_rep (fst qw) (snd qw) g1 (ms @ [\<lparr>q_obj = p, q_buf = d, q_mid = ?mid, q_from = sender, q_to = receiver, q_ty = ty, q_bytes = ?bs\<rparr>])"
      unfolding qw_def
      by (rule q_rep_append [where st = st, OF repQ n(2,3) _ _ new(4,1) _ _ _ new(5,6) room]) (use False n(4) new(2,3) bs in auto)
    have same: "queue_mutex (fst qw) = queue_mutex Q" "mq_read_cv (fst qw) = mq_read_cv Q" "mq_write_cv (fst qw) = mq_write_cv Q"
      "only_qheap w (snd qw)" "qheap (snd qw) = h" "next_message_id (fst qw) = ?mid + 1"
      by (simp_all add: qw_def append_fields only_qheap_def) (simp add: set_qheap_def)
    have "\<not> (p = 0 \<or> 0 < sz \<and> qm_data (st p) = 0)" using False new(1,3) by auto
    then have "send_message sender receiver ty data sz (Q, w) = Some ((fst qw, snd qw), True)"
      using n(1) cv same(2) cv_ops_new(1) [of "fst qw" "snd qw"] by (auto simp: send_message_def Let_def qw_def [symmetric])
    with r1 same n(3) show ?thesis
      by (intro exI [of _ "fst qw"] exI [of _ "snd qw"] exI [of _ True] exI [of _ g1]) auto
  qed
qed

text \<open>The waiting loops end only if there is nothing to wait for, since no other thread runs.\<close>

lemma q_wait_same:
  assumes "q_wait qw = Some qw1"
  shows "\<exists>m s. fst qw1 = set_queue_mutex m (fst qw) \<and> snd qw1 = set_q_sched s (snd qw)"
  using assms by (cases qw) (auto simp: q_wait_def bind_eq_Some_conv)

lemma set_queue_mutex_simps [simp]:
  "MQ_IsFull (set_queue_mutex m Q) = MQ_IsFull Q" "mq_closed (set_queue_mutex m Q) = mq_closed Q"
  "message_head (set_queue_mutex m Q) = message_head Q" "q_rep (set_queue_mutex m Q) w g ms = q_rep Q w g ms"
  "queue_mutex (set_queue_mutex m Q) = m" "mq_read_cv (set_queue_mutex m Q) = mq_read_cv Q" "mq_write_cv (set_queue_mutex m Q) = mq_write_cv Q"
  "set_queue_mutex m (set_queue_mutex m' Q) = set_queue_mutex m Q" "next_message_id (set_queue_mutex m Q) = next_message_id Q"
  "qmsgs (set_q_sched s w) = qmsgs w"
  by (simp_all add: set_queue_mutex_def MQ_IsFull_def q_rep_def set_q_sched_def)

lemma wait_room_stuck:
  assumes "wait_room block qw = Some r"
  shows "\<not> (MQ_IsFull (fst qw) \<and> block \<and> \<not> mq_closed (fst qw))"
proof (rule wait_room.raw_induct [of "\<lambda>block qw r. \<not> (MQ_IsFull (fst qw) \<and> block \<and> \<not> mq_closed (fst qw))", OF _ assms])
  fix f block qw r
  assume ih: "\<And>block qw r. f block qw = Some r \<Longrightarrow> \<not> (MQ_IsFull (fst qw) \<and> block \<and> \<not> mq_closed (fst qw))"
    and run: "(if MQ_IsFull (fst qw)
      then if \<not> block \<or> mq_closed (fst qw) then Some (qw, False) else q_wait qw \<bind> f block
      else Some (qw, True)) = Some r"
  show "\<not> (MQ_IsFull (fst qw) \<and> block \<and> \<not> mq_closed (fst qw))"
  proof
    assume a: "MQ_IsFull (fst qw) \<and> block \<and> \<not> mq_closed (fst qw)"
    with run obtain qw1 where "q_wait qw = Some qw1" "f block qw1 = Some r" by (auto simp: bind_eq_Some_conv)
    with q_wait_same [of qw qw1] ih [of block qw1 r] a show False by auto
  qed
qed

lemma wait_room_eq:
  "wait_room block qw =
    (if \<not> MQ_IsFull (fst qw) then Some (qw, True) else if \<not> block \<or> mq_closed (fst qw) then Some (qw, False) else None)"
proof (cases "MQ_IsFull (fst qw) \<and> block \<and> \<not> mq_closed (fst qw)")
  case True
  then have "wait_room block qw = None" using wait_room_stuck by (cases "wait_room block qw") auto
  with True show ?thesis by simp
qed (auto simp: wait_room.simps [of block qw])

lemma q_rep_not_full:
  assumes "q_rep Q w g ms" "\<not> MQ_IsFull Q"
  shows "Suc (length ms) < 2 ^ 32" "Suc (length ms) \<le> unat (mq_max_messages Q)"
proof -
  have "length ms < unat (mq_max_messages Q)" using assms by (auto simp: MQ_IsFull_def q_rep_def word_less_nat_alt not_le)
  with u32_less_limit [of "mq_max_messages Q"]
  show "Suc (length ms) < 2 ^ 32" "Suc (length ms) \<le> unat (mq_max_messages Q)" by simp_all
qed

lemma MQ_Send_runs:
  assumes rep: "q_rep Q w g ms" and idle: "q_idle Q" and ok: "\<not> mq_closed Q" "\<not> MQ_IsFull Q" "sz \<le> max_message_size Q"
    and src: "sz = 0 \<or> heap_area g sw data (unat sz) \<and> data \<noteq> 0" and sz: "unat sz \<le> 4294967259"
  shows "\<exists>Q1 w1 r g1. MQ_Send sender receiver ty data sz block (Q, w) = Some ((Q1, w1), r) \<and> only_qheap w w1 \<and> q_idle Q1 \<and>
    areas_kept (qheap w) g (qheap w1) g1 \<and> next_message_id Q1 = next_message_id Q + 1 \<and>
    (if r then \<exists>p d. q_rep Q1 w1 g1 (ms @ [\<lparr>q_obj = p, q_buf = d, q_mid = next_message_id Q, q_from = sender, q_to = receiver, q_ty = ty,
         q_bytes = bytes_at (hmem (qheap w)) data (unat sz)\<rparr>])
     else q_rep Q1 w1 g1 ms)"
proof -
  let ?m = "lock_held (q_gs w) (q_sched w)"
  let ?L = "set_queue_mutex ?m Q"
  have L: "q_rep ?L w g ms" "mq_read_cv ?L = ConditionVariable_new" using rep idle by (simp_all add: q_idle_def)
  obtain Q1 w1 r g1 where m: "send_message sender receiver ty data sz (?L, w) = Some ((Q1, w1), r)" "only_qheap w w1"
    "areas_kept (qheap w) g (qheap w1) g1" "queue_mutex Q1 = queue_mutex ?L" "mq_read_cv Q1 = mq_read_cv ?L" "mq_write_cv Q1 = mq_write_cv ?L"
    "next_message_id Q1 = next_message_id ?L + 1"
    "if r then \<exists>p d. q_rep Q1 w1 g1 (ms @ [\<lparr>q_obj = p, q_buf = d, q_mid = next_message_id ?L, q_from = sender, q_to = receiver, q_ty = ty,
         q_bytes = bytes_at (hmem (qheap w)) data (unat sz)\<rparr>])
     else Q1 = ?L\<lparr>next_message_id := next_message_id ?L + 1\<rparr> \<and> q_rep Q1 w1 g1 ms"
    using send_message_spec [OF L src sz q_rep_not_full(1) [OF rep ok(2)], of sender receiver ty] by (elim exE conjE) (rule that)
  have lk: "queue_mutex Q = Mutex_new" using idle by (simp add: q_idle_def)
  have "q_guarded (\<lambda>qw. wait_room block qw \<bind>
      (\<lambda>(qw1, ok). if ok then send_message sender receiver ty data sz qw1 else Some (qw1, False))) (Q, w) =
      Some ((set_queue_mutex Mutex_new Q1, w1), r)"
    unfolding q_guarded_def
    by (rule q_lock.run_idle [OF lk]) (use m(1,4) ok(2) only_qheap_same [OF m(2)] in \<open>simp_all add: wait_room_eq\<close>)
  moreover have "\<not> (0 < sz \<and> data = 0)" "\<not> max_message_size Q < sz" using src ok(3) by auto
  ultimately have "MQ_Send sender receiver ty data sz block (Q, w) = Some ((set_queue_mutex Mutex_new Q1, w1), r)"
    using ok(1) by (auto simp: MQ_Send_def)
  moreover have "q_idle (set_queue_mutex Mutex_new Q1)" using m(5,6) idle by (simp add: q_idle_def)
  moreover have "r \<Longrightarrow> \<exists>p d. q_rep Q1 w1 g1 (ms @ [\<lparr>q_obj = p, q_buf = d, q_mid = next_message_id Q, q_from = sender, q_to = receiver, q_ty = ty,
         q_bytes = bytes_at (hmem (qheap w)) data (unat sz)\<rparr>])" "\<not> r \<Longrightarrow> q_rep Q1 w1 g1 ms"
    using m(8) by (auto split: if_splits)
  ultimately show ?thesis using m(2,3,7)
    by (intro exI [of _ "set_queue_mutex Mutex_new Q1"] exI [of _ w1] exI [of _ r] exI [of _ g1]) (cases r; simp)
qed

section \<open>Matching messages\<close>

definition for_me :: "u32 \<Rightarrow> qmsg \<Rightarrow> bool" where
  "for_me receiver a \<longleftrightarrow> receiver = 0 \<or> q_to a = 0 \<or> q_to a = receiver"

lemma accepts_rep: "qmsg_rep st g a \<Longrightarrow> accepts receiver (st (q_obj a)) = for_me receiver a"
  by (auto simp: qmsg_rep_def accepts_def for_me_def)

lemma match_loop_none:
  assumes "chain (\<lambda>p. qm_next (st p)) p (map q_obj ms)" "\<forall>a \<in> set ms. qmsg_rep st g a \<and> \<not> for_me receiver a"
  shows "match_loop st receiver prev p = Some (0, 0)"
  using assms
proof (induction ms arbitrary: p prev)
  case (Cons a ms)
  then show ?case by (subst match_loop.simps) (auto simp: accepts_rep)
qed (simp add: match_loop.simps)

lemma match_loop_found:
  assumes "chain (\<lambda>p. qm_next (st p)) p (map q_obj (xs @ a # ys))" "\<forall>a \<in> set (xs @ a # ys). qmsg_rep st g a"
    "\<forall>x \<in> set xs. \<not> for_me receiver x" "for_me receiver a"
  shows "match_loop st receiver prev p = Some (q_obj a, if xs = [] then prev else q_obj (last xs))"
  using assms
proof (induction xs arbitrary: p prev)
  case (Cons x xs)
  then show ?case by (subst match_loop.simps) (auto simp: accepts_rep)
next
  case Nil
  then show ?case by (subst match_loop.simps) (auto simp: accepts_rep)
qed

lemma FindMatching:
  assumes "q_rep Q w g ms"
  shows "\<forall>x \<in> set ms. \<not> for_me receiver x \<Longrightarrow> FindMatchingMessage receiver (set_queue_mutex m Q, w) = Some (0, 0)"
    "ms = xs @ a # ys \<Longrightarrow> \<forall>x \<in> set xs. \<not> for_me receiver x \<Longrightarrow> for_me receiver a \<Longrightarrow>
      FindMatchingMessage receiver (set_queue_mutex m Q, w) = Some (q_obj a, if xs = [] then 0 else q_obj (last xs))"
proof -
  have c: "chain (\<lambda>p. qm_next (qmsgs w p)) (message_head Q) (map q_obj ms)" "\<forall>a \<in> set ms. qmsg_rep (qmsgs w) g a"
    using assms by (simp_all add: q_rep_def)
  show "\<forall>x \<in> set ms. \<not> for_me receiver x \<Longrightarrow> FindMatchingMessage receiver (set_queue_mutex m Q, w) = Some (0, 0)"
    using match_loop_none [OF c(1)] c(2) by (auto simp: FindMatchingMessage_def)
  show "ms = xs @ a # ys \<Longrightarrow> \<forall>x \<in> set xs. \<not> for_me receiver x \<Longrightarrow> for_me receiver a \<Longrightarrow>
      FindMatchingMessage receiver (set_queue_mutex m Q, w) = Some (q_obj a, if xs = [] then 0 else q_obj (last xs))"
    using match_loop_found [of "qmsgs w" "message_head Q" xs a ys g receiver 0] c by (simp add: FindMatchingMessage_def)
qed

text \<open>The chosen message is taken out of the chain and deleted.\<close>

lemma q_release:
  assumes i: "pool_inv h g" "kpool.holds h g (q_held (xs @ a # ys))" and ra: "qmsg_rep st g' a"
  shows "\<exists>h1 g1. (if q_buf a = 0 then h1 = h else Heap_Free (q_buf a) h = Some h1) \<and> pool_inv h1 g1 \<and> kpool.holds h1 g1 (q_held (xs @ ys)) \<and>
    (\<forall>w v m. heap_area g w v m \<longrightarrow> w \<noteq> q_buf a \<or> q_buf a = 0 \<longrightarrow> heap_area g1 w v m \<and> bytes_at (hmem h1) v m = bytes_at (hmem h) v m)"
proof (cases "q_buf a = 0")
  case True
  with i ra show ?thesis by (intro exI [of _ h] exI [of _ g]) (auto simp: qmsg_rep_def)
next
  case False
  then have "q_bytes a \<noteq> []" using ra by (simp add: qmsg_rep_def)
  with i(2) have "kpool.holds h g (q_held xs @ (q_buf a, q_bytes a) # q_held ys)" by simp
  from kpool.holds_drop [OF i(1) this] False show ?thesis by simp
qed

lemma q_rep_unlink:
  assumes rep: "q_rep Q w g (xs @ a # ys)"
  defines "qw \<equiv> unlink_message (q_obj a) (if xs = [] then 0 else q_obj (last xs)) (Q, w)"
  shows "\<exists>w1 g1. delete_QueueMessage (q_obj a) (snd qw) = Some w1 \<and> only_qheap w w1 \<and> q_rep (fst qw) w1 g1 (xs @ ys) \<and>
    (\<forall>w' v m. heap_area g w' v m \<longrightarrow> w' \<noteq> q_buf a \<or> q_buf a = 0 \<longrightarrow>
       heap_area g1 w' v m \<and> bytes_at (hmem (qheap w1)) v m = bytes_at (hmem (qheap w)) v m)"
proof -
  let ?ms = "xs @ a # ys" and ?l = "q_obj (last xs)"
  define nx where "nx = qm_next (qmsgs w (q_obj a))"
  define st where "st = (if xs = [] then qmsgs w else (qmsgs w)(?l := (qmsgs w ?l)\<lparr>qm_next := nx\<rparr>))"
  have rp: "pool_inv (qheap w) g" "kpool.holds (qheap w) g (q_held ?ms)"
    "chain (\<lambda>p. qm_next (qmsgs w p)) (message_head Q) (map q_obj xs @ q_obj a # map q_obj ys)" "distinct (map q_obj xs @ q_obj a # map q_obj ys)"
    "message_tail Q = q_obj (last ?ms)" "\<forall>b \<in> set ?ms. qmsg_rep (qmsgs w) g b" "set (map q_obj ?ms) \<inter> set (map q_buf ?ms) = {}"
    "unat (mq_message_count Q) = Suc (length (xs @ ys))"
    using rep by (simp_all add: q_rep_def del: q_held_simps)
  have nz: "\<And>b. b \<in> set ?ms \<Longrightarrow> q_obj b \<noteq> 0" using q_rep_areas(2) [OF rep] .
  have lz: "xs \<noteq> [] \<Longrightarrow> ?l \<noteq> 0 \<and> ?l \<noteq> q_obj a \<and> ?l \<in> q_obj ` set xs"
    using nz [of "last xs"] rp(4) last_in_set [of xs] by (metis Un_iff distinct_append distinct.simps(2) disjoint_iff imageI image_set list.set_intros(1) set_append)
  have ra: "qmsg_rep (qmsgs w) g a" using rp(6) by simp
  have tl: "message_tail Q = q_obj a \<longleftrightarrow> ys = []" using rp(4,5) by (cases ys rule: rev_cases) auto
  have qw: "fst qw = Q\<lparr>message_head := (if xs = [] then nx else message_head Q),
      message_tail := (if ys = [] then (if xs = [] then 0 else ?l) else message_tail Q), mq_message_count := mq_message_count Q - 1\<rparr>"
    "snd qw = w\<lparr>qmsgs := st\<rparr>"
    using lz tl by (auto simp: qw_def unlink_message_def st_def nx_def Let_def)
  have da: "qm_data (st (q_obj a)) = q_buf a" using ra lz by (auto simp: qmsg_rep_def st_def)
  define st' where "st' = (if q_buf a = 0 then st else st(q_obj a := (st (q_obj a))\<lparr>qm_data := 0\<rparr>))"
  obtain h1 g1 where f: "if q_buf a = 0 then h1 = qheap w else Heap_Free (q_buf a) (qheap w) = Some h1" "pool_inv h1 g1"
    "kpool.holds h1 g1 (q_held (xs @ ys))"
    "\<forall>w' v m. heap_area g w' v m \<longrightarrow> w' \<noteq> q_buf a \<or> q_buf a = 0 \<longrightarrow>
       heap_area g1 w' v m \<and> bytes_at (hmem h1) v m = bytes_at (hmem (qheap w)) v m"
    using q_release [OF rp(1,2) ra] by (elim exE conjE) (rule that)
  let ?w1 = "(set_qheap h1 w)\<lparr>qmsgs := st'\<rparr>"
  have del: "delete_QueueMessage (q_obj a) (snd qw) = Some ?w1"
    using nz [of a] f(1) da by (auto simp: delete_QueueMessage_def operator_delete_def qw(2) st'_def set_qheap_def set_pheap_def)
  have ne: "q_obj b \<noteq> q_obj a \<and> q_obj b \<noteq> q_buf a" if "b \<in> set (xs @ ys)" for b
    using that rp(4,7) by (auto simp: image_iff)
  have "chain (\<lambda>p. qm_next (st' p)) (if map q_obj xs = [] then nx else message_head Q) (map q_obj xs @ map q_obj ys)"
    unfolding nx_def
  proof (rule chain_remove [OF rp(3,4)])
    fix y assume y: "y \<in> set (butlast (map q_obj xs)) \<union> set (map q_obj ys)"
    have "y \<noteq> ?l \<or> xs = []"
    proof (cases xs rule: rev_cases)
      case (snoc zs z)
      with y rp(4) show ?thesis by (auto simp: map_butlast [symmetric] butlast_append)
    qed simp
    then show "qm_next (st' y) = qm_next (qmsgs w y)" by (auto simp: st'_def st_def)
  qed (use lz in \<open>auto simp: st'_def st_def last_map nx_def\<close>)
  moreover have "qmsg_rep st' g1 b" if b: "b \<in> set (xs @ ys)" for b
  proof (rule qmsg_rep_keep)
    show "qmsg_rep (qmsgs w) g b" using rp(6) b by auto
    show "st' (q_obj b) = (qmsgs w (q_obj b))\<lparr>qm_next := nx\<rparr> \<or> st' (q_obj b) = qmsgs w (q_obj b)"
      using ne [OF b] by (auto simp: st'_def st_def)
    fix w' v m assume "heap_area g w' v m" "w' = q_obj b"
    with f(4) ne [OF b] show "heap_area g1 w' v m" by blast
  qed
  moreover have "unat (mq_message_count Q - 1) = length (xs @ ys)" using rp(8) by (simp add: unat_sub_nowrap)
  moreover have "distinct (map q_obj (xs @ ys))" "set (map q_obj (xs @ ys)) \<inter> set (map q_buf (xs @ ys)) = {}" using rp(4,7) by auto
  moreover have "(if ys = [] then (if xs = [] then 0 else ?l) else message_tail Q) = (if xs @ ys = [] then 0 else q_obj (last (xs @ ys)))"
    using rp(5) by (cases "ys = []") auto
  ultimately have "q_rep (fst qw) ?w1 g1 (xs @ ys)" using f(2,3) by (auto simp: q_rep_def qw(1))
  with del f(4) show ?thesis by (intro exI [of _ ?w1] exI [of _ g1]) simp
qed

lemma copy_message_rep:
  assumes rep: "q_rep Q w g ms" and a: "a \<in> set ms" and n: "0 < unat n"
    and buf: "heap_area g bw buffer (unat n)" "bw \<notin> q_buf ` set ms \<or> bw = 0"
  shows "\<exists>w1 k. copy_message (qmsgs w (q_obj a)) buffer n w = (w1, k) \<and> only_qheap w w1 \<and> qmsgs w1 = qmsgs w \<and>
    unat k = min (length (q_bytes a)) (unat n) \<and> q_rep Q w1 g ms \<and> bytes_at (hmem (qheap w1)) buffer (unat k) = take (unat n) (q_bytes a) \<and>
    (\<forall>w' v m. heap_area g w' v m \<longrightarrow> w' \<noteq> bw \<longrightarrow> bytes_at (hmem (qheap w1)) v m = bytes_at (hmem (qheap w)) v m)"
proof -
  let ?msg = "qmsgs w (q_obj a)"
  let ?k = "if qm_data_size ?msg < n then qm_data_size ?msg else n"
  have m: "qm_data ?msg = q_buf a" "unat (qm_data_size ?msg) = length (q_bytes a)" "q_bytes a = [] \<longleftrightarrow> q_buf a = 0"
    using q_rep_areas(3) [OF rep a] by (auto simp: qmsg_rep_def)
  have k: "unat ?k = min (length (q_bytes a)) (unat n)" using m(2) by (auto simp: word_less_nat_alt min_def)
  show ?thesis
  proof (cases "q_bytes a = []")
    case True
    with k have "?k = 0" by (simp add: unat_eq_zero del: if_split)
    with m True rep show ?thesis by (intro exI [of _ w] exI [of _ 0]) (simp add: copy_message_def Let_def del: if_split)
  next
    case False
    then have "0 < unat ?k" using k n by (simp del: if_split)
    then have kp: "0 < ?k" by (simp only: word_less_nat_alt unat_0)
    have i: "pool_inv (qheap w) g" "kpool.holds (qheap w) g (q_held ms)" using rep by (simp_all add: q_rep_def)
    have d: "(q_buf a, q_bytes a) \<in> set (q_held ms)" using a False by (auto simp: q_held_def)
    have ar: "heap_area g bw buffer (unat ?k)" by (rule heap_area_less [OF buf(1)]) (simp add: k del: if_split)
    have bw: "bw \<notin> fst ` set (q_held ms)" using buf(2) q_held_bufs [of ms] kpool.holdsD [OF i(2)] by fastforce
    have kl: "unat ?k \<le> length (q_bytes a)" by (simp add: k del: if_split)
    note co = copy_out_spec [OF i d ar bw kl]
    let ?h = "(qheap w)\<lparr>hmem := memcpy (hmem (qheap w)) buffer (q_buf a) ?k\<rparr>"
    have "take (unat ?k) (q_bytes a) = take (unat n) (q_bytes a)" unfolding k by (simp add: min_def)
    then have c: "pool_inv ?h g" "kpool.holds ?h g (q_held ms)" "bytes_at (hmem ?h) buffer (unat ?k) = take (unat n) (q_bytes a)"
      "\<forall>w' v m. heap_area g w' v m \<longrightarrow> w' \<noteq> bw \<longrightarrow> bytes_at (hmem ?h) v m = bytes_at (hmem (qheap w)) v m"
      using co by (simp_all del: if_split)
    have "q_rep Q (set_qheap ?h w) g ms" using rep c(1,2) by (simp add: q_rep_def del: if_split)
    then show ?thesis using k m(1,3) kp False c(3,4)
      by (intro exI [of _ "set_qheap ?h w"] exI [of _ ?k]) (simp add: copy_message_def Let_def del: if_split)
  qed
qed

lemma take_message_spec:
  assumes rep: "q_rep Q w g (xs @ a # ys)" and cv: "mq_write_cv Q = ConditionVariable_new" and n: "0 < unat n"
    and buf: "heap_area g bw buffer (unat n)" "bw \<notin> q_buf ` set (xs @ a # ys) \<or> bw = 0"
  shows "\<exists>Q1 w1 g1 k. take_message (q_obj a) (if xs = [] then 0 else q_obj (last xs)) buffer n (Q, w) =
      Some ((Q1, w1), True, Some k, Some (q_ty a, q_from a, q_mid a)) \<and>
    only_qheap w w1 \<and> q_rep Q1 w1 g1 (xs @ ys) \<and> queue_mutex Q1 = queue_mutex Q \<and> mq_read_cv Q1 = mq_read_cv Q \<and> mq_write_cv Q1 = mq_write_cv Q \<and>
    unat k = min (length (q_bytes a)) (unat n) \<and> bytes_at (hmem (qheap w1)) buffer (unat k) = take (unat n) (q_bytes a) \<and>
    (\<forall>w' v m. heap_area g w' v m \<longrightarrow> w' \<noteq> q_buf a \<or> q_buf a = 0 \<longrightarrow> heap_area g1 w' v m \<and>
       (w' \<noteq> bw \<longrightarrow> bytes_at (hmem (qheap w1)) v m = bytes_at (hmem (qheap w)) v m))"
proof -
  have a: "a \<in> set (xs @ a # ys)" by simp
  obtain w1 k where c: "copy_message (qmsgs w (q_obj a)) buffer n w = (w1, k)" "only_qheap w w1" "qmsgs w1 = qmsgs w"
    "unat k = min (length (q_bytes a)) (unat n)" "q_rep Q w1 g (xs @ a # ys)"
    "bytes_at (hmem (qheap w1)) buffer (unat k) = take (unat n) (q_bytes a)"
    "\<forall>w' v m. heap_area g w' v m \<longrightarrow> w' \<noteq> bw \<longrightarrow> bytes_at (hmem (qheap w1)) v m = bytes_at (hmem (qheap w)) v m"
    using copy_message_rep [OF rep a n buf] by (elim exE conjE) (rule that)
  define qw where "qw = unlink_message (q_obj a) (if xs = [] then 0 else q_obj (last xs)) (Q, w1)"
  obtain w2 g2 where d: "delete_QueueMessage (q_obj a) (snd qw) = Some w2" "only_qheap w1 w2" "q_rep (fst qw) w2 g2 (xs @ ys)"
    "\<forall>w' v m. heap_area g w' v m \<longrightarrow> w' \<noteq> q_buf a \<or> q_buf a = 0 \<longrightarrow>
       heap_area g2 w' v m \<and> bytes_at (hmem (qheap w2)) v m = bytes_at (hmem (qheap w1)) v m"
    using q_rep_unlink [OF c(5)] unfolding qw_def [symmetric] by (elim exE conjE) (rule that)
  have same: "queue_mutex (fst qw) = queue_mutex Q" "mq_read_cv (fst qw) = mq_read_cv Q" "mq_write_cv (fst qw) = mq_write_cv Q"
    by (simp_all add: qw_def unlink_message_def Let_def)
  have ra: "qm_type (qmsgs w (q_obj a)) = q_ty a" "qm_sender_id (qmsgs w (q_obj a)) = q_from a" "qm_message_id (qmsgs w (q_obj a)) = q_mid a"
    using q_rep_areas(3) [OF rep a] by (auto simp: qmsg_rep_def)
  have "take_message (q_obj a) (if xs = [] then 0 else q_obj (last xs)) buffer n (Q, w) =
      Some ((fst qw, w2), True, Some k, Some (q_ty a, q_from a, q_mid a))"
    using c(1) d(1) cv same(3) ra unfolding take_message_def by (simp add: qw_def [symmetric] case_prod_unfold)
  moreover have "only_qheap w w2" using c(2) d(2) by (rule only_qheap_trans)
  moreover have "heap_area g bw buffer (unat k)" by (rule heap_area_less [OF buf(1)]) (simp add: c(4))
  then have "bytes_at (hmem (qheap w2)) buffer (unat k) = take (unat n) (q_bytes a)"
    using d(4) c(6) buf(2) by (metis a imageI)
  moreover have "\<forall>w' v m. heap_area g w' v m \<longrightarrow> w' \<noteq> q_buf a \<or> q_buf a = 0 \<longrightarrow> heap_area g2 w' v m \<and>
       (w' \<noteq> bw \<longrightarrow> bytes_at (hmem (qheap w2)) v m = bytes_at (hmem (qheap w)) v m)"
    using d(4) c(7) by metis
  ultimately show ?thesis using d(3) c(4) same
    by (intro exI [of _ "fst qw"] exI [of _ w2] exI [of _ g2] exI [of _ k]) simp
qed

lemma wait_message_stuck:
  assumes "wait_message receiver block qw = Some r"
  shows "\<not> (FindMatchingMessage receiver qw = Some (0, 0) \<and> block \<and> \<not> mq_closed (fst qw))"
proof (rule wait_message.raw_induct [of "\<lambda>receiver block qw r. \<not> (FindMatchingMessage receiver qw = Some (0, 0) \<and> block \<and> \<not> mq_closed (fst qw))", OF _ assms])
  fix f receiver block qw r
  assume ih: "\<And>receiver block qw r. f receiver block qw = Some r \<Longrightarrow>
      \<not> (FindMatchingMessage receiver qw = Some (0, 0) \<and> block \<and> \<not> mq_closed (fst qw))"
    and run: "FindMatchingMessage receiver qw \<bind>
      (\<lambda>(msg, prev). if msg \<noteq> 0 then Some (qw, msg, prev)
        else if \<not> block \<or> mq_closed (fst qw) then Some (qw, 0, 0) else q_wait qw \<bind> f receiver block) = Some r"
  show "\<not> (FindMatchingMessage receiver qw = Some (0, 0) \<and> block \<and> \<not> mq_closed (fst qw))"
  proof
    assume a: "FindMatchingMessage receiver qw = Some (0, 0) \<and> block \<and> \<not> mq_closed (fst qw)"
    with run obtain qw1 where q: "q_wait qw = Some qw1" "f receiver block qw1 = Some r" by (auto simp: bind_eq_Some_conv)
    have "FindMatchingMessage receiver qw1 = FindMatchingMessage receiver qw"
      using q_wait_same [OF q(1)] by (cases qw; cases qw1) (auto simp: FindMatchingMessage_def)
    with q_wait_same [OF q(1)] ih [OF q(2)] a show False by auto
  qed
qed

lemma wait_message_eq:
  "FindMatchingMessage receiver qw = Some (0, 0) \<Longrightarrow>
    wait_message receiver block qw = (if \<not> block \<or> mq_closed (fst qw) then Some (qw, 0, 0) else None)"
  "FindMatchingMessage receiver qw = Some (msg, prev) \<Longrightarrow> msg \<noteq> 0 \<Longrightarrow> wait_message receiver block qw = Some (qw, msg, prev)"
proof -
  show "wait_message receiver block qw = (if \<not> block \<or> mq_closed (fst qw) then Some (qw, 0, 0) else None)"
    if f: "FindMatchingMessage receiver qw = Some (0, 0)"
  proof (cases "block \<and> \<not> mq_closed (fst qw)")
    case True
    then have "wait_message receiver block qw = None" using wait_message_stuck f by (cases "wait_message receiver block qw") auto
    with True show ?thesis by simp
  qed (use f in \<open>auto simp: wait_message.simps [of receiver block qw]\<close>)
  show "FindMatchingMessage receiver qw = Some (msg, prev) \<Longrightarrow> msg \<noteq> 0 \<Longrightarrow> wait_message receiver block qw = Some (qw, msg, prev)"
    by (simp add: wait_message.simps)
qed

lemma MQ_Receive_none:
  assumes rep: "q_rep Q w g ms" and idle: "q_idle Q" and ok: "\<not> mq_closed Q" "buffer \<noteq> 0" "n \<noteq> 0"
    and none: "\<forall>x \<in> set ms. \<not> for_me receiver x"
  shows "MQ_Receive receiver buffer n block (Q, w) = (if block then None else Some ((Q, w), False, Some 0, None))"
proof -
  let ?body = "\<lambda>qw. wait_message receiver block qw \<bind> (\<lambda>(qw1, msg, prev).
      if msg = 0 then Some (qw1, False, Some 0, None) else take_message msg prev buffer n qw1)"
  have lk: "queue_mutex Q = Mutex_new" using idle by (simp add: q_idle_def)
  note wm = wait_message_eq(1) [OF FindMatching(1) [OF rep none], of block]
  have "q_guarded ?body (Q, w) = (if block then None else Some ((Q, w), False, Some 0, None))"
  proof (cases block)
    case True
    then show ?thesis unfolding q_guarded_def
      by (subst q_lock.run_none [OF lk]) (use wm ok(1) in simp_all)
  next
    case False
    then show ?thesis unfolding q_guarded_def
      by (subst q_lock.run_id [where r = "(False, Some 0, None)", OF lk]) (use wm ok(1) in simp_all)
  qed
  then show ?thesis using ok by (simp add: MQ_Receive_def)
qed

lemma MQ_Receive_found:
  assumes rep: "q_rep Q w g (xs @ a # ys)" and idle: "q_idle Q" and ok: "\<not> mq_closed Q" "buffer \<noteq> 0" "0 < unat n"
    and me: "\<forall>x \<in> set xs. \<not> for_me receiver x" "for_me receiver a"
    and buf: "heap_area g bw buffer (unat n)" "bw \<notin> q_buf ` set (xs @ a # ys) \<or> bw = 0"
  shows "\<exists>Q1 w1 g1 k. MQ_Receive receiver buffer n block (Q, w) = Some ((Q1, w1), True, Some k, Some (q_ty a, q_from a, q_mid a)) \<and>
    q_rep Q1 w1 g1 (xs @ ys) \<and> q_idle Q1 \<and> only_qheap w w1 \<and>
    unat k = min (length (q_bytes a)) (unat n) \<and> bytes_at (hmem (qheap w1)) buffer (unat k) = take (unat n) (q_bytes a) \<and>
    (\<forall>w' v m. heap_area g w' v m \<longrightarrow> w' \<noteq> q_buf a \<or> q_buf a = 0 \<longrightarrow> heap_area g1 w' v m \<and>
       (w' \<noteq> bw \<longrightarrow> bytes_at (hmem (qheap w1)) v m = bytes_at (hmem (qheap w)) v m))"
proof -
  let ?m = "lock_held (q_gs w) (q_sched w)"
  let ?L = "set_queue_mutex ?m Q" and ?prev = "if xs = [] then 0 else q_obj (last xs)"
  have lk: "queue_mutex Q = Mutex_new" using idle by (simp add: q_idle_def)
  have L: "q_rep ?L w g (xs @ a # ys)" "mq_write_cv ?L = ConditionVariable_new" using rep idle by (simp_all add: q_idle_def)
  have nz: "q_obj a \<noteq> 0" using q_rep_areas(2) [OF rep, of a] by simp
  obtain Q1 w1 g1 k where t: "take_message (q_obj a) ?prev buffer n (?L, w) = Some ((Q1, w1), True, Some k, Some (q_ty a, q_from a, q_mid a))"
    "only_qheap w w1" "q_rep Q1 w1 g1 (xs @ ys)" "queue_mutex Q1 = queue_mutex ?L" "mq_read_cv Q1 = mq_read_cv ?L" "mq_write_cv Q1 = mq_write_cv ?L"
    "unat k = min (length (q_bytes a)) (unat n)" "bytes_at (hmem (qheap w1)) buffer (unat k) = take (unat n) (q_bytes a)"
    "\<forall>w' v m. heap_area g w' v m \<longrightarrow> w' \<noteq> q_buf a \<or> q_buf a = 0 \<longrightarrow> heap_area g1 w' v m \<and>
       (w' \<noteq> bw \<longrightarrow> bytes_at (hmem (qheap w1)) v m = bytes_at (hmem (qheap w)) v m)"
    using take_message_spec [OF L ok(3) buf] by (elim exE conjE) (rule that)
  note wm = wait_message_eq(2) [OF FindMatching(2) [OF rep refl me, of ?m] nz, of block]
  have "q_guarded (\<lambda>qw. wait_message receiver block qw \<bind> (\<lambda>(qw1, msg, prev).
      if msg = 0 then Some (qw1, False, Some 0, None) else take_message msg prev buffer n qw1)) (Q, w) =
      Some ((set_queue_mutex Mutex_new Q1, w1), True, Some k, Some (q_ty a, q_from a, q_mid a))"
    unfolding q_guarded_def
    by (rule q_lock.run_idle [OF lk]) (use wm nz t(1,4) only_qheap_same [OF t(2)] in \<open>simp_all del: if_split\<close>)
  moreover have "n \<noteq> 0" using ok(3) by auto
  ultimately have "MQ_Receive receiver buffer n block (Q, w) =
      Some ((set_queue_mutex Mutex_new Q1, w1), True, Some k, Some (q_ty a, q_from a, q_mid a))"
    using ok(1,2) by (simp add: MQ_Receive_def)
  moreover have "q_idle (set_queue_mutex Mutex_new Q1)" using t(5,6) idle by (simp add: q_idle_def)
  ultimately show ?thesis using t(2,3,7-9)
    by (intro exI [of _ "set_queue_mutex Mutex_new Q1"] exI [of _ w1] exI [of _ g1] exI [of _ k]) simp
qed

section \<open>Properties\<close>

text \<open>A queue with one message for the receiver 5.\<close>

definition demo_qmsg :: qmsg where
  "demo_qmsg = \<lparr>q_obj = 0x2000020, q_buf = 0x2000060, q_mid = 1, q_from = 7, q_to = 5, q_ty = MSG_TYPE_COMMAND,
     q_bytes = bytes_at (hmem demo_pool) 0x2000060 5\<rparr>"

definition demo_queue :: MessageQueue where
  "demo_queue = \<lparr>queue_id = 1, mq_name = ''ctl'', mq_max_messages = 4, max_message_size = 256, mq_message_count = 1,
     message_head = 0x2000020, message_tail = 0x2000020, next_message_id = 2, queue_mutex = Mutex_new,
     mq_read_cv = ConditionVariable_new, mq_write_cv = ConditionVariable_new, mq_closed = False, mq_blocking = True\<rparr>"

definition demo_qworld :: mq_world where
  "demo_qworld = \<lparr>g_thread_manager = None, mq_procs = set_pheap demo_pool demo_procs,
     qmsgs = (\<lambda>_. \<lparr>qm_message_id = 1, qm_sender_id = 7, qm_receiver_id = 5, qm_type = MSG_TYPE_COMMAND, qm_data_size = 5,
       qm_data = 0x2000060, qm_next = 0\<rparr>), qobjs = (\<lambda>_. demo_queue)\<rparr>"

lemma demo_queue_rep: "q_rep demo_queue demo_qworld (0x2000000, demo_blks) [demo_qmsg]" "q_idle demo_queue"
proof -
  have a: "heap_area (0x2000000, demo_blks) 0x2000020 0x2000020 28" "heap_area (0x2000000, demo_blks) 0x2000060 0x2000060 5"
    by (simp_all add: heap_area_def demo_blks_def bend_def)
  have h: "qheap demo_qworld = demo_pool" by (simp add: demo_qworld_def)
  have ne: "q_bytes demo_qmsg \<noteq> []" by (simp add: demo_qmsg_def flip: length_0_conv)
  have "kpool.holds demo_pool (0x2000000, demo_blks) (q_held [demo_qmsg])"
    using a ne by (simp add: kpool.holds_def demo_qmsg_def)
  moreover have "qmsg_rep (qmsgs demo_qworld) (0x2000000, demo_blks) demo_qmsg"
    using a ne by (simp add: qmsg_rep_def demo_qmsg_def demo_qworld_def)
  moreover have "chain (\<lambda>p. qm_next (qmsgs demo_qworld p)) (message_head demo_queue) (map q_obj [demo_qmsg])"
    by (simp add: demo_queue_def demo_qmsg_def demo_qworld_def)
  ultimately show "q_rep demo_queue demo_qworld (0x2000000, demo_blks) [demo_qmsg]"
    unfolding q_rep_def h by (simp add: demo_queue_def demo_qmsg_def)
  show "q_idle demo_queue" by (simp add: q_idle_def demo_queue_def)
qed

lemma demo_queue_fields: "\<not> mq_closed demo_queue" "\<not> MQ_IsFull demo_queue" "(0 :: u32) \<le> max_message_size demo_queue"
  "next_message_id demo_queue = 2"
  by (simp_all add: demo_queue_def MQ_IsFull_def word_le_nat_alt)



text \<open>
  C4. \<^verbatim>\<open>MessageQueue::Receive\<close> from an open queue takes the oldest message that is addressed to the caller or to anybody (the receiver 0 takes any message).
  It copies the data, cut to the caller's buffer, reports length, type, sender and id, and removes this message only: messages for others keep their
  order and content. If there is no such message, it reports that nothing was read when it does not block, and does not return otherwise while no other thread acts.
\<close>

theorem MQ_Receive_correct:
  assumes "q_rep Q w g ms" and "q_idle Q" and "\<not> mq_closed Q" and "buffer \<noteq> 0" and "0 < unat n"
    and "heap_area g bw buffer (unat n)" and "bw \<notin> q_buf ` set ms \<or> bw = 0"
  shows "case dropWhile (\<lambda>x. \<not> for_me receiver x) ms of
      [] \<Rightarrow> MQ_Receive receiver buffer n block (Q, w) = (if block then None else Some ((Q, w), False, Some 0, None))
    | a # ys \<Rightarrow> \<exists>Q1 w1 g1 k. MQ_Receive receiver buffer n block (Q, w) = Some ((Q1, w1), True, Some k, Some (q_ty a, q_from a, q_mid a)) \<and>
        q_rep Q1 w1 g1 (takeWhile (\<lambda>x. \<not> for_me receiver x) ms @ ys) \<and> q_idle Q1 \<and>
        unat k = min (length (q_bytes a)) (unat n) \<and> bytes_at (hmem (qheap w1)) buffer (unat k) = take (unat n) (q_bytes a) \<and>
        (\<forall>w' v m. heap_area g w' v m \<longrightarrow> w' \<noteq> q_buf a \<or> q_buf a = 0 \<longrightarrow> heap_area g1 w' v m \<and>
           (w' \<noteq> bw \<longrightarrow> bytes_at (hmem (qheap w1)) v m = bytes_at (hmem (qheap w)) v m))"
proof (cases "dropWhile (\<lambda>x. \<not> for_me receiver x) ms")
  case Nil
  then have "\<forall>x \<in> set ms. \<not> for_me receiver x" by (simp add: dropWhile_eq_Nil_conv)
  moreover have "n \<noteq> 0" using assms(5) by auto
  ultimately show ?thesis unfolding Nil list.case by (intro MQ_Receive_none [OF assms(1-4)])
next
  case (Cons a ys)
  let ?xs = "takeWhile (\<lambda>x. \<not> for_me receiver x) ms"
  have ms: "ms = ?xs @ a # ys" using takeWhile_dropWhile_id [of "\<lambda>x. \<not> for_me receiver x" ms] Cons by simp
  have me: "for_me receiver a" using hd_dropWhile [of "\<lambda>x. \<not> for_me receiver x" ms] Cons by simp
  have xs: "\<forall>x \<in> set ?xs. \<not> for_me receiver x" using set_takeWhileD by fastforce
  have r: "q_rep Q w g (?xs @ a # ys)" "bw \<notin> q_buf ` set (?xs @ a # ys) \<or> bw = 0" using assms(1,7) ms by simp_all
  show ?thesis using MQ_Receive_found [OF r(1) assms(2-5) xs me assms(6) r(2), of block] Cons
    by (simp only: list.case) (elim exE conjE, intro exI conjI; assumption)
qed

theorem MQ_Receive_correct_witness:
  "\<exists>Q1 w1 g1 k. MQ_Receive 5 0x1000 3 True (demo_queue, demo_qworld) = Some ((Q1, w1), True, Some k, Some (MSG_TYPE_COMMAND, 7, 1)) \<and>
     q_rep Q1 w1 g1 [] \<and> unat k = 3"
proof -
  have d: "dropWhile (\<lambda>x. \<not> for_me 5 x) [demo_qmsg] = [demo_qmsg]" "takeWhile (\<lambda>x. \<not> for_me 5 x) [demo_qmsg] = []"
    by (simp_all add: for_me_def demo_qmsg_def)
  have "(0x1000 :: u32) \<noteq> 0" "0 < unat (3 :: u32)" "heap_area (0x2000000, demo_blks) 0 0x1000 (unat (3 :: u32))"
    "0 \<notin> q_buf ` set [demo_qmsg] \<or> (0 :: u32) = 0" by (simp_all add: heap_area_def)
  from MQ_Receive_correct [where receiver = 5 and block = True, OF demo_queue_rep demo_queue_fields(1) this]
  have "\<exists>Q1 w1 g1 k. MQ_Receive 5 0x1000 3 True (demo_queue, demo_qworld) =
      Some ((Q1, w1), True, Some k, Some (q_ty demo_qmsg, q_from demo_qmsg, q_mid demo_qmsg)) \<and>
      q_rep Q1 w1 g1 [] \<and> unat k = min (length (q_bytes demo_qmsg)) (unat (3 :: u32))"
    unfolding d list.case by (elim exE conjE) (intro exI conjI, assumption, simp, assumption)
  then show ?thesis by (simp add: demo_qmsg_def)
qed

end
