(* ===== verification/KOS_Fat32.thy ===== *)
theory KOS_Fat32
  imports KOS_Bytes KOS_Packet
begin

unbundle bit_operations_syntax

text \<open>
  The FAT32 file system (\<^verbatim>\<open>src/fs/fat32.cpp\<close>): mounting, the file allocation table, directories with short
  names, and reading, appending, renaming and creating files and directories. The block device is the map from
  sector numbers to the sectors that can be accessed; an access to a missing sector fails, and a
  write of several sectors stops there. A path, a name and the data of a file are lists of bytes. The scratch
  buffers of the code lie at fixed addresses and no two of them are in use at a time; each is a list here.
  \<open>None\<close> is a call that does not return, or an access outside an array.
\<close>

section \<open>Block device\<close>

type_synonym disk = "u32 \<rightharpoonup> u8 list"

primrec dev_ReadSectors :: "nat \<Rightarrow> u32 \<Rightarrow> disk \<Rightarrow> u8 list option" where
  "dev_ReadSectors 0 lba d = Some []"
| "dev_ReadSectors (Suc n) lba d = do { s \<leftarrow> d lba; r \<leftarrow> dev_ReadSectors n (lba + 1) d; Some (s @ r) }"

primrec dev_WriteSectors :: "nat \<Rightarrow> u32 \<Rightarrow> u8 list \<Rightarrow> disk \<Rightarrow> disk \<times> bool" where
  "dev_WriteSectors 0 lba buf d = (d, True)"
| "dev_WriteSectors (Suc n) lba buf d =
     (case d lba of
        None \<Rightarrow> (d, False)
      | Some s \<Rightarrow> dev_WriteSectors n (lba + 1) (drop 512 buf) (d(lba \<mapsto> take 512 buf)))"

section \<open>State\<close>

record FAT32_BPB =
  bytesPerSector :: u16
  sectorsPerCluster :: u8
  reservedSectors :: u16
  numFATs :: u8
  sectorsPerFAT :: u32
  rootCluster :: u32
  totalSectors :: u32

record FAT32 =
  dev :: disk
  bpb :: FAT32_BPB
  volumeStartLBA :: u32
  fatStartLBA :: u32
  dataStartLBA :: u32
  mountedFlag :: bool

definition FAT32_new :: "disk \<Rightarrow> FAT32" where
  "FAT32_new d = \<lparr>dev = d,
     bpb = \<lparr>bytesPerSector = 0, sectorsPerCluster = 0, reservedSectors = 0, numFATs = 0, sectorsPerFAT = 0,
            rootCluster = 0, totalSectors = 0\<rparr>,
     volumeStartLBA = 0, fatStartLBA = 0, dataStartLBA = 0, mountedFlag = False\<rparr>"

definition ReadSectors :: "u32 \<Rightarrow> u32 \<Rightarrow> FAT32 \<Rightarrow> u8 list option" where
  "ReadSectors lba count v = dev_ReadSectors (unat (ucast count :: u8)) lba (dev v)"

definition WriteSectors :: "u32 \<Rightarrow> u32 \<Rightarrow> u8 list \<Rightarrow> FAT32 \<Rightarrow> FAT32 \<times> bool" where
  "WriteSectors lba count buf v =
     (case dev_WriteSectors (unat (ucast count :: u8)) lba buf (dev v) of (d, ok) \<Rightarrow> (v\<lparr>dev := d\<rparr>, ok))"

definition ReadSector :: "u32 \<Rightarrow> FAT32 \<Rightarrow> u8 list option" where
  "ReadSector lba v = dev_ReadSectors 1 lba (dev v)"

definition WriteSector :: "u32 \<Rightarrow> u8 list \<Rightarrow> FAT32 \<Rightarrow> FAT32 \<times> bool" where
  "WriteSector lba buf v = (case dev_WriteSectors 1 lba buf (dev v) of (d, ok) \<Rightarrow> (v\<lparr>dev := d\<rparr>, ok))"

text \<open>Little-endian numbers in a sector.\<close>

definition sec16 :: "u8 list \<Rightarrow> nat \<Rightarrow> u16" where
  "sec16 s k = word16 (s ! k) (s ! (k + 1))"

definition sec32 :: "u8 list \<Rightarrow> nat \<Rightarrow> u32" where
  "sec32 s k = ucast (s ! k) OR push_bit 8 (ucast (s ! (k + 1))) OR push_bit 16 (ucast (s ! (k + 2))) OR
     push_bit 24 (ucast (s ! (k + 3)))"

definition set32 :: "u8 list \<Rightarrow> nat \<Rightarrow> u32 \<Rightarrow> u8 list" where
  "set32 s k x = s[k := ucast x, k + 1 := ucast (drop_bit 8 x), k + 2 := ucast (drop_bit 16 x),
     k + 3 := ucast (drop_bit 24 x)]"

section \<open>Mounting\<close>

definition is_fat32 :: "u8 list \<Rightarrow> bool" where
  "is_fat32 bs \<longleftrightarrow> bs ! 82 = 0x46 \<and> bs ! 83 = 0x41 \<and> bs ! 84 = 0x54 \<and> bs ! 85 = 0x33 \<and> bs ! 86 = 0x32"

definition boot_signature :: "u8 list \<Rightarrow> bool" where
  "boot_signature bs \<longleftrightarrow> bs ! 510 = 0x55 \<and> bs ! 511 = 0xAA"

fun scan_partitions :: "nat list \<Rightarrow> u8 list \<Rightarrow> FAT32 \<Rightarrow> u32 option" where
  "scan_partitions [] mbr v = None"
| "scan_partitions (i # js) mbr v =
     (let off = 446 + i * 16;
          type = mbr ! (off + 4);
          lbaStart = sec32 mbr (off + 8)
      in if type = 0x01 \<or> type = 0x04 \<or> type = 0x06 \<or> type = 0x0E \<or> type = 0x0B \<or> type = 0x0C then
           (case ReadSector lbaStart v of
              None \<Rightarrow> scan_partitions js mbr v
            | Some bs \<Rightarrow>
                if \<not> boot_signature bs then scan_partitions js mbr v
                else if is_fat32 bs then Some lbaStart
                else scan_partitions js mbr v)
         else scan_partitions js mbr v)"

definition DetectFAT32PartitionStart :: "FAT32 \<Rightarrow> u32" where
  "DetectFAT32PartitionStart v =
     (case ReadSector 0 v of
        None \<Rightarrow> 0
      | Some mbr \<Rightarrow>
          (case scan_partitions [0..<4] mbr v of
             Some lba \<Rightarrow> lba
           | None \<Rightarrow>
               if boot_signature mbr \<and> (\<exists>i \<in> {0..<4}. mbr ! (446 + i * 16 + 4) \<noteq> 0) then 0xFFFFFFFF else 0))"

definition parse_bpb :: "u8 list \<Rightarrow> FAT32_BPB" where
  "parse_bpb sector = \<lparr>bytesPerSector = sec16 sector 11, sectorsPerCluster = sector ! 13,
     reservedSectors = sec16 sector 14, numFATs = sector ! 16, sectorsPerFAT = sec32 sector 36,
     rootCluster = sec32 sector 44, totalSectors = sec32 sector 32\<rparr>"

definition Mount :: "FAT32 \<Rightarrow> FAT32 \<times> bool" where
  "Mount v =
     (let start = DetectFAT32PartitionStart v;
          v1 = v\<lparr>volumeStartLBA := start\<rparr>
      in if start = 0xFFFFFFFF then (v1, False)
         else
           (case ReadSector start v1 of
              None \<Rightarrow> (v1, False)
            | Some sector \<Rightarrow>
                if \<not> boot_signature sector then (v1, False)
                else if start = 0 \<and> \<not> is_fat32 sector then (v1, False)
                else
                  (let b = parse_bpb sector;
                       fs = start + ucast (reservedSectors b);
                       v2 = v1\<lparr>bpb := b, fatStartLBA := fs,
                               dataStartLBA := fs + ucast (numFATs b) * sectorsPerFAT b\<rparr>
                   in if bytesPerSector b \<noteq> 512 \<or> sectorsPerCluster b = 0 then (v2, False)
                      else (v2\<lparr>mountedFlag := True\<rparr>, True))))"

section \<open>Clusters and the allocation table\<close>

definition bytesPerCluster :: "FAT32 \<Rightarrow> u32" where
  "bytesPerCluster v = ucast (bytesPerSector (bpb v)) * ucast (sectorsPerCluster (bpb v))"

definition ClusterToLBA :: "u32 \<Rightarrow> FAT32 \<Rightarrow> u32" where
  "ClusterToLBA cluster v = dataStartLBA v + (cluster - 2) * ucast (sectorsPerCluster (bpb v))"

definition ReadCluster :: "u32 \<Rightarrow> FAT32 \<Rightarrow> u8 list option" where
  "ReadCluster cluster v = ReadSectors (ClusterToLBA cluster v) (ucast (sectorsPerCluster (bpb v))) v"

definition WriteCluster :: "u32 \<Rightarrow> u8 list \<Rightarrow> FAT32 \<Rightarrow> FAT32 \<times> bool" where
  "WriteCluster cluster buf v = WriteSectors (ClusterToLBA cluster v) (ucast (sectorsPerCluster (bpb v))) buf v"

text \<open>The sector of an entry of the table and the offset of the entry in it.\<close>

definition fatSector :: "u32 \<Rightarrow> FAT32 \<Rightarrow> u32" where
  "fatSector cluster v = fatStartLBA v + cluster * 4 div 512"

definition entOffset :: "u32 \<Rightarrow> nat" where
  "entOffset cluster = unat (cluster * 4 mod 512)"

definition NextCluster :: "u32 \<Rightarrow> FAT32 \<Rightarrow> u32" where
  "NextCluster cluster v =
     (case ReadSector (fatSector cluster v) v of
        None \<Rightarrow> 0x0FFFFFFF
      | Some sec \<Rightarrow> sec32 sec (entOffset cluster) AND 0x0FFFFFFF)"

fun mirror_fats :: "nat list \<Rightarrow> u32 \<Rightarrow> u8 list \<Rightarrow> FAT32 \<Rightarrow> FAT32 \<times> bool" where
  "mirror_fats [] lba sec v = (v, True)"
| "mirror_fats (f # fs) lba sec v =
     (case WriteSector (lba + of_nat f * sectorsPerFAT (bpb v)) sec v of
        (v1, ok) \<Rightarrow> if ok then mirror_fats fs lba sec v1 else (v1, False))"

definition UpdateFAT :: "u32 \<Rightarrow> u32 \<Rightarrow> FAT32 \<Rightarrow> FAT32 \<times> bool" where
  "UpdateFAT cluster x v =
     (case ReadSector (fatSector cluster v) v of
        None \<Rightarrow> (v, False)
      | Some sec \<Rightarrow>
          (let cur = (sec32 sec (entOffset cluster) AND 0xF0000000) OR (x AND 0x0FFFFFFF);
               sec1 = set32 sec (entOffset cluster) cur
           in case WriteSector (fatSector cluster v) sec1 v of
                (v1, ok) \<Rightarrow>
                  if ok then mirror_fats [1..<unat (numFATs (bpb v))] (fatSector cluster v) sec1 v1 else (v1, False)))"

function alloc_loop :: "u32 \<Rightarrow> u32 \<Rightarrow> FAT32 \<Rightarrow> FAT32 \<times> u32" where
  "alloc_loop cl entries v =
     (if cl < entries then
        (case ReadSector (fatSector cl v) v of
           None \<Rightarrow> (v, 0)
         | Some sec \<Rightarrow>
             if sec32 sec (entOffset cl) AND 0x0FFFFFFF = 0 then
               (case UpdateFAT cl 0x0FFFFFF8 v of (v1, ok) \<Rightarrow> (v1, if ok then cl else 0))
             else alloc_loop (cl + 1) entries v)
      else (v, 0))"
  by pat_completeness auto
termination
  by (relation "measure (\<lambda>(cl, entries, v). unat entries - unat cl)")
    (auto simp: word_less_nat_alt unat_Suc_less)

declare alloc_loop.simps [simp del]

definition AllocateCluster :: "FAT32 \<Rightarrow> FAT32 \<times> u32" where
  "AllocateCluster v =
     (let entries = sectorsPerFAT (bpb v) * 512 div 4
      in if entries < 3 then (v, 0) else alloc_loop 2 entries v)"

section \<open>Short names\<close>

definition upper8 :: "u8 \<Rightarrow> u8" where
  "upper8 c = (if 0x61 \<le> c \<and> c \<le> 0x7A then c - 0x20 else c)"

definition allowed83 :: "u8 \<Rightarrow> bool" where
  "allowed83 c \<longleftrightarrow> 0x41 \<le> c \<and> c \<le> 0x5A \<or> 0x30 \<le> c \<and> c \<le> 0x39 \<or> c = 0x5F \<or> c = 0x24 \<or> c = 0x7E \<or> c = 0x21"

text \<open>\<open>n\<close> is the number of characters before the dot stored so far, \<open>e\<close> that of the extension once the dot was seen.\<close>

fun pack_loop :: "bool \<Rightarrow> u8 list \<Rightarrow> u8 list \<Rightarrow> nat \<Rightarrow> nat option \<Rightarrow> u8 list \<times> bool" where
  "pack_loop upperOnly [] out n e = (out, True)"
| "pack_loop upperOnly (ch # s) out n e =
     (if ch = 0x2E then (if e \<noteq> None then (out, False) else pack_loop upperOnly s out n (Some 0))
      else
        (let c = (if upperOnly then upper8 ch else ch)
         in if \<not> allowed83 c then (out, False)
            else
              (case e of
                 None \<Rightarrow> if n < 8 then pack_loop upperOnly s (out[n := c]) (n + 1) e else pack_loop upperOnly s out n e
               | Some k \<Rightarrow>
                   if k < 3 then pack_loop upperOnly s (out[8 + k := c]) n (Some (k + 1))
                   else pack_loop upperOnly s out n e)))"

definition PackShortName11 :: "u8 list \<Rightarrow> bool \<Rightarrow> u8 list \<times> bool" where
  "PackShortName11 name83 upperOnly = pack_loop upperOnly name83 (replicate 11 0x20) 0 None"

text \<open>The name of a directory entry as text, up to a NUL as the comparison reads it.\<close>

definition entry_name :: "u8 list \<Rightarrow> nat \<Rightarrow> u8 list" where
  "entry_name cl i =
     (let name = takeWhile (\<lambda>c. c \<noteq> 0x20) (take 8 (drop i cl));
          ext = takeWhile (\<lambda>c. c \<noteq> 0x20) (take 3 (drop (i + 8) cl));
          merged = name @ (if ext \<noteq> [] then 0x2E # ext else [])
      in map upper8 (takeWhile (\<lambda>c. c \<noteq> 0) merged))"

section \<open>Directories\<close>

text \<open>
  Offsets of the 32-byte entries of a cluster. The lookup by name bounds them by \<^verbatim>\<open>sectorsPerCluster * 512\<close>, which is the
  same number, because only volumes with sectors of 512 bytes are mounted.
\<close>

definition entry_offsets :: "FAT32 \<Rightarrow> nat list" where
  "entry_offsets v = map (\<lambda>k. 32 * k) [0..<(unat (bytesPerCluster v) + 31) div 32]"

definition entry_start :: "u8 list \<Rightarrow> nat \<Rightarrow> u32" where
  "entry_start cl off = push_bit 16 (ucast (sec16 cl (off + 20))) OR ucast (sec16 cl (off + 26))"

definition end_of_chain :: "u32 \<Rightarrow> bool" where
  "end_of_chain next \<longleftrightarrow> next \<ge> 0x0FFFFFF8 \<or> next = 0"

text \<open>
  The search both lookups make in one cluster: up to the first entry that begins with 0, deleted entries and entries of
  long names are passed over.
\<close>

fun scan_entries :: "(nat \<Rightarrow> bool) \<Rightarrow> u8 list \<Rightarrow> nat list \<Rightarrow> nat option" where
  "scan_entries match cl [] = None"
| "scan_entries match cl (i # js) =
     (let firstByte = cl ! i
      in if firstByte = 0 then None
         else if firstByte = 0xE5 then scan_entries match cl js
         else if cl ! (i + 11) = 0x0F then scan_entries match cl js
         else if match i then Some i
         else scan_entries match cl js)"

partial_function (option) scan_chain ::
  "(u8 list \<Rightarrow> nat \<Rightarrow> bool) \<Rightarrow> u32 \<Rightarrow> FAT32 \<Rightarrow> (u32 \<times> nat \<times> u8 list) option option" where
  "scan_chain match cluster v =
     (if cluster \<ge> 2 \<and> cluster < 0x0FFFFFF8 then
        (case ReadCluster cluster v of
           None \<Rightarrow> Some None
         | Some cl \<Rightarrow>
             (case scan_entries (match cl) cl (entry_offsets v) of
                Some off \<Rightarrow> Some (Some (cluster, off, cl))
              | None \<Rightarrow>
                  (let next = NextCluster cluster v
                   in if end_of_chain next then Some None else scan_chain match next v)))
      else Some None)"

text \<open>Containing cluster, offset, start cluster, size and attributes of the entry with the packed name.\<close>

definition FindShortEntryWithOffset ::
  "u32 \<Rightarrow> u8 list \<Rightarrow> FAT32 \<Rightarrow> (u32 \<times> nat \<times> u32 \<times> u32 \<times> u8) option option" where
  "FindShortEntryWithOffset dirCluster shortName11 v = do {
     r \<leftarrow> scan_chain (\<lambda>cl off. take 11 (drop off cl) = shortName11) dirCluster v;
     Some (map_option (\<lambda>(c, off, cl). (c, off, entry_start cl off, sec32 cl (off + 28), cl ! (off + 11))) r)
   }"

text \<open>Start cluster and size of the entry with the name.\<close>

definition FindShortNameInDirCluster :: "u32 \<Rightarrow> u8 list \<Rightarrow> FAT32 \<Rightarrow> (u32 \<times> u32) option option" where
  "FindShortNameInDirCluster dirCluster shortName83 v = do {
     r \<leftarrow> scan_chain (\<lambda>cl i. entry_name cl i = shortName83) dirCluster v;
     Some (map_option (\<lambda>(c, i, cl). (entry_start cl i, sec32 cl (i + 28))) r)
   }"

fun zero_sectors :: "nat list \<Rightarrow> u32 \<Rightarrow> FAT32 \<Rightarrow> FAT32 \<times> bool" where
  "zero_sectors [] cluster v = (v, True)"
| "zero_sectors (s # ss) cluster v =
     (case WriteSector (ClusterToLBA cluster v + of_nat s) (replicate 512 0) v of
        (v1, ok) \<Rightarrow> if ok then zero_sectors ss cluster v1 else (v1, False))"

definition zero_cluster :: "u32 \<Rightarrow> FAT32 \<Rightarrow> FAT32 \<times> bool" where
  "zero_cluster cluster v = zero_sectors [0..<unat (sectorsPerCluster (bpb v))] cluster v"

definition set_start :: "u8 list \<Rightarrow> nat \<Rightarrow> u32 \<Rightarrow> u8 list" where
  "set_start cl off start =
     cl[off + 26 := ucast start, off + 27 := ucast (drop_bit 8 start), off + 20 := ucast (drop_bit 16 start),
        off + 21 := ucast (drop_bit 24 start)]"

definition set_name :: "u8 list \<Rightarrow> nat \<Rightarrow> u8 list \<Rightarrow> u8 list" where
  "set_name cl off nm = fold (\<lambda>i c. c[off + i := nm ! i]) [0..<11] cl"

definition put_entry :: "u8 list \<Rightarrow> nat \<Rightarrow> u8 list \<Rightarrow> u8 \<Rightarrow> u32 \<Rightarrow> u32 \<Rightarrow> u8 list" where
  "put_entry cl off nm attr start sz =
     set32 (set_start ((set_name cl off nm)[off + 11 := attr]) off start) (off + 28) sz"

text \<open>
  The chain of a cluster grows by a new cluster: allocation, link, end mark. The result has the new cluster, 0
  when a step fails.
\<close>

definition extend_chain :: "u32 \<Rightarrow> FAT32 \<Rightarrow> FAT32 \<times> u32" where
  "extend_chain cur v =
     (case AllocateCluster v of
        (v1, newCl) \<Rightarrow>
          if newCl < 2 then (v1, 0)
          else
            (case UpdateFAT cur newCl v1 of
               (v2, ok) \<Rightarrow>
                 if \<not> ok then (v2, 0)
                 else
                   (case UpdateFAT newCl 0x0FFFFFF8 v2 of (v3, ok) \<Rightarrow> (v3, if ok then newCl else 0))))"

partial_function (option) add_entry :: "u8 list \<Rightarrow> u8 \<Rightarrow> u32 \<Rightarrow> u32 \<Rightarrow> u32 \<Rightarrow> FAT32 \<Rightarrow> (FAT32 \<times> bool) option" where
  "add_entry nm attr start sz cur v =
     (case ReadCluster cur v of
        None \<Rightarrow> Some (v, False)
      | Some cl \<Rightarrow>
          (case find (\<lambda>off. cl ! off = 0 \<or> cl ! off = 0xE5) (entry_offsets v) of
             Some off \<Rightarrow> Some (WriteCluster cur (put_entry cl off nm attr start sz) v)
           | None \<Rightarrow>
               (let nxt = NextCluster cur v
                in if end_of_chain nxt then
                     (case extend_chain cur v of
                        (v1, newCl) \<Rightarrow>
                          if newCl = 0 then Some (v1, False)
                          else
                            (case zero_cluster newCl v1 of
                               (v2, ok) \<Rightarrow> if ok then add_entry nm attr start sz newCl v2 else Some (v2, False)))
                   else add_entry nm attr start sz nxt v)))"

definition AddFileEntryToDir :: "u32 \<Rightarrow> u8 list \<Rightarrow> u32 \<Rightarrow> u32 \<Rightarrow> FAT32 \<Rightarrow> (FAT32 \<times> bool) option" where
  "AddFileEntryToDir dirCluster shortName11 startCluster initialSize v =
     add_entry shortName11 0x20 startCluster initialSize dirCluster v"

definition AddEntryToDirCluster :: "u32 \<Rightarrow> u8 list \<Rightarrow> u32 \<Rightarrow> bool \<Rightarrow> FAT32 \<Rightarrow> (FAT32 \<times> bool) option" where
  "AddEntryToDirCluster dirCluster shortName11 startCluster isDir v =
     add_entry shortName11 (if isDir then 0x10 else 0x20) startCluster 0 dirCluster v"

text \<open>The local array has 4096 bytes; a larger cluster overruns it.\<close>

definition dot_entry :: "u8 list \<Rightarrow> nat \<Rightarrow> u8 list \<Rightarrow> u32 \<Rightarrow> u8 list" where
  "dot_entry cl off name start = put_entry cl off (name @ replicate (11 - length name) 0x20) 0x10 start 0"

definition InitDirCluster :: "u32 \<Rightarrow> u32 \<Rightarrow> FAT32 \<Rightarrow> (FAT32 \<times> bool) option" where
  "InitDirCluster newDirCluster parentCluster v =
     (if unat (bytesPerCluster v) > 4096 then None
      else
        (let cl = replicate 4096 0;
             cl1 = dot_entry cl 0 [0x2E] newDirCluster;
             cl2 = dot_entry cl1 32 [0x2E, 0x2E] parentCluster
         in Some (WriteCluster newDirCluster cl2 v)))"

section \<open>Paths\<close>

text \<open>The next component of a path, at most 12 characters of it, and the rest behind one slash.\<close>

definition split_comp :: "u8 list \<Rightarrow> u8 list \<times> u8 list" where
  "split_comp p =
     (let part = takeWhile (\<lambda>c. c \<noteq> 0x2F) (take 12 p);
          q = drop (length part) p
      in (part, case q of c # q1 \<Rightarrow> if c = 0x2F then q1 else q | [] \<Rightarrow> []))"

definition isLast :: "u8 list \<Rightarrow> bool" where
  "isLast p \<longleftrightarrow> dropWhile (\<lambda>c. c = 0x2F) p = []"

definition skip_slash :: "u8 list \<Rightarrow> u8 list" where
  "skip_slash path = (case path of c # p \<Rightarrow> if c = 0x2F then p else path | [] \<Rightarrow> [])"

partial_function (option) walk_path :: "u8 list \<Rightarrow> u32 \<Rightarrow> FAT32 \<Rightarrow> u32 option option" where
  "walk_path p dirCl v =
     (if p = [] then Some (Some dirCl)
      else
        (case split_comp p of
           (part, q) \<Rightarrow>
             if part = [] then walk_path q dirCl v
             else do {
               r \<leftarrow> FindShortNameInDirCluster dirCl (map upper8 part) v;
               (case r of None \<Rightarrow> Some None | Some (childCl, childSz) \<Rightarrow> walk_path q childCl v)
             }))"

definition walk_to_dir :: "u8 list \<Rightarrow> FAT32 \<Rightarrow> u32 option option" where
  "walk_to_dir path v =
     (if path = [0x2F] then Some (Some (rootCluster (bpb v)))
      else walk_path (skip_slash path) (rootCluster (bpb v)) v)"

definition DirExists :: "u8 list option \<Rightarrow> FAT32 \<Rightarrow> bool option" where
  "DirExists path v =
     (if \<not> mountedFlag v then Some False
      else case path of None \<Rightarrow> Some False | Some p \<Rightarrow> map_option (\<lambda>r. r \<noteq> None) (walk_to_dir p v))"

section \<open>Reading\<close>

text \<open>The bytes stored in the output buffer; \<open>bytesRead\<close> of them so far.\<close>

partial_function (option) read_chain :: "u32 \<Rightarrow> u32 \<Rightarrow> u32 \<Rightarrow> u8 list \<Rightarrow> FAT32 \<Rightarrow> (u8 list \<times> u32) option" where
  "read_chain cluster toRead bytesRead out v =
     (if cluster \<ge> 2 \<and> cluster < 0x0FFFFFF8 \<and> bytesRead < toRead then
        (case ReadCluster cluster v of
           None \<Rightarrow> Some (out, bytesRead)
         | Some clBuf \<Rightarrow>
             (let chunk = (if bytesRead + bytesPerCluster v > toRead then toRead - bytesRead else bytesPerCluster v)
              in do {
                bs \<leftarrow> get_struct clBuf 0 (unat chunk);
                let next = NextCluster cluster v;
                if end_of_chain next then Some (out @ bs, bytesRead + chunk)
                else read_chain next toRead (bytesRead + chunk) (out @ bs) v
              }))
      else Some (out, bytesRead))"

definition read_entry :: "u32 \<Rightarrow> u32 \<Rightarrow> u32 \<Rightarrow> FAT32 \<Rightarrow> (u8 list \<times> int) option" where
  "read_entry entryCl entrySize maxLen v =
     map_option (\<lambda>(out, n). (out, sint n)) (read_chain entryCl (min entrySize maxLen) 0 [] v)"

partial_function (option) read_path :: "u8 list \<Rightarrow> u32 \<Rightarrow> u32 \<Rightarrow> FAT32 \<Rightarrow> (u8 list \<times> int) option" where
  "read_path p dirCluster maxLen v =
     (if p = [] then Some ([], - 1)
      else
        (case split_comp p of
           (part, q) \<Rightarrow>
             if part = [] then read_path q dirCluster maxLen v
             else do {
               r \<leftarrow> FindShortNameInDirCluster dirCluster (map upper8 part) v;
               (case r of
                  None \<Rightarrow> Some ([], - 1)
                | Some (entryCl, entrySize) \<Rightarrow>
                    if isLast q then read_entry entryCl entrySize maxLen v else read_path q entryCl maxLen v)
             }))"

definition ReadFile :: "u8 list option \<Rightarrow> u32 \<Rightarrow> FAT32 \<Rightarrow> (u8 list \<times> int) option" where
  "ReadFile path maxLen v =
     (if \<not> mountedFlag v then Some ([], - 1)
      else
        (case path of
           Some (c # p) \<Rightarrow> if c = 0x2F then read_path p (rootCluster (bpb v)) maxLen v else Some ([], - 1)
         | _ \<Rightarrow> Some ([], - 1)))"

section \<open>Writing\<close>

text \<open>The directory of a path and the name in it, \<open>None\<close> when a directory on the way is missing.\<close>

partial_function (option) find_parent :: "u8 list \<Rightarrow> u32 \<Rightarrow> FAT32 \<Rightarrow> (u32 \<times> u8 list) option option" where
  "find_parent p dirCl v =
     (if p = [] then Some (Some (dirCl, []))
      else
        (case split_comp p of
           (part, q) \<Rightarrow>
             if part = [] then find_parent q dirCl v
             else if isLast q then Some (Some (dirCl, map upper8 part))
             else do {
               r \<leftarrow> FindShortNameInDirCluster dirCl (map upper8 part) v;
               (case r of None \<Rightarrow> Some None | Some (childCl, childSz) \<Rightarrow> find_parent q childCl v)
             }))"

text \<open>A cluster with the first \<open>chunk\<close> bytes of the data, the rest zero.\<close>

definition fill_cluster :: "u8 list \<Rightarrow> u32 \<Rightarrow> FAT32 \<Rightarrow> u8 list option" where
  "fill_cluster src chunk v = do {
     bs \<leftarrow> get_struct src 0 (unat chunk);
     put_struct (replicate (unat (bytesPerCluster v)) 0) 0 bs
   }"

definition chunk_size :: "u32 \<Rightarrow> FAT32 \<Rightarrow> u32" where
  "chunk_size remaining v = (if remaining > bytesPerCluster v then bytesPerCluster v else remaining)"

partial_function (option) write_new :: "u32 \<Rightarrow> u8 list \<Rightarrow> u32 \<Rightarrow> FAT32 \<Rightarrow> (FAT32 \<times> bool) option" where
  "write_new remaining src current v =
     (if remaining = 0 then Some (v, True)
      else do {
        let chunk = chunk_size remaining v;
        buf \<leftarrow> fill_cluster src chunk v;
        (case WriteCluster current buf v of
           (v1, ok) \<Rightarrow>
             if \<not> ok then Some (v1, False)
             else if remaining - chunk = 0 then Some (v1, True)
             else
               (case extend_chain current v1 of
                  (v2, nextCl) \<Rightarrow>
                    if nextCl = 0 then Some (v2, False)
                    else
                      (case zero_cluster nextCl v2 of
                         (v3, ok) \<Rightarrow>
                           if ok then write_new (remaining - chunk) (drop (unat chunk) src) nextCl v3
                           else Some (v3, False))))
      })"

definition create_file :: "u32 \<Rightarrow> u8 list \<Rightarrow> u8 list \<Rightarrow> u32 \<Rightarrow> FAT32 \<Rightarrow> (FAT32 \<times> int) option" where
  "create_file dirCl short11 data len v =
     (case AllocateCluster v of
        (v1, newCl) \<Rightarrow>
          if newCl < 2 then Some (v1, - 1)
          else
            (case zero_cluster newCl v1 of
               (v2, ok) \<Rightarrow>
                 if \<not> ok then Some (v2, - 1)
                 else
                   (case UpdateFAT newCl 0x0FFFFFF8 v2 of
                      (v3, ok) \<Rightarrow>
                        if \<not> ok then Some (v3, - 1)
                        else do {
                          (v4, ok) \<leftarrow> write_new len data newCl v3;
                          if \<not> ok then Some (v4, - 1)
                          else do {
                            (v5, ok) \<leftarrow> AddFileEntryToDir dirCl short11 newCl len v4;
                            Some (v5, if ok then sint len else - 1)
                          }
                        })))"

partial_function (option) last_cluster :: "u32 \<Rightarrow> FAT32 \<Rightarrow> u32 option" where
  "last_cluster cl v =
     (let nxt = NextCluster cl v in if end_of_chain nxt then Some cl else last_cluster nxt v)"

text \<open>New clusters behind \<open>lastCluster\<close> for the data that remains; the result has the size of the file.\<close>

partial_function (option) append_clusters ::
  "u32 \<Rightarrow> u8 list \<Rightarrow> u32 \<Rightarrow> u32 \<Rightarrow> FAT32 \<Rightarrow> (FAT32 \<times> u32 option) option" where
  "append_clusters remaining src lastCluster fileSize v =
     (if remaining = 0 then Some (v, Some fileSize)
      else
        (case extend_chain lastCluster v of
           (v1, newCl) \<Rightarrow>
             if newCl = 0 then Some (v1, None)
             else do {
               let chunk = chunk_size remaining v1;
               buf \<leftarrow> fill_cluster src chunk v1;
               (case WriteCluster newCl buf v1 of
                  (v2, ok) \<Rightarrow>
                    if ok then append_clusters (remaining - chunk) (drop (unat chunk) src) newCl (fileSize + chunk) v2
                    else Some (v2, None))
             }))"

text \<open>The part of the data that goes into the last cluster; the result has what remains.\<close>

definition fill_last ::
  "u32 \<Rightarrow> u32 \<Rightarrow> u8 list \<Rightarrow> u32 \<Rightarrow> FAT32 \<Rightarrow> (FAT32 \<times> (u32 \<times> u8 list \<times> u32) option) option" where
  "fill_last lastCluster fileSize src len v =
     (let offsetInLast = fileSize mod bytesPerCluster v
      in if offsetInLast < bytesPerCluster v \<and> (fileSize > 0 \<or> offsetInLast \<noteq> 0) then
           (case ReadCluster lastCluster v of
              None \<Rightarrow> Some (v, None)
            | Some buf \<Rightarrow>
                (let space = bytesPerCluster v - offsetInLast;
                     chunk = (if len > space then space else len)
                 in do {
                   bs \<leftarrow> get_struct src 0 (unat chunk);
                   buf1 \<leftarrow> put_struct buf (unat offsetInLast) bs;
                   (case WriteCluster lastCluster buf1 v of
                      (v1, ok) \<Rightarrow>
                        Some (v1, if ok then Some (len - chunk, drop (unat chunk) src, fileSize + chunk) else None))
                 }))
         else Some (v, Some (len, src, fileSize)))"

definition append_file ::
  "u32 \<Rightarrow> nat \<Rightarrow> u32 \<Rightarrow> u32 \<Rightarrow> u8 list \<Rightarrow> u32 \<Rightarrow> FAT32 \<Rightarrow> (FAT32 \<times> int) option" where
  "append_file entryCl entryOff startCl fileSize data len v = do {
     lastCluster \<leftarrow> last_cluster startCl v;
     (v1, r) \<leftarrow> fill_last lastCluster fileSize data len v;
     (case r of
        None \<Rightarrow> Some (v1, - 1)
      | Some (remaining, src, fileSize1) \<Rightarrow> do {
          (v2, r2) \<leftarrow> append_clusters remaining src lastCluster fileSize1 v1;
          (case r2 of
             None \<Rightarrow> Some (v2, - 1)
           | Some fileSize2 \<Rightarrow>
               (case ReadCluster entryCl v2 of
                  None \<Rightarrow> Some (v2, - 1)
                | Some dirBuf \<Rightarrow>
                    (case WriteCluster entryCl (set32 dirBuf (entryOff + 28) fileSize2) v2 of
                       (v3, ok) \<Rightarrow> Some (v3, if ok then sint len else - 1))))
        })
   }"

definition WriteFile :: "u8 list option \<Rightarrow> u8 list option \<Rightarrow> u32 \<Rightarrow> FAT32 \<Rightarrow> (FAT32 \<times> int) option" where
  "WriteFile path data len v =
     (case (path, data) of
        (Some (c # p), Some bytes) \<Rightarrow>
          if \<not> mountedFlag v \<or> len = 0 \<or> c \<noteq> 0x2F then Some (v, - 1)
          else do {
            r \<leftarrow> find_parent p (rootCluster (bpb v)) v;
            (case r of
               None \<Rightarrow> Some (v, - 1)
             | Some (dirCl, finalName) \<Rightarrow>
                 if finalName = [] then Some (v, - 1)
                 else
                   (case PackShortName11 finalName True of
                      (short11, ok83) \<Rightarrow>
                        if \<not> ok83 then Some (v, - 1)
                        else do {
                          f \<leftarrow> FindShortEntryWithOffset dirCl short11 v;
                          (case f of
                             None \<Rightarrow> create_file dirCl short11 bytes len v
                           | Some (entryCl, entryOff, startCl, fileSize, attr) \<Rightarrow>
                               if attr AND 0x20 = 0 then Some (v, - 1)
                               else append_file entryCl entryOff startCl fileSize bytes len v)
                        }))
          }
      | _ \<Rightarrow> Some (v, - 1))"

section \<open>Creating directories and renaming\<close>

partial_function (option) make_dirs :: "bool \<Rightarrow> u8 list \<Rightarrow> u32 \<Rightarrow> FAT32 \<Rightarrow> (FAT32 \<times> int) option" where
  "make_dirs parents p curDir v =
     (if p = [] then Some (v, 0)
      else
        (case split_comp p of
           (part, q) \<Rightarrow>
             if part = [] then make_dirs parents q curDir v
             else do {
               r \<leftarrow> FindShortNameInDirCluster curDir (map upper8 part) v;
               (case r of
                  Some (childCl, childSize) \<Rightarrow> make_dirs parents q childCl v
                | None \<Rightarrow>
                    if \<not> parents \<and> \<not> isLast q then Some (v, - 1)
                    else
                      (case PackShortName11 (map upper8 part) True of
                         (short11, ok83) \<Rightarrow>
                           if \<not> ok83 then Some (v, - 1)
                           else
                             (case AllocateCluster v of
                                (v1, newCl) \<Rightarrow>
                                  if newCl < 2 then Some (v1, - 1)
                                  else do {
                                    (v2, ok) \<leftarrow> InitDirCluster newCl curDir v1;
                                    if \<not> ok then Some (v2, - 1)
                                    else do {
                                      (v3, ok) \<leftarrow> AddEntryToDirCluster curDir short11 newCl True v2;
                                      if ok then make_dirs parents q newCl v3 else Some (v3, - 1)
                                    }
                                  })))
             }))"

definition Mkdir :: "u8 list option \<Rightarrow> bool \<Rightarrow> FAT32 \<Rightarrow> (FAT32 \<times> int) option" where
  "Mkdir path parents v =
     (case path of
        None \<Rightarrow> Some (v, - 1)
      | Some p \<Rightarrow> if \<not> mountedFlag v then Some (v, - 1) else make_dirs parents (skip_slash p) (rootCluster (bpb v)) v)"

text \<open>The parent (at most 159 characters) and the last component (at most 31) of a path.\<close>

definition split_parent_basename :: "u8 list \<Rightarrow> u8 list \<times> u8 list" where
  "split_parent_basename path =
     (let base = rev (takeWhile (\<lambda>c. c \<noteq> 0x2F) (rev path));
          k = length path - length base
      in (if k \<le> 1 then [0x2F] else take (min (k - 1) 159) path, take 31 base))"

definition move_entry ::
  "u32 \<Rightarrow> u32 \<Rightarrow> u8 list \<Rightarrow> u32 \<times> nat \<times> u32 \<times> u32 \<times> u8 \<Rightarrow> FAT32 \<Rightarrow> (FAT32 \<times> int) option" where
  "move_entry srcDirCl dstDirCl dst11 e v =
     (case e of
        (entryCl, entryOff, startCl, fileSize, attr) \<Rightarrow>
          if srcDirCl = dstDirCl then
            (case ReadCluster entryCl v of
               None \<Rightarrow> Some (v, - 1)
             | Some dirBuf \<Rightarrow>
                 (case WriteCluster entryCl (set_name dirBuf entryOff dst11) v of
                    (v1, ok) \<Rightarrow> Some (v1, if ok then 0 else - 1)))
          else if attr AND 0x20 = 0 then Some (v, - 1)
          else do {
            (v1, ok) \<leftarrow> AddFileEntryToDir dstDirCl dst11 startCl fileSize v;
            if \<not> ok then Some (v1, - 1)
            else
              (case ReadCluster entryCl v1 of
                 None \<Rightarrow> Some (v1, - 1)
               | Some dirBuf \<Rightarrow>
                   (case WriteCluster entryCl (dirBuf[entryOff := 0xE5]) v1 of
                      (v2, ok) \<Rightarrow> Some (v2, if ok then 0 else - 1)))
          })"

definition rename_in ::
  "u32 \<Rightarrow> u32 \<Rightarrow> u8 list \<Rightarrow> u8 list \<Rightarrow> FAT32 \<Rightarrow> (FAT32 \<times> int) option" where
  "rename_in srcDirCl dstDirCl srcBase dstBase v =
     (case (PackShortName11 srcBase True, PackShortName11 dstBase True) of
        ((src11, ok1), (dst11, ok2)) \<Rightarrow>
          if \<not> ok1 \<or> \<not> ok2 then Some (v, - 1)
          else do {
            f \<leftarrow> FindShortEntryWithOffset srcDirCl src11 v;
            (case f of
               None \<Rightarrow> Some (v, - 1)
             | Some e \<Rightarrow> do {
                 t \<leftarrow> FindShortNameInDirCluster dstDirCl dstBase v;
                 if t \<noteq> None then Some (v, - 1) else move_entry srcDirCl dstDirCl dst11 e v
               })
          })"

definition Rename :: "u8 list option \<Rightarrow> u8 list option \<Rightarrow> FAT32 \<Rightarrow> (FAT32 \<times> int) option" where
  "Rename src dst v =
     (case (src, dst) of
        (Some (a # s), Some (b # d)) \<Rightarrow>
          if \<not> mountedFlag v \<or> a \<noteq> 0x2F \<or> b \<noteq> 0x2F then Some (v, - 1)
          else
            (case (split_parent_basename (a # s), split_parent_basename (b # d)) of
               ((srcParent, srcBase), (dstParent, dstBase)) \<Rightarrow>
                 if srcBase = [] \<or> dstBase = [] then Some (v, - 1)
                 else do {
                   r1 \<leftarrow> walk_to_dir srcParent v;
                   (case r1 of
                      None \<Rightarrow> Some (v, - 1)
                    | Some srcDirCl \<Rightarrow> do {
                        r2 \<leftarrow> walk_to_dir dstParent v;
                        (case r2 of
                           None \<Rightarrow> Some (v, - 1)
                         | Some dstDirCl \<Rightarrow> rename_in srcDirCl dstDirCl (map upper8 srcBase) (map upper8 dstBase) v)
                      })
                 })
      | _ \<Rightarrow> Some (v, - 1))"

section \<open>Listing\<close>

record DirEntry =
  de_name :: "u8 list"
  de_size :: u32
  de_attr :: u8
  de_isDir :: bool

definition dir_entry :: "u8 list \<Rightarrow> nat \<Rightarrow> DirEntry" where
  "dir_entry cl i =
     (let attr = cl ! (i + 11);
          name = takeWhile (\<lambda>c. c \<noteq> 0x20) (take 8 (drop i cl));
          ext = takeWhile (\<lambda>c. c \<noteq> 0x20) (take 3 (drop (i + 8) cl))
      in \<lparr>de_name = takeWhile (\<lambda>c. c \<noteq> 0) (name @ (if attr AND 0x10 = 0 \<and> ext \<noteq> [] then 0x2E # ext else [])),
         de_size = sec32 cl (i + 28), de_attr = attr, de_isDir = (attr AND 0x10 \<noteq> 0)\<rparr>)"

text \<open>The flag of the result says that the listing is over: an entry that begins with 0, or the callback stopped it.\<close>

fun enum_entries ::
  "(DirEntry \<Rightarrow> 's \<Rightarrow> 's \<times> bool) \<Rightarrow> u8 list \<Rightarrow> nat list \<Rightarrow> int \<Rightarrow> 's \<Rightarrow> 's \<times> int \<times> bool" where
  "enum_entries callback cl [] count s = (s, count, False)"
| "enum_entries callback cl (i # js) count s =
     (let fb = cl ! i;
          entry = dir_entry cl i
      in if fb = 0 then (s, count, True)
         else if fb = 0xE5 then enum_entries callback cl js count s
         else if cl ! (i + 11) = 0x0F then enum_entries callback cl js count s
         else if de_name entry = [0x2E] \<or> de_name entry = [0x2E, 0x2E] then enum_entries callback cl js count s
         else
           (case callback entry s of
              (s1, go) \<Rightarrow> if go then enum_entries callback cl js (count + 1) s1 else (s1, count + 1, True)))"

partial_function (option) enum_chain ::
  "(DirEntry \<Rightarrow> 's \<Rightarrow> 's \<times> bool) \<Rightarrow> u32 \<Rightarrow> int \<Rightarrow> 's \<Rightarrow> FAT32 \<Rightarrow> ('s \<times> int) option" where
  "enum_chain callback cl count s v =
     (if cl \<ge> 2 \<and> cl < 0x0FFFFFF8 then
        (case ReadCluster cl v of
           None \<Rightarrow> Some (s, - 1)
         | Some clusterBuf \<Rightarrow>
             (case enum_entries callback clusterBuf (entry_offsets v) count s of
                (s1, count1, over) \<Rightarrow>
                  if over then Some (s1, count1)
                  else
                    (let next = NextCluster cl v
                     in if end_of_chain next then Some (s1, count1) else enum_chain callback next count1 s1 v)))
      else Some (s, count))"

definition EnumDir :: "u8 list option \<Rightarrow> (DirEntry \<Rightarrow> 's \<Rightarrow> 's \<times> bool) option \<Rightarrow> 's \<Rightarrow> FAT32 \<Rightarrow> ('s \<times> int) option" where
  "EnumDir path callback s v =
     (case callback of
        None \<Rightarrow> Some (s, - 1)
      | Some cb \<Rightarrow>
          if \<not> mountedFlag v then Some (s, - 1)
          else do {
            r \<leftarrow> (case path of None \<Rightarrow> Some (Some (rootCluster (bpb v))) | Some p \<Rightarrow> walk_to_dir p v);
            (case r of None \<Rightarrow> Some (s, - 1) | Some dirCl \<Rightarrow> enum_chain cb dirCl 0 s v)
          })"

end
