(* ===== verification/KOS_FatVolume.thy ===== *)
theory KOS_FatVolume
  imports KOS_Fat32
begin

unbundle bit_operations_syntax

text \<open>
  The FAT32 volume as an abstract store. On a well-formed volume (\<open>vol_ok\<close>) the table and the clusters are
  a function from clusters to entries and one from clusters to bytes (\<open>vol_rep\<close>); changing an entry, writing or
  zeroing a cluster and allocating a cluster refine the corresponding changes of the two functions. What these
  operations leave alone follows from the arithmetic of sectors: entries of the table do not overlap, copies of
  the table stay below the clusters, and clusters are disjoint.
\<close>

section \<open>Sectors\<close>

lemma ReadSector_eq [simp]: "ReadSector lba v = dev v lba"
  by (cases "dev v lba") (simp_all add: ReadSector_def)

lemma WriteSector_Some:
  "dev v lba = Some s \<Longrightarrow> length b = 512 \<Longrightarrow> WriteSector lba b v = (v\<lparr>dev := (dev v)(lba \<mapsto> b)\<rparr>, True)"
  by (simp add: WriteSector_def)

lemma sec32_set32 [simp]: "k + 3 < length s \<Longrightarrow> sec32 (set32 s k x) k = x"
  by (simp add: sec32_def set32_def bytes_word)

lemma sec32_set32_other:
  "k + 4 \<le> j \<or> j + 4 \<le> k \<Longrightarrow> sec32 (set32 s k x) j = sec32 s j"
  by (auto simp: sec32_def set32_def)

lemma length_set32 [simp]: "length (set32 s k x) = length s"
  by (simp add: set32_def)

section \<open>Well-formed volumes\<close>

definition nclusters :: "FAT32 \<Rightarrow> nat" where
  "nclusters v = 128 * unat (sectorsPerFAT (bpb v))"

definition spc :: "FAT32 \<Rightarrow> nat" where
  "spc v = unat (sectorsPerCluster (bpb v))"

text \<open>The first sector behind the clusters of the table.\<close>

definition data_end :: "FAT32 \<Rightarrow> nat" where
  "data_end v = unat (dataStartLBA v) + (nclusters v - 2) * spc v"

definition vol_ok :: "FAT32 \<Rightarrow> bool" where
  "vol_ok v \<longleftrightarrow> bytesPerSector (bpb v) = 512 \<and> 0 < spc v \<and> numFATs (bpb v) \<noteq> 0 \<and>
     unat (sectorsPerFAT (bpb v)) < 2 ^ 21 \<and>
     unat (fatStartLBA v) + unat (numFATs (bpb v)) * unat (sectorsPerFAT (bpb v)) \<le> unat (dataStartLBA v) \<and>
     data_end v \<le> 2 ^ 32 \<and>
     (\<forall>lba. unat (fatStartLBA v) \<le> unat lba \<and> unat lba < data_end v \<longrightarrow> (\<exists>s. dev v lba = Some s \<and> length s = 512))"

definition same_layout :: "FAT32 \<Rightarrow> FAT32 \<Rightarrow> bool" where
  "same_layout v v' \<longleftrightarrow> v' = v\<lparr>dev := dev v'\<rparr>"

lemma same_layout_refl [simp]: "same_layout v v"
  by (simp add: same_layout_def)

lemma same_layout_trans: "same_layout u v \<Longrightarrow> same_layout v w \<Longrightarrow> same_layout u w"
  unfolding same_layout_def by (metis (no_types, lifting) FAT32.unfold_congs(1) FAT32.surjective FAT32.update_convs(1))

lemma same_layout_simps:
  assumes "same_layout v v'"
  shows "bpb v' = bpb v" "fatStartLBA v' = fatStartLBA v" "dataStartLBA v' = dataStartLBA v"
    "mountedFlag v' = mountedFlag v" "nclusters v' = nclusters v" "spc v' = spc v" "data_end v' = data_end v"
    "bytesPerCluster v' = bytesPerCluster v" "entry_offsets v' = entry_offsets v" "ClusterToLBA c v' = ClusterToLBA c v"
    "fatSector c v' = fatSector c v"
proof -
  obtain d where "v' = v\<lparr>dev := d\<rparr>" using assms by (auto simp: same_layout_def)
  then show "bpb v' = bpb v" "fatStartLBA v' = fatStartLBA v" "dataStartLBA v' = dataStartLBA v"
    "mountedFlag v' = mountedFlag v" "nclusters v' = nclusters v" "spc v' = spc v" "data_end v' = data_end v"
    "bytesPerCluster v' = bytesPerCluster v" "entry_offsets v' = entry_offsets v" "ClusterToLBA c v' = ClusterToLBA c v"
    "fatSector c v' = fatSector c v"
    by (simp_all add: nclusters_def spc_def data_end_def bytesPerCluster_def entry_offsets_def ClusterToLBA_def fatSector_def)
qed

lemma same_layout_dev [simp]: "same_layout v (v\<lparr>dev := d\<rparr>)"
  by (simp add: same_layout_def)

lemma vol_ok_write:
  assumes "vol_ok v" "\<And>lba s. d lba = Some s \<Longrightarrow> dev v lba \<noteq> Some s \<Longrightarrow> length s = 512" "dom (dev v) \<subseteq> dom d"
  shows "vol_ok (v\<lparr>dev := d\<rparr>)"
proof -
  have "\<exists>s. d lba = Some s \<and> length s = 512" if "dev v lba = Some t" "length t = 512" for lba t
  proof -
    have "lba \<in> dom d" using that(1) assms(3) by blast
    then obtain s where "d lba = Some s" by blast
    then show ?thesis using assms(2) [of lba s] that by (cases "dev v lba = Some s") auto
  qed
  then show ?thesis using assms(1) unfolding vol_ok_def
    by (simp add: nclusters_def spc_def data_end_def) blast
qed

section \<open>The allocation table\<close>

lemma fat_index:
  assumes "vol_ok v" "unat c < nclusters v"
  shows "unat (fatSector c v) = unat (fatStartLBA v) + unat c div 128" "entOffset c = 4 * (unat c mod 128)"
    "unat c div 128 < unat (sectorsPerFAT (bpb v))"
proof -
  have l: "unat (sectorsPerFAT (bpb v)) < 2 ^ 21" and lim: "data_end v \<le> 2 ^ 32"
    and st: "unat (fatStartLBA v) + unat (numFATs (bpb v)) * unat (sectorsPerFAT (bpb v)) \<le> unat (dataStartLBA v)"
    and nf: "numFATs (bpb v) \<noteq> 0"
    using assms(1) by (simp_all add: vol_ok_def)
  show d: "unat c div 128 < unat (sectorsPerFAT (bpb v))"
    using assms(2) by (simp add: nclusters_def less_mult_imp_div_less mult.commute)
  have c4: "unat (c * 4) = 4 * unat c"
    using assms(2) l by (subst unat_mult_nowrap) (simp_all add: nclusters_def)
  have "1 \<le> unat (numFATs (bpb v))" using nf by (simp add: Suc_le_eq unat_gt_0)
  then have "unat (sectorsPerFAT (bpb v)) \<le> unat (numFATs (bpb v)) * unat (sectorsPerFAT (bpb v))" by simp
  then have "unat (fatStartLBA v) + unat c div 128 < 4294967296"
    using d st u32_less_limit [of "dataStartLBA v"] by linarith
  moreover have "unat (c * 4 div 512) = unat c div 128" by (simp add: unat_div c4)
  ultimately show "unat (fatSector c v) = unat (fatStartLBA v) + unat c div 128"
    by (simp add: fatSector_def unat_add_nowrap)
  have "4 * n mod 512 = 4 * (n mod 128)" for n :: nat by (simp add: mult_mod_right)
  then show "entOffset c = 4 * (unat c mod 128)" by (simp add: entOffset_def unat_mod c4)
qed

text \<open>Two entries are in different sectors or at different places of one.\<close>

lemma fat_disjoint:
  assumes "vol_ok v" "unat c < nclusters v" "unat c' < nclusters v" "c \<noteq> c'" "fatSector c v = fatSector c' v"
  shows "entOffset c + 4 \<le> entOffset c' \<or> entOffset c' + 4 \<le> entOffset c"
proof -
  have "unat c div 128 = unat c' div 128"
    using fat_index(1) [OF assms(1,2)] fat_index(1) [OF assms(1,3)] assms(5) by simp
  moreover have "unat c \<noteq> unat c'" using assms(4) by (simp add: word_unat_eq_iff)
  ultimately have "unat c mod 128 \<noteq> unat c' mod 128" by (metis div_mult_mod_eq)
  then show ?thesis by (simp add: fat_index(2) [OF assms(1,2)] fat_index(2) [OF assms(1,3)]) linarith
qed

lemma mirror_fats_writes:
  assumes "length sec = 512" "\<And>f. f \<in> set fs \<Longrightarrow> lba + of_nat f * sectorsPerFAT (bpb v) \<in> dom (dev v)"
  shows "mirror_fats fs lba sec v =
    (v\<lparr>dev := \<lambda>a. if a \<in> (\<lambda>f. lba + of_nat f * sectorsPerFAT (bpb v)) ` set fs then Some sec else dev v a\<rparr>, True)"
  using assms(2)
proof (induction fs arbitrary: v)
  case (Cons f fs)
  let ?a = "lba + of_nat f * sectorsPerFAT (bpb v)" and ?v = "v\<lparr>dev := (dev v)(lba + of_nat f * sectorsPerFAT (bpb v) \<mapsto> sec)\<rparr>"
  obtain s where s: "dev v ?a = Some s" using Cons.prems [of f] by auto
  have "mirror_fats fs lba sec ?v =
    (?v\<lparr>dev := \<lambda>a. if a \<in> (\<lambda>f. lba + of_nat f * sectorsPerFAT (bpb ?v)) ` set fs then Some sec else dev ?v a\<rparr>, True)"
    by (rule Cons.IH) (use Cons.prems in force)
  then show ?case using s assms(1) by (auto simp: WriteSector_Some fun_eq_iff intro!: arg_cong [of _ _ "\<lambda>d. v\<lparr>dev := d\<rparr>"])
qed simp

lemma mask28: "(x AND 0xF0000000 OR y AND 0x0FFFFFFF) AND 0x0FFFFFFF = (y AND 0x0FFFFFFF :: u32)"
proof -
  have "(x AND 0xF0000000) AND 0x0FFFFFFF = x AND (0xF0000000 AND 0x0FFFFFFF)" by (rule and.assoc)
  then show ?thesis by (simp add: bit.conj_disj_distrib2 and.assoc)
qed

text \<open>The sectors of the copies of one sector of the table.\<close>

lemma mirror_index:
  assumes "vol_ok v" "unat c < nclusters v" "f < unat (numFATs (bpb v))"
  shows "unat (fatSector c v + of_nat f * sectorsPerFAT (bpb v)) =
      unat (fatStartLBA v) + f * unat (sectorsPerFAT (bpb v)) + unat c div 128"
    and "unat (fatStartLBA v) + f * unat (sectorsPerFAT (bpb v)) + unat c div 128 < unat (dataStartLBA v)"
proof -
  let ?n = "unat (numFATs (bpb v))" and ?s = "unat (sectorsPerFAT (bpb v))"
  have st: "unat (fatStartLBA v) + ?n * ?s \<le> unat (dataStartLBA v)" using assms(1) by (simp add: vol_ok_def)
  have d: "unat c div 128 < ?s" by (rule fat_index(3) [OF assms(1,2)])
  have "Suc f * ?s \<le> ?n * ?s" using assms(3) by (intro mult_le_mono1) simp
  then have fs: "f * ?s + ?s \<le> ?n * ?s" by simp
  show lt: "unat (fatStartLBA v) + f * ?s + unat c div 128 < unat (dataStartLBA v)" using st d fs by linarith
  have "f < 2 ^ 32" using assms(3) unsigned_less [of "numFATs (bpb v)", where ?'a = nat] by simp
  then have f: "unat (of_nat f :: u32) = f" by (rule unat_of_nat_u32)
  have "f * ?s < 2 ^ 32" using st fs d u32_less_limit [of "dataStartLBA v"] by simp
  then have m: "unat (of_nat f * sectorsPerFAT (bpb v)) = f * ?s" by (subst unat_mult_nowrap) (simp_all add: f)
  show "unat (fatSector c v + of_nat f * sectorsPerFAT (bpb v)) =
      unat (fatStartLBA v) + f * unat (sectorsPerFAT (bpb v)) + unat c div 128"
    using lt u32_less_limit [of "dataStartLBA v"]
    by (subst unat_add_nowrap) (simp_all add: m fat_index(1) [OF assms(1,2)])
qed

lemma fat_sector_Some:
  assumes "vol_ok v" "unat (fatStartLBA v) \<le> unat a" "unat a < data_end v"
  obtains s where "dev v a = Some s" "length s = 512"
  using assms by (auto simp: vol_ok_def)

lemma UpdateFAT_dev:
  assumes ok: "vol_ok v" and c: "unat c < nclusters v"
  obtains sec sec1 d where "dev v (fatSector c v) = Some sec" "length sec = 512"
    and "sec1 = set32 sec (entOffset c) (sec32 sec (entOffset c) AND 0xF0000000 OR x AND 0x0FFFFFFF)"
    and "UpdateFAT c x v = (v\<lparr>dev := d\<rparr>, True)"
    and "d (fatSector c v) = Some sec1"
    and "\<And>a. d a = (if \<exists>f < unat (numFATs (bpb v)). unat a = unat (fatStartLBA v) + f * unat (sectorsPerFAT (bpb v)) + unat c div 128
           then Some sec1 else dev v a)"
proof -
  let ?n = "unat (numFATs (bpb v))" and ?a = "\<lambda>f. fatSector c v + of_nat f * sectorsPerFAT (bpb v)"
  have n0: "0 < ?n" using ok by (simp add: vol_ok_def unat_gt_0)
  have de: "unat (dataStartLBA v) \<le> data_end v" by (simp add: data_end_def)
  have pres: "\<exists>s. dev v (?a f) = Some s \<and> length s = 512" if "f < ?n" for f
    using mirror_index [OF ok c that] de ok by (simp add: vol_ok_def)
  obtain sec where sec: "dev v (fatSector c v) = Some sec" "length sec = 512" using pres [OF n0] by auto
  define sec1 where "sec1 = set32 sec (entOffset c) (sec32 sec (entOffset c) AND 0xF0000000 OR x AND 0x0FFFFFFF)"
  have l: "length sec1 = 512" using sec by (simp add: sec1_def)
  let ?v1 = "v\<lparr>dev := (dev v)(fatSector c v \<mapsto> sec1)\<rparr>"
  define d where "d a = (if a \<in> ?a ` set [1..<?n] then Some sec1 else dev ?v1 a)" for a
  have "mirror_fats [1..<?n] (fatSector c v) sec1 ?v1 = (?v1\<lparr>dev := d\<rparr>, True)"
    using pres by (subst mirror_fats_writes [OF l]) (auto simp: d_def fun_eq_iff)
  then have up: "UpdateFAT c x v = (v\<lparr>dev := d\<rparr>, True)"
    using sec l by (simp add: UpdateFAT_def Let_def WriteSector_Some sec1_def)
  have img: "(a = fatSector c v \<or> a \<in> ?a ` set [1..<?n]) \<longleftrightarrow>
      (\<exists>f < ?n. unat a = unat (fatStartLBA v) + f * unat (sectorsPerFAT (bpb v)) + unat c div 128)" for a
  proof -
    have "(a = fatSector c v \<or> a \<in> ?a ` set [1..<?n]) \<longleftrightarrow> (\<exists>f < ?n. a = ?a f)"
    proof
      assume "\<exists>f < ?n. a = ?a f"
      then obtain f where f: "f < ?n" "a = ?a f" by blast
      then show "a = fatSector c v \<or> a \<in> ?a ` set [1..<?n]" by (cases "f = 0") auto
    next
      assume "a = fatSector c v \<or> a \<in> ?a ` set [1..<?n]"
      then show "\<exists>f < ?n. a = ?a f" using n0 by (auto intro: exI [of _ 0])
    qed
    then show ?thesis using mirror_index(1) [OF ok c] by (auto simp: word_unat_eq_iff)
  qed
  have da: "d a = (if \<exists>f < ?n. unat a = unat (fatStartLBA v) + f * unat (sectorsPerFAT (bpb v)) + unat c div 128
           then Some sec1 else dev v a)" for a
    unfolding img [symmetric] by (auto simp: d_def)
  have "d (fatSector c v) = Some sec1" by (auto simp: d_def)
  from that [OF sec sec1_def up this da] show ?thesis .
qed

lemma UpdateFAT_table:
  assumes ok: "vol_ok v" and c: "unat c < nclusters v"
  shows "\<exists>v'. UpdateFAT c x v = (v', True) \<and> same_layout v v' \<and> vol_ok v' \<and>
    (\<forall>c'. unat c' < nclusters v \<longrightarrow> NextCluster c' v' = (if c' = c then x AND 0x0FFFFFFF else NextCluster c' v)) \<and>
    (\<forall>a. unat (dataStartLBA v) \<le> unat a \<longrightarrow> dev v' a = dev v a)"
proof -
  obtain sec sec1 d where sec: "dev v (fatSector c v) = Some sec" "length sec = 512"
    and sec1: "sec1 = set32 sec (entOffset c) (sec32 sec (entOffset c) AND 0xF0000000 OR x AND 0x0FFFFFFF)"
    and up: "UpdateFAT c x v = (v\<lparr>dev := d\<rparr>, True)" and dc: "d (fatSector c v) = Some sec1"
    and d: "\<And>a. d a = (if \<exists>f < unat (numFATs (bpb v)). unat a = unat (fatStartLBA v) + f * unat (sectorsPerFAT (bpb v)) + unat c div 128
           then Some sec1 else dev v a)"
    by (rule UpdateFAT_dev [OF ok c, of x]) (rule that)
  have e: "entOffset c + 3 < 512" by (simp add: fat_index(2) [OF ok c])
  have vok: "vol_ok (v\<lparr>dev := d\<rparr>)"
    by (rule vol_ok_write [OF ok]) (use sec sec1 d in \<open>auto split: if_splits\<close>)
  have dat: "dev (v\<lparr>dev := d\<rparr>) a = dev v a" if "unat (dataStartLBA v) \<le> unat a" for a
    using that mirror_index(2) [OF ok c] by (fastforce simp: d)
  have nx: "NextCluster c' (v\<lparr>dev := d\<rparr>) = (if c' = c then x AND 0x0FFFFFFF else NextCluster c' v)"
    if c': "unat c' < nclusters v" for c'
  proof (cases "fatSector c' v = fatSector c v")
    case True
    show ?thesis
    proof (cases "c' = c")
      case True
      then show ?thesis using sec e dc by (simp add: NextCluster_def same_layout_simps(11) [OF same_layout_dev] sec1 mask28)
    next
      case False
      have "sec32 sec1 (entOffset c') = sec32 sec (entOffset c')"
        using fat_disjoint [OF ok c c'] False True unfolding sec1 by (intro sec32_set32_other) auto
      then show ?thesis using sec dc True False by (simp add: NextCluster_def same_layout_simps(11) [OF same_layout_dev])
    qed
  next
    case False
    have "dev (v\<lparr>dev := d\<rparr>) (fatSector c' v) = dev v (fatSector c' v)"
    proof -
      have "\<not> (\<exists>f < unat (numFATs (bpb v)). unat (fatSector c' v) = unat (fatStartLBA v) + f * unat (sectorsPerFAT (bpb v)) + unat c div 128)"
      proof
        assume "\<exists>f < unat (numFATs (bpb v)). unat (fatSector c' v) = unat (fatStartLBA v) + f * unat (sectorsPerFAT (bpb v)) + unat c div 128"
        then obtain f where f: "unat c' div 128 = f * unat (sectorsPerFAT (bpb v)) + unat c div 128"
          by (auto simp: fat_index(1) [OF ok c'])
        with fat_index(3) [OF ok c'] have "f = 0" by (cases f) auto
        with f have "unat (fatSector c' v) = unat (fatSector c v)"
          by (simp add: fat_index(1) [OF ok c'] fat_index(1) [OF ok c])
        with False show False by (simp add: word_unat_eq_iff)
      qed
      then show ?thesis by (auto simp: d)
    qed
    with False show ?thesis by (auto simp: NextCluster_def same_layout_simps(11) [OF same_layout_dev])
  qed
  show ?thesis using up vok dat nx by (intro exI [of _ "v\<lparr>dev := d\<rparr>"]) simp
qed

section \<open>Clusters\<close>

definition sector :: "disk \<Rightarrow> nat \<Rightarrow> u8 list option" where
  "sector d k = d (of_nat k)"

definition sectors_at :: "disk \<Rightarrow> nat \<Rightarrow> nat \<Rightarrow> bool" where
  "sectors_at d a n \<longleftrightarrow> a + n \<le> 2 ^ 32 \<and> (\<forall>i < n. \<exists>s. sector d (a + i) = Some s \<and> length s = 512)"

definition contents :: "disk \<Rightarrow> nat \<Rightarrow> nat \<Rightarrow> u8 list" where
  "contents d a n = concat (map (\<lambda>i. the (sector d (a + i))) [0..<n])"

lemma sectors_at_Suc:
  assumes "sectors_at d a (Suc n)"
  shows "\<exists>s. sector d a = Some s \<and> length s = 512" "sectors_at d (Suc a) n"
proof -
  have p: "\<exists>s. sector d (a + i) = Some s \<and> length s = 512" if "i < Suc n" for i
    using assms that by (simp add: sectors_at_def)
  show "\<exists>s. sector d a = Some s \<and> length s = 512" using p [of 0] by simp
  show "sectors_at d (Suc a) n" using assms p [of "Suc _"] by (simp add: sectors_at_def)
qed

lemma contents_Suc: "contents d a (Suc n) = the (sector d a) @ contents d (Suc a) n"
  by (simp add: contents_def upt_conv_Cons map_Suc_upt [symmetric] comp_def del: upt_Suc)

lemma length_contents: "sectors_at d a n \<Longrightarrow> length (contents d a n) = 512 * n"
proof (induction n arbitrary: a)
  case (Suc n)
  then show ?case using sectors_at_Suc [OF Suc.prems] by (auto simp: contents_Suc)
qed (simp add: contents_def)

lemma dev_ReadSectors_Some:
  "sectors_at d a n \<Longrightarrow> dev_ReadSectors n (of_nat a) d = Some (contents d a n)"
proof (induction n arbitrary: a)
  case (Suc n)
  have "dev_ReadSectors n (of_nat (Suc a)) d = Some (contents d (Suc a) n)"
    by (rule Suc.IH [OF sectors_at_Suc(2) [OF Suc.prems]])
  then show ?case using sectors_at_Suc(1) [OF Suc.prems] by (auto simp: contents_Suc sector_def add.commute)
qed (simp add: contents_def)

text \<open>The disk after a write of sectors.\<close>

definition written :: "disk \<Rightarrow> nat \<Rightarrow> nat \<Rightarrow> u8 list \<Rightarrow> disk" where
  "written d a n buf = (\<lambda>x. if a \<le> unat x \<and> unat x < a + n then Some (take 512 (drop (512 * (unat x - a)) buf)) else d x)"

lemma written_0 [simp]: "written d a 0 buf = d"
  by (auto simp: written_def fun_eq_iff)

lemma sector_written:
  "k < 2 ^ 32 \<Longrightarrow> sector (written d a n buf) k =
    (if a \<le> k \<and> k < a + n then Some (take 512 (drop (512 * (k - a)) buf)) else sector d k)"
  by (simp add: sector_def written_def unat_of_nat_u32)

lemma dev_WriteSectors_Some:
  "sectors_at d a n \<Longrightarrow> length buf = 512 * n \<Longrightarrow> dev_WriteSectors n (of_nat a) buf d = (written d a n buf, True)"
proof (induction n arbitrary: a buf d)
  case (Suc n)
  let ?d = "d(of_nat a \<mapsto> take 512 buf)"
  have a: "a < 2 ^ 32" using Suc.prems by (simp add: sectors_at_def)
  have len: "length (take 512 buf) = 512" "length (drop 512 buf) = 512 * n" using Suc.prems by simp_all
  have s: "sectors_at ?d (Suc a) n"
    using sectors_at_Suc(2) [OF Suc.prems(1)] len by (auto simp: sectors_at_def sector_def)
  have "written ?d (Suc a) n (drop 512 buf) x = written d a (Suc n) buf x" for x
  proof (cases "x = of_nat a")
    case True
    then have "unat x = a" using a by (simp add: unat_of_nat_u32)
    with True show ?thesis by (simp add: written_def)
  next
    case False
    then have "unat x \<noteq> a" by auto
    moreover have "512 * (unat x - Suc a) + 512 = 512 * (unat x - a)" if "a < unat x" using that by simp
    ultimately show ?thesis using False by (auto simp: written_def)
  qed
  then have w: "written ?d (Suc a) n (drop 512 buf) = written d a (Suc n) buf" by blast
  have "dev_WriteSectors n (of_nat (Suc a)) (drop 512 buf) ?d = (written ?d (Suc a) n (drop 512 buf), True)"
    by (rule Suc.IH [OF s len(2)])
  moreover have "of_nat (Suc a) = (of_nat a + 1 :: u32)" by simp
  ultimately have "dev_WriteSectors n (of_nat a + 1) (drop 512 buf) ?d = (written d a (Suc n) buf, True)"
    by (simp only: w)
  moreover obtain t where "d (of_nat a) = Some t" using sectors_at_Suc(1) [OF Suc.prems(1)] by (auto simp: sector_def)
  ultimately show ?case by simp
qed simp

lemma contents_written_same:
  assumes "length buf = 512 * n" "a + n \<le> 2 ^ 32"
  shows "contents (written d a n buf) a n = buf"
proof -
  have "contents (written d a n buf) a n = concat (map (\<lambda>i. take 512 (drop (512 * i) buf)) [0..<n])"
    using assms(2) by (auto simp: contents_def sector_written intro!: arg_cong [of _ _ concat])
  also have "\<dots> = buf" using assms(1)
  proof (induction n arbitrary: buf)
    case (Suc n)
    have "concat (map (\<lambda>i. take 512 (drop (512 * i) buf)) [0..<Suc n]) =
      take 512 buf @ concat (map (\<lambda>i. take 512 (drop (512 * i) (drop 512 buf))) [0..<n])"
      by (simp add: upt_conv_Cons map_Suc_upt [symmetric] comp_def add.commute del: upt_Suc)
    also have "concat (map (\<lambda>i. take 512 (drop (512 * i) (drop 512 buf))) [0..<n]) = drop 512 buf"
      by (rule Suc.IH) (use Suc.prems in simp)
    finally show ?case by simp
  qed simp
  finally show ?thesis .
qed

lemma contents_cong:
  "(\<And>k. b \<le> k \<Longrightarrow> k < b + m \<Longrightarrow> sector d k = sector d' k) \<Longrightarrow> contents d b m = contents d' b m"
  by (auto simp: contents_def intro!: arg_cong [of _ _ concat])

lemma contents_written_other:
  assumes "b + m \<le> a \<or> a + n \<le> b" "b + m \<le> 2 ^ 32"
  shows "contents (written d a n buf) b m = contents d b m"
  by (rule contents_cong) (use assms in \<open>auto simp: sector_written\<close>)

text \<open>The sectors of a cluster.\<close>

definition is_cluster :: "FAT32 \<Rightarrow> u32 \<Rightarrow> bool" where
  "is_cluster v c \<longleftrightarrow> 2 \<le> unat c \<and> unat c < nclusters v"

definition cluster_at :: "FAT32 \<Rightarrow> u32 \<Rightarrow> nat" where
  "cluster_at v c = unat (dataStartLBA v) + (unat c - 2) * spc v"

lemma is_cluster_range:
  assumes "vol_ok v" "is_cluster v c"
  shows "2 \<le> c" "c < 0x0FFFFFF8" "\<not> end_of_chain c" "unat c < nclusters v" "c AND 0x0FFFFFFF = c"
proof -
  have "unat c < 0x0FFFFFF8"
    using assms by (auto simp: is_cluster_def vol_ok_def nclusters_def)
  then show l: "c < 0x0FFFFFF8" by (simp add: word_less_nat_alt)
  show "2 \<le> c" "unat c < nclusters v" using assms(2) by (simp_all add: is_cluster_def word_le_nat_alt)
  then show "\<not> end_of_chain c" using l by (auto simp: end_of_chain_def)
  have "take_bit 28 c = c"
    using \<open>unat c < 0x0FFFFFF8\<close> by (intro unat_eqI) (simp add: take_bit_eq_mod unat_mod)
  then have "c AND mask 28 = c" by (simp add: take_bit_eq_mask)
  then show "c AND 0x0FFFFFFF = c" by (simp add: mask_eq_exp_minus_1)
qed

lemma cluster_range:
  assumes "vol_ok v" "is_cluster v c"
  shows "unat (dataStartLBA v) \<le> cluster_at v c" "cluster_at v c + spc v \<le> data_end v"
    "ClusterToLBA c v = of_nat (cluster_at v c)" "sectors_at (dev v) (cluster_at v c) (spc v)"
proof -
  have r: "2 \<le> unat c" "unat c < nclusters v" using assms(2) by (simp_all add: is_cluster_def)
  show "unat (dataStartLBA v) \<le> cluster_at v c" by (simp add: cluster_at_def)
  have "Suc (unat c - 2) * spc v \<le> (nclusters v - 2) * spc v" using r by (intro mult_le_mono1) simp
  then show e: "cluster_at v c + spc v \<le> data_end v" by (simp add: cluster_at_def data_end_def)
  have "unat (c - 2) = unat c - 2" using r by (simp add: unat_sub_nowrap word_le_nat_alt)
  then have "of_nat (unat c - 2) = c - 2" by (simp flip: \<open>unat (c - 2) = unat c - 2\<close>)
  then show "ClusterToLBA c v = of_nat (cluster_at v c)"
    by (simp add: ClusterToLBA_def cluster_at_def spc_def)
  show "sectors_at (dev v) (cluster_at v c) (spc v)"
    unfolding sectors_at_def
  proof (intro conjI allI impI)
    show le: "cluster_at v c + spc v \<le> 2 ^ 32" using e assms(1) by (simp add: vol_ok_def)
    fix i assume i: "i < spc v"
    have "unat (of_nat (cluster_at v c + i) :: u32) = cluster_at v c + i" using i le by (intro unat_of_nat_u32) simp
    moreover have "unat (fatStartLBA v) \<le> unat (dataStartLBA v)" using assms(1) by (simp add: vol_ok_def)
    ultimately have "unat (fatStartLBA v) \<le> unat (of_nat (cluster_at v c + i) :: u32)"
      "unat (of_nat (cluster_at v c + i) :: u32) < data_end v"
      using i e by (simp_all add: cluster_at_def)
    with assms(1) show "\<exists>s. sector (dev v) (cluster_at v c + i) = Some s \<and> length s = 512"
      unfolding vol_ok_def sector_def by blast
  qed
qed

lemma cluster_disjoint:
  assumes "is_cluster v c" "is_cluster v c'" "c \<noteq> c'"
  shows "cluster_at v c + spc v \<le> cluster_at v c' \<or> cluster_at v c' + spc v \<le> cluster_at v c"
proof -
  have *: "(i - 2) * m + m \<le> (j - 2) * m" if "i < j" "2 \<le> i" for i j m :: nat
  proof -
    have "Suc (i - 2) * m \<le> (j - 2) * m" using that by (intro mult_le_mono1) simp
    then show ?thesis by simp
  qed
  have "unat c \<noteq> unat c'" using assms(3) by (simp add: word_unat_eq_iff)
  then consider "unat c < unat c'" | "unat c' < unat c" by linarith
  then show ?thesis
    using assms(1,2) *[of "unat c" "unat c'" "spc v"] *[of "unat c'" "unat c" "spc v"]
    by cases (simp_all add: cluster_at_def is_cluster_def)
qed

definition clus :: "FAT32 \<Rightarrow> u32 \<Rightarrow> u8 list" where
  "clus v c = contents (dev v) (cluster_at v c) (spc v)"

lemma unat_spc [simp]: "unat (ucast (ucast (sectorsPerCluster (bpb v)) :: u32) :: u8) = spc v"
proof -
  have "(ucast (ucast (sectorsPerCluster (bpb v)) :: u32) :: u8) = sectorsPerCluster (bpb v)"
    by (rule bit_word_eqI) (simp add: bit_simps)
  then show ?thesis by (simp add: spc_def)
qed

lemma ReadCluster_Some:
  assumes "vol_ok v" "is_cluster v c"
  shows "ReadCluster c v = Some (clus v c)" "length (clus v c) = 512 * spc v"
  using cluster_range(4) [OF assms] 
  by (simp_all add: ReadCluster_def ReadSectors_def cluster_range(3) [OF assms] dev_ReadSectors_Some clus_def length_contents)

lemma NextCluster_data:
  assumes "vol_ok v" "unat c < nclusters v" "\<And>a. unat a < unat (dataStartLBA v) \<Longrightarrow> d a = dev v a"
  shows "NextCluster c (v\<lparr>dev := d\<rparr>) = NextCluster c v"
proof -
  have "0 < unat (numFATs (bpb v))" using assms(1) by (simp add: vol_ok_def unat_gt_0)
  from mirror_index [OF assms(1,2) this] have "d (fatSector c v) = dev v (fatSector c v)" by (intro assms(3)) simp
  then show ?thesis by (simp add: NextCluster_def same_layout_simps(11) [OF same_layout_dev])
qed

lemma cluster_at_dev [simp]: "cluster_at (v\<lparr>dev := d\<rparr>) c = cluster_at v c"
  by (simp add: cluster_at_def spc_def)

lemma WriteCluster_Some:
  assumes ok: "vol_ok v" and c: "is_cluster v c" and len: "length b = 512 * spc v"
  shows "\<exists>v'. WriteCluster c b v = (v', True) \<and> same_layout v v' \<and> vol_ok v' \<and>
    (\<forall>c'. is_cluster v c' \<longrightarrow> clus v' c' = (if c' = c then b else clus v c')) \<and>
    (\<forall>c'. unat c' < nclusters v \<longrightarrow> NextCluster c' v' = NextCluster c' v)"
proof -
  let ?d = "written (dev v) (cluster_at v c) (spc v) b" and ?v = "v\<lparr>dev := written (dev v) (cluster_at v c) (spc v) b\<rparr>"
  have w: "WriteCluster c b v = (?v, True)"
    using cluster_range(4) [OF ok c] len
    by (simp add: WriteCluster_def WriteSectors_def cluster_range(3) [OF ok c] dev_WriteSectors_Some)
  have lim: "cluster_at v c + spc v \<le> 2 ^ 32" if "is_cluster v c" for c
    using cluster_range(2) [OF ok that] ok by (simp add: vol_ok_def)
  have vok: "vol_ok ?v"
  proof (rule vol_ok_write [OF ok])
    fix a s assume "?d a = Some s" "dev v a \<noteq> Some s"
    then show "length s = 512" using len by (auto simp: written_def min_def split: if_splits)
  qed (auto simp: written_def dom_def)
  have cl: "clus ?v c' = (if c' = c then b else clus v c')" if "is_cluster v c'" for c'
    using contents_written_same [OF len lim [OF c]] contents_written_other [OF _ lim [OF that]]
      cluster_disjoint [OF that c] by (auto simp: clus_def spc_def)
  have "NextCluster c' ?v = NextCluster c' v" if "unat c' < nclusters v" for c'
    by (rule NextCluster_data [OF ok that]) (use cluster_range(1) [OF ok c] in \<open>auto simp: written_def\<close>)
  with w vok cl show ?thesis by (intro exI [of _ ?v]) simp
qed

section \<open>A volume as a table and clusters\<close>

text \<open>
  The abstract view: \<open>F\<close> gives the entry of each cluster in the table and \<open>D\<close> its bytes.
\<close>

definition vol_rep :: "FAT32 \<Rightarrow> (u32 \<Rightarrow> u32) \<Rightarrow> (u32 \<Rightarrow> u8 list) \<Rightarrow> bool" where
  "vol_rep v F D \<longleftrightarrow> vol_ok v \<and> (\<forall>c. unat c < nclusters v \<longrightarrow> NextCluster c v = F c) \<and>
     (\<forall>c. is_cluster v c \<longrightarrow> clus v c = D c)"

lemma vol_rep_ok: "vol_rep v F D \<Longrightarrow> vol_ok v"
  by (simp add: vol_rep_def)

lemma is_cluster_layout: "same_layout v v' \<Longrightarrow> is_cluster v' c = is_cluster v c"
  by (simp add: is_cluster_def same_layout_simps)

lemma vol_rep_reads:
  assumes "vol_rep v F D" "is_cluster v c"
  shows "ReadCluster c v = Some (D c)" "length (D c) = 512 * spc v" "NextCluster c v = F c"
  using assms ReadCluster_Some [OF vol_rep_ok [OF assms(1)] assms(2)] by (auto simp: vol_rep_def is_cluster_def)

lemma UpdateFAT_rep:
  assumes "vol_rep v F D" "unat c < nclusters v"
  shows "\<exists>v'. UpdateFAT c x v = (v', True) \<and> same_layout v v' \<and> vol_rep v' (F(c := x AND 0x0FFFFFFF)) D"
proof -
  note ok = vol_rep_ok [OF assms(1)]
  from UpdateFAT_table [OF ok assms(2), of x] obtain v' where v': "UpdateFAT c x v = (v', True)" "same_layout v v'" "vol_ok v'"
    "\<And>c'. unat c' < nclusters v \<Longrightarrow> NextCluster c' v' = (if c' = c then x AND 0x0FFFFFFF else NextCluster c' v)"
    "\<And>a. unat (dataStartLBA v) \<le> unat a \<Longrightarrow> dev v' a = dev v a" by blast
  have "clus v' c' = D c'" if c': "is_cluster v c'" for c'
  proof -
    have "contents (dev v') (cluster_at v c') (spc v) = contents (dev v) (cluster_at v c') (spc v)"
    proof (rule contents_cong)
      fix k assume k: "cluster_at v c' \<le> k" "k < cluster_at v c' + spc v"
      have "k < 2 ^ 32" using k(2) cluster_range(2) [OF ok c'] ok by (simp add: vol_ok_def)
      then have "unat (of_nat k :: u32) = k" by (rule unat_of_nat_u32)
      then show "sector (dev v') k = sector (dev v) k"
        unfolding sector_def using k(1) cluster_range(1) [OF ok c'] by (intro v'(5)) simp
    qed
    then show ?thesis using assms(1) c' v'(2)
      by (simp add: clus_def vol_rep_def cluster_at_def same_layout_simps [OF v'(2)])
  qed
  with v' assms(1) show ?thesis
    by (intro exI [of _ v']) (auto simp: vol_rep_def same_layout_simps [OF v'(2)] is_cluster_layout [OF v'(2)])
qed

lemma WriteCluster_rep:
  assumes "vol_rep v F D" "is_cluster v c" "length b = 512 * spc v"
  shows "\<exists>v'. WriteCluster c b v = (v', True) \<and> same_layout v v' \<and> vol_rep v' F (D(c := b))"
proof -
  from WriteCluster_Some [OF vol_rep_ok [OF assms(1)] assms(2,3)] obtain v'
    where v': "WriteCluster c b v = (v', True)" "same_layout v v'" "vol_ok v'"
      "\<And>c'. is_cluster v c' \<Longrightarrow> clus v' c' = (if c' = c then b else clus v c')"
      "\<And>c'. unat c' < nclusters v \<Longrightarrow> NextCluster c' v' = NextCluster c' v" by blast
  with assms(1) show ?thesis
    by (intro exI [of _ v']) (auto simp: vol_rep_def same_layout_simps [OF v'(2)] is_cluster_layout [OF v'(2)])
qed

text \<open>Zeroing a cluster sector by sector is one write of zeros.\<close>

lemma zero_sectors_written:
  assumes "vol_ok v" "is_cluster v c" "k \<le> spc v"
  shows "zero_sectors [k..<spc v] c v = (v\<lparr>dev := written (dev v) (cluster_at v c + k) (spc v - k) (replicate (512 * (spc v - k)) 0)\<rparr>, True)"
  using assms
proof (induction "spc v - k" arbitrary: k v)
  case 0
  then show ?case by simp
next
  case (Suc n)
  let ?a = "cluster_at v c + k"
  let ?v = "v\<lparr>dev := (dev v)(of_nat ?a \<mapsto> replicate 512 0)\<rparr>"
  have k: "k < spc v" using Suc.hyps(2) by simp
  have sa: "sectors_at (dev v) (cluster_at v c) (spc v)" by (rule cluster_range(4) [OF Suc.prems(1,2)])
  then obtain s where s: "dev v (of_nat ?a) = Some s" using k by (auto simp: sectors_at_def sector_def)
  have lba: "ClusterToLBA c v + of_nat k = of_nat ?a" by (simp add: cluster_range(3) [OF Suc.prems(1,2)])
  have "vol_ok ?v" by (rule vol_ok_write [OF Suc.prems(1)]) (auto split: if_splits)
  then have ih: "zero_sectors [Suc k..<spc v] c ?v =
      (?v\<lparr>dev := written (dev ?v) (cluster_at v c + Suc k) (spc v - Suc k) (replicate (512 * (spc v - Suc k)) 0)\<rparr>, True)"
    using Suc.hyps(1) [of ?v "Suc k"] Suc.hyps(2) Suc.prems k by (simp add: spc_def is_cluster_def nclusters_def)
  have "unat (of_nat ?a :: u32) = ?a" using sa k by (intro unat_of_nat_u32) (simp add: sectors_at_def)
  then have "written (dev ?v) (cluster_at v c + Suc k) (spc v - Suc k) (replicate (512 * (spc v - Suc k)) 0) x =
      written (dev v) ?a (spc v - k) (replicate (512 * (spc v - k)) 0) x" for x
    using k by (cases "x = of_nat ?a") (auto simp: written_def min_def word_unat_eq_iff)
  then have "written (dev ?v) (cluster_at v c + Suc k) (spc v - Suc k) (replicate (512 * (spc v - Suc k)) 0) =
      written (dev v) ?a (spc v - k) (replicate (512 * (spc v - k)) 0)" by blast
  with ih show ?case using k s lba WriteSector_Some [OF s, of "replicate 512 0"]
    by (simp add: upt_conv_Cons del: upt_Suc)
qed

lemma zero_cluster_rep:
  assumes "vol_rep v F D" "is_cluster v c"
  shows "\<exists>v'. zero_cluster c v = (v', True) \<and> same_layout v v' \<and> vol_rep v' F (D(c := replicate (512 * spc v) 0))"
proof -
  note ok = vol_rep_ok [OF assms(1)]
  have "zero_cluster c v = WriteCluster c (replicate (512 * spc v) 0) v"
    using zero_sectors_written [OF ok assms(2), of 0] cluster_range(4) [OF ok assms(2)]
    by (simp add: zero_cluster_def spc_def [symmetric] WriteCluster_def WriteSectors_def cluster_range(3) [OF ok assms(2)] dev_WriteSectors_Some)
  then show ?thesis using WriteCluster_rep [OF assms, of "replicate (512 * spc v) 0"] by simp
qed


section \<open>Allocation\<close>

definition free_clusters :: "FAT32 \<Rightarrow> (u32 \<Rightarrow> u32) \<Rightarrow> u32 set" where
  "free_clusters v F = {c. is_cluster v c \<and> F c = 0}"

lemma alloc_loop_rep:
  assumes "vol_rep v F D" "unat entries = nclusters v"
  shows "case find_index cl entries (\<lambda>c. F c = 0) of
      None \<Rightarrow> alloc_loop cl entries v = (v, 0)
    | Some c \<Rightarrow> \<exists>v'. alloc_loop cl entries v = (v', c) \<and> same_layout v v' \<and> vol_rep v' (F(c := 0x0FFFFFF8)) D"
  using assms
proof (induction cl entries v rule: alloc_loop.induct)
  case (1 cl entries v)
  show ?case
  proof (cases "cl < entries")
    case False
    then show ?thesis by (simp add: alloc_loop.simps [of cl] find_index.simps [of cl])
  next
    case True
    have cl: "unat cl < nclusters v" using True "1.prems"(2) by (simp add: word_less_nat_alt)
    have "0 < unat (numFATs (bpb v))" using "1.prems"(1) by (simp add: vol_rep_def vol_ok_def unat_gt_0)
    then obtain sec where sec: "dev v (fatSector cl v) = Some sec"
      using UpdateFAT_dev [OF vol_rep_ok [OF "1.prems"(1)] cl] by metis
    then have F: "sec32 sec (entOffset cl) AND 0x0FFFFFFF = F cl"
      using "1.prems"(1) cl by (auto simp: vol_rep_def NextCluster_def)
    show ?thesis
    proof (cases "F cl = 0")
      case True
      with UpdateFAT_rep [OF "1.prems"(1) cl, of "0x0FFFFFF8"] \<open>cl < entries\<close> sec F show ?thesis
        by (auto simp: alloc_loop.simps [of cl] find_index.simps [of cl])
    next
      case False
      then have eq: "alloc_loop cl entries v = alloc_loop (cl + 1) entries v"
        "find_index cl entries (\<lambda>c. F c = 0) = find_index (cl + 1) entries (\<lambda>c. F c = 0)"
        using \<open>cl < entries\<close> sec F by (simp_all add: alloc_loop.simps [of cl] find_index.simps [of cl])
      show ?thesis unfolding eq using "1.IH" [OF \<open>cl < entries\<close> _ _ "1.prems", of sec] sec F False by simp
    qed
  qed
qed

lemma AllocateCluster_rep:
  assumes "vol_rep v F D"
  shows "if free_clusters v F = {} then AllocateCluster v = (v, 0)
    else \<exists>v' c. AllocateCluster v = (v', c) \<and> c \<in> free_clusters v F \<and> (\<forall>c' \<in> free_clusters v F. c \<le> c') \<and>
      same_layout v v' \<and> vol_rep v' (F(c := 0x0FFFFFF8)) D"
proof -
  let ?e = "sectorsPerFAT (bpb v) * 512 div 4"
  have "unat (sectorsPerFAT (bpb v)) < 2 ^ 21" using assms by (simp add: vol_rep_def vol_ok_def)
  then have e: "unat ?e = nclusters v" by (simp add: unat_div unat_mult_nowrap nclusters_def)
  have free: "c \<in> free_clusters v F \<longleftrightarrow> 2 \<le> c \<and> c < ?e \<and> F c = 0" for c
    by (auto simp: free_clusters_def is_cluster_def word_le_nat_alt word_less_nat_alt e)
  show ?thesis
  proof (cases "?e < 3")
    case True
    then have "nclusters v = 0" by (simp add: word_less_nat_alt e) (simp add: nclusters_def)
    then have "free_clusters v F = {}" by (simp add: free_clusters_def is_cluster_def)
    with True show ?thesis by (simp add: AllocateCluster_def)
  next
    case False
    then have a: "AllocateCluster v = alloc_loop 2 ?e v" by (simp add: AllocateCluster_def)
    show ?thesis
    proof (cases "find_index 2 ?e (\<lambda>c. F c = 0)")
      case None
      then have "free_clusters v F = {}" using free by (auto simp: find_index_None)
      with alloc_loop_rep [OF assms e, of 2] None a show ?thesis by simp
    next
      case (Some c)
      then have c: "c \<in> free_clusters v F" "\<forall>c' \<in> free_clusters v F. c \<le> c'"
        using free by (auto simp: find_index_Some linorder_not_less [symmetric])
      with alloc_loop_rep [OF assms e, of 2] Some a show ?thesis by (auto simp: Bex_def)
    qed
  qed
qed

end
