(* ===== verification/KOS_FatFiles.thy ===== *)
theory KOS_FatFiles
  imports KOS_FatVolume
begin

unbundle bit_operations_syntax

text \<open>
  Files and directories of the FAT32 file system over the abstract volume. The locale \<open>cluster_store\<close> is what they
  rely on; chains of clusters are lists. Reading follows a chain, writing a new file builds one from free clusters,
  adding a directory entry fills the first free slot or extends the directory, and the lookup finds the entry by its
  name. Together they give that a file that was written is read back.
\<close>

section \<open>The interface of the volume\<close>

text \<open>
  What files and directories rely on: entries can be changed one at a time, and allocation finds a free cluster and marks
  it as the end of a chain.
\<close>

locale cluster_store =
  fixes rep :: "'v \<Rightarrow> (u32 \<Rightarrow> u32) \<Rightarrow> (u32 \<Rightarrow> u8 list) \<Rightarrow> bool"
    and valid :: "'v \<Rightarrow> u32 \<Rightarrow> bool"
    and same :: "'v \<Rightarrow> 'v \<Rightarrow> bool"
    and update :: "u32 \<Rightarrow> u32 \<Rightarrow> 'v \<Rightarrow> 'v \<times> bool"
    and alloc :: "'v \<Rightarrow> 'v \<times> u32"
  assumes update_rep: "rep v F D \<Longrightarrow> valid v c \<Longrightarrow>
      \<exists>v'. update c x v = (v', True) \<and> same v v' \<and> rep v' (F(c := x AND 0x0FFFFFFF)) D"
    and alloc_rep: "rep v F D \<Longrightarrow> valid v a \<Longrightarrow> F a = 0 \<Longrightarrow>
      \<exists>v' c. alloc v = (v', c) \<and> valid v c \<and> F c = 0 \<and> same v v' \<and> rep v' (F(c := 0x0FFFFFF8)) D"
    and valid_range: "rep v F D \<Longrightarrow> valid v c \<Longrightarrow> 2 \<le> c \<and> c AND 0x0FFFFFFF = c"
    and same_valid: "same v v' \<Longrightarrow> valid v' c = valid v c"
    and same_trans: "same u v \<Longrightarrow> same v w \<Longrightarrow> same u w"
begin

lemma extend:
  assumes "rep v F D" "valid v cur" "F cur \<noteq> 0" "valid v a" "F a = 0"
  shows "\<exists>v1 v2 v3 c. alloc v = (v1, c) \<and> update cur c v1 = (v2, True) \<and> update c 0x0FFFFFF8 v2 = (v3, True) \<and>
    valid v c \<and> F c = 0 \<and> 2 \<le> c \<and> same v v3 \<and> rep v3 (F(cur := c, c := 0x0FFFFFF8)) D"
proof -
  from alloc_rep [OF assms(1,4,5)] obtain v1 c
    where 1: "alloc v = (v1, c)" "valid v c" "F c = 0" "same v v1" "rep v1 (F(c := 0x0FFFFFF8)) D" by blast
  have "valid v1 cur" using 1(4) assms(2) by (simp add: same_valid)
  from update_rep [OF 1(5) this] obtain v2
    where 2: "update cur c v1 = (v2, True)" "same v1 v2" "rep v2 (F(c := 0x0FFFFFF8, cur := c AND 0x0FFFFFFF)) D" by blast
  have "valid v2 c" using 1(2,4) 2(2) by (simp add: same_valid)
  from update_rep [OF 2(3) this] obtain v3
    where 3: "update c 0x0FFFFFF8 v2 = (v3, True)" "same v2 v3"
      "rep v3 (F(c := 0x0FFFFFF8, cur := c AND 0x0FFFFFFF, c := 0x0FFFFFF8 AND 0x0FFFFFFF)) D" by blast
  have ne: "c \<noteq> cur" using 1(3) assms(3) by auto
  have "F(c := 0x0FFFFFF8, cur := c AND 0x0FFFFFFF, c := 0x0FFFFFF8 AND 0x0FFFFFFF) = F(cur := c, c := 0x0FFFFFF8)"
    using ne valid_range [OF assms(1) 1(2)] by (auto simp: fun_eq_iff)
  then show ?thesis
    using 1 2 3 valid_range [OF assms(1) 1(2)] same_trans [OF same_trans [OF 1(4) 2(2)] 3(2)]
    by (intro exI [of _ v1] exI [of _ v2] exI [of _ v3] exI [of _ c]) simp
qed

end

interpretation fat: cluster_store vol_rep is_cluster same_layout UpdateFAT AllocateCluster
proof
  fix v F D c x
  assume r: "vol_rep v F D" and c: "is_cluster v c"
  show "\<exists>v'. UpdateFAT c x v = (v', True) \<and> same_layout v v' \<and> vol_rep v' (F(c := x AND 0x0FFFFFFF)) D"
    by (rule UpdateFAT_rep [OF r]) (use c in \<open>simp add: is_cluster_def\<close>)
  show "2 \<le> c \<and> c AND 0x0FFFFFFF = c"
    using is_cluster_range [OF vol_rep_ok [OF r] c] by simp
next
  fix v F D a
  assume r: "vol_rep v F D" and "is_cluster v a" "F a = 0"
  then have "a \<in> free_clusters v F" by (simp add: free_clusters_def)
  then show "\<exists>v' c. AllocateCluster v = (v', c) \<and> is_cluster v c \<and> F c = 0 \<and> same_layout v v' \<and> vol_rep v' (F(c := 0x0FFFFFF8)) D"
    using AllocateCluster_rep [OF r] by (auto simp: free_clusters_def split: if_splits)
qed (auto simp: is_cluster_layout intro: same_layout_trans)

lemma extend_chain_rep:
  assumes "vol_rep v F D" "is_cluster v cur" "F cur \<noteq> 0" "free_clusters v F \<noteq> {}"
  shows "\<exists>v' c. extend_chain cur v = (v', c) \<and> c \<in> free_clusters v F \<and> c \<noteq> 0 \<and> same_layout v v' \<and>
    vol_rep v' (F(cur := c, c := 0x0FFFFFF8)) D"
proof -
  obtain a where "is_cluster v a" "F a = 0" using assms(4) by (auto simp: free_clusters_def)
  from fat.extend [OF assms(1-3) this] obtain v1 v2 v3 c
    where e: "AllocateCluster v = (v1, c)" "UpdateFAT cur c v1 = (v2, True)" "UpdateFAT c 0x0FFFFFF8 v2 = (v3, True)"
      "is_cluster v c" "F c = 0" "2 \<le> c" "same_layout v v3" "vol_rep v3 (F(cur := c, c := 0x0FFFFFF8)) D" by blast
  from e(6) have "\<not> c < 2" "c \<noteq> 0" by (simp_all add: linorder_not_less) auto
  with e show ?thesis by (intro exI [of _ v3] exI [of _ c]) (simp add: extend_chain_def free_clusters_def)
qed

section \<open>Chains\<close>

fun chain :: "(u32 \<Rightarrow> u32) \<Rightarrow> (u32 \<Rightarrow> bool) \<Rightarrow> u32 list \<Rightarrow> bool" where
  "chain F ok [] \<longleftrightarrow> False"
| "chain F ok [c] \<longleftrightarrow> ok c \<and> 0x0FFFFFF8 \<le> F c"
| "chain F ok (c # d # cs) \<longleftrightarrow> ok c \<and> F c = d \<and> chain F ok (d # cs)"

lemma chain_ok: "chain F ok cs \<Longrightarrow> c \<in> set cs \<Longrightarrow> ok c"
  by (induction F ok cs rule: chain.induct) auto

lemma cluster_chain_cong: "(\<And>c. c \<in> set cs \<Longrightarrow> F c = F' c) \<Longrightarrow> chain F ok cs = chain F' ok cs"
  by (induction F ok cs rule: chain.induct) auto

lemma chain_unique:
  "chain F ok (c # cs) \<Longrightarrow> chain F ok (c # ds) \<Longrightarrow> (\<And>d. ok d \<Longrightarrow> d < 0x0FFFFFF8) \<Longrightarrow> cs = ds"
proof (induction cs arbitrary: c ds)
  case Nil
  then show ?case by (cases ds) (auto simp: linorder_not_less [symmetric] dest: chain_ok [of _ _ _ "hd ds"])
next
  case (Cons d cs)
  then have d: "F c = d" "chain F ok (d # cs)" "d < 0x0FFFFFF8" by (auto dest: chain_ok)
  then show ?case using Cons by (cases ds) auto
qed

lemma chain_suffix: "chain F ok (xs @ c # cs) \<Longrightarrow> chain F ok (c # cs)"
proof (induction xs)
  case (Cons x xs)
  then show ?case by (cases xs) auto
qed simp

lemma chain_distinct:
  assumes "chain F ok cs" "\<And>d. ok d \<Longrightarrow> d < 0x0FFFFFF8"
  shows "distinct cs"
  using assms(1)
proof (induction cs)
  case (Cons c cs)
  have "c \<notin> set cs"
  proof
    assume "c \<in> set cs"
    then obtain xs ys where cs: "cs = xs @ c # ys" by (auto simp: in_set_conv_decomp)
    then have "chain F ok (c # ys)" using chain_suffix [of F ok "c # xs" c ys] Cons.prems by simp
    from chain_unique [OF this Cons.prems assms(2)] have "length ys = length cs" by simp
    with cs show False by simp
  qed
  moreover have "distinct cs" using Cons by (cases cs) auto
  ultimately show ?case by simp
qed simp

lemma cluster_chain_nonzero: "chain F ok cs \<Longrightarrow> (\<And>d. ok d \<Longrightarrow> 2 \<le> d) \<Longrightarrow> c \<in> set cs \<Longrightarrow> F c \<noteq> 0"
proof (induction F ok cs rule: chain.induct)
  case (3 F ok c' d cs)
  then have "ok d" using chain_ok [of F ok "d # cs" d] by simp
  then have "2 \<le> d" by (rule "3.prems"(2))
  then have "d \<noteq> 0" by auto
  with 3 show ?case by auto
qed auto

lemma chain_append_end:
  assumes "chain F ok (cs @ [c])" "ok d" "d \<notin> set (cs @ [c])" "0x0FFFFFF8 \<le> e" "distinct (cs @ [c])"
  shows "chain (F(c := d, d := e)) ok (cs @ [c, d])"
  using assms
proof (induction cs)
  case (Cons x xs)
  then show ?case by (cases xs) auto
qed simp

section \<open>File contents\<close>

lemma unat_bytesPerCluster: "vol_ok v \<Longrightarrow> unat (bytesPerCluster v) = 512 * spc v"
proof -
  assume "vol_ok v"
  then have "bytesPerCluster v = 512 * ucast (sectorsPerCluster (bpb v))" by (simp add: bytesPerCluster_def vol_ok_def)
  moreover have l: "unat (sectorsPerCluster (bpb v)) < 256" using unsigned_less [of "sectorsPerCluster (bpb v)", where ?'a = nat] by simp
  moreover have "unat (ucast (sectorsPerCluster (bpb v)) :: u32) = unat (sectorsPerCluster (bpb v))"
    using l by (simp add: unsigned_ucast_eq take_bit_eq_mod)
  ultimately show ?thesis by (simp add: spc_def unat_mult_nowrap)
qed

lemma read_chain_step:
  fixes toRead bytesRead :: u32 and v :: FAT32
  defines "n \<equiv> min (unat toRead - unat bytesRead) (512 * spc v)"
  assumes "vol_rep v F D" "is_cluster v c" "bytesRead < toRead" "unat toRead + 512 * spc v < 2 ^ 32"
  shows "\<exists>b. unat b = unat bytesRead + n \<and> read_chain c toRead bytesRead out v =
    (if end_of_chain (F c) then Some (out @ take n (D c), b) else read_chain (F c) toRead b (out @ take n (D c)) v)"
proof -
  note ok = vol_rep_ok [OF assms(2)] and r = vol_rep_reads [OF assms(2,3)]
  have lt: "unat bytesRead < unat toRead" using assms(4) by (simp add: word_less_nat_alt)
  have bw: "unat (bytesRead + bytesPerCluster v) = unat bytesRead + 512 * spc v"
    using lt assms(5) by (subst unat_add_nowrap) (simp_all add: unat_bytesPerCluster [OF ok])
  define chunk where "chunk = (if bytesRead + bytesPerCluster v > toRead then toRead - bytesRead else bytesPerCluster v)"
  have "unat (toRead - bytesRead) = unat toRead - unat bytesRead" using lt by (simp add: unat_sub_nowrap)
  then have ch: "unat chunk = n" using lt
    by (auto simp: chunk_def n_def word_less_nat_alt bw unat_bytesPerCluster [OF ok])
  have b: "unat (bytesRead + chunk) = unat bytesRead + n"
    using ch lt assms(5) by (subst unat_add_nowrap) (simp_all add: n_def)
  have g: "get_struct (D c) 0 n = Some (take n (D c))" by (simp add: get_struct_def r(2) n_def)
  have "read_chain c toRead bytesRead out v =
    (if end_of_chain (F c) then Some (out @ take n (D c), bytesRead + chunk)
     else read_chain (F c) toRead (bytesRead + chunk) (out @ take n (D c)) v)"
    using assms(4) is_cluster_range [OF ok assms(3)] r g
    by (subst read_chain.simps) (simp add: Let_def chunk_def [symmetric] ch)
  with b show ?thesis by blast
qed

lemma read_chain_done: "read_chain c toRead toRead out v = Some (out, toRead)"
  by (subst read_chain.simps) simp

lemma read_chain_rep:
  assumes "vol_rep v F D" "chain F (is_cluster v) (c # cs)" "bytesRead \<le> toRead"
    "unat toRead + 512 * spc v < 2 ^ 32" "unat toRead - unat bytesRead \<le> 512 * spc v * length (c # cs)"
  shows "read_chain c toRead bytesRead out v =
    Some (out @ take (unat toRead - unat bytesRead) (concat (map D (c # cs))), toRead)"
  using assms
proof (induction cs arbitrary: c bytesRead out)
  case Nil
  show ?case
  proof (cases "bytesRead = toRead")
    case False
    with Nil.prems(3) have lt: "bytesRead < toRead" by simp
    obtain b where b: "unat b = unat bytesRead + (unat toRead - unat bytesRead)"
      "read_chain c toRead bytesRead out v = Some (out @ take (unat toRead - unat bytesRead) (D c), b)"
      using read_chain_step [OF Nil.prems(1) _ lt Nil.prems(4), of c out] Nil.prems by (auto simp: end_of_chain_def min_absorb1)
    then have "b = toRead" using lt by (intro unat_eqI) (simp add: word_less_nat_alt)
    with b show ?thesis by simp
  qed (simp add: read_chain_done)
next
  case (Cons d cs)
  show ?case
  proof (cases "bytesRead = toRead")
    case False
    note ok = vol_rep_ok [OF Cons.prems(1)]
    from False Cons.prems(3) have lt: "bytesRead < toRead" by simp
    have c: "is_cluster v c" "F c = d" "chain F (is_cluster v) (d # cs)" using Cons.prems(2) by auto
    have "is_cluster v d" using c(3) by (auto dest: chain_ok)
    then have d: "\<not> end_of_chain d" using is_cluster_range [OF ok] by blast
    let ?n = "min (unat toRead - unat bytesRead) (512 * spc v)"
    obtain b where b: "unat b = unat bytesRead + ?n"
      "read_chain c toRead bytesRead out v = read_chain d toRead b (out @ take ?n (D c)) v"
      using read_chain_step [OF Cons.prems(1) c(1) lt Cons.prems(4), of out] c(2) d by auto
    have "b \<le> toRead" using b(1) lt by (simp add: word_le_nat_alt word_less_nat_alt)
    moreover have "unat toRead - unat b \<le> 512 * spc v * length (d # cs)" using b(1) Cons.prems(5) by (simp add: algebra_simps)
    ultimately have "read_chain d toRead b (out @ take ?n (D c)) v =
        Some ((out @ take ?n (D c)) @ take (unat toRead - unat b) (concat (map D (d # cs))), toRead)"
      using Cons.IH [OF Cons.prems(1) c(3)] Cons.prems(4) by blast
    moreover have "take (unat toRead - unat bytesRead) (D c @ concat (map D (d # cs))) =
        take ?n (D c) @ take (unat toRead - unat b) (concat (map D (d # cs)))"
      using b(1) vol_rep_reads(2) [OF Cons.prems(1) c(1)] by (simp add: min_def)
    ultimately show ?thesis using b(2) by simp
  qed (simp add: read_chain_done)
qed

lemma free_clusters_finite [simp]: "finite (free_clusters v F)"
  by simp

lemma free_clusters_update:
  "F cur \<noteq> 0 \<Longrightarrow> c \<noteq> 0 \<Longrightarrow> free_clusters v (F(cur := c, c := 0x0FFFFFF8)) = free_clusters v F - {c}"
  by (auto simp: free_clusters_def)

lemma is_cluster_layout_fun: "same_layout v v' \<Longrightarrow> is_cluster v' = is_cluster v"
  by (simp add: fun_eq_iff is_cluster_layout)

lemma free_clusters_layout: "same_layout v v' \<Longrightarrow> free_clusters v' F = free_clusters v F"
  by (simp add: free_clusters_def is_cluster_layout)

text \<open>One cluster of a new file: the bytes, then zeros.\<close>

lemma fill_cluster_Some:
  assumes "vol_ok v" "unat chunk \<le> length src" "unat chunk \<le> 512 * spc v"
  shows "fill_cluster src chunk v = Some (take (unat chunk) src @ replicate (512 * spc v - unat chunk) 0)"
  using assms by (simp add: fill_cluster_def get_struct_def put_struct_def unat_bytesPerCluster)

lemma unat_chunk_size: "vol_ok v \<Longrightarrow> unat (chunk_size r v) = min (unat r) (512 * spc v)"
  by (auto simp: chunk_size_def word_less_nat_alt unat_bytesPerCluster)

lemma write_new_first:
  assumes "vol_rep v F D" "is_cluster v cur" "remaining \<noteq> 0" "unat remaining \<le> length src"
  defines "n \<equiv> min (unat remaining) (512 * spc v)"
  shows "\<exists>v1 r. WriteCluster cur (take n src @ replicate (512 * spc v - n) 0) v = (v1, True) \<and> same_layout v v1 \<and>
    vol_rep v1 F (D(cur := take n src @ replicate (512 * spc v - n) 0)) \<and> unat r = unat remaining - n \<and>
    write_new remaining src cur v =
      (if r = 0 then Some (v1, True)
       else case extend_chain cur v1 of
         (v2, nextCl) \<Rightarrow>
           if nextCl = 0 then Some (v2, False)
           else case zero_cluster nextCl v2 of
             (v3, ok) \<Rightarrow> if ok then write_new r (drop n src) nextCl v3 else Some (v3, False))"
proof -
  note ok = vol_rep_ok [OF assms(1)]
  have ch: "unat (chunk_size remaining v) = n" by (simp add: unat_chunk_size [OF ok] n_def)
  let ?buf = "take n src @ replicate (512 * spc v - n) 0"
  have fc: "fill_cluster src (chunk_size remaining v) v = Some ?buf"
    using assms(4) by (subst fill_cluster_Some [OF ok]) (simp_all add: ch n_def)
  have "length ?buf = 512 * spc v" using assms(4) by (simp add: n_def)
  from WriteCluster_rep [OF assms(1,2) this] obtain v1 where v1: "WriteCluster cur ?buf v = (v1, True)" "same_layout v v1"
    "vol_rep v1 F (D(cur := ?buf))" by blast
  moreover have "unat (remaining - chunk_size remaining v) = unat remaining - n"
    by (subst unat_sub_nowrap) (simp_all add: ch n_def)
  moreover from v1(1) have "write_new remaining src cur v =
      (if remaining - chunk_size remaining v = 0 then Some (v1, True)
       else case extend_chain cur v1 of
         (v2, nextCl) \<Rightarrow>
           if nextCl = 0 then Some (v2, False)
           else case zero_cluster nextCl v2 of
             (v3, ok) \<Rightarrow> if ok then write_new (remaining - chunk_size remaining v) (drop (unat (chunk_size remaining v)) src) nextCl v3
                            else Some (v3, False))"
    using assms(3) fc by (subst write_new.simps) (simp add: Let_def)
  ultimately show ?thesis unfolding ch by blast
qed

lemma write_new_rep:
  assumes "vol_rep v F D" "is_cluster v cur" "0x0FFFFFF8 \<le> F cur" "remaining \<noteq> 0" "unat remaining \<le> length src"
    "unat remaining \<le> 512 * spc v * Suc (card (free_clusters v F))"
  shows "\<exists>v' F' D' cs. write_new remaining src cur v = Some (v', True) \<and> same_layout v v' \<and> vol_rep v' F' D' \<and>
    chain F' (is_cluster v) (cur # cs) \<and> set cs \<subseteq> free_clusters v F \<and>
    (\<forall>c. c \<notin> set (cur # cs) \<longrightarrow> F' c = F c \<and> D' c = D c) \<and>
    take (unat remaining) (concat (map D' (cur # cs))) = take (unat remaining) src \<and>
    512 * spc v * length cs < unat remaining \<and> unat remaining \<le> 512 * spc v * Suc (length cs)"
  using assms
proof (induction "unat remaining" arbitrary: remaining src cur v F D rule: less_induct)
  case less
  note ok = vol_rep_ok [OF less.prems(1)]
  let ?B = "512 * spc v"
  let ?n = "min (unat remaining) ?B"
  let ?buf = "take ?n src @ replicate (?B - ?n) 0"
  have B0: "0 < ?B" using ok by (simp add: vol_ok_def)
  have r0: "0 < unat remaining" using less.prems(4) by (simp add: unat_gt_0)
  from write_new_first [OF less.prems(1,2,4,5)] obtain v1 r where v1: "same_layout v v1"
    "vol_rep v1 F (D(cur := ?buf))" "unat r = unat remaining - ?n" and
    w: "write_new remaining src cur v = (if r = 0 then Some (v1, True)
       else case extend_chain cur v1 of
         (v2, nextCl) \<Rightarrow>
           if nextCl = 0 then Some (v2, False)
           else case zero_cluster nextCl v2 of
             (v3, ok) \<Rightarrow> if ok then write_new r (drop ?n src) nextCl v3 else Some (v3, False))"
    by blast
  show ?case
  proof (cases "unat remaining \<le> ?B")
    case True
    then have "r = 0" using v1(3) by (simp add: unat_eq_0 [symmetric] del: unat_eq_0)
    with True w v1 less.prems r0 show ?thesis
      by (intro exI [of _ v1] exI [of _ F] exI [of _ "D(cur := ?buf)"] exI [of _ "[]"]) (simp add: min_def)
  next
    case False
    then have n: "?n = ?B" and r: "unat r = unat remaining - ?B" "r \<noteq> 0"
      using v1(3) by (auto simp: min_def unat_eq_0 [symmetric] simp del: unat_eq_0)
    have Fc: "F cur \<noteq> 0" using less.prems(3) by auto
    have "0 < card (free_clusters v F)" using False less.prems(6) by (cases "card (free_clusters v F)") auto
    then have "free_clusters v1 F \<noteq> {}" by (auto simp: free_clusters_layout [OF v1(1)])
    moreover have "is_cluster v1 cur" using less.prems(2) by (simp add: is_cluster_layout [OF v1(1)])
    ultimately obtain v2 c where c: "extend_chain cur v1 = (v2, c)" "c \<in> free_clusters v1 F" "c \<noteq> 0" "same_layout v1 v2"
      "vol_rep v2 (F(cur := c, c := 0x0FFFFFF8)) (D(cur := ?buf))"
      using extend_chain_rep [OF v1(2) _ Fc] by blast
    let ?F = "F(cur := c, c := 0x0FFFFFF8)"
    have cf: "c \<in> free_clusters v F" using c(2) by (simp add: free_clusters_layout [OF v1(1)])
    then have cc: "is_cluster v c" "c \<noteq> cur" using Fc by (auto simp: free_clusters_def)
    note l2 = same_layout_trans [OF v1(1) c(4)]
    have "is_cluster v2 c" using cc by (simp add: is_cluster_layout [OF l2])
    from zero_cluster_rep [OF c(5) this] obtain v3 where v3: "zero_cluster c v2 = (v3, True)" "same_layout v2 v3"
      "vol_rep v3 ?F ((D(cur := ?buf))(c := replicate (512 * spc v2) 0))" by blast
    let ?D = "(D(cur := ?buf))(c := replicate (512 * spc v2) 0)"
    note l3 = same_layout_trans [OF l2 v3(2)]
    have fr: "free_clusters v3 ?F = free_clusters v F - {c}"
      using free_clusters_update [where F = F, OF Fc c(3), of v] by (simp add: free_clusters_layout [OF l3])
    have card: "Suc (card (free_clusters v F - {c})) = card (free_clusters v F)"
      by (rule card_Suc_Diff1 [OF free_clusters_finite cf])
    have "\<exists>v' F' D' cs. write_new r (drop ?B src) c v3 = Some (v', True) \<and> same_layout v3 v' \<and> vol_rep v' F' D' \<and>
      chain F' (is_cluster v3) (c # cs) \<and> set cs \<subseteq> free_clusters v3 ?F \<and>
      (\<forall>x. x \<notin> set (c # cs) \<longrightarrow> F' x = ?F x \<and> D' x = ?D x) \<and>
      take (unat r) (concat (map D' (c # cs))) = take (unat r) (drop ?B src) \<and>
      512 * spc v3 * length cs < unat r \<and> unat r \<le> 512 * spc v3 * Suc (length cs)"
    proof (rule less.hyps)
      show "unat r < unat remaining" using r(1) B0 False by simp
      show "vol_rep v3 ?F ?D" by (rule v3(3))
      show "is_cluster v3 c" using cc by (simp add: is_cluster_layout [OF l3])
      show "0x0FFFFFF8 \<le> ?F c" "r \<noteq> 0" using r by simp_all
      show "unat r \<le> length (drop ?B src)" using r(1) less.prems(5) by simp
      show "unat r \<le> 512 * spc v3 * Suc (card (free_clusters v3 ?F))"
        using less.prems(6) r(1) False unfolding fr card by (simp add: same_layout_simps [OF l3])
    qed
    then obtain v' F' D' cs where I: "write_new r (drop ?B src) c v3 = Some (v', True)" "same_layout v3 v'" "vol_rep v' F' D'"
      "chain F' (is_cluster v3) (c # cs)" "set cs \<subseteq> free_clusters v F - {c}"
      "\<And>x. x \<notin> set (c # cs) \<Longrightarrow> F' x = ?F x \<and> D' x = ?D x"
      "take (unat r) (concat (map D' (c # cs))) = take (unat r) (drop ?B src)"
      "?B * length cs < unat r" "unat r \<le> ?B * Suc (length cs)"
      unfolding fr same_layout_simps [OF l3] by blast
    have cur: "cur \<notin> set (c # cs)" using I(5) cc Fc by (auto simp: free_clusters_def)
    with I(6) [OF cur] cc have Fcur: "F' cur = c" "D' cur = ?buf" by simp_all
    have ch: "chain F' (is_cluster v) (cur # c # cs)"
      using I(4) Fcur less.prems(2) by (simp add: is_cluster_layout_fun [OF l3])
    have "take (unat remaining) (concat (map D' (cur # c # cs))) = take ?B src @ take (unat r) (drop ?B src)"
      using I(7) Fcur r(1) n False less.prems(5) by (simp add: min_def)
    also have "\<dots> = take (unat remaining) src" using r(1) False by (simp add: take_add [symmetric])
    finally have tk: "take (unat remaining) (concat (map D' (cur # c # cs))) = take (unat remaining) src" .
    have sz: "?B * length (c # cs) < unat remaining" "unat remaining \<le> ?B * Suc (length (c # cs))"
      using I(8,9) r(1) False by simp_all
    have "write_new remaining src cur v = Some (v', True)" using w r(2) c(1,3) v3(1) I(1) n by simp
    moreover have "F' x = F x \<and> D' x = D x" if "x \<notin> set (cur # c # cs)" for x
      using that I(6) [of x] by simp
    ultimately show ?thesis
      using ch tk sz I(3,5) same_layout_trans [OF l3 I(2)] cf
      by (intro exI [of _ v'] exI [of _ F'] exI [of _ D'] exI [of _ "c # cs"]) auto
  qed
qed

section \<open>Directory entries\<close>

lemma entry_offsets_eq: "vol_ok v \<Longrightarrow> entry_offsets v = map (\<lambda>k. 32 * k) [0..<16 * spc v]"
proof -
  have "(512 * n + 31) div 32 = 16 * n" for n :: nat by linarith
  then show "vol_ok v \<Longrightarrow> entry_offsets v = map (\<lambda>k. 32 * k) [0..<16 * spc v]"
    by (simp add: entry_offsets_def unat_bytesPerCluster)
qed

lemma length_set_name_fold: "length (fold (\<lambda>i c. c[off + i := nm ! i]) [0..<n] cl) = length cl"
  by (induction n) simp_all

lemma nth_set_name_fold:
  "off + n \<le> length cl \<Longrightarrow> j < length cl \<Longrightarrow>
   fold (\<lambda>i c. c[off + i := nm ! i]) [0..<n] cl ! j = (if off \<le> j \<and> j < off + n then nm ! (j - off) else cl ! j)"
  by (induction n) (auto simp: nth_list_update length_set_name_fold less_Suc_eq)

lemma length_set_name [simp]: "length (set_name cl off nm) = length cl"
  by (simp only: set_name_def length_set_name_fold)

lemma nth_set_name:
  "off + 11 \<le> length cl \<Longrightarrow> j < length cl \<Longrightarrow>
   set_name cl off nm ! j = (if off \<le> j \<and> j < off + 11 then nm ! (j - off) else cl ! j)"
  unfolding set_name_def by (rule nth_set_name_fold)

lemma length_put_entry [simp]: "length (put_entry cl off nm attr start sz) = length cl"
  by (simp add: put_entry_def set_start_def)

lemma nth_put_entry_other:
  "off + 32 \<le> length cl \<Longrightarrow> j < length cl \<Longrightarrow> j < off \<or> off + 32 \<le> j \<Longrightarrow> put_entry cl off nm attr start sz ! j = cl ! j"
  by (auto simp: put_entry_def set_start_def set32_def nth_list_update nth_set_name)

lemma put_entry_fields:
  fixes cl nm :: "u8 list" and off :: nat and attr :: u8 and start sz :: u32
  assumes "off + 32 \<le> length cl" "length nm = 11"
  defines "e \<equiv> put_entry cl off nm attr start sz"
  shows "take 11 (drop off e) = nm" "e ! off = nm ! 0" "e ! (off + 11) = attr" "entry_start e off = start" "sec32 e (off + 28) = sz"
proof -
  have n: "e ! (off + i) = nm ! i" if "i < 11" for i
    using that assms(1) by (auto simp: e_def put_entry_def set_start_def set32_def nth_list_update nth_set_name)
  show "e ! off = nm ! 0" using n [of 0] by simp
  show "take 11 (drop off e) = nm"
    using assms(1,2) n by (intro nth_equalityI) (simp_all add: e_def)
  show "e ! (off + 11) = attr"
    using assms(1) by (simp add: e_def put_entry_def set_start_def set32_def nth_list_update)
  show "sec32 e (off + 28) = sz"
    using assms(1) by (simp add: e_def put_entry_def set_start_def)
  have b: "e ! (off + 26) = ucast start" "e ! (off + 27) = ucast (drop_bit 8 start)"
    "e ! (off + 20) = ucast (drop_bit 16 start)" "e ! (off + 21) = ucast (drop_bit 24 start)"
    using assms(1) by (simp_all add: e_def put_entry_def set_start_def set32_def nth_list_update)
  have i: "off + 26 + 1 = off + 27" "off + 20 + 1 = off + 21" by simp_all
  have w: "push_bit 16 (ucast (word16 c d)) OR ucast (word16 a b) =
      (ucast a OR push_bit 8 (ucast b) OR push_bit 16 (ucast c) OR push_bit 24 (ucast d) :: u32)" for a b c d :: u8
  proof (rule bit_word_eqI)
    fix n :: nat assume "n < LENGTH(32)"
    then have "n < 32" by simp
    then consider "n < 8" | "8 \<le> n" "n < 16" | "16 \<le> n" "n < 24" | "24 \<le> n" "n < 32" by linarith
    then show "bit (push_bit 16 (ucast (word16 c d)) OR ucast (word16 a b) :: u32) n =
      bit (ucast a OR push_bit 8 (ucast b) OR push_bit 16 (ucast c) OR push_bit 24 (ucast d) :: u32) n"
      by cases (auto simp: bit_simps word16_def dest: bit_imp_le_length)
  qed
  have "entry_start e off = ucast (ucast start :: u8) OR push_bit 8 (ucast (ucast (drop_bit 8 start) :: u8)) OR
     push_bit 16 (ucast (ucast (drop_bit 16 start) :: u8)) OR push_bit 24 (ucast (ucast (drop_bit 24 start) :: u8))"
    unfolding entry_start_def sec16_def i b w ..
  then show "entry_start e off = start" by (simp only: bytes_word)
qed


section \<open>Searching a directory\<close>

fun scan_list :: "(u8 list \<Rightarrow> nat \<Rightarrow> bool) \<Rightarrow> nat list \<Rightarrow> (u32 \<Rightarrow> u8 list) \<Rightarrow> u32 list \<Rightarrow> (u32 \<times> nat \<times> u8 list) option" where
  "scan_list m offs D [] = None"
| "scan_list m offs D (c # cs) =
     (case scan_entries (m (D c)) (D c) offs of Some off \<Rightarrow> Some (c, off, D c) | None \<Rightarrow> scan_list m offs D cs)"

lemma scan_chain_rep:
  assumes "vol_rep v F D" "chain F (is_cluster v) (c # cs)"
  shows "scan_chain m c v = Some (scan_list m (entry_offsets v) D (c # cs))"
  using assms(2)
proof (induction cs arbitrary: c)
  case Nil
  then have c: "is_cluster v c" "0x0FFFFFF8 \<le> F c" by auto
  then show ?case using is_cluster_range [OF vol_rep_ok [OF assms(1)] c(1)] vol_rep_reads [OF assms(1) c(1)]
    by (subst scan_chain.simps) (auto simp: end_of_chain_def split: option.splits)
next
  case (Cons d cs)
  then have c: "is_cluster v c" "F c = d" "chain F (is_cluster v) (d # cs)" by auto
  then have "is_cluster v d" by (auto dest: chain_ok)
  then have "\<not> end_of_chain d" using is_cluster_range [OF vol_rep_ok [OF assms(1)]] by blast
  then show ?case using is_cluster_range [OF vol_rep_ok [OF assms(1)] c(1)] vol_rep_reads [OF assms(1) c(1)] c(2) Cons.IH [OF c(3)]
    by (subst scan_chain.simps) (auto split: option.splits)
qed

lemma scan_list_None: "scan_list m offs D cs = None \<longleftrightarrow> (\<forall>c \<in> set cs. scan_entries (m (D c)) (D c) offs = None)"
  by (induction cs) (auto split: option.splits)

lemma scan_list_hit:
  assumes "\<And>p. p \<in> set pre \<Longrightarrow> scan_entries (m (D p)) (D p) offs = None" "scan_entries (m (D c)) (D c) offs = Some off"
  shows "scan_list m offs D (pre @ c # post) = Some (c, off, D c)"
  using assms by (induction pre) simp_all

text \<open>A predicate on entries that looks at the 32 bytes of the entry only.\<close>

definition entry_local :: "(u8 list \<Rightarrow> nat \<Rightarrow> bool) \<Rightarrow> bool" where
  "entry_local m \<longleftrightarrow> (\<forall>cl cl' i. length cl = length cl' \<longrightarrow> i + 32 \<le> length cl \<longrightarrow>
     (\<forall>j. i \<le> j \<and> j < i + 32 \<longrightarrow> cl ! j = cl' ! j) \<longrightarrow> m cl i = m cl' i)"

definition is_free :: "u8 list \<Rightarrow> nat \<Rightarrow> bool" where
  "is_free cl off \<longleftrightarrow> cl ! off = 0 \<or> cl ! off = 0xE5"

lemma is_free_fun: "is_free cl = (\<lambda>off. cl ! off = 0 \<or> cl ! off = 0xE5)"
  by (simp add: fun_eq_iff is_free_def)

lemma scan_entries_used:
  assumes "scan_entries m cl (pre @ post) = None" "\<And>i. i \<in> set pre \<Longrightarrow> \<not> is_free cl i" "i \<in> set pre"
    "cl ! (i + 11) \<noteq> 0x0F"
  shows "\<not> m i"
  using assms by (induction pre) (auto simp: is_free_def Let_def split: if_splits)

lemma scan_entries_skip:
  assumes "\<And>i. i \<in> set pre \<Longrightarrow> \<not> is_free cl i \<and> (cl ! (i + 11) = 0x0F \<or> \<not> m i)"
  shows "scan_entries m cl (pre @ post) = scan_entries m cl post"
  using assms by (induction pre) (auto simp: is_free_def Let_def)

lemma find_Some_split: "find P xs = Some x \<Longrightarrow> \<exists>pre post. xs = pre @ x # post \<and> (\<forall>y \<in> set pre. \<not> P y) \<and> P x"
proof (induction xs)
  case (Cons y ys)
  show ?case
  proof (cases "P y")
    case False
    with Cons obtain pre post where "ys = pre @ x # post" "\<forall>y \<in> set pre. \<not> P y" "P x" by auto
    with False show ?thesis by (intro exI [of _ "y # pre"] exI [of _ post]) simp
  qed (use Cons.prems in \<open>auto intro: exI [of _ "[]"]\<close>)
qed simp

text \<open>An entry put into the first free slot is what the search finds, when it matches and nothing did before.\<close>

lemma scan_entries_put:
  assumes "entry_local m" "length cl = 512 * k" "offs = map (\<lambda>k. 32 * k) [0..<16 * k]"
    and "find (is_free cl) offs = Some off" "scan_entries (m cl) cl offs = None"
    and "length nm = 11" "nm ! 0 \<noteq> 0" "nm ! 0 \<noteq> 0xE5" "attr \<noteq> 0x0F"
    and "m (put_entry cl off nm attr start sz) off"
  shows "scan_entries (m (put_entry cl off nm attr start sz)) (put_entry cl off nm attr start sz) offs = Some off"
proof -
  let ?e = "put_entry cl off nm attr start sz"
  obtain pre post where offs: "offs = pre @ off # post" and pre: "\<And>i. i \<in> set pre \<Longrightarrow> \<not> is_free cl i"
    using find_Some_split [OF assms(4)] by blast
  show ?thesis
  proof -
    have in_offs: "i + 32 \<le> length cl \<and> 32 dvd i" if "i \<in> set offs" for i
      using that assms(2,3) by auto
    have o: "off + 32 \<le> length cl" using in_offs offs by simp
    have d: "distinct offs" using assms(3) by (simp add: distinct_map inj_on_def)
    have same: "?e ! (i + j) = cl ! (i + j)" if "i \<in> set pre" "j < 32" for i j
    proof (rule nth_put_entry_other [OF o])
      have "i \<noteq> off" using that(1) d offs by auto
      moreover have "32 dvd i" "32 dvd off" "i + 32 \<le> length cl" using in_offs that(1) offs by auto
      ultimately show "i + j < off \<or> off + 32 \<le> i + j" "i + j < length cl" using that(2) by (auto elim!: dvdE)
    qed
    have "scan_entries (m ?e) ?e offs = scan_entries (m ?e) ?e (off # post)"
      unfolding offs
    proof (rule scan_entries_skip)
      fix i assume i: "i \<in> set pre"
      have "i + 32 \<le> length cl" using in_offs i offs by simp
      moreover have "?e ! j = cl ! j" if "i \<le> j \<and> j < i + 32" for j
        using that same [OF i, of "j - i"] by (simp add: less_diff_conv2)
      ultimately have "m ?e i = m cl i" using assms(1) unfolding entry_local_def by (metis length_put_entry)
      then show "\<not> is_free ?e i \<and> (?e ! (i + 11) = 0x0F \<or> \<not> m ?e i)"
        using pre [OF i] scan_entries_used [OF assms(5) [unfolded offs] pre i] same [OF i, of 0] same [OF i, of 11]
        by (auto simp: is_free_def)
    qed
    also have "\<dots> = Some off"
      using put_entry_fields(2,3) [OF o assms(6)] assms(7-10) by (simp add: Let_def)
    finally show ?thesis .
  qed
qed

section \<open>Adding a directory entry\<close>

lemma add_entry_slot:
  assumes "vol_rep v F D" "is_cluster v c" "find (is_free (D c)) (entry_offsets v) = Some off"
  shows "\<exists>v'. add_entry nm attr start sz c v = Some (v', True) \<and> same_layout v v' \<and>
    vol_rep v' F (D(c := put_entry (D c) off nm attr start sz))"
proof -
  note r = vol_rep_reads [OF assms(1,2)]
  from WriteCluster_rep [OF assms(1,2), of "put_entry (D c) off nm attr start sz"] r(2)
  obtain v' where "WriteCluster c (put_entry (D c) off nm attr start sz) v = (v', True)" "same_layout v v'"
    "vol_rep v' F (D(c := put_entry (D c) off nm attr start sz))" by auto
  with assms(3) r(1) show ?thesis
    by (intro exI [of _ v']) (subst add_entry.simps, simp add: is_free_fun)
qed

text \<open>
  The chain after an entry was added: \<open>pre\<close> are the clusters without a free slot before the cluster \<open>c\<close> the
  entry went to, \<open>cl\<close> is what that cluster held.
\<close>

definition entry_added ::
  "FAT32 \<Rightarrow> (u32 \<Rightarrow> u32) \<Rightarrow> (u32 \<Rightarrow> u8 list) \<Rightarrow> u32 list \<Rightarrow> (u32 \<Rightarrow> u32) \<Rightarrow> (u32 \<Rightarrow> u8 list) \<Rightarrow> u32 list \<Rightarrow>
   (u8 list \<Rightarrow> nat \<Rightarrow> u8 list) \<Rightarrow> bool" where
  "entry_added v F D ds F' D' ds' put \<longleftrightarrow>
     chain F' (is_cluster v) ds' \<and> hd ds' = hd ds \<and> set ds' \<subseteq> set ds \<union> free_clusters v F \<and>
     (\<forall>x. x \<notin> set ds' \<longrightarrow> F' x = F x \<and> D' x = D x) \<and>
     (\<exists>pre c post cl off. ds' = pre @ c # post \<and> (\<forall>p \<in> set pre. p \<in> set ds \<and> D' p = D p) \<and>
        find (is_free cl) (entry_offsets v) = Some off \<and> length cl = 512 * spc v \<and> D' c = put cl off \<and>
        (c \<in> set ds \<and> cl = D c \<or> cl = replicate (512 * spc v) 0))"

lemma entry_addedI:
  assumes "chain F' (is_cluster v) (pre @ c # post)" "hd (pre @ c # post) = hd ds" "set (pre @ c # post) \<subseteq> set ds \<union> free_clusters v F"
    "\<And>x. x \<notin> set (pre @ c # post) \<Longrightarrow> F' x = F x \<and> D' x = D x" "\<And>p. p \<in> set pre \<Longrightarrow> p \<in> set ds \<and> D' p = D p"
    "find (is_free cl) (entry_offsets v) = Some off" "length cl = 512 * spc v" "D' c = put cl off"
    "c \<in> set ds \<and> cl = D c \<or> cl = replicate (512 * spc v) 0"
  shows "entry_added v F D ds F' D' (pre @ c # post) put"
  unfolding entry_added_def using assms by blast

lemma free_slot_zeros:
  assumes "vol_ok v"
  shows "find (is_free (replicate (512 * spc v) 0)) (entry_offsets v) = Some 0"
proof -
  have "0 < spc v" using assms by (simp add: vol_ok_def)
  then show ?thesis by (simp add: entry_offsets_eq [OF assms] upt_conv_Cons is_free_def)
qed

lemma add_entry_extend:
  assumes "vol_rep v F D" "is_cluster v c" "0x0FFFFFF8 \<le> F c" "free_clusters v F \<noteq> {}"
    "find (is_free (D c)) (entry_offsets v) = None"
  shows "\<exists>v' n. add_entry nm attr start sz c v = Some (v', True) \<and> same_layout v v' \<and> n \<in> free_clusters v F \<and>
    vol_rep v' (F(c := n, n := 0x0FFFFFF8)) (D(n := put_entry (replicate (512 * spc v) 0) 0 nm attr start sz))"
proof -
  note ok = vol_rep_ok [OF assms(1)] and r = vol_rep_reads [OF assms(1,2)]
  have Fc: "F c \<noteq> 0" "end_of_chain (F c)" using assms(3) by (auto simp: end_of_chain_def)
  from extend_chain_rep [OF assms(1,2) Fc(1) assms(4)] obtain v1 n
    where n: "extend_chain c v = (v1, n)" "n \<in> free_clusters v F" "n \<noteq> 0" "same_layout v v1" "vol_rep v1 (F(c := n, n := 0x0FFFFFF8)) D"
    by blast
  have "is_cluster v1 n" using n(2) by (simp add: free_clusters_def is_cluster_layout [OF n(4)])
  from zero_cluster_rep [OF n(5) this] obtain v2
    where v2: "zero_cluster n v1 = (v2, True)" "same_layout v1 v2"
      "vol_rep v2 (F(c := n, n := 0x0FFFFFF8)) (D(n := replicate (512 * spc v) 0))"
    unfolding same_layout_simps [OF n(4)] by blast
  note l2 = same_layout_trans [OF n(4) v2(2)]
  have n2: "is_cluster v2 n" using n(2) by (simp add: free_clusters_def is_cluster_layout [OF l2])
  have "find (is_free ((D(n := replicate (512 * spc v) 0)) n)) (entry_offsets v2) = Some 0"
    using free_slot_zeros [OF ok] by (simp add: same_layout_simps [OF l2])
  from add_entry_slot [OF v2(3) n2 this, of nm attr start sz] obtain v'
    where v': "add_entry nm attr start sz n v2 = Some (v', True)" "same_layout v2 v'"
      "vol_rep v' (F(c := n, n := 0x0FFFFFF8)) (D(n := put_entry (replicate (512 * spc v) 0) 0 nm attr start sz))"
    unfolding fun_upd_same fun_upd_upd by blast
  have "add_entry nm attr start sz c v = Some (v', True)"
    using r assms(5) Fc n(1,3) v2(1) v'(1) by (subst add_entry.simps) (simp add: is_free_fun)
  with v' n(2) same_layout_trans [OF l2 v'(2)] show ?thesis by blast
qed

lemma add_entry_next:
  assumes "vol_rep v F D" "is_cluster v c" "is_cluster v (F c)" "find (is_free (D c)) (entry_offsets v) = None"
  shows "add_entry nm attr start sz c v = add_entry nm attr start sz (F c) v"
  using vol_rep_reads [OF assms(1,2)] is_cluster_range(3) [OF vol_rep_ok [OF assms(1)] assms(3)] assms(4)
  by (subst add_entry.simps) (simp add: is_free_fun)

lemma entry_added_Cons:
  assumes "entry_added v F D cs F' D' ds' put" "chain F (is_cluster v) (c # cs)" "distinct (c # cs)" "cs \<noteq> []" "F c \<noteq> 0"
  shows "entry_added v F D (c # cs) F' D' (c # ds') put"
proof -
  from assms(1) obtain pre a post cl off where A: "chain F' (is_cluster v) ds'" "hd ds' = hd cs" "set ds' \<subseteq> set cs \<union> free_clusters v F"
    "\<forall>x. x \<notin> set ds' \<longrightarrow> F' x = F x \<and> D' x = D x" "ds' = pre @ a # post" "\<forall>p \<in> set pre. p \<in> set cs \<and> D' p = D p"
    "find (is_free cl) (entry_offsets v) = Some off" "length cl = 512 * spc v" "D' a = put cl off"
    "a \<in> set cs \<and> cl = D a \<or> cl = replicate (512 * spc v) 0"
    unfolding entry_added_def by blast
  have c: "c \<notin> set ds'" using A(3) assms(3,5) by (auto simp: free_clusters_def)
  obtain es where ds': "ds' = hd cs # es" using A(1,2) by (cases ds') auto
  have "F c = hd cs" "is_cluster v c" using assms(2,4) by (cases cs; auto)+
  then have "chain F' (is_cluster v) (c # ds')" using A(1,4) c unfolding ds' by simp
  then have "entry_added v F D (c # cs) F' D' ((c # pre) @ a # post) put"
    using A c by (intro entry_addedI [where cl = cl and off = off]) auto
  then show ?thesis by (simp add: A(5))
qed

lemma add_entry_rep:
  assumes "vol_rep v F D" "chain F (is_cluster v) ds" "free_clusters v F \<noteq> {}"
  shows "\<exists>v' F' D' ds'. add_entry nm attr start sz (hd ds) v = Some (v', True) \<and> same_layout v v' \<and> vol_rep v' F' D' \<and>
    entry_added v F D ds F' D' ds' (\<lambda>cl off. put_entry cl off nm attr start sz)"
  using assms(2)
proof (induction ds)
  case (Cons c cs)
  note ok = vol_rep_ok [OF assms(1)]
  let ?put = "\<lambda>cl off. put_entry cl off nm attr start sz"
  have c: "is_cluster v c" using Cons.prems by (auto dest: chain_ok)
  note r = vol_rep_reads [OF assms(1) c]
  have dist: "distinct (c # cs)" by (rule chain_distinct [OF Cons.prems]) (rule is_cluster_range(2) [OF ok])
  have Fc: "F c \<noteq> 0" by (rule cluster_chain_nonzero [OF Cons.prems]) (use is_cluster_range(1) [OF ok] in auto)
  show ?case
  proof (cases "find (is_free (D c)) (entry_offsets v)")
    case (Some off)
    from add_entry_slot [OF assms(1) c this] obtain v' where v': "add_entry nm attr start sz c v = Some (v', True)" "same_layout v v'"
      "vol_rep v' F (D(c := ?put (D c) off))" by blast
    have "entry_added v F D (c # cs) F (D(c := ?put (D c) off)) ([] @ c # cs) ?put"
      by (rule entry_addedI [where cl = "D c" and off = off]) (use Cons.prems Some r(2) in auto)
    with v' show ?thesis by auto
  next
    case None
    show ?thesis
    proof (cases "cs = []")
      case True
      then have "0x0FFFFFF8 \<le> F c" using Cons.prems by simp
      from add_entry_extend [OF assms(1) c this assms(3) None] obtain v' n
        where n: "add_entry nm attr start sz c v = Some (v', True)" "same_layout v v'" "n \<in> free_clusters v F"
          "vol_rep v' (F(c := n, n := 0x0FFFFFF8)) (D(n := ?put (replicate (512 * spc v) 0) 0))" by blast
      have "n \<noteq> c" "is_cluster v n" using n(3) Fc by (auto simp: free_clusters_def)
      then have "entry_added v F D (c # cs) (F(c := n, n := 0x0FFFFFF8)) (D(n := ?put (replicate (512 * spc v) 0) 0)) ([c] @ n # []) ?put"
        by (intro entry_addedI [where cl = "replicate (512 * spc v) 0" and off = 0])
          (use c n(3) free_slot_zeros [OF ok] in auto)
      with n show ?thesis by auto
    next
      case False
      then have d: "F c = hd cs" "chain F (is_cluster v) cs" using Cons.prems by (cases cs; auto)+
      have "is_cluster v (F c)" using d False by (auto intro: chain_ok)
      from add_entry_next [OF assms(1) c this None] Cons.IH [OF d(2)] d(1) entry_added_Cons [OF _ Cons.prems dist False Fc]
      show ?thesis by simp blast
    qed
  qed
qed simp

section \<open>Short names\<close>

definition name83 :: "u8 list \<Rightarrow> u8 list \<Rightarrow> bool" where
  "name83 b e \<longleftrightarrow> b \<noteq> [] \<and> length b \<le> 8 \<and> length e \<le> 3 \<and> (\<forall>c \<in> set b \<union> set e. allowed83 (upper8 c))"

definition short_text :: "u8 list \<Rightarrow> u8 list \<Rightarrow> u8 list" where
  "short_text b e = b @ (if e = [] then [] else 0x2E # e)"

definition short_packed :: "u8 list \<Rightarrow> u8 list \<Rightarrow> u8 list" where
  "short_packed b e = map upper8 b @ replicate (8 - length b) 0x20 @ map upper8 e @ replicate (3 - length e) 0x20"

lemma upper8_upper8 [simp]: "upper8 (upper8 c) = upper8 c"
proof -
  have "unat (c - 0x20) = unat c - 0x20" if "0x61 \<le> c" using that by (simp add: unat_sub_nowrap word_le_nat_alt)
  then show ?thesis by (auto simp: upper8_def word_le_nat_alt)
qed

lemma allowed83_not: "allowed83 c \<Longrightarrow> c \<noteq> 0x2E \<and> c \<noteq> 0x20 \<and> c \<noteq> 0 \<and> c \<noteq> 0x2F \<and> c \<noteq> 0xE5"
  by (auto simp: allowed83_def word_le_nat_alt)

lemma upper8_dot: "upper8 0x2E = 0x2E"
  by (simp add: upper8_def word_le_nat_alt)

lemma upper8_fixed: "c \<in> {0x2E, 0x20, 0, 0x2F, 0xE5} \<Longrightarrow> upper8 c = c"
  by (auto simp: upper8_def word_le_nat_alt)

lemma allowed83_raw: "allowed83 (upper8 c) \<Longrightarrow> c \<noteq> 0x2E \<and> c \<noteq> 0x2F"
  using allowed83_not [of "upper8 c"] upper8_fixed [of c] by auto

lemma pack_base:
  "\<forall>c \<in> set s. allowed83 (upper8 c) \<Longrightarrow> length p + length s \<le> 8 \<Longrightarrow>
   pack_loop True (s @ r) (p @ replicate (8 - length p) 0x20 @ x) (length p) None =
   pack_loop True r (p @ map upper8 s @ replicate (8 - length p - length s) 0x20 @ x) (length p + length s) None"
proof (induction s arbitrary: p)
  case (Cons c s)
  have c: "allowed83 (upper8 c)" "c \<noteq> 0x2E" using Cons.prems(1) allowed83_raw by auto
  obtain k where k: "8 - length p = Suc k" using Cons.prems(2) by (cases "8 - length p") auto
  then have k7: "k = 7 - length p" by simp
  have "pack_loop True ((c # s) @ r) (p @ replicate (8 - length p) 0x20 @ x) (length p) None =
      pack_loop True (s @ r) ((p @ [upper8 c]) @ replicate (8 - length (p @ [upper8 c])) 0x20 @ x) (length (p @ [upper8 c])) None"
    using c k Cons.prems(2) by (simp add: k7)
  also have "\<dots> = pack_loop True r ((p @ [upper8 c]) @ map upper8 s @ replicate (8 - length (p @ [upper8 c]) - length s) 0x20 @ x)
      (length (p @ [upper8 c]) + length s) None"
    by (rule Cons.IH) (use Cons.prems in auto)
  finally show ?case by simp
qed simp

lemma pack_ext:
  "\<forall>c \<in> set s. allowed83 (upper8 c) \<Longrightarrow> length p + length s \<le> 3 \<Longrightarrow> length q = 8 \<Longrightarrow>
   pack_loop True s (q @ p @ replicate (3 - length p) 0x20) n (Some (length p)) =
   (q @ p @ map upper8 s @ replicate (3 - length p - length s) 0x20, True)"
proof (induction s arbitrary: p)
  case (Cons c s)
  have c: "allowed83 (upper8 c)" "c \<noteq> 0x2E" using Cons.prems(1) allowed83_raw by auto
  obtain k where k: "3 - length p = Suc k" using Cons.prems(2) by (cases "3 - length p") auto
  then have k2: "k = 2 - length p" by simp
  have "pack_loop True (c # s) (q @ p @ replicate (3 - length p) 0x20) n (Some (length p)) =
      pack_loop True s (q @ (p @ [upper8 c]) @ replicate (3 - length (p @ [upper8 c])) 0x20) n (Some (length (p @ [upper8 c])))"
    using c k Cons.prems(2,3) by (simp add: list_update_append k2)
  also have "\<dots> = (q @ (p @ [upper8 c]) @ map upper8 s @ replicate (3 - length (p @ [upper8 c]) - length s) 0x20, True)"
    by (rule Cons.IH) (use Cons.prems in auto)
  finally show ?case by simp
qed simp

lemma PackShortName11_name83:
  assumes "name83 b e"
  shows "PackShortName11 (map upper8 (short_text b e)) True = (short_packed b e, True)"
proof -
  have b: "\<forall>c \<in> set (map upper8 b). allowed83 (upper8 c)" and e: "\<forall>c \<in> set (map upper8 e). allowed83 (upper8 c)"
    and l: "length b \<le> 8" "length e \<le> 3" using assms by (auto simp: name83_def)
  have sp: "replicate 11 0x20 = replicate 8 0x20 @ replicate 3 (0x20 :: u8)" by (simp flip: replicate_add)
  let ?q = "map upper8 b @ replicate (8 - length b) 0x20"
  have 1: "pack_loop True (map upper8 b @ r) (replicate 11 0x20) 0 None =
      pack_loop True r (?q @ replicate 3 0x20) (length b) None" for r
    using pack_base [OF b, of "[]" r "replicate 3 0x20"] l unfolding sp by (simp add: comp_def)
  show ?thesis
  proof (cases "e = []")
    case True
    then show ?thesis using 1 [of "[]"] by (simp add: PackShortName11_def short_text_def short_packed_def)
  next
    case False
    have "pack_loop True (map upper8 e) (?q @ replicate 3 0x20) (length b) (Some 0) =
        (?q @ map upper8 e @ replicate (3 - length e) 0x20, True)"
      using pack_ext [OF e, of "[]" ?q "length b"] l by (simp add: comp_def)
    with False 1 [of "0x2E # map upper8 e"] show ?thesis
      by (simp add: PackShortName11_def short_text_def short_packed_def upper8_dot)
  qed
qed

lemma length_short_packed: "name83 b e \<Longrightarrow> length (short_packed b e) = 11"
  by (auto simp: short_packed_def name83_def)

lemma entry_name_packed:
  assumes "name83 b e" "take 11 (drop i cl) = short_packed b e"
  shows "entry_name cl i = map upper8 (short_text b e)"
proof -
  have l: "length b \<le> 8" "length e \<le> 3" using assms(1) by (auto simp: name83_def)
  have ok: "\<forall>c \<in> set (map upper8 b) \<union> set (map upper8 e). c \<noteq> 0x20 \<and> c \<noteq> 0"
    using assms(1) allowed83_not by (auto simp: name83_def)
  have "take 8 (drop i cl) = take 8 (take 11 (drop i cl))" by simp
  then have 8: "take 8 (drop i cl) = map upper8 b @ replicate (8 - length b) 0x20"
    unfolding assms(2) using l by (simp add: short_packed_def)
  have "take 3 (drop (i + 8) cl) = drop 8 (take 11 (drop i cl))" by (simp add: drop_take add.commute)
  then have 3: "take 3 (drop (i + 8) cl) = map upper8 e @ replicate (3 - length e) 0x20"
    unfolding assms(2) using l by (simp add: short_packed_def)
  have tw: "takeWhile (\<lambda>c. c \<noteq> 0x20) (map upper8 s @ replicate k 0x20) = map upper8 s"
    if "\<forall>c \<in> set (map upper8 s). c \<noteq> 0x20 \<and> c \<noteq> 0" for s k
    using that by (subst takeWhile_append2) (auto simp: takeWhile_replicate)
  have tb: "takeWhile (\<lambda>c. c \<noteq> 0x20) (map upper8 b @ replicate k 0x20) = map upper8 b" for k
    using ok by (intro tw) auto
  have te: "takeWhile (\<lambda>c. c \<noteq> 0x20) (map upper8 e @ replicate k 0x20) = map upper8 e" for k
    using ok by (intro tw) auto
  have z: "takeWhile (\<lambda>c. c \<noteq> 0) (map upper8 (short_text b e)) = map upper8 (short_text b e)"
    using ok by (subst takeWhile_eq_all_conv) (auto simp: short_text_def upper8_dot)
  have m: "map upper8 b @ (if map upper8 e \<noteq> [] then 0x2E # map upper8 e else []) = map upper8 (short_text b e)"
    by (simp add: short_text_def upper8_dot)
  show ?thesis unfolding entry_name_def Let_def 8 3 tb te m z by (simp add: comp_def)
qed

lemma entry_local_name: "entry_local (\<lambda>cl i. entry_name cl i = nm)"
  unfolding entry_local_def
proof (intro allI impI)
  fix cl cl' :: "u8 list" and i
  assume l: "length cl = length cl'" "i + 32 \<le> length cl" and s: "\<forall>j. i \<le> j \<and> j < i + 32 \<longrightarrow> cl ! j = cl' ! j"
  have "take 8 (drop i cl) = take 8 (drop i cl')" "take 3 (drop (i + 8) cl) = take 3 (drop (i + 8) cl')"
    using l s by (auto intro!: nth_equalityI)
  then show "(entry_name cl i = nm) = (entry_name cl' i = nm)" by (simp add: entry_name_def)
qed

lemma scan_entries_mono:
  "(\<And>i. i \<in> set offs \<Longrightarrow> m1 i \<Longrightarrow> m2 i) \<Longrightarrow> scan_entries m2 cl offs = None \<Longrightarrow> scan_entries m1 cl offs = None"
  by (induction offs) (auto simp: Let_def split: if_splits)

lemma split_comp_name:
  assumes "name83 b e"
  shows "split_comp (short_text b e) = (short_text b e, [])" "short_text b e \<noteq> []"
proof -
  have "length (short_text b e) \<le> 12" "0x2F \<notin> set (short_text b e)"
    using assms allowed83_raw by (auto simp: name83_def short_text_def)
  then have "takeWhile (\<lambda>c. c \<noteq> 0x2F) (take 12 (short_text b e)) = short_text b e"
    by (auto simp: takeWhile_eq_all_conv)
  then show "split_comp (short_text b e) = (short_text b e, [])" by (simp add: split_comp_def)
  show "short_text b e \<noteq> []" using assms by (simp add: name83_def short_text_def)
qed

lemma sint_small: "unat (x :: u32) < 2 ^ 31 \<Longrightarrow> sint x = int (unat x)"
proof -
  assume "unat x < 2 ^ 31"
  then have "int (unat x) < int (2 ^ 31)" by (simp only: of_nat_less_iff)
  then have "uint x < 2 ^ 31" by simp
  then have "signed_take_bit 31 (uint x) = uint x" by (intro signed_take_bit_int_eq_self) (simp_all add: order.trans [of _ 0])
  then show ?thesis by (simp add: sint_uint)
qed

section \<open>Writing and reading a file\<close>

lemma lookup_absent:
  assumes "vol_rep v F D" "chain F (is_cluster v) ds" "name83 b e"
    "FindShortNameInDirCluster (hd ds) (map upper8 (short_text b e)) v = Some None" "c \<in> set ds"
  shows "scan_entries (\<lambda>i. entry_name (D c) i = map upper8 (short_text b e)) (D c) (entry_offsets v) = None"
proof -
  obtain d cs where ds: "ds = d # cs" using assms(2) by (cases ds) auto
  have "scan_list (\<lambda>cl i. entry_name cl i = map upper8 (short_text b e)) (entry_offsets v) D ds = None"
    using assms(4) scan_chain_rep [OF assms(1) assms(2) [unfolded ds]] by (simp add: FindShortNameInDirCluster_def ds)
  with assms(5) show ?thesis by (simp add: scan_list_None)
qed

lemma packed_absent:
  assumes "vol_rep v F D" "chain F (is_cluster v) ds" "name83 b e"
    "FindShortNameInDirCluster (hd ds) (map upper8 (short_text b e)) v = Some None"
  shows "FindShortEntryWithOffset (hd ds) (short_packed b e) v = Some None"
proof -
  obtain d cs where ds: "ds = d # cs" using assms(2) by (cases ds) auto
  have "scan_list (\<lambda>cl off. take 11 (drop off cl) = short_packed b e) (entry_offsets v) D ds = None"
    unfolding scan_list_None
  proof
    fix c assume "c \<in> set ds"
    from lookup_absent [OF assms this]
    show "scan_entries (\<lambda>off. take 11 (drop off (D c)) = short_packed b e) (D c) (entry_offsets v) = None"
      by (rule scan_entries_mono [rotated]) (rule entry_name_packed [OF assms(3)])
  qed
  then show ?thesis using scan_chain_rep [OF assms(1) assms(2) [unfolded ds]] by (simp add: FindShortEntryWithOffset_def ds)
qed

text \<open>After an entry was added, the lookup by name finds it.\<close>

lemma lookup_added:
  assumes rep: "vol_rep v' F' D'" "same_layout v v'" "vol_ok v"
    and add: "entry_added v F D ds F' D' ds' (\<lambda>cl off. put_entry cl off (short_packed b e) attr start sz)"
    and nm: "name83 b e" "attr \<noteq> 0x0F"
    and absent: "\<And>c. c \<in> set ds \<Longrightarrow> scan_entries (\<lambda>i. entry_name (D c) i = map upper8 (short_text b e)) (D c) (entry_offsets v) = None"
  shows "FindShortNameInDirCluster (hd ds) (map upper8 (short_text b e)) v' = Some (Some (start, sz))"
proof -
  let ?m = "\<lambda>cl i. entry_name cl i = map upper8 (short_text b e)" and ?p = "short_packed b e"
  from add obtain pre c post cl off where A: "chain F' (is_cluster v) ds'" "hd ds' = hd ds" "ds' = pre @ c # post"
    "\<forall>p \<in> set pre. p \<in> set ds \<and> D' p = D p" "find (is_free cl) (entry_offsets v) = Some off" "length cl = 512 * spc v"
    "D' c = put_entry cl off ?p attr start sz" "c \<in> set ds \<and> cl = D c \<or> cl = replicate (512 * spc v) 0"
    unfolding entry_added_def by blast
  note offs = entry_offsets_eq [OF rep(3)]
  have "off \<in> set (entry_offsets v)" using A(5) by (auto dest: find_Some_split)
  then have o: "off + 32 \<le> length cl" using A(6) by (auto simp: offs)
  note f = put_entry_fields [OF o length_short_packed [OF nm(1)], of attr start sz]
  have p0: "?p ! 0 = upper8 (hd b)" "allowed83 (upper8 (hd b))"
    using nm(1) by (auto simp: name83_def short_packed_def nth_append hd_conv_nth)
  have spc0: "0 < spc v" using rep(3) by (simp add: vol_ok_def)
  have none: "scan_entries (?m cl) cl (entry_offsets v) = None"
    using A(8)
  proof
    assume "cl = replicate (512 * spc v) 0"
    then show ?thesis using spc0 by (simp add: offs upt_conv_Cons)
  qed (use absent in simp)
  have hit: "scan_entries (?m (D' c)) (D' c) (entry_offsets v) = Some off"
    unfolding A(7)
  proof (rule scan_entries_put [OF entry_local_name A(6) offs A(5) none length_short_packed [OF nm(1)]])
    show "?p ! 0 \<noteq> 0" "?p ! 0 \<noteq> 0xE5" using p0 allowed83_not by auto
    show "attr \<noteq> 0x0F" by (rule nm(2))
    show "entry_name (put_entry cl off ?p attr start sz) off = map upper8 (short_text b e)"
      by (rule entry_name_packed [OF nm(1) f(1)])
  qed
  have "scan_list ?m (entry_offsets v) D' ds' = Some (c, off, D' c)"
    unfolding A(3) by (rule scan_list_hit) (use A(4) absent hit in auto)
  moreover obtain d cs where "ds' = d # cs" using A(1) by (cases ds') auto
  ultimately have "scan_chain ?m (hd ds) v' = Some (Some (c, off, D' c))"
    using scan_chain_rep [OF rep(1), of d cs ?m] A(1,2) by (simp add: is_cluster_layout_fun [OF rep(2)] same_layout_simps [OF rep(2)])
  then show ?thesis using f(4,5) by (simp add: FindShortNameInDirCluster_def A(7))
qed

lemma create_file_clusters:
  assumes "vol_rep v F D" "len \<noteq> 0" "unat len \<le> length data" "unat len \<le> 512 * spc v * card (free_clusters v F)"
  shows "\<exists>v' F' D' c cs. vol_rep v' F' D' \<and> same_layout v v' \<and>
    create_file dirCl nm data len v = do { (v5, ok) \<leftarrow> AddFileEntryToDir dirCl nm c len v'; Some (v5, if ok then sint len else - 1) } \<and>
    chain F' (is_cluster v) (c # cs) \<and> set (c # cs) \<subseteq> free_clusters v F \<and>
    (\<forall>x. x \<notin> set (c # cs) \<longrightarrow> F' x = F x \<and> D' x = D x) \<and>
    take (unat len) (concat (map D' (c # cs))) = take (unat len) data \<and> 512 * spc v * length cs < unat len \<and>
    unat len \<le> 512 * spc v * Suc (length cs)"
proof -
  have "0 < card (free_clusters v F)" using assms(2,4) by (cases "card (free_clusters v F)") (auto simp: unat_eq_0)
  then have "free_clusters v F \<noteq> {}" by auto
  with AllocateCluster_rep [OF assms(1)] obtain v1 c where c: "AllocateCluster v = (v1, c)" "c \<in> free_clusters v F" "same_layout v v1"
    "vol_rep v1 (F(c := 0x0FFFFFF8)) D" by auto
  have cc: "is_cluster v c" "F c = 0" using c(2) by (simp_all add: free_clusters_def)
  then have "2 \<le> c" using is_cluster_range [OF vol_rep_ok [OF assms(1)]] by blast
  then have c2: "\<not> c < 2" by simp
  have "is_cluster v1 c" using cc by (simp add: is_cluster_layout [OF c(3)])
  from zero_cluster_rep [OF c(4) this] obtain v2 where v2: "zero_cluster c v1 = (v2, True)" "same_layout v1 v2"
    "vol_rep v2 (F(c := 0x0FFFFFF8)) (D(c := replicate (512 * spc v1) 0))" by blast
  note l2 = same_layout_trans [OF c(3) v2(2)]
  have "is_cluster v2 c" using cc by (simp add: is_cluster_layout [OF l2])
  from fat.update_rep [OF v2(3) this, of "0x0FFFFFF8"] obtain v3 where v3: "UpdateFAT c 0x0FFFFFF8 v2 = (v3, True)" "same_layout v2 v3"
    "vol_rep v3 (F(c := 0x0FFFFFF8)) (D(c := replicate (512 * spc v1) 0))" by auto
  note l3 = same_layout_trans [OF l2 v3(2)]
  let ?F = "F(c := 0x0FFFFFF8)"
  have fr: "free_clusters v3 ?F = free_clusters v F - {c}"
    by (auto simp: is_cluster_layout [OF l3] free_clusters_def split: if_splits)
  have card: "Suc (card (free_clusters v3 ?F)) = card (free_clusters v F)"
    unfolding fr by (rule card_Suc_Diff1 [OF free_clusters_finite c(2)])
  have "unat len \<le> 512 * spc v3 * Suc (card (free_clusters v3 ?F))"
    using assms(4) unfolding card by (simp add: same_layout_simps [OF l3])
  moreover have "is_cluster v3 c" "0x0FFFFFF8 \<le> ?F c" using cc by (simp_all add: is_cluster_layout [OF l3])
  ultimately obtain v4 F' D' cs
    where w0: "write_new len data c v3 = Some (v4, True)" "same_layout v3 v4" "vol_rep v4 F' D'"
      "chain F' (is_cluster v3) (c # cs)" "set cs \<subseteq> free_clusters v3 ?F"
      "\<And>x. x \<notin> set (c # cs) \<Longrightarrow> F' x = ?F x \<and> D' x = (D(c := replicate (512 * spc v1) 0)) x"
      "take (unat len) (concat (map D' (c # cs))) = take (unat len) data"
      "512 * spc v3 * length cs < unat len" "unat len \<le> 512 * spc v3 * Suc (length cs)"
    using write_new_rep [OF v3(3) _ _ assms(2,3)] by blast
  note w = w0 [unfolded fr is_cluster_layout_fun [OF l3] same_layout_simps [OF l3]]
  have "create_file dirCl nm data len v = do { (v5, ok) \<leftarrow> AddFileEntryToDir dirCl nm c len v4; Some (v5, if ok then sint len else - 1) }"
    using c(1) c2 v2(1) v3(1) w(1) by (simp add: create_file_def)
  moreover have "F' x = F x \<and> D' x = D x" if "x \<notin> set (c # cs)" for x using w(6) [OF that] that by simp
  ultimately show ?thesis using w(3-5,7-9) c(2) same_layout_trans [OF l3 w(2)]
    by (intro exI [of _ v4] exI [of _ F'] exI [of _ D'] exI [of _ c] exI [of _ cs]) auto
qed

lemma chain_not_free:
  assumes "vol_ok v" "chain F (is_cluster v) cs" "c \<in> set cs"
  shows "F c \<noteq> 0" "c \<notin> free_clusters v F"
proof -
  show "F c \<noteq> 0" by (rule cluster_chain_nonzero [OF assms(2) _ assms(3)]) (rule is_cluster_range(1) [OF assms(1)])
  then show "c \<notin> free_clusters v F" by (simp add: free_clusters_def)
qed

text \<open>A new file in the directory with the clusters \<open>ds\<close>: its clusters and its entry.\<close>

lemma create_file_rep:
  assumes rep: "vol_rep v F D" and ds: "chain F (is_cluster v) ds" and nm: "name83 b e"
    and absent: "FindShortNameInDirCluster (hd ds) (map upper8 (short_text b e)) v = Some None"
    and len: "len \<noteq> 0" "unat len \<le> length data" "unat len \<le> 512 * spc v * (card (free_clusters v F) - 1)"
  shows "\<exists>v' F' D' c cs. create_file (hd ds) (short_packed b e) data len v = Some (v', sint len) \<and> same_layout v v' \<and>
    vol_rep v' F' D' \<and> FindShortNameInDirCluster (hd ds) (map upper8 (short_text b e)) v' = Some (Some (c, len)) \<and>
    chain F' (is_cluster v) (c # cs) \<and> take (unat len) (concat (map D' (c # cs))) = take (unat len) data \<and>
    unat len \<le> 512 * spc v * Suc (length cs) \<and> (\<forall>x. F x \<noteq> 0 \<and> x \<notin> set ds \<longrightarrow> F' x = F x \<and> D' x = D x)"
proof -
  note ok = vol_rep_ok [OF rep]
  let ?free = "free_clusters v F" and ?p = "short_packed b e"
  have "512 * spc v * (card ?free - 1) \<le> 512 * spc v * card ?free" by simp
  then have "unat len \<le> 512 * spc v * card ?free" using len(3) by linarith
  from create_file_clusters [OF rep len(1,2) this, of "hd ds" ?p] obtain v4 F4 D4 c cs
    where w: "vol_rep v4 F4 D4" "same_layout v v4"
      "create_file (hd ds) ?p data len v = do { (v5, ok) \<leftarrow> AddFileEntryToDir (hd ds) ?p c len v4; Some (v5, if ok then sint len else - 1) }"
      "chain F4 (is_cluster v) (c # cs)" "set (c # cs) \<subseteq> ?free" "\<And>x. x \<notin> set (c # cs) \<Longrightarrow> F4 x = F x \<and> D4 x = D x"
      "take (unat len) (concat (map D4 (c # cs))) = take (unat len) data" "512 * spc v * length cs < unat len"
      "unat len \<le> 512 * spc v * Suc (length cs)" by blast
  have disj: "x \<notin> set (c # cs)" if "x \<in> set ds" for x using w(5) chain_not_free(2) [OF ok ds that] by blast
  have same: "F4 x = F x" "D4 x = D x" if "x \<in> set ds" for x using w(6) [OF disj [OF that]] by simp_all
  have ds4: "chain F4 (is_cluster v4) ds"
    using ds cluster_chain_cong [of ds F4 F "is_cluster v"] same by (simp add: is_cluster_layout_fun [OF w(2)])
  have "512 * spc v * length cs < 512 * spc v * (card ?free - 1)" using w(8) len(3) by linarith
  then have "length cs < card ?free - 1" by simp
  then have "Suc (length cs) < card ?free" by linarith
  then have "card (set (c # cs)) < card ?free" using card_length [of "c # cs"] by simp
  then have "\<not> ?free \<subseteq> set (c # cs)" by (meson List.finite_set card_mono linorder_not_less)
  then obtain a where "a \<in> ?free" "a \<notin> set (c # cs)" by blast
  then have "a \<in> free_clusters v4 F4" using w(6) by (simp add: free_clusters_def is_cluster_layout [OF w(2)])
  then have "free_clusters v4 F4 \<noteq> {}" by blast
  from add_entry_rep [OF w(1) ds4 this, of ?p "0x20" c len] obtain v' F' D' ds'
    where a: "add_entry ?p 0x20 c len (hd ds) v4 = Some (v', True)" "same_layout v4 v'" "vol_rep v' F' D'"
      "entry_added v4 F4 D4 ds F' D' ds' (\<lambda>cl off. put_entry cl off ?p 0x20 c len)" by blast
  note l = same_layout_trans [OF w(2) a(2)]
  have create: "create_file (hd ds) ?p data len v = Some (v', sint len)"
    using w(3) a(1) by (simp add: AddFileEntryToDir_def)
  have "FindShortNameInDirCluster (hd ds) (map upper8 (short_text b e)) v' = Some (Some (c, len))"
  proof (rule lookup_added [OF a(3,2) vol_rep_ok [OF w(1)] a(4) nm])
    fix x assume x: "x \<in> set ds"
    show "scan_entries (\<lambda>i. entry_name (D4 x) i = map upper8 (short_text b e)) (D4 x) (entry_offsets v4) = None"
      using lookup_absent [OF rep ds nm absent x] by (simp add: same [OF x] same_layout_simps [OF w(2)])
  qed simp
  moreover have out: "x \<notin> set ds'" if "F4 x \<noteq> 0" "x \<notin> set ds" for x
    using a(4) that by (auto simp: entry_added_def free_clusters_def)
  have keep: "F' x = F4 x \<and> D' x = D4 x" if "F4 x \<noteq> 0" "x \<notin> set ds" for x
    using a(4) out [OF that] by (simp add: entry_added_def)
  have kept: "F' x = F4 x \<and> D' x = D4 x" if "x \<in> set (c # cs)" for x
    by (rule keep) (use that chain_not_free(1) [OF ok w(4)] disj in auto)
  have "chain F' (is_cluster v) (c # cs)" using w(4) cluster_chain_cong [of "c # cs" F' F4 "is_cluster v"] kept by simp
  moreover have "map D' (c # cs) = map D4 (c # cs)" using kept by simp
  then have "take (unat len) (concat (map D' (c # cs))) = take (unat len) data" by (simp only: w(7))
  moreover have "F' x = F x \<and> D' x = D x" if "F x \<noteq> 0" "x \<notin> set ds" for x
  proof -
    have "x \<notin> set (c # cs)" using w(5) that(1) by (auto simp: free_clusters_def)
    then show ?thesis using w(6) [of x] keep [of x] that by simp
  qed
  ultimately show ?thesis using create l a(3) w(9)
    by (intro exI [of _ v'] exI [of _ F'] exI [of _ D'] exI [of _ c] exI [of _ cs]) simp
qed

text \<open>
  C11. A file that \<^verbatim>\<open>WriteFile\<close> creates in the root directory is read back by \<^verbatim>\<open>ReadFile\<close>. On a well-formed volume with
  room for the data and one cluster for the directory, for a valid short name that the directory does not have yet, the
  call returns the length, and reading the path afterwards returns exactly the bytes written. The entries and
  contents of all other clusters in use outside the directory stay as they were, so every other file does.
\<close>

theorem WriteFile_ReadFile:
  assumes "vol_rep v F D" and "mountedFlag v" and "chain F (is_cluster v) ds" and "hd ds = rootCluster (bpb v)"
    and "name83 b e" and "FindShortNameInDirCluster (hd ds) (map upper8 (short_text b e)) v = Some None"
    and "0 < unat len" and "unat len \<le> length data" and "unat len < 2 ^ 31"
    and "unat len \<le> 512 * spc v * (card (free_clusters v F) - 1)"
  shows "\<exists>v' F' D'. WriteFile (Some (0x2F # short_text b e)) (Some data) len v = Some (v', int (unat len)) \<and>
    (\<forall>maxLen. len \<le> maxLen \<longrightarrow>
      ReadFile (Some (0x2F # short_text b e)) maxLen v' = Some (take (unat len) data, int (unat len))) \<and>
    vol_rep v' F' D' \<and> (\<forall>x. F x \<noteq> 0 \<and> x \<notin> set ds \<longrightarrow> F' x = F x \<and> D' x = D x)"
proof -
  have len: "len \<noteq> 0" using assms(7) by auto
  from create_file_rep [OF assms(1,3,5,6) len assms(8,10)] obtain v' F' D' c cs
    where c: "create_file (hd ds) (short_packed b e) data len v = Some (v', sint len)" "same_layout v v'" "vol_rep v' F' D'"
      "FindShortNameInDirCluster (hd ds) (map upper8 (short_text b e)) v' = Some (Some (c, len))"
      "chain F' (is_cluster v) (c # cs)" "take (unat len) (concat (map D' (c # cs))) = take (unat len) data"
      "unat len \<le> 512 * spc v * Suc (length cs)" "\<forall>x. F x \<noteq> 0 \<and> x \<notin> set ds \<longrightarrow> F' x = F x \<and> D' x = D x" by blast
  note s = split_comp_name [OF assms(5)] and sl = sint_small [OF assms(9)]
  have "find_parent (short_text b e) (rootCluster (bpb v)) v = Some (Some (rootCluster (bpb v), map upper8 (short_text b e)))"
    using s by (subst find_parent.simps) (simp add: isLast_def)
  then have w: "WriteFile (Some (0x2F # short_text b e)) (Some data) len v = Some (v', int (unat len))"
    using assms(2,4) len c(1) s(2) packed_absent [OF assms(1,3,5,6)]
    by (simp add: WriteFile_def PackShortName11_name83 [OF assms(5)] sl)
  have "512 * spc v < 2 ^ 31"
    using unsigned_less [of "sectorsPerCluster (bpb v)", where ?'a = nat] by (simp add: spc_def)
  then have "read_chain c len 0 [] v' = Some ([] @ take (unat len - unat (0 :: u32)) (concat (map D' (c # cs))), len)"
    using c(5,7) assms(9)
    by (intro read_chain_rep [OF c(3)]) (simp_all add: is_cluster_layout_fun [OF c(2)] same_layout_simps [OF c(2)])
  then have "read_entry c len maxLen v' = Some (take (unat len) data, int (unat len))" if "len \<le> maxLen" for maxLen
    using that c(6) by (simp add: read_entry_def min_absorb1 sl)
  then have "ReadFile (Some (0x2F # short_text b e)) maxLen v' = Some (take (unat len) data, int (unat len))" if "len \<le> maxLen" for maxLen
    using that assms(2,4) s c(4) by (simp add: ReadFile_def same_layout_simps [OF c(2)]) (subst read_path.simps, simp add: isLast_def)
  with w c(3,8) show ?thesis by blast
qed


definition demo_disk :: disk where
  "demo_disk lba =
     (if lba = 1 then Some (set32 (replicate 512 0) 8 0x0FFFFFF8)
      else if lba < 128 then Some (replicate 512 0) else None)"

definition demo_volume :: FAT32 where
  "demo_volume = \<lparr>dev = demo_disk,
     bpb = \<lparr>bytesPerSector = 512, sectorsPerCluster = 1, reservedSectors = 1, numFATs = 1, sectorsPerFAT = 1,
            rootCluster = 2, totalSectors = 128\<rparr>,
     volumeStartLBA = 0, fatStartLBA = 1, dataStartLBA = 2, mountedFlag = True\<rparr>"

lemma demo_volume_ok:
  "vol_ok demo_volume" "nclusters demo_volume = 128" "spc demo_volume = 1"
proof -
  show n: "nclusters demo_volume = 128" "spc demo_volume = 1" by (simp_all add: nclusters_def spc_def demo_volume_def)
  have e: "data_end demo_volume = 128" by (simp add: data_end_def n) (simp add: demo_volume_def)
  have "\<exists>s. demo_disk lba = Some s \<and> length s = 512" if "unat lba < 128" for lba
    using that by (auto simp: demo_disk_def word_less_nat_alt)
  then show "vol_ok demo_volume" by (simp add: vol_ok_def e n) (simp add: demo_volume_def)
qed

lemma demo_volume_fat:
  "NextCluster 2 demo_volume = 0x0FFFFFF8" "NextCluster 3 demo_volume = 0" "NextCluster 4 demo_volume = 0"
proof -
  have s: "demo_disk 1 = Some (set32 (replicate 512 0) 8 0x0FFFFFF8)" by (simp add: demo_disk_def)
  have z: "sec32 (replicate 512 0) k = 0" if "k + 3 < 512" for k using that by (simp add: sec32_def)
  show "NextCluster 2 demo_volume = 0x0FFFFFF8" "NextCluster 3 demo_volume = 0" "NextCluster 4 demo_volume = 0"
    by (simp_all add: NextCluster_def fatSector_def entOffset_def demo_volume_def s sec32_set32_other z)
qed

theorem WriteFile_ReadFile_witness:
  "\<exists>v'. WriteFile (Some [0x2F, 0x61, 0x2E, 0x74]) (Some [1, 2, 3]) 3 demo_volume = Some (v', 3) \<and>
     ReadFile (Some [0x2F, 0x61, 0x2E, 0x74]) 100 v' = Some ([1, 2, 3], 3)"
proof -
  let ?v = demo_volume and ?F = "\<lambda>c. NextCluster c demo_volume"
  have r: "vol_rep ?v ?F (clus ?v)" by (simp add: vol_rep_def demo_volume_ok)
  have ch: "chain ?F (is_cluster ?v) [2]" by (simp add: is_cluster_def demo_volume_ok demo_volume_fat)
  have nm: "name83 [0x61] [0x74]" by (simp add: name83_def allowed83_def upper8_def word_le_nat_alt)
  have c2: "clus ?v 2 = replicate 512 0"
    by (simp add: clus_def demo_volume_ok contents_def cluster_at_def sector_def) (simp add: demo_volume_def demo_disk_def word_less_nat_alt)
  have ab: "FindShortNameInDirCluster (hd [2]) (map upper8 (short_text [0x61] [0x74])) ?v = Some None"
    using scan_chain_rep [OF r ch]
    by (simp add: FindShortNameInDirCluster_def c2 entry_offsets_eq demo_volume_ok upt_conv_Cons)
  have "{3, 4} \<subseteq> free_clusters ?v ?F" by (simp add: free_clusters_def is_cluster_def demo_volume_ok demo_volume_fat)
  then have "card {3, 4 :: u32} \<le> card (free_clusters ?v ?F)" by (rule card_mono [OF free_clusters_finite])
  then have "unat (3 :: u32) \<le> 512 * spc ?v * (card (free_clusters ?v ?F) - 1)" by (simp add: demo_volume_ok)
  moreover have "mountedFlag ?v" "hd [2] = rootCluster (bpb ?v)" by (simp_all add: demo_volume_def)
  ultimately show ?thesis
    using WriteFile_ReadFile [OF r _ ch _ nm ab, of 3 "[1, 2, 3]"] by (auto simp: short_text_def word_le_nat_alt)
qed

section \<open>Appending to a file\<close>

lemma last_cluster_chain:
  assumes "vol_rep v F D" "chain F (is_cluster v) (xs @ [l])"
  shows "last_cluster (hd (xs @ [l])) v = Some l"
  using assms(2)
proof (induction xs)
  case Nil
  then have l: "is_cluster v l" "0x0FFFFFF8 \<le> F l" by simp_all
  then show ?case using vol_rep_reads(3) [OF assms(1) l(1)] by (subst last_cluster.simps) (simp add: end_of_chain_def)
next
  case (Cons c xs)
  have c: "is_cluster v c" "F c = hd (xs @ [l])" "chain F (is_cluster v) (xs @ [l])"
    using Cons.prems by (cases xs; simp)+
  have "is_cluster v (hd (xs @ [l]))" by (rule chain_ok [OF c(3)]) (cases xs; simp)
  then have "\<not> end_of_chain (F c)" using is_cluster_range(3) [OF vol_rep_ok [OF assms(1)]] c(2) by simp
  then show ?case using Cons.IH [OF c(3)] c(2) vol_rep_reads(3) [OF assms(1) c(1)] by (subst last_cluster.simps) simp
qed

text \<open>Reading past the end of a chain delivers the chain.\<close>

lemma read_chain_short:
  assumes "vol_rep v F D" "chain F (is_cluster v) (c # cs)" "unat toRead + 512 * spc v < 2 ^ 32"
    "unat bytesRead + 512 * spc v * length (c # cs) \<le> unat toRead"
  shows "\<exists>b. unat b = unat bytesRead + 512 * spc v * length (c # cs) \<and>
    read_chain c toRead bytesRead out v = Some (out @ concat (map D (c # cs)), b)"
  using assms
proof (induction cs arbitrary: c bytesRead out)
  case Nil
  then have c: "is_cluster v c" "0x0FFFFFF8 \<le> F c" by simp_all
  have B: "0 < spc v" using vol_rep_ok [OF assms(1)] by (simp add: vol_ok_def)
  then have lt: "bytesRead < toRead" using Nil.prems(4) by (simp add: word_less_nat_alt)
  from read_chain_step [OF Nil.prems(1) c(1) lt Nil.prems(3), of out] c(2) Nil.prems(4) vol_rep_reads(2) [OF assms(1) c(1)]
  show ?case by (auto simp: end_of_chain_def min_absorb2)
next
  case (Cons d cs)
  have c: "is_cluster v c" "F c = d" "chain F (is_cluster v) (d # cs)" using Cons.prems(2) by auto
  have B: "0 < spc v" using vol_rep_ok [OF assms(1)] by (simp add: vol_ok_def)
  then have lt: "bytesRead < toRead" using Cons.prems(4) by (simp add: word_less_nat_alt)
  have "is_cluster v d" using c(3) by (auto dest: chain_ok)
  then have d: "\<not> end_of_chain (F c)" using is_cluster_range(3) [OF vol_rep_ok [OF assms(1)]] c(2) by simp
  have n: "min (unat toRead - unat bytesRead) (512 * spc v) = 512 * spc v" using Cons.prems(4) by (simp add: min_absorb2)
  obtain b where b: "unat b = unat bytesRead + 512 * spc v" "read_chain c toRead bytesRead out v = read_chain d toRead b (out @ D c) v"
    using read_chain_step [OF Cons.prems(1) c(1) lt Cons.prems(3), of out] d c(2) vol_rep_reads(2) [OF assms(1) c(1)]
    unfolding n by auto
  have "unat b + 512 * spc v * length (d # cs) \<le> unat toRead" using b(1) Cons.prems(4) by (simp add: algebra_simps)
  from Cons.IH [OF Cons.prems(1) c(3) Cons.prems(3) this, of "out @ D c"] b show ?case by (auto simp: algebra_simps)
qed

lemma unat_mod_bytes: "vol_ok v \<Longrightarrow> unat (n mod bytesPerCluster v) = unat n mod (512 * spc v)"
  by (simp add: unat_mod unat_bytesPerCluster)

lemma fill_last_rep:
  assumes "vol_rep v F D" "is_cluster v l" "0 < unat fileSize" "0 < unat len" "unat len \<le> length data"
    "unat fileSize mod (512 * spc v) + unat len \<le> 512 * spc v" "unat fileSize + unat len < 2 ^ 32"
  defines "k \<equiv> unat fileSize mod (512 * spc v)"
  shows "\<exists>v' n. fill_last l fileSize data len v = Some (v', Some (0, drop (unat len) data, n)) \<and> unat n = unat fileSize + unat len \<and>
    same_layout v v' \<and> vol_rep v' F (D(l := take k (D l) @ take (unat len) data @ drop (k + unat len) (D l)))"
proof -
  note ok = vol_rep_ok [OF assms(1)] and r = vol_rep_reads [OF assms(1,2)]
  have B: "0 < 512 * spc v" using ok by (simp add: vol_ok_def)
  have k: "unat (fileSize mod bytesPerCluster v) = k" by (simp add: unat_mod_bytes [OF ok] k_def)
  have kB: "k < 512 * spc v" using B by (simp add: k_def)
  have sp: "unat (bytesPerCluster v - fileSize mod bytesPerCluster v) = 512 * spc v - k"
    using kB by (subst unat_sub_nowrap) (simp_all add: k unat_bytesPerCluster [OF ok])
  have le: "\<not> bytesPerCluster v - fileSize mod bytesPerCluster v < len"
    using assms(6) by (simp add: word_less_nat_alt sp k_def)
  let ?b = "take k (D l) @ take (unat len) data @ drop (k + unat len) (D l)"
  have p: "put_struct (D l) k (take (unat len) data) = Some ?b"
    using assms(5,6) r(2) by (simp add: put_struct_def k_def)
  have "length ?b = 512 * spc v" using assms(5,6) r(2) kB by (simp add: k_def)
  from WriteCluster_rep [OF assms(1,2) this] obtain v' where v': "WriteCluster l ?b v = (v', True)" "same_layout v v'" "vol_rep v' F (D(l := ?b))"
    by blast
  have "fileSize mod bytesPerCluster v < bytesPerCluster v" using kB by (simp add: word_less_nat_alt k unat_bytesPerCluster [OF ok])
  moreover have "0 < fileSize" using assms(3) by (simp add: word_less_nat_alt)
  ultimately have "fill_last l fileSize data len v = Some (v', Some (0, drop (unat len) data, fileSize + len))"
    using r(1) le p v'(1) assms(5) by (simp add: fill_last_def Let_def k get_struct_def)
  moreover have "unat (fileSize + len) = unat fileSize + unat len" using assms(7) by (simp add: unat_add_nowrap)
  ultimately show ?thesis using v' by blast
qed

lemma append_file_rep:
  assumes "vol_rep v F D" "chain F (is_cluster v) (xs @ [l])" "is_cluster v entryCl" "entryCl \<notin> set (xs @ [l])"
    "0 < unat fileSize" "0 < unat len" "unat len \<le> length data"
    "unat fileSize mod (512 * spc v) + unat len \<le> 512 * spc v" "unat fileSize + unat len < 2 ^ 32"
  defines "k \<equiv> unat fileSize mod (512 * spc v)"
  shows "\<exists>v' D' n. append_file entryCl off (hd (xs @ [l])) fileSize data len v = Some (v', sint len) \<and> same_layout v v' \<and>
    vol_rep v' F D' \<and> unat n = unat fileSize + unat len \<and> D' entryCl = set32 (D entryCl) (off + 28) n \<and>
    D' l = take k (D l) @ take (unat len) data @ drop (k + unat len) (D l) \<and> (\<forall>x. x \<noteq> l \<and> x \<noteq> entryCl \<longrightarrow> D' x = D x)"
proof -
  have l: "is_cluster v l" by (rule chain_ok [OF assms(2)]) simp
  let ?b = "take k (D l) @ take (unat len) data @ drop (k + unat len) (D l)"
  from fill_last_rep [OF assms(1) l assms(5-9)] obtain v1 n
    where v1: "fill_last l fileSize data len v = Some (v1, Some (0, drop (unat len) data, n))" "unat n = unat fileSize + unat len"
      "same_layout v v1" "vol_rep v1 F (D(l := ?b))" unfolding k_def by blast
  have e: "is_cluster v1 entryCl" "entryCl \<noteq> l" using assms(3,4) by (auto simp: is_cluster_layout [OF v1(3)])
  note r = vol_rep_reads [OF v1(4) e(1)]
  from WriteCluster_rep [OF v1(4) e(1), of "set32 (D entryCl) (off + 28) n"] r(2) e(2) obtain v'
    where v': "WriteCluster entryCl (set32 (D entryCl) (off + 28) n) v1 = (v', True)" "same_layout v1 v'"
      "vol_rep v' F ((D(l := ?b))(entryCl := set32 (D entryCl) (off + 28) n))" by auto
  have "append_clusters 0 (drop (unat len) data) l n v1 = Some (v1, Some n)" by (subst append_clusters.simps) simp
  then have "append_file entryCl off (hd (xs @ [l])) fileSize data len v = Some (v', sint len)"
    using last_cluster_chain [OF assms(1,2)] v1(1) r(1) v'(1) e(2) by (simp add: append_file_def)
  with v' v1(2) same_layout_trans [OF v1(3) v'(2)] e(2) show ?thesis
    by (intro exI [of _ v'] exI [of _ "(D(l := ?b))(entryCl := set32 (D entryCl) (off + 28) n)"] exI [of _ n]) simp
qed

text \<open>What a read of the file delivers once its last cluster holds the new bytes at the offset \<open>k\<close>.\<close>

lemma append_read:
  assumes "vol_rep v F D'" "chain F (is_cluster v) (xs @ [l])" "\<forall>x \<in> set xs. D' x = D x" "\<forall>x \<in> set (xs @ [l]). length (D x) = 512 * spc v"
    "512 * spc v * length xs < fs" "fs \<le> 512 * spc v * Suc (length xs)" "m \<le> length data" "0 < m"
    "fs mod (512 * spc v) + m \<le> 512 * spc v" "unat n = fs + m" "fs + m < 2 ^ 31" "n \<le> maxLen"
    "D' l = take (fs mod (512 * spc v)) (D l) @ take m data @ drop (fs mod (512 * spc v) + m) (D l)"
  shows "read_entry (hd (xs @ [l])) n maxLen v =
    (if fs mod (512 * spc v) \<noteq> 0 then Some (take fs (concat (map D (xs @ [l]))) @ take m data, int (fs + m))
     else Some (concat (map D xs) @ take m data @ drop m (D l), int fs))"
proof -
  let ?B = "512 * spc v"
  obtain c cs where cs: "xs @ [l] = c # cs" by (cases "xs @ [l]") auto
  have len: "length (c # cs) = Suc (length xs)" using arg_cong [OF cs, of length] by simp
  have B: "?B < 2 ^ 31" using unsigned_less [of "sectorsPerCluster (bpb v)", where ?'a = nat] by (simp add: spc_def)
  have nB: "unat n + ?B < 2 ^ 32" using B assms(10,11) by simp
  have mx: "map D' xs = map D xs" using assms(3) by (simp add: map_eq_conv)
  have lx: "length (concat (map D xs)) = ?B * length xs" using assms(4) by (induction xs) (auto simp: algebra_simps)
  have md: "concat (map D' (c # cs)) = concat (map D xs) @ D' l" unfolding cs [symmetric] by (simp only: map_append mx) simp
  show ?thesis
  proof (cases "fs mod ?B = 0")
    case True
    have dv: "fs = ?B * Suc (length xs)"
    proof -
      obtain q where q: "fs = ?B * q" using True by (auto simp: mod_eq_0_iff_dvd)
      then have "length xs < q" "q \<le> Suc (length xs)" using assms(5,6) by (simp_all add: nat_mult_less_cancel1 del: mult_Suc_right)
      then have "q = Suc (length xs)" by simp
      then show ?thesis using q by simp
    qed
    have "unat (0 :: u32) + ?B * length (c # cs) \<le> unat n" using dv assms(10) unfolding len by simp
    from read_chain_short [OF assms(1) assms(2) [unfolded cs] nB this, of "[]"] obtain b
      where b: "unat b = fs" "read_chain c n 0 [] v = Some (concat (map D' (c # cs)), b)" using dv unfolding len by auto
    have "sint b = int fs" using b(1) assms(11) by (subst sint_small) simp_all
    then show ?thesis using True b assms(12,13) unfolding cs md by (simp add: read_entry_def min_absorb1)
  next
    case False
    have lt: "fs < ?B * Suc (length xs)" using assms(6) False by (cases "fs = ?B * Suc (length xs)") auto
    define k where "k = fs mod ?B"
    have k: "fs = ?B * length xs + k"
    proof -
      have "fs div ?B = length xs" using assms(5) lt by (intro div_nat_eqI) (simp_all add: algebra_simps)
      then show ?thesis using mult_div_mod_eq [of ?B fs] by (simp add: k_def)
    qed
    have "unat n - unat (0 :: u32) \<le> ?B * length (c # cs)" using k assms(9,10) unfolding len by (simp add: k_def)
    from read_chain_rep [OF assms(1) assms(2) [unfolded cs] _ nB this, of "[]"]
    have r: "read_chain c n 0 [] v = Some (take (fs + m) (concat (map D xs) @ D' l), n)" unfolding md using assms(10) by simp
    have kl: "k \<le> length (D l)" using assms(4,9) by (simp add: k_def)
    have dl: "D' l = take k (D l) @ take m data @ drop (k + m) (D l)" using assms(13) by (simp only: k_def)
    have "take (fs + m) (concat (map D xs) @ D' l) = take fs (concat (map D (xs @ [l]))) @ take m data"
      using kl assms(7) unfolding dl k by (simp add: lx min_absorb2)
    moreover have "sint n = int (fs + m)" using assms(10,11) by (subst sint_small) simp_all
    ultimately show ?thesis using False r assms(12) unfolding cs by (simp add: read_entry_def min_absorb1)
  qed
qed

text \<open>
  C26. Appending to a file of the root directory, with room in its last cluster: \<^const>\<open>WriteFile\<close> reports all
  bytes written, the directory entry records the larger size, and no other cluster and no table entry changes. If
  the old size is not a multiple of the cluster size, a read delivers the old bytes followed by the new ones. If it
  is a multiple, the code takes the full last cluster for an empty one: the new bytes replace its first bytes,
  and a read delivers only as many bytes as before.
\<close>

theorem WriteFile_append:
  assumes "vol_rep v F D" and "mountedFlag v" and "name83 b e"
    and "FindShortEntryWithOffset (rootCluster (bpb v)) (short_packed b e) v = Some (Some (entryCl, off, hd (xs @ [l]), fileSize, attr))"
    and "attr AND 0x20 \<noteq> 0" and "chain F (is_cluster v) (xs @ [l])" and "is_cluster v entryCl" and "entryCl \<notin> set (xs @ [l])"
    and "512 * spc v * length xs < unat fileSize" and "unat fileSize \<le> 512 * spc v * Suc (length xs)"
    and "0 < unat len" and "unat len \<le> length data" and "unat fileSize + unat len < 2 ^ 31"
    and "unat fileSize mod (512 * spc v) + unat len \<le> 512 * spc v"
  shows "\<exists>v' D' n. WriteFile (Some (0x2F # short_text b e)) (Some data) len v = Some (v', int (unat len)) \<and> vol_rep v' F D' \<and>
    unat n = unat fileSize + unat len \<and> D' entryCl = set32 (D entryCl) (off + 28) n \<and>
    (\<forall>x. x \<noteq> l \<and> x \<noteq> entryCl \<longrightarrow> D' x = D x) \<and>
    (\<forall>maxLen. n \<le> maxLen \<longrightarrow> read_entry (hd (xs @ [l])) n maxLen v' =
      (if unat fileSize mod (512 * spc v) \<noteq> 0
       then Some (take (unat fileSize) (concat (map D (xs @ [l]))) @ take (unat len) data, int (unat fileSize + unat len))
       else Some (concat (map D xs) @ take (unat len) data @ drop (unat len) (D l), int (unat fileSize))))"
proof -
  have fs: "0 < unat fileSize" and fl: "unat fileSize + unat len < 2 ^ 32" using assms(9,13) by simp_all
  from append_file_rep [OF assms(1,6,7,8) fs assms(11,12,14) fl, of off] obtain v' D' n
    where a: "append_file entryCl off (hd (xs @ [l])) fileSize data len v = Some (v', sint len)" "same_layout v v'" "vol_rep v' F D'"
      "unat n = unat fileSize + unat len" "D' entryCl = set32 (D entryCl) (off + 28) n"
      "D' l = take (unat fileSize mod (512 * spc v)) (D l) @ take (unat len) data @ drop (unat fileSize mod (512 * spc v) + unat len) (D l)"
      "\<forall>x. x \<noteq> l \<and> x \<noteq> entryCl \<longrightarrow> D' x = D x" by blast
  note s = split_comp_name [OF assms(3)] and ly = same_layout_simps [OF a(2)] is_cluster_layout_fun [OF a(2)]
  have "find_parent (short_text b e) (rootCluster (bpb v)) v = Some (Some (rootCluster (bpb v), map upper8 (short_text b e)))"
    using s by (subst find_parent.simps) (simp add: isLast_def)
  moreover have "sint len = int (unat len)" using assms(13) by (subst sint_small) simp_all
  moreover have "len \<noteq> 0" using assms(11) by auto
  ultimately have w: "WriteFile (Some (0x2F # short_text b e)) (Some data) len v = Some (v', int (unat len))"
    using assms(2,4,5) a(1) s(2) by (simp add: WriteFile_def PackShortName11_name83 [OF assms(3)])
  have "distinct (xs @ [l])" by (rule chain_distinct [OF assms(6)]) (rule is_cluster_range(2) [OF vol_rep_ok [OF assms(1)]])
  then have x: "\<forall>x \<in> set xs. D' x = D x" using a(7) assms(8) by auto
  have y: "\<forall>x \<in> set (xs @ [l]). length (D x) = 512 * spc v" using chain_ok [OF assms(6)] vol_rep_reads(2) [OF assms(1)] by blast
  have "read_entry (hd (xs @ [l])) n maxLen v' =
      (if unat fileSize mod (512 * spc v) \<noteq> 0
       then Some (take (unat fileSize) (concat (map D (xs @ [l]))) @ take (unat len) data, int (unat fileSize + unat len))
       else Some (concat (map D xs) @ take (unat len) data @ drop (unat len) (D l), int (unat fileSize)))" if "n \<le> maxLen" for maxLen
    using append_read [of v' F D' xs l D "unat fileSize" "unat len" data n maxLen]
      a(3,4,6) assms(6,9-14) x y that unfolding ly by blast
  with w a(3,4,5,7) show ?thesis by blast
qed

text \<open>A volume whose root directory holds the file \<open>A.T\<close> of one full cluster.\<close>

definition full_disk :: disk where
  "full_disk lba =
     (if lba = 1 then Some (set32 (set32 (replicate 512 0) 8 0x0FFFFFF8) 12 0x0FFFFFF8)
      else if lba = 2 then Some ([0x41] @ replicate 7 0x20 @ [0x54, 0x20, 0x20, 0x20] @ replicate 14 0 @ [3, 0, 0, 2, 0, 0] @ replicate 480 0)
      else if lba < 128 then Some (replicate 512 0) else None)"

definition full_volume :: FAT32 where
  "full_volume = demo_volume\<lparr>dev := full_disk\<rparr>"

lemma full_volume_ok:
  "vol_ok full_volume" "nclusters full_volume = 128" "spc full_volume = 1"
proof -
  show n: "nclusters full_volume = 128" "spc full_volume = 1" by (simp_all add: nclusters_def spc_def demo_volume_def full_volume_def)
  have e: "data_end full_volume = 128" by (simp add: data_end_def n) (simp add: demo_volume_def full_volume_def)
  have "\<exists>s. full_disk lba = Some s \<and> length s = 512" if "unat lba < 128" for lba
    using that by (auto simp: full_disk_def word_less_nat_alt)
  then show "vol_ok full_volume" by (simp add: vol_ok_def e n) (simp add: demo_volume_def full_volume_def)
qed

lemma full_volume_fat: "NextCluster 2 full_volume = 0x0FFFFFF8" "NextCluster 3 full_volume = 0x0FFFFFF8"
proof -
  have s: "full_disk 1 = Some (set32 (set32 (replicate 512 0) 8 0x0FFFFFF8) 12 0x0FFFFFF8)" by (simp add: full_disk_def)
  show "NextCluster 2 full_volume = 0x0FFFFFF8" "NextCluster 3 full_volume = 0x0FFFFFF8"
    by (simp_all add: NextCluster_def fatSector_def entOffset_def demo_volume_def full_volume_def s sec32_set32_other)
qed

theorem WriteFile_append_witness:
  "\<exists>v'. WriteFile (Some [0x2F, 0x61, 0x2E, 0x74]) (Some [1, 2, 3]) 3 full_volume = Some (v', 3) \<and>
     read_entry 3 515 1000 v' = Some ([1, 2, 3] @ replicate 509 0, 512)"
proof -
  let ?v = full_volume and ?F = "\<lambda>c. NextCluster c full_volume"
  have r: "vol_rep ?v ?F (clus ?v)" by (simp add: vol_rep_def full_volume_ok)
  have ch: "chain ?F (is_cluster ?v) [2]" "chain ?F (is_cluster ?v) ([] @ [3])" "is_cluster ?v 2"
    by (simp_all add: is_cluster_def full_volume_ok full_volume_fat)
  have nm: "name83 [0x61] [0x74]" by (simp add: name83_def allowed83_def upper8_def word_le_nat_alt)
  have c: "clus ?v 2 = [0x41] @ replicate 7 0x20 @ [0x54, 0x20, 0x20, 0x20] @ replicate 14 0 @ [3, 0, 0, 2, 0, 0] @ replicate 480 0"
    "clus ?v 3 = replicate 512 0"
    by (simp_all add: clus_def full_volume_ok contents_def cluster_at_def sector_def)
      (simp_all add: demo_volume_def full_volume_def full_disk_def word_less_nat_alt)
  have root: "rootCluster (bpb ?v) = 2" and m: "mountedFlag ?v" by (simp_all add: demo_volume_def full_volume_def)
  have two: "replicate 2 (0x20 :: u8) = [0x20, 0x20]" by (simp add: numeral_2_eq_2)
  have f: "FindShortEntryWithOffset (rootCluster (bpb ?v)) (short_packed [0x61] [0x74]) ?v = Some (Some (2, 0, hd ([] @ [3]), 512, 0x20))"
    using scan_chain_rep [OF r ch(1)] root
    by (simp add: FindShortEntryWithOffset_def c entry_offsets_eq full_volume_ok upt_conv_Cons short_packed_def upper8_def
        entry_start_def sec16_def sec32_def word_le_nat_alt nth_append word16_def two)
  from WriteFile_append [OF r m nm f _ ch(2,3), of 3 "[1, 2, 3]"] obtain v' n
    where "WriteFile (Some (0x2F # short_text [0x61] [0x74])) (Some [1, 2, 3]) 3 ?v = Some (v', 3)" "unat n = 515"
      "\<forall>maxLen. n \<le> maxLen \<longrightarrow> read_entry 3 n maxLen v' = Some ([1, 2, 3] @ drop 3 (clus ?v 3), 512)"
    by (auto simp: full_volume_ok)
  moreover from this have "n = 515" by (simp add: word_unat_eq_iff)
  ultimately show ?thesis by (auto simp: short_text_def c word_le_nat_alt)
qed

end
