(* ===== verification/Spec2Isabelle.thy ===== *)
theory Spec2Isabelle
  imports KOS_Tokenize KOS_CompilerRT KOS_Input KOS_WindowRegistry KOS_Dns KOS_MsgQueue KOS_FatFiles
begin

text \<open>
  \<^bold>\<open>The program.\<close> KOS is a 32-bit x86 kernel in C++ (\<^verbatim>\<open>src/kernel\<close>). Its memory management hands out page
  frames, maps them into the address space and carves a heap from them. Threads get their stacks from the heap and
  are run by a priority scheduler that the timer interrupt drives. Mutexes, semaphores and condition
  variables block and wake threads through the scheduler; pipes and message queues are built on them and
  keep their messages in the heap; the thread manager starts threads and processes. Beside this
  core stand the string library and the tokenizers that the shell uses, the division routines the compiler calls, the
  input event queue and window registry of the user interface, the network stack with its DNS client, and the FAT32
  file system over a block device.

  \<^bold>\<open>Conventions.\<close> Integers keep their width (\<open>u8\<close>, \<open>u16\<close>, \<open>u32\<close>, \<open>u64\<close> are words, so that
  additions wrap as in the code). A pointer is a \<open>u32\<close> with null 0, or an option where only the test for null
  matters. A class is a record of its fields, and an operation is a function from state to state and result. An
  operation that may not return, panics or reads outside memory it owns is a function to an option, and \<open>None\<close>
  is that outcome; theorems state where the result is \<open>Some\<close>. Loops are structural recursion, \<open>function\<close> with a
  termination proof, or \<open>partial_function\<close> where the code may loop forever; nothing is cut off by fuel. Log and
  console output is not part of the state.

  \<^bold>\<open>Theories and sources\<close> (paths below \<^verbatim>\<open>src/kernel\<close>).

  \<^item> \<open>KOS_Prelude\<close>: word arithmetic, counting loops, searches and list lemmas; the collections the other theories use.
  \<^item> \<open>KOS_PMM\<close>: \<^verbatim>\<open>src/memory/pmm.cpp\<close>. The frame bitmap is a set of free frames; initialisation, allocation, release and
    the marking of ranges change exactly the frames they should, and the counter is exact. The locale
    \<open>frame_allocator\<close> is what paging and the heap rely on.
  \<^item> \<open>KOS_Paging\<close>: \<^verbatim>\<open>src/memory/paging.cpp\<close>. Page tables in physical memory against the walk of the
    processor: mapping and unmapping change the walk at exactly the pages named.
  \<^item> \<open>KOS_Bytes\<close>, \<open>KOS_Heap\<close>, \<open>KOS_Pool\<close>: \<^verbatim>\<open>src/memory/heap.cpp\<close> and the operators new and delete. The heap is a list of blocks
    laid out in memory; allocations are aligned, disjoint and keep all live contents, release merges neighbours. The
    locales \<open>memory_allocator\<close> and \<open>memory_pool\<close> are the contracts of its clients.
  \<^item> \<open>KOS_String\<close>, \<open>KOS_Tokenize\<close>: \<^verbatim>\<open>src/lib/string.cpp\<close>, the C string functions, and the splitters of command lines,
    over byte memory with overlapping regions.
  \<^item> \<open>KOS_CompilerRT\<close>: \<^verbatim>\<open>src/lib/compiler_rt.cpp\<close>. Shift and subtract division equals division of the numbers.
  \<^item> \<open>KOS_Thread\<close>, \<open>KOS_Scheduler\<close>: \<^verbatim>\<open>src/process/thread.cpp\<close>, \<^verbatim>\<open>src/process/scheduler.cpp\<close>. Ready queues are linked
    lists of tasks; every operation refines an abstract scheduler of queues of task addresses. Scheduling chooses the
    first task of the best priority, is fair within a priority, and the tick wakes sleepers that are due.
  \<^item> \<open>KOS_Sync\<close>, \<open>KOS_Monitor\<close>: \<^verbatim>\<open>src/process/sync.cpp\<close>. Each object sequentially, and the mutex also as a step
    relation of interleaved threads: mutual exclusion where the test and the store are one step, and
    the runs that break it where they are not. The locale \<open>monitor\<close> captures guarded operations.
  \<^item> \<open>KOS_Pipe\<close>, \<open>KOS_MsgQueue\<close>, \<open>KOS_ThreadManager\<close>: \<^verbatim>\<open>src/process/pipe.cpp\<close>, \<^verbatim>\<open>message_queue.cpp\<close>,
    \<^verbatim>\<open>thread_manager.cpp\<close>. Queues of heap objects refine lists of messages; calls return, block or are refused exactly
    as stated; tables of pipes, queues and threads stay consistent.
  \<^item> \<open>KOS_Input\<close>: \<^verbatim>\<open>src/input/event_queue.cpp\<close>. The ring is a first-in first-out queue (locale \<open>bounded_queue\<close>); the
    interleaving of Dequeue with interrupt handlers is explicit.
  \<^item> \<open>KOS_WindowRegistry\<close>: \<^verbatim>\<open>src/ui/window_registry.cpp\<close>. An ordered finite map.
  \<^item> \<open>KOS_Packet\<close>, \<open>KOS_Net\<close>, \<open>KOS_Dns\<close>: \<^verbatim>\<open>src/net\<close>, \<^verbatim>\<open>src/lib/syscalls.cpp\<close> and \<^verbatim>\<open>kernel_dns_resolve\<close>. Packets are byte lists;
    handling any received frame stays inside its buffers and keeps the invariant of the static variables; a
    datagram sent by one machine is delivered by another; a name is resolved from end to end.
  \<^item> \<open>KOS_Fat32\<close>, \<open>KOS_FatVolume\<close>, \<open>KOS_FatFiles\<close>: \<^verbatim>\<open>src/fs/fat32.cpp\<close>. The device maps sector numbers to sectors. The
    second theory shows that a well-formed volume is a table of successors and an array of clusters, which the sector
    accesses refine; the third takes this as the locale \<open>cluster_store\<close>, follows chains of clusters, and shows that a
    file that is written is read back, and what an append does.

  \<^bold>\<open>Bounds.\<close> There is no fuel. Hypotheses of the form \<open>x < 2 ^ 32\<close> exclude a wrap that the code does not test
  for. The frames that arrive while the DNS client waits are a function from the round of its loop to a list, so every
  schedule of arrivals is covered.

  \<^bold>\<open>Not modelled.\<close> Device drivers, port and processor instructions and the assembler of the context switch act on
  hardware state. The ELF loader copies through the page tables that are active at that moment, and
  would need one memory for the heap bytes and the page tables. Graphics, terminal, shells, services and user programs
  draw on devices and call the parts above. Of the file systems, FAT16 and the methods of FAT32 that only print
  (\<^verbatim>\<open>ListRoot\<close>, \<^verbatim>\<open>ListDir\<close>, \<^verbatim>\<open>DebugInfo\<close>) are left out. Start-up code only calls the parts in order.
\<close>

end
